(* ===== verification/Go_Base.thy ===== *)
theory Go_Base
  imports Main "HOL-Library.Word"
begin

text \<open>
  Prelude of the development: the machine types of the Go sources and the generic facts that the
  component theories share.

  \<^item> \<open>uint8\<close>, \<open>uint32\<close> and \<open>uint64\<close> are words, so their arithmetic wraps. \<open>int\<close> and \<open>int64\<close> (both
    64 bit on the supported platforms) are mathematical integers, and every place where the Go
    expression can overflow applies \<open>i64\<close>, the two's complement wrap-around.
  \<^item> Go's integer division truncates towards zero (\<open>tdiv\<close>).
  \<^item> Byte slices and files are lists of bytes. \<open>seg\<close>, \<open>write_at\<close> and \<open>truncate_to\<close> are the
    reads, positional writes and \<open>Truncate\<close> of \<open>os.File\<close>.
  \<^item> Fallible functions return a sum, \<open>Inl\<close> carrying the error.
\<close>

unbundle bit_operations_syntax

named_theorems go_simps "conversions between Go's integer types"
named_theorems seg_simps "reads and writes of byte slices"

type_synonym byte = "8 word"
type_synonym u32 = "32 word"
type_synonym u64 = "64 word"

section \<open>Signed 64-bit integers\<close>

definition i64 :: "int \<Rightarrow> int" where
  "i64 x = (x + 2 ^ 63) mod 2 ^ 64 - 2 ^ 63"

definition tdiv :: "int \<Rightarrow> int \<Rightarrow> int" where
  "tdiv a b = sgn a * sgn b * (\<bar>a\<bar> div \<bar>b\<bar>)"

lemma i64_id [go_simps]: "- (2 ^ 63) \<le> x \<Longrightarrow> x < 2 ^ 63 \<Longrightarrow> i64 x = x"
  by (simp add: i64_def)

lemma i64_range: "- (2 ^ 63) \<le> i64 x \<and> i64 x < 2 ^ 63"
  using pos_mod_bound [of "2 ^ 64" "x + 2 ^ 63"] pos_mod_sign [of "2 ^ 64" "x + 2 ^ 63"]
  by (simp add: i64_def)

lemma tdiv_nonneg [go_simps]: "0 \<le> a \<Longrightarrow> 0 < b \<Longrightarrow> tdiv a b = a div b"
  by (cases "a = 0") (simp_all add: tdiv_def)

lemma int_le_div_iff:
  assumes "0 < (b :: int)"
  shows "x \<le> a div b \<longleftrightarrow> x * b \<le> a"
proof
  assume "x \<le> a div b"
  then have "x * b \<le> (a div b) * b" using assms by simp
  also have "\<dots> \<le> a" using assms pos_mod_sign [of b a] div_mult_mod_eq [of a b] by linarith
  finally show "x * b \<le> a" .
next
  assume "x * b \<le> a"
  then have "(x * b) div b \<le> a div b" using assms by (rule zdiv_mono1)
  then show "x \<le> a div b" using assms by simp
qed

lemma int_div_le_self: "0 \<le> (a :: int) \<Longrightarrow> 0 < b \<Longrightarrow> a div b \<le> a"
  using zdiv_mono2 [of a 1 b] by simp

lemma sint_u64 [go_simps]: "uint (w :: u64) < 2 ^ 63 \<Longrightarrow> sint w = uint w"
proof -
  assume "uint w < 2 ^ 63"
  moreover have "0 \<le> uint w" by simp
  ultimately have "signed_take_bit 63 (uint w) = uint w"
    by (intro signed_take_bit_int_eq_self) linarith+
  then show ?thesis by (simp add: sint_uint)
qed

lemma sint_u64_of_int: "0 \<le> x \<Longrightarrow> x < 2 ^ 63 \<Longrightarrow> sint (word_of_int x :: u64) = x"
  by (subst sint_u64) (simp_all add: uint_word_of_int)

lemma uint_u32_lt: "uint (w :: u32) < 2 ^ 32"
  using uint_lt2p [of w] by simp

lemma uint_u64_lt: "uint (w :: u64) < 2 ^ 64"
  using uint_lt2p [of w] by simp

lemma uint_u64_of_u32 [go_simps]: "uint (ucast (w :: u32) :: u64) = uint w"
  using uint_u32_lt [of w] by (simp add: unsigned_ucast_eq take_bit_int_eq_self)

section \<open>Little-endian fields\<close>

text \<open>
  \<open>binary.LittleEndian.AppendUint32\<close>/\<open>AppendUint64\<close> and \<open>Uint32\<close>/\<open>Uint64\<close>. The readers panic in
  Go on a short slice; every caller checks the length of its buffer first, so the value of
  \<open>get32\<close> and \<open>get64\<close> on a short slice is never used.
\<close>

definition le32 :: "u32 \<Rightarrow> byte list" where
  "le32 v = [ucast v, ucast (drop_bit 8 v), ucast (drop_bit 16 v), ucast (drop_bit 24 v)]"

definition le64 :: "u64 \<Rightarrow> byte list" where
  "le64 v = le32 (ucast v) @ le32 (ucast (drop_bit 32 v))"

fun get32 :: "byte list \<Rightarrow> u32" where
  "get32 (a # b # c # d # xs) =
     ucast a OR push_bit 8 (ucast b) OR push_bit 16 (ucast c) OR push_bit 24 (ucast d)"
| "get32 xs = 0"

definition get64 :: "byte list \<Rightarrow> u64" where
  "get64 xs = ucast (get32 xs) OR push_bit 32 (ucast (get32 (drop 4 xs)))"

lemma length_le32 [simp]: "length (le32 v) = 4"
  by (simp add: le32_def)

lemma length_le64 [simp]: "length (le64 v) = 8"
  by (simp add: le64_def)

lemma get32_le32 [simp]: "get32 (le32 v @ xs) = v"
proof (rule bit_word_eqI)
  fix n assume "n < LENGTH(32)"
  then consider "n < 8" | "8 \<le> n" "n < 16" | "16 \<le> n" "n < 24" | "24 \<le> n" "n < 32" by force
  then show "bit (get32 (le32 v @ xs)) n = bit v n"
    by cases (auto simp: le32_def bit_simps)
qed

lemma get64_le64 [simp]: "get64 (le64 v @ xs) = v"
proof -
  have "get64 (le64 v @ xs) = ucast (ucast v :: u32) OR push_bit 32 (ucast (ucast (drop_bit 32 v) :: u32))"
    by (simp add: get64_def le64_def)
  also have "\<dots> = v"
    by (rule bit_word_eqI) (auto simp: bit_simps)
  finally show ?thesis .
qed

section \<open>Slices and files\<close>

definition seg :: "nat \<Rightarrow> nat \<Rightarrow> 'a list \<Rightarrow> 'a list" where
  "seg off len xs = take len (drop off xs)"

definition write_at :: "'a list \<Rightarrow> nat \<Rightarrow> 'a list \<Rightarrow> 'a list" where
  "write_at f off b = take off f @ b @ drop (off + length b) f"

definition truncate_to :: "byte list \<Rightarrow> nat \<Rightarrow> byte list" where
  "truncate_to f n = take n f @ replicate (n - length f) 0"

definition zeros :: "nat \<Rightarrow> byte list" where
  "zeros n = replicate n 0"

lemma zeros_replicate [simp]: "length (zeros n) = n" "i < n \<Longrightarrow> zeros n ! i = 0"
  by (simp_all add: zeros_def)

lemma length_seg [seg_simps, simp]: "length (seg off len xs) = min len (length xs - off)"
  by (simp add: seg_def)

lemma nth_seg [seg_simps]:
  "i < len \<Longrightarrow> off + i < length xs \<Longrightarrow> seg off len xs ! i = xs ! (off + i)"
  by (simp add: seg_def add.commute)

lemma length_write_at [seg_simps]:
  "off + length b \<le> length f \<Longrightarrow> length (write_at f off b) = length f"
  by (simp add: write_at_def)

lemma nth_write_at [seg_simps]:
  assumes "off + length b \<le> length f" and "i < length f"
  shows "write_at f off b ! i =
    (if off \<le> i \<and> i < off + length b then b ! (i - off) else f ! i)"
  using assms by (auto simp: write_at_def nth_append min_def)

lemma seg_write_at_same:
  "off + length b \<le> length f \<Longrightarrow> seg off (length b) (write_at f off b) = b"
  by (simp add: seg_def write_at_def)

lemma seg_write_at_disjoint:
  assumes "off' + length b \<le> length f"
    and "off + len \<le> off' \<or> off' + length b \<le> off"
  shows "seg off len (write_at f off' b) = seg off len f"
proof (rule nth_equalityI)
  show "length (seg off len (write_at f off' b)) = length (seg off len f)"
    using assms(1) by (simp add: length_write_at)
  show "seg off len (write_at f off' b) ! i = seg off len f ! i"
    if "i < length (seg off len (write_at f off' b))" for i
    using that assms by (auto simp: seg_simps)
qed

lemma length_truncate_to [simp]: "length (truncate_to f n) = n"
  by (simp add: truncate_to_def)

lemma truncate_to_same: "truncate_to f (length f) = f"
  by (simp add: truncate_to_def)

lemma truncate_to_Nil: "truncate_to [] n = zeros n"
  by (simp add: truncate_to_def zeros_def)

lemma seg_eq_iff:
  assumes "off + len \<le> length xs" and "off + len \<le> length ys"
  shows "seg off len xs = seg off len ys \<longleftrightarrow> (\<forall>i. off \<le> i \<and> i < off + len \<longrightarrow> xs ! i = ys ! i)"
  (is "?l \<longleftrightarrow> ?r")
proof
  assume ?l
  show ?r
  proof (intro allI impI)
    fix i assume i: "off \<le> i \<and> i < off + len"
    with \<open>?l\<close> have "seg off len xs ! (i - off) = seg off len ys ! (i - off)" by simp
    moreover have "i - off < len" "off + (i - off) = i" using i by auto
    ultimately show "xs ! i = ys ! i" using i assms by (simp add: nth_seg)
  qed
next
  assume ?r
  then show ?l using assms by (intro nth_equalityI) (auto simp: seg_simps)
qed

section \<open>Presence bitmaps, least significant bit first\<close>

text \<open>
  \<open>bitmap[i/8] |= 1 << uint(i%8)\<close> and \<open>bitmap[i/8] & (1 << uint(i%8)) != 0\<close>, the loops shared by
  the header, shared-cache and disk formats.
\<close>

definition bitmap_put :: "byte list \<Rightarrow> nat \<Rightarrow> byte list" where
  "bitmap_put bm i = bm[i div 8 := bm ! (i div 8) OR push_bit (i mod 8) 1]"

definition bitmap_get :: "byte list \<Rightarrow> nat \<Rightarrow> bool" where
  "bitmap_get bm i \<longleftrightarrow> bm ! (i div 8) AND push_bit (i mod 8) 1 \<noteq> 0"

fun bitmap_fill :: "(nat \<Rightarrow> bool) \<Rightarrow> nat list \<Rightarrow> byte list \<Rightarrow> byte list" where
  "bitmap_fill p [] bm = bm"
| "bitmap_fill p (i # is) bm = bitmap_fill p is (if p i then bitmap_put bm i else bm)"

definition bitmap_encode :: "(nat \<Rightarrow> bool) \<Rightarrow> nat \<Rightarrow> byte list" where
  "bitmap_encode p n = bitmap_fill p [0..<n] (replicate ((n + 7) div 8) 0)"

definition bitmap_decode :: "byte list \<Rightarrow> nat \<Rightarrow> bool list" where
  "bitmap_decode bm n = map (bitmap_get bm) [0..<n]"

lemma bitmap_get_bit: "bitmap_get bm i \<longleftrightarrow> bit (bm ! (i div 8)) (i mod 8)"
  by (simp add: bitmap_get_def and_exp_eq_0_iff_not_bit push_bit_of_1)

lemma length_bitmap_put [simp]: "length (bitmap_put bm i) = length bm"
  by (simp add: bitmap_put_def)

lemma bitmap_get_put:
  assumes "i div 8 < length bm"
  shows "bitmap_get (bitmap_put bm i) j \<longleftrightarrow> i = j \<or> bitmap_get bm j"
proof (cases "i div 8 = j div 8")
  case True
  have "i = j \<longleftrightarrow> i mod 8 = j mod 8"
    using True by (metis mult_div_mod_eq)
  with True assms show ?thesis
    by (auto simp: bitmap_get_bit bitmap_put_def bit_simps)
next
  case False
  then have "i \<noteq> j" by auto
  with False show ?thesis
    by (simp add: bitmap_get_bit bitmap_put_def)
qed

lemma bitmap_fill_get:
  assumes "\<forall>i \<in> set is. i div 8 < length bm"
  shows "length (bitmap_fill p is bm) = length bm \<and>
    (bitmap_get (bitmap_fill p is bm) j \<longleftrightarrow> (j \<in> set is \<and> p j) \<or> bitmap_get bm j)"
  using assms
  by (induction "is" arbitrary: bm) (auto simp: bitmap_get_put)

lemma length_bitmap_encode [simp]: "length (bitmap_encode p n) = (n + 7) div 8"
  unfolding bitmap_encode_def by (subst bitmap_fill_get [THEN conjunct1]) auto

lemma bitmap_get_encode: "j < n \<Longrightarrow> bitmap_get (bitmap_encode p n @ xs) j \<longleftrightarrow> p j"
proof -
  assume j: "j < n"
  then have "j div 8 < (n + 7) div 8" by auto
  moreover have "bitmap_get (bitmap_encode p n) j \<longleftrightarrow> p j"
    unfolding bitmap_encode_def using j
    by (subst bitmap_fill_get [THEN conjunct2]) (auto simp: bitmap_get_bit)
  ultimately show ?thesis by (simp add: bitmap_get_bit nth_append)
qed

lemma bitmap_decode_encode:
  "length ps = n \<Longrightarrow> bitmap_decode (bitmap_encode (\<lambda>i. i < length ps \<and> ps ! i) n @ xs) n = ps"
  by (rule nth_equalityI) (simp_all add: bitmap_decode_def bitmap_get_encode)

lemma length_bitmap_decode [simp]: "length (bitmap_decode bm n) = n"
  by (simp add: bitmap_decode_def)

end
