(* ===== verification/Chunk_Geometry.thy ===== *)
theory Chunk_Geometry
  imports Go_Base
begin

text \<open>
  Chunk geometry shared by the memory and the disk streaming formats
  (\<^verbatim>\<open>src/agent/internal/memstream/header.go\<close> and \<^verbatim>\<open>src/agent/internal/diskstream/header.go\<close> carry
  the same five methods). A stream of \<open>ts\<close> bytes is split into chunks of \<open>cs\<close> bytes, the last one
  clamped to the end of the stream. The definitions keep Go's widths: \<open>num_chunks\<close> computes in
  \<open>uint64\<close> and converts to \<open>int\<close>, \<open>chunk_range\<close> in \<open>int64\<close>. The lemmas show that the chunks tile
  the stream whenever \<open>geom_ok\<close> holds, i.e. no conversion or addition overflows.
\<close>

section \<open>Definitions\<close>

definition num_chunks :: "u32 \<Rightarrow> u64 \<Rightarrow> int" where
  "num_chunks cs ts =
     (if cs = 0 then 0 else sint ((ts + ucast cs - 1) div ucast cs))"

definition chunk_range :: "u32 \<Rightarrow> u64 \<Rightarrow> int \<Rightarrow> int \<times> int" where
  "chunk_range cs ts i =
     (let off0 = i64 (i * uint cs);
          end0 = i64 (off0 + uint cs);
          end1 = (if end0 > sint ts then sint ts else end0);
          off1 = (if off0 > sint ts then sint ts else off0)
      in (off1, i64 (end1 - off1)))"

definition chunk_for_offset :: "u32 \<Rightarrow> int \<Rightarrow> int" where
  "chunk_for_offset cs off = (if cs = 0 then 0 else tdiv off (uint cs))"

definition is_present :: "bool list \<Rightarrow> int \<Rightarrow> bool" where
  "is_present ps i = (if i < 0 \<or> i \<ge> int (length ps) then False else ps ! nat i)"

fun present_chunks :: "bool list \<Rightarrow> int" where
  "present_chunks [] = 0"
| "present_chunks (p # ps) = (if p then 1 else 0) + present_chunks ps"

fun anyNonZero :: "byte list \<Rightarrow> bool" where
  "anyNonZero [] = False"
| "anyNonZero (c # b) = (if c \<noteq> 0 then True else anyNonZero b)"

text \<open>No wrap-around: the stream and one more chunk fit a signed 64-bit offset.\<close>

definition geom_ok :: "u32 \<Rightarrow> u64 \<Rightarrow> bool" where
  "geom_ok cs ts \<longleftrightarrow> cs \<noteq> 0 \<and> uint ts + uint cs \<le> 2 ^ 63"

section \<open>The chunks tile the stream\<close>

lemma geom_okD:
  assumes "geom_ok cs ts"
  shows "0 < uint cs" "uint cs < 2 ^ 32" "uint ts + uint cs \<le> 2 ^ 63" "sint ts = uint ts"
    "0 \<le> uint ts"
proof -
  show pos: "0 < uint cs"
    using assms by (simp add: geom_ok_def uint_0_iff le_neq_trans order_less_le)
  show "uint cs < 2 ^ 32" by (rule uint_u32_lt)
  show "uint ts + uint cs \<le> 2 ^ 63" using assms by (simp add: geom_ok_def)
  with pos show "sint ts = uint ts" by (intro sint_u64) linarith
  show "0 \<le> uint ts" by simp
qed

lemma num_chunks_eq:
  assumes "geom_ok cs ts"
  shows "num_chunks cs ts = (uint ts + uint cs - 1) div uint cs"
proof -
  note g = geom_okD [OF assms]
  let ?w = "ts + ucast cs - 1 :: u64"
  have "uint (ts + ucast cs :: u64) = uint ts + uint cs"
    using g by (simp add: uint_word_ariths(1) uint_u64_of_u32)
  then have w: "uint ?w = uint ts + uint cs - 1"
  proof -
    have "0 \<le> uint ts + uint cs - 1" using g by linarith
    moreover have "uint ts + uint cs - 1 < 2 ^ 64" using g by simp
    ultimately have "(uint ts + uint cs - 1) mod 2 ^ 64 = uint ts + uint cs - 1"
      by (rule mod_pos_pos_trivial)
    moreover assume "uint (ts + ucast cs :: u64) = uint ts + uint cs"
    ultimately show ?thesis by (simp add: uint_word_ariths(2))
  qed
  have "uint (?w div ucast cs) = (uint ts + uint cs - 1) div uint cs"
    by (simp add: uint_div w uint_u64_of_u32)
  moreover have "(uint ts + uint cs - 1) div uint cs \<le> uint ts + uint cs - 1"
    using g int_div_le_self [of "uint ts + uint cs - 1" "uint cs"] by linarith
  ultimately show ?thesis
    using g assms by (simp add: num_chunks_def geom_ok_def sint_u64)
qed

lemma num_chunks_nonneg: "geom_ok cs ts \<Longrightarrow> 0 \<le> num_chunks cs ts"
proof -
  assume g: "geom_ok cs ts"
  then have "0 \<le> uint ts + uint cs - 1" using geom_okD(1,5) [OF g] by linarith
  then show ?thesis using g geom_okD(1) [OF g] by (simp add: num_chunks_eq div_int_pos_iff)
qed

lemma chunk_start_lt:
  assumes "geom_ok cs ts" and "i < num_chunks cs ts"
  shows "i * uint cs < uint ts"
proof -
  note g = geom_okD [OF assms(1)]
  have "i + 1 \<le> (uint ts + uint cs - 1) div uint cs"
    using assms num_chunks_eq by simp
  then have "(i + 1) * uint cs \<le> uint ts + uint cs - 1"
    using g(1) by (simp add: int_le_div_iff)
  then show ?thesis by (simp add: algebra_simps)
qed

lemma chunk_range_eq:
  assumes "geom_ok cs ts" and "0 \<le> i" and "i < num_chunks cs ts"
  shows "chunk_range cs ts i = (i * uint cs, min (uint cs) (uint ts - i * uint cs))"
proof -
  note g = geom_okD [OF assms(1)] chunk_start_lt [OF assms(1,3)]
  have "0 \<le> i * uint cs" using assms(2) g(1) by simp
  then have "i64 (i * uint cs) = i * uint cs" "i64 (i * uint cs + uint cs) = i * uint cs + uint cs"
    using g by (auto intro!: i64_id)
  moreover have "i64 (min (uint cs) (uint ts - i * uint cs)) = min (uint cs) (uint ts - i * uint cs)"
    using g by (intro i64_id) auto
  ultimately show ?thesis
    using g by (auto simp: chunk_range_def Let_def min_def)
qed

lemma chunk_for_offset_eq:
  "geom_ok cs ts \<Longrightarrow> 0 \<le> off \<Longrightarrow> chunk_for_offset cs off = off div uint cs"
  by (simp add: chunk_for_offset_def geom_ok_def tdiv_nonneg geom_okD(1) [of cs ts])

lemma chunk_for_offset_bounds:
  assumes "geom_ok cs ts" and "0 \<le> off" and "off < uint ts"
  shows "0 \<le> chunk_for_offset cs off" "chunk_for_offset cs off < num_chunks cs ts"
proof -
  note g = geom_okD [OF assms(1)]
  show "0 \<le> chunk_for_offset cs off"
    using assms g by (simp add: chunk_for_offset_eq pos_imp_zdiv_nonneg_iff)
  have "off div uint cs * uint cs \<le> off"
    using g(1) by (simp flip: int_le_div_iff)
  then have "(off div uint cs + 1) * uint cs \<le> uint ts + uint cs - 1"
    using assms(3) by (simp add: algebra_simps)
  then have "off div uint cs + 1 \<le> (uint ts + uint cs - 1) div uint cs"
    using g(1) by (simp add: int_le_div_iff)
  then show "chunk_for_offset cs off < num_chunks cs ts"
    using assms by (simp add: chunk_for_offset_eq num_chunks_eq)
qed

text \<open>
  Natural-number view of a chunk, used to index byte lists: \<open>chunk_off\<close> and \<open>chunk_len\<close> are the two
  results of \<open>ChunkRange\<close>.
\<close>

definition chunk_off :: "u32 \<Rightarrow> u64 \<Rightarrow> int \<Rightarrow> nat" where
  "chunk_off cs ts i = nat (fst (chunk_range cs ts i))"

definition chunk_len :: "u32 \<Rightarrow> u64 \<Rightarrow> int \<Rightarrow> nat" where
  "chunk_len cs ts i = nat (snd (chunk_range cs ts i))"

definition valid_chunk :: "u32 \<Rightarrow> u64 \<Rightarrow> int \<Rightarrow> bool" where
  "valid_chunk cs ts i \<longleftrightarrow> 0 \<le> i \<and> i < num_chunks cs ts"

lemma chunk_span:
  assumes "geom_ok cs ts" and "valid_chunk cs ts i"
  shows "int (chunk_off cs ts i) = i * uint cs"
    and "int (chunk_len cs ts i) = min (uint cs) (uint ts - i * uint cs)"
    and "0 < chunk_len cs ts i"
    and "chunk_off cs ts i + chunk_len cs ts i \<le> unat ts"
proof -
  note g = geom_okD [OF assms(1)]
  have i: "0 \<le> i" "i < num_chunks cs ts" using assms(2) by (simp_all add: valid_chunk_def)
  note lt = chunk_start_lt [OF assms(1) i(2)]
  have eq: "chunk_range cs ts i = (i * uint cs, min (uint cs) (uint ts - i * uint cs))"
    using assms(1) i by (rule chunk_range_eq)
  show off: "int (chunk_off cs ts i) = i * uint cs"
    using i g by (simp add: chunk_off_def eq)
  show len: "int (chunk_len cs ts i) = min (uint cs) (uint ts - i * uint cs)"
    using lt g by (simp add: chunk_len_def eq)
  show "0 < chunk_len cs ts i" using lt g len by linarith
  show "chunk_off cs ts i + chunk_len cs ts i \<le> unat ts"
    using off len uint_nat [of ts] by linarith
qed

lemma chunk_span_member:
  assumes "geom_ok cs ts" and "valid_chunk cs ts i" and "k < unat ts"
  shows "chunk_off cs ts i \<le> k \<and> k < chunk_off cs ts i + chunk_len cs ts i
    \<longleftrightarrow> chunk_for_offset cs (int k) = i"
proof -
  note g = geom_okD [OF assms(1)] and sp = chunk_span [OF assms(1,2)]
  have "chunk_for_offset cs (int k) = i \<longleftrightarrow> int k div uint cs = i"
    using assms(1) by (simp add: chunk_for_offset_eq)
  also have "\<dots> \<longleftrightarrow> i * uint cs \<le> int k \<and> int k < (i + 1) * uint cs"
    using int_le_div_iff [OF g(1), of i "int k"] int_le_div_iff [OF g(1), of "i + 1" "int k"] by auto
  also have "\<dots> \<longleftrightarrow> i * uint cs \<le> int k \<and> int k < i * uint cs + min (uint cs) (uint ts - i * uint cs)"
  proof -
    have "int k < uint ts" using assms(3) uint_nat [of ts] by linarith
    then show ?thesis by (auto simp: algebra_simps min_def)
  qed
  finally show ?thesis using sp(1,2) by linarith
qed

lemma chunk_spans_disjoint:
  assumes "geom_ok cs ts" and "valid_chunk cs ts i" and "valid_chunk cs ts j" and "i \<noteq> j"
  shows "chunk_off cs ts i + chunk_len cs ts i \<le> chunk_off cs ts j
    \<or> chunk_off cs ts j + chunk_len cs ts j \<le> chunk_off cs ts i"
proof (rule ccontr)
  let ?k = "max (chunk_off cs ts i) (chunk_off cs ts j)"
  assume "\<not> ?thesis"
  moreover note si = chunk_span(3,4) [OF assms(1,2)] and sj = chunk_span(3,4) [OF assms(1,3)]
  ultimately have "chunk_off cs ts i \<le> ?k \<and> ?k < chunk_off cs ts i + chunk_len cs ts i"
    "chunk_off cs ts j \<le> ?k \<and> ?k < chunk_off cs ts j + chunk_len cs ts j" by auto
  moreover have "?k < unat ts" using calculation si by linarith
  ultimately show False
    using chunk_span_member assms by metis
qed

lemma valid_chunk_for_offset:
  "geom_ok cs ts \<Longrightarrow> k < unat ts \<Longrightarrow> valid_chunk cs ts (chunk_for_offset cs (int k))"
proof -
  assume "geom_ok cs ts" and "k < unat ts"
  moreover from this(2) have "int k < uint ts" using uint_nat [of ts] by linarith
  ultimately show ?thesis by (simp add: valid_chunk_def chunk_for_offset_bounds)
qed

lemma chunk_for_offset_mono:
  assumes "geom_ok cs ts" and "0 \<le> a" and "a \<le> b"
  shows "chunk_for_offset cs a \<le> chunk_for_offset cs b"
  using assms geom_okD(1) [OF assms(1)] by (simp add: chunk_for_offset_eq zdiv_mono1)

lemma is_present_valid: "is_present ps i \<Longrightarrow> 0 \<le> i \<and> i < int (length ps) \<and> ps ! nat i"
  by (auto simp: is_present_def split: if_splits)

lemma present_chunks_count: "present_chunks ps = int (count_list ps True)"
  by (induction ps) auto

lemma anyNonZero_iff: "anyNonZero b \<longleftrightarrow> (\<exists>c \<in> set b. c \<noteq> 0)"
  by (induction b) auto

lemma not_anyNonZero_zeros: "\<not> anyNonZero b \<longleftrightarrow> b = zeros (length b)"
  by (induction b) (auto simp: zeros_def)

section \<open>What a header says of an image\<close>

text \<open>
  \<open>describes cs ts ps img\<close>: the presence bits \<open>ps\<close> fit the geometry, and every chunk they leave out
  is all zeros in \<open>img\<close>. It is what \<open>BuildHeader\<close> establishes and what the caches rely on.
\<close>

definition describes :: "u32 \<Rightarrow> u64 \<Rightarrow> bool list \<Rightarrow> byte list \<Rightarrow> bool" where
  "describes cs ts ps img \<longleftrightarrow>
     geom_ok cs ts \<and> unat ts = length img \<and> int (length ps) = num_chunks cs ts
     \<and> (\<forall>i. valid_chunk cs ts i \<and> \<not> is_present ps i \<longrightarrow>
           seg (chunk_off cs ts i) (chunk_len cs ts i) img = zeros (chunk_len cs ts i))"

lemma seg_chunk:
  assumes "geom_ok cs ts" and "unat ts = length img" and "valid_chunk cs ts (int k)"
  shows "take (unat cs) (drop (k * unat cs) img)
    = seg (chunk_off cs ts (int k)) (chunk_len cs ts (int k)) img"
proof -
  note sp = chunk_span [OF assms(1,3)]
  have cs: "uint cs = int (unat cs)" and ts: "uint ts = int (length img)"
    using assms(2) uint_nat by metis+
  have off: "chunk_off cs ts (int k) = k * unat cs"
    using sp(1) unfolding cs by (metis of_nat_eq_iff of_nat_mult)
  have "int (chunk_len cs ts (int k)) = min (int (unat cs)) (int (length img) - int (k * unat cs))"
    using sp(2) unfolding cs ts of_nat_mult .
  then have "chunk_len cs ts (int k) = min (unat cs) (length img - k * unat cs)" by linarith
  then show ?thesis by (simp add: seg_def off min_def)
qed

lemma scanned_describes:
  assumes g: "geom_ok cs ts" and len: "unat ts = length img"
    and ps: "ps = map (\<lambda>k. anyNonZero (take (unat cs) (drop (k * unat cs) img)))
                    [0..<nat (num_chunks cs ts)]"
  shows "describes cs ts ps img"
    and "valid_chunk cs ts i \<Longrightarrow> is_present ps i \<longleftrightarrow>
      anyNonZero (seg (chunk_off cs ts i) (chunk_len cs ts i) img)"
proof -
  show pres: "is_present ps i \<longleftrightarrow> anyNonZero (seg (chunk_off cs ts i) (chunk_len cs ts i) img)"
    if v: "valid_chunk cs ts i" for i
  proof -
    have i: "0 \<le> i" "i < num_chunks cs ts" "int (nat i) = i" using v by (auto simp: valid_chunk_def)
    then have "is_present ps i \<longleftrightarrow> anyNonZero (take (unat cs) (drop (nat i * unat cs) img))"
      by (auto simp: is_present_def ps)
    then show ?thesis using seg_chunk [OF g len, of "nat i"] v i by simp
  qed
  have "seg (chunk_off cs ts i) (chunk_len cs ts i) img = zeros (chunk_len cs ts i)"
    if v: "valid_chunk cs ts i" and np: "\<not> is_present ps i" for i
  proof -
    have "length (seg (chunk_off cs ts i) (chunk_len cs ts i) img) = chunk_len cs ts i"
      using chunk_span(4) [OF g v] len by simp
    then show ?thesis using np pres [OF v] not_anyNonZero_zeros by metis
  qed
  then show "describes cs ts ps img"
    using g len num_chunks_nonneg [OF g] by (simp add: describes_def ps)
qed

end
