(* ===== verification/Mem_Codec.thy ===== *)
theory Mem_Codec
  imports Chunk_Geometry
begin

text \<open>
  The on-disk formats of the memory-streaming package: the chunk header \<^verbatim>\<open>vm.mem.header\<close>
  (\<^verbatim>\<open>src/agent/internal/memstream/header.go\<close>) and the prefetch list \<^verbatim>\<open>vm.mem.prefetch\<close>
  (\<^verbatim>\<open>src/agent/internal/memstream/prefetch.go\<close>). The theory shows that both codecs round-trip, that
  decoding yields well-formed values only, and that \<open>BuildHeader\<close> marks exactly the chunks that hold
  a non-zero byte.
\<close>

section \<open>Headers\<close>

record ms_Header =
  ms_Version :: u32
  ms_ChunkSize :: u32
  ms_TotalSize :: u64
  ms_present :: "bool list"

datatype ms_error =
    HeaderTooShort nat
  | BadMagic "byte list"
  | UnsupportedVersion u32
  | ZeroChunkSize
  | ChunkCountMismatch int int
  | TruncatedBitmap int int
  | OpenError string
  | ReadChunkError int string
  | PrefetchTooShort nat
  | BadPrefetchMagic "byte list"
  | UnsupportedPrefetchVersion u32
  | TruncatedPrefetch int int

text \<open>\<open>"PSM1"\<close> and \<open>"PSP1"\<close>.\<close>

definition ms_Magic :: "byte list" where
  "ms_Magic = [0x50, 0x53, 0x4D, 0x31]"

definition ms_PrefetchMagic :: "byte list" where
  "ms_PrefetchMagic = [0x50, 0x53, 0x50, 0x31]"

definition ms_DefaultChunkSize :: int where
  "ms_DefaultChunkSize = 4194304"

definition ms_headerVersion :: u32 where
  "ms_headerVersion = 1"

definition ms_NumChunks :: "ms_Header \<Rightarrow> int" where
  "ms_NumChunks h = num_chunks (ms_ChunkSize h) (ms_TotalSize h)"

definition ms_ChunkRange :: "ms_Header \<Rightarrow> int \<Rightarrow> int \<times> int" where
  "ms_ChunkRange h i = chunk_range (ms_ChunkSize h) (ms_TotalSize h) i"

definition ms_ChunkForOffset :: "ms_Header \<Rightarrow> int \<Rightarrow> int" where
  "ms_ChunkForOffset h off = chunk_for_offset (ms_ChunkSize h) off"

definition ms_IsPresent :: "ms_Header \<Rightarrow> int \<Rightarrow> bool" where
  "ms_IsPresent h i = is_present (ms_present h) i"

definition ms_PresentChunks :: "ms_Header \<Rightarrow> int" where
  "ms_PresentChunks h = present_chunks (ms_present h)"

text \<open>
  \<open>BuildHeader\<close> reads the file once, front to back. \<open>file\<close> is the content, or the error of
  \<open>os.Open\<close>/\<open>Stat\<close>; \<open>rerr i\<close> is the error of the \<open>i\<close>-th \<open>io.ReadFull\<close> when it is neither \<open>EOF\<close> nor
  \<open>ErrUnexpectedEOF\<close>. A short read at the end of the file yields the remaining bytes.
\<close>

fun ms_scan :: "(int \<Rightarrow> string option) \<Rightarrow> nat \<Rightarrow> int \<Rightarrow> nat \<Rightarrow> byte list \<Rightarrow> ms_error + bool list" where
  "ms_scan rerr cs i 0 rest = Inr []"
| "ms_scan rerr cs i (Suc n) rest =
     (case rerr i of
        Some e \<Rightarrow> Inl (ReadChunkError i e)
      | None \<Rightarrow>
          (case ms_scan rerr cs (i + 1) n (drop cs rest) of
             Inl e \<Rightarrow> Inl e
           | Inr ps \<Rightarrow> Inr (anyNonZero (take cs rest) # ps)))"

definition ms_BuildHeader ::
  "string + byte list \<Rightarrow> (int \<Rightarrow> string option) \<Rightarrow> int \<Rightarrow> ms_error + ms_Header" where
  "ms_BuildHeader file rerr chunkSize0 =
     (let chunkSize = (if chunkSize0 \<le> 0 then ms_DefaultChunkSize else chunkSize0) in
      case file of
        Inl e \<Rightarrow> Inl (OpenError e)
      | Inr content \<Rightarrow>
          (let h = \<lparr>ms_Version = ms_headerVersion, ms_ChunkSize = word_of_int chunkSize,
                    ms_TotalSize = word_of_nat (length content), ms_present = []\<rparr>
           in case ms_scan rerr (nat chunkSize) 0 (nat (ms_NumChunks h)) content of
                Inl e \<Rightarrow> Inl e
              | Inr ps \<Rightarrow> Inr (h\<lparr>ms_present := ps\<rparr>)))"

definition ms_Encode :: "ms_Header \<Rightarrow> byte list" where
  "ms_Encode h =
     (let n = ms_NumChunks h in
      ms_Magic @ le32 (ms_Version h) @ le32 (ms_ChunkSize h) @ le64 (ms_TotalSize h)
      @ le32 (word_of_int n)
      @ bitmap_encode (\<lambda>i. i < length (ms_present h) \<and> ms_present h ! i) (nat n))"

definition ms_DecodeHeader :: "byte list \<Rightarrow> ms_error + ms_Header" where
  "ms_DecodeHeader b =
     (if length b < 24 then Inl (HeaderTooShort (length b))
      else if take 4 b \<noteq> ms_Magic then Inl (BadMagic (take 4 b))
      else let version = get32 (drop 4 b) in
        if version \<noteq> ms_headerVersion then Inl (UnsupportedVersion version)
        else let cs = get32 (drop 8 b); ts = get64 (drop 12 b); n = uint (get32 (drop 20 b)) in
          if cs = 0 then Inl ZeroChunkSize
          else let got = num_chunks cs ts in
            if got \<noteq> n then Inl (ChunkCountMismatch n got)
            else let bitmapLen = (n + 7) div 8 in
              if int (length b - 24) < bitmapLen
              then Inl (TruncatedBitmap bitmapLen (int (length b - 24)))
              else Inr \<lparr>ms_Version = version, ms_ChunkSize = cs, ms_TotalSize = ts,
                        ms_present = bitmap_decode (seg 24 (nat bitmapLen) b) (nat n)\<rparr>)"

section \<open>Prefetch lists\<close>

record ms_Prefetch =
  ms_pVersion :: u32
  ms_pChunkSize :: u32
  ms_Chunks :: "u32 list"

definition ms_prefetchVersion :: u32 where
  "ms_prefetchVersion = 1"

definition ms_PrefetchEncode :: "ms_Prefetch \<Rightarrow> byte list" where
  "ms_PrefetchEncode p =
     ms_PrefetchMagic @ le32 (ms_pVersion p) @ le32 (ms_pChunkSize p)
     @ le32 (word_of_nat (length (ms_Chunks p))) @ concat (map le32 (ms_Chunks p))"

fun read_u32s :: "nat \<Rightarrow> byte list \<Rightarrow> u32 list" where
  "read_u32s 0 b = []"
| "read_u32s (Suc n) b = get32 b # read_u32s n (drop 4 b)"

definition ms_DecodePrefetch :: "byte list \<Rightarrow> ms_error + ms_Prefetch" where
  "ms_DecodePrefetch b =
     (if length b < 16 then Inl (PrefetchTooShort (length b))
      else if take 4 b \<noteq> ms_PrefetchMagic then Inl (BadPrefetchMagic (take 4 b))
      else let version = get32 (drop 4 b) in
        if version \<noteq> ms_prefetchVersion then Inl (UnsupportedPrefetchVersion version)
        else let cs = get32 (drop 8 b); n = uint (get32 (drop 12 b)) in
          if int (length b - 16) < 4 * n
          then Inl (TruncatedPrefetch (4 * n) (int (length b - 16)))
          else Inr \<lparr>ms_pVersion = version, ms_pChunkSize = cs,
                    ms_Chunks = read_u32s (nat n) (drop 16 b)\<rparr>)"

section \<open>Round trips\<close>

text \<open>The headers that \<open>BuildHeader\<close> and \<open>DecodeHeader\<close> produce.\<close>

definition ms_wf :: "ms_Header \<Rightarrow> bool" where
  "ms_wf h \<longleftrightarrow> ms_Version h = ms_headerVersion \<and> ms_ChunkSize h \<noteq> 0
     \<and> int (length (ms_present h)) = ms_NumChunks h \<and> ms_NumChunks h < 2 ^ 32"

lemma length_Magic [simp]: "length ms_Magic = 4" "length ms_PrefetchMagic = 4"
  by (simp_all add: ms_Magic_def ms_PrefetchMagic_def)

lemma bitmap_len_nat: "0 \<le> n \<Longrightarrow> nat ((n + 7) div 8) = (nat n + 7) div 8"
  by (simp add: nat_div_distrib nat_add_distrib)

lemma read_u32s_concat: "read_u32s (length xs) (concat (map le32 xs) @ ys) = xs"
  by (induction xs) auto

lemma length_concat_le32: "length (concat (map le32 xs)) = 4 * length xs"
  by (induction xs) auto

lemma length_read_u32s [simp]: "length (read_u32s n b) = n"
  by (induction n arbitrary: b) auto

text \<open>
  Decoding the bytes \<open>Encode\<close> writes gives back the header, whatever follows them in the file.
\<close>

lemma ms_header_roundtrip:
  assumes "ms_wf h"
  shows "ms_DecodeHeader (ms_Encode h @ rest) = Inr h"
proof -
  let ?n = "ms_NumChunks h" and ?p = "\<lambda>i. i < length (ms_present h) \<and> ms_present h ! i"
  note wf = assms [unfolded ms_wf_def]
  have n0: "0 \<le> ?n" using wf by linarith
  have un: "uint (word_of_int ?n :: u32) = ?n"
    using wf n0 by (simp add: uint_word_of_int)
  let ?bm = "bitmap_encode ?p (nat ?n)"
  have enc: "ms_Encode h @ rest = ms_Magic @ le32 (ms_Version h) @ le32 (ms_ChunkSize h)
      @ le64 (ms_TotalSize h) @ le32 (word_of_int ?n) @ ?bm @ rest"
    by (simp add: ms_Encode_def Let_def)
  have len: "length ?bm = nat ((?n + 7) div 8)" using n0 by (simp add: bitmap_len_nat)
  have dec: "bitmap_decode ?bm (nat ?n) = ms_present h"
    using wf bitmap_decode_encode [of "ms_present h" "length (ms_present h)" "[]"]
    by (metis append_Nil2 nat_int)
  have "num_chunks (ms_ChunkSize h) (ms_TotalSize h) = ?n" by (simp add: ms_NumChunks_def)
  then show ?thesis
    unfolding enc using wf len dec un
    by (simp add: ms_DecodeHeader_def Let_def seg_def)
qed

text \<open>
  A header that decodes without error has a non-zero chunk size, the current version and exactly
  one presence bit per chunk, so no later index into the presence bits can be out of range.
\<close>

lemma ms_DecodeHeader_wf:
  assumes "ms_DecodeHeader b = Inr h"
  shows "ms_wf h"
proof -
  let ?n = "uint (get32 (drop 20 b))"
  from assms have h: "ms_Version h = ms_headerVersion" "ms_ChunkSize h \<noteq> 0"
    "ms_NumChunks h = ?n" "length (ms_present h) = nat ?n"
    by (auto simp: ms_DecodeHeader_def ms_NumChunks_def Let_def split: if_splits)
  then show ?thesis using uint_u32_lt [of "get32 (drop 20 b)"] by (simp add: ms_wf_def)
qed

lemma ms_prefetch_decode:
  assumes "ms_pVersion p = ms_prefetchVersion" and "length (ms_Chunks p) < 2 ^ 32"
  shows "ms_DecodePrefetch (ms_PrefetchEncode p @ rest) = Inr p"
proof -
  have "uint (word_of_nat (length (ms_Chunks p)) :: u32) = int (length (ms_Chunks p))"
    using assms(2) by (simp add: uint_word_of_int take_bit_int_eq_self unsigned_of_nat take_bit_nat_eq_self)
  then show ?thesis
    using assms(1)
    by (simp add: ms_DecodePrefetch_def ms_PrefetchEncode_def Let_def read_u32s_concat length_concat_le32)
qed

section \<open>Building a header\<close>

lemma ms_scan_ok:
  assumes "\<forall>i. rerr i = None"
  shows "ms_scan rerr cs i n rest = Inr (map (\<lambda>k. anyNonZero (take cs (drop (k * cs) rest))) [0..<n])"
proof (induction n arbitrary: i rest)
  case 0
  show ?case by simp
next
  case (Suc n)
  have "map (\<lambda>k. anyNonZero (take cs (drop (k * cs) rest))) [0..<Suc n]
      = anyNonZero (take cs rest)
        # map (\<lambda>k. anyNonZero (take cs (drop (k * cs) (drop cs rest)))) [0..<n]"
    by (simp add: upt_conv_Cons map_Suc_upt [symmetric] add.commute del: upt_Suc)
  then show ?case using assms Suc.IH by simp
qed

lemma ms_scan_error: "ms_scan rerr cs i n rest = Inl e \<Longrightarrow> \<exists>j s. e = ReadChunkError j s \<and> rerr j = Some s"
  by (induction rerr cs i n rest rule: ms_scan.induct) (auto split: option.splits sum.splits)

text \<open>
  On a readable image, \<open>BuildHeader\<close> returns a well-formed header with one bit per chunk, set
  exactly for the chunks that contain a non-zero byte; every chunk it leaves out is all zeros, so
  zero-filling it reconstructs the image.
\<close>

lemma ms_BuildHeader_correct:
  assumes "0 < chunkSize" and "chunkSize < 2 ^ 32" and "int (length img) + chunkSize \<le> 2 ^ 63"
    and "\<forall>i. rerr i = None"
  shows "\<exists>h. ms_BuildHeader (Inr img) rerr chunkSize = Inr h
    \<and> ms_Version h = ms_headerVersion \<and> uint (ms_ChunkSize h) = chunkSize
    \<and> describes (ms_ChunkSize h) (ms_TotalSize h) (ms_present h) img
    \<and> (\<forall>i. valid_chunk (ms_ChunkSize h) (ms_TotalSize h) i \<longrightarrow>
          (ms_IsPresent h i \<longleftrightarrow>
            (\<exists>c \<in> set (seg (chunk_off (ms_ChunkSize h) (ms_TotalSize h) i)
                          (chunk_len (ms_ChunkSize h) (ms_TotalSize h) i) img). c \<noteq> 0)))"
proof -
  let ?cs = "word_of_int chunkSize :: u32" and ?ts = "word_of_nat (length img) :: u64"
  have cs: "uint ?cs = chunkSize" using assms by (simp add: uint_word_of_int)
  then have ucs: "unat ?cs = nat chunkSize" by (simp flip: nat_uint_eq)
  have "length img < 2 ^ 64" using assms(1,3) by simp
  then have ts: "unat ?ts = length img" by (simp add: unsigned_of_nat take_bit_nat_eq_self)
  then have "uint ?ts = int (length img)" by (metis uint_nat)
  with cs assms(1,3) have g: "geom_ok ?cs ?ts" by (auto simp: geom_ok_def)
  define ps where "ps = map (\<lambda>k. anyNonZero (take (unat ?cs) (drop (k * unat ?cs) img)))
    [0..<nat (num_chunks ?cs ?ts)]"
  let ?h = "\<lparr>ms_Version = ms_headerVersion, ms_ChunkSize = ?cs, ms_TotalSize = ?ts, ms_present = ps\<rparr>"
  have "ms_BuildHeader (Inr img) rerr chunkSize = Inr ?h"
    using assms(1) by (simp add: ms_BuildHeader_def ms_NumChunks_def ms_scan_ok [OF assms(4)] ps_def ucs)
  moreover have "describes ?cs ?ts ps img" and
    "valid_chunk ?cs ?ts i \<Longrightarrow> is_present ps i \<longleftrightarrow>
      anyNonZero (seg (chunk_off ?cs ?ts i) (chunk_len ?cs ?ts i) img)" for i
    using scanned_describes [OF g ts ps_def] by auto
  ultimately show ?thesis
    using cs by (intro exI [of _ ?h]) (auto simp: ms_IsPresent_def anyNonZero_iff)
qed

section \<open>A concrete image\<close>

text \<open>Five bytes in chunks of two: the first chunk is elided, the last one is short.\<close>

definition demo_img :: "byte list" where
  "demo_img = [0, 0, 7, 9, 5]"

definition ms_demo :: ms_Header where
  "ms_demo = \<lparr>ms_Version = 1, ms_ChunkSize = 2, ms_TotalSize = 5, ms_present = [False, True, True]\<rparr>"

lemma demo_num_chunks: "num_chunks 2 5 = 3"
  by (simp add: num_chunks_def)

lemma demo_chunks:
  "chunk_range 2 5 1 = (2, 2)" "chunk_off 2 5 1 = 2" "chunk_len 2 5 1 = 2" "chunk_off 2 5 2 = 4" "chunk_len 2 5 2 = 1"
  by code_simp+

lemma demo_describes: "describes 2 5 [False, True, True] demo_img"
proof (rule scanned_describes(1))
  show "geom_ok 2 5" by (simp add: geom_ok_def)
  show "unat (5 :: u64) = length demo_img" by (simp add: demo_img_def)
  have "nat (num_chunks 2 5) = 3" by (simp add: demo_num_chunks)
  then show "[False, True, True] = map (\<lambda>k. anyNonZero (take (unat (2 :: u32)) (drop (k * unat (2 :: u32)) demo_img)))
      [0..<nat (num_chunks 2 5)]"
    by (simp add: demo_img_def upt_rec)
qed

lemma ms_demo_wf: "ms_wf ms_demo"
  by (simp add: ms_wf_def ms_demo_def ms_headerVersion_def ms_NumChunks_def demo_num_chunks)

theorem ms_header_roundtrip_witness:
  "ms_wf ms_demo \<and> ms_DecodeHeader (ms_Encode ms_demo @ [42]) = Inr ms_demo"
  using ms_header_roundtrip [OF ms_demo_wf, of "[42]"] ms_demo_wf by simp

theorem ms_DecodeHeader_wf_witness:
  "\<exists>h. ms_DecodeHeader (ms_Encode ms_demo) = Inr h \<and> ms_wf h"
proof -
  have "ms_DecodeHeader (ms_Encode ms_demo) = Inr ms_demo" by code_simp
  then show ?thesis using ms_DecodeHeader_wf [of "ms_Encode ms_demo" ms_demo] by simp
qed

theorem ms_BuildHeader_correct_witness:
  "\<exists>h. ms_BuildHeader (Inr demo_img) (\<lambda>_. None) 2 = Inr h
    \<and> describes (ms_ChunkSize h) (ms_TotalSize h) (ms_present h) demo_img"
  using ms_BuildHeader_correct [of 2 demo_img "\<lambda>_. None"] by (auto simp: demo_img_def)

end
