(* ===== verification/Chunk_Store.thy ===== *)
theory Chunk_Store
  imports Chunk_Geometry
begin

text \<open>
  The sparse local file that every chunk cache of the streaming path keeps (the per-restore
  resolvers and the per-host shared caches of \<^verbatim>\<open>memstream\<close> and \<^verbatim>\<open>diskstream\<close>), and the outside world
  one fetch meets: the upstream \<open>ChunkSource.ReadAt\<close> and the outcome of the local \<open>WriteAt\<close>.

  \<open>store_inv\<close> is the invariant of such a file with respect to the image it caches: the right size,
  zeros in the chunks the header elides, and the image's bytes in every chunk marked valid. Nothing is
  said of the other chunks, which a failed write may leave half written. \<open>store_read\<close> is the one
  lemma all read paths use.
\<close>

section \<open>The outside world of one fetch\<close>

text \<open>
  \<open>src_read off len\<close> is \<open>ReadAt\<close> on a buffer of \<open>len\<close> bytes: the bytes it put at the front of the
  buffer and its error. \<open>write_fail\<close> is \<open>None\<close> when the positional write succeeds, and
  \<open>Some (k, msg)\<close> when it fails after \<open>k\<close> bytes reached the file.
\<close>

record fetch_env =
  src_read :: "int \<Rightarrow> int \<Rightarrow> byte list \<times> string option"
  write_fail :: "(nat \<times> string) option"

text \<open>\<open>io.ReaderAt\<close>: never more bytes than the buffer holds, and a short read carries an error.\<close>

definition reader_ok :: "fetch_env \<Rightarrow> bool" where
  "reader_ok env \<longleftrightarrow>
     (\<forall>off len. 0 \<le> len \<longrightarrow> int (length (fst (src_read env off len))) \<le> len)"

text \<open>An honest source serves the bytes of \<open>img\<close> whenever it reports no error.\<close>

definition source_of :: "byte list \<Rightarrow> fetch_env \<Rightarrow> bool" where
  "source_of img env \<longleftrightarrow> reader_ok env \<and>
     (\<forall>off len b. 0 \<le> off \<and> 0 \<le> len \<and> src_read env off len = (b, None) \<and> int (length b) = len \<longrightarrow>
        b = seg (nat off) (nat len) img)"

text \<open>A healthy world: reads inside the image succeed in full, and so do local writes.\<close>

definition healthy :: "byte list \<Rightarrow> fetch_env \<Rightarrow> bool" where
  "healthy img env \<longleftrightarrow> source_of img env \<and> write_fail env = None \<and>
     (\<forall>off len. 0 \<le> off \<and> 0 \<le> len \<and> off + len \<le> int (length img) \<longrightarrow>
        src_read env off len = (seg (nat off) (nat len) img, None))"

text \<open>Serving a local copy of the whole image, as \<open>fileSource\<close> does.\<close>

definition file_env :: "byte list \<Rightarrow> fetch_env" where
  "file_env img =
     \<lparr>src_read = (\<lambda>off len.
        if off < 0 then ([], Some ''negative offset'')
        else let b = seg (nat off) (nat len) img
             in (b, if int (length b) = len then None else Some ''EOF'')),
      write_fail = None\<rparr>"

lemma file_env_healthy: "healthy img (file_env img)"
  by (auto simp: healthy_def source_of_def reader_ok_def file_env_def Let_def split: if_splits)

lemma file_env_source: "source_of img (file_env img)"
  using file_env_healthy [of img] by (simp add: healthy_def)

section \<open>The file and its invariant\<close>

record store =
  st_file :: "byte list"
  st_fetches :: int
  st_verifyErr :: int

definition chunk_holds :: "u32 \<Rightarrow> u64 \<Rightarrow> byte list \<Rightarrow> byte list \<Rightarrow> int \<Rightarrow> bool" where
  "chunk_holds cs ts img f i \<longleftrightarrow>
     seg (chunk_off cs ts i) (chunk_len cs ts i) f = seg (chunk_off cs ts i) (chunk_len cs ts i) img"

definition sparse_ok :: "u32 \<Rightarrow> u64 \<Rightarrow> bool list \<Rightarrow> byte list \<Rightarrow> bool" where
  "sparse_ok cs ts ps f \<longleftrightarrow> length f = unat ts \<and>
     (\<forall>i. valid_chunk cs ts i \<and> \<not> is_present ps i \<longrightarrow>
        seg (chunk_off cs ts i) (chunk_len cs ts i) f = zeros (chunk_len cs ts i))"

definition store_inv ::
  "u32 \<Rightarrow> u64 \<Rightarrow> bool list \<Rightarrow> byte list \<Rightarrow> byte list \<Rightarrow> bool list \<Rightarrow> bool" where
  "store_inv cs ts ps img f done \<longleftrightarrow> sparse_ok cs ts ps f \<and> int (length done) = num_chunks cs ts
     \<and> (\<forall>i. valid_chunk cs ts i \<and> done ! nat i \<longrightarrow> chunk_holds cs ts img f i)"

lemma seg_zeros: "off + len \<le> n \<Longrightarrow> seg off len (zeros n) = zeros len"
  by (simp add: seg_def zeros_def)

lemma sparse_ok_zeros:
  "geom_ok cs ts \<Longrightarrow> sparse_ok cs ts ps (zeros (unat ts))"
  by (simp add: sparse_ok_def seg_zeros chunk_span)

lemma store_inv_empty:
  assumes "describes cs ts ps img" and "int n = num_chunks cs ts"
  shows "store_inv cs ts ps img (zeros (unat ts)) (replicate n False)"
proof -
  have "sparse_ok cs ts ps (zeros (unat ts))"
    using assms(1) by (intro sparse_ok_zeros) (simp add: describes_def)
  then show ?thesis using assms(2) by (auto simp: store_inv_def valid_chunk_def nat_less_iff)
qed

lemma chunk_holds_nth:
  assumes "geom_ok cs ts" and "valid_chunk cs ts i" and "length f = unat ts" and "length img = unat ts"
  shows "chunk_holds cs ts img f i \<longleftrightarrow>
    (\<forall>k < unat ts. chunk_for_offset cs (int k) = i \<longrightarrow> f ! k = img ! k)"
proof -
  note sp = chunk_span(4) [OF assms(1,2)]
  have "chunk_holds cs ts img f i \<longleftrightarrow>
    (\<forall>k. chunk_off cs ts i \<le> k \<and> k < chunk_off cs ts i + chunk_len cs ts i \<longrightarrow> f ! k = img ! k)"
    unfolding chunk_holds_def using sp assms by (intro seg_eq_iff) auto
  also have "\<dots> \<longleftrightarrow> (\<forall>k < unat ts. chunk_for_offset cs (int k) = i \<longrightarrow> f ! k = img ! k)"
    using chunk_span_member [OF assms(1,2)] sp by (metis less_le_trans)
  finally show ?thesis .
qed

text \<open>An elided chunk holds the image's bytes too: both are zeros.\<close>

lemma absent_holds:
  "describes cs ts ps img \<Longrightarrow> sparse_ok cs ts ps f \<Longrightarrow> valid_chunk cs ts i \<Longrightarrow> \<not> is_present ps i
    \<Longrightarrow> chunk_holds cs ts img f i"
  by (simp add: describes_def sparse_ok_def chunk_holds_def)

text \<open>
  Reading any range whose chunks are elided or valid returns the image's bytes.
\<close>

lemma store_read:
  assumes d: "describes cs ts ps img" and inv: "store_inv cs ts ps img f done"
    and rng: "off + len \<le> unat ts"
    and ready: "\<And>k. off \<le> k \<Longrightarrow> k < off + len \<Longrightarrow>
      is_present ps (chunk_for_offset cs (int k)) \<Longrightarrow> done ! nat (chunk_for_offset cs (int k))"
  shows "seg off len f = seg off len img"
proof -
  have g: "geom_ok cs ts" and li: "length img = unat ts" using d by (simp_all add: describes_def)
  have lf: "length f = unat ts" and sp: "sparse_ok cs ts ps f"
    using inv by (simp_all add: store_inv_def sparse_ok_def)
  have "f ! k = img ! k" if k: "off \<le> k" "k < off + len" for k
  proof -
    let ?i = "chunk_for_offset cs (int k)"
    have kt: "k < unat ts" using k rng by simp
    then have v: "valid_chunk cs ts ?i" using g by (rule valid_chunk_for_offset [rotated])
    have "chunk_holds cs ts img f ?i"
      using inv ready [OF k] absent_holds [OF d sp v] v by (auto simp: store_inv_def)
    then show ?thesis using chunk_holds_nth [OF g v lf li] kt by simp
  qed
  then show ?thesis using seg_eq_iff [of off len f img] rng lf li by simp
qed

text \<open>The form the \<open>ReadAt\<close> loops establish: every present chunk from the first to the last of the range is valid.\<close>

lemma store_read_range:
  assumes d: "describes cs ts ps img" and inv: "store_inv cs ts ps img f done"
    and rng: "0 \<le> off" "0 < len" "off + len \<le> int (unat ts)"
  defines "fst0 \<equiv> chunk_for_offset cs off" and "lst \<equiv> chunk_for_offset cs (off + len - 1)"
  assumes ready: "\<forall>j \<in> {fst0..<fst0 + int (nat (lst - fst0 + 1))}. is_present ps j \<longrightarrow> done ! nat j"
  shows "seg (nat off) (nat len) f = seg (nat off) (nat len) img"
proof (rule store_read [OF d inv])
  have g: "geom_ok cs ts" using d by (simp add: describes_def)
  show "nat off + nat len \<le> unat ts" using rng by linarith
  fix k assume k: "nat off \<le> k" "k < nat off + nat len" and p: "is_present ps (chunk_for_offset cs (int k))"
  have "off \<le> int k" "int k \<le> off + len - 1" using k rng by linarith+
  then have "fst0 \<le> chunk_for_offset cs (int k)" "chunk_for_offset cs (int k) \<le> lst"
    using chunk_for_offset_mono [OF g, of off "int k"] chunk_for_offset_mono [OF g, of "int k" "off + len - 1"] rng(1)
    unfolding fst0_def lst_def by simp_all
  then have "chunk_for_offset cs (int k) \<in> {fst0..<fst0 + int (nat (lst - fst0 + 1))}" by auto
  then show "done ! nat (chunk_for_offset cs (int k))" using ready p by blast
qed

text \<open>Writing into the range of a present chunk leaves every other chunk and the zeros alone.\<close>

lemma write_chunk_frame:
  assumes g: "geom_ok cs ts" and v: "valid_chunk cs ts i" and p: "is_present ps i"
    and s: "sparse_ok cs ts ps f" and b: "length b \<le> chunk_len cs ts i"
  shows "sparse_ok cs ts ps (write_at f (chunk_off cs ts i) b)"
    and "valid_chunk cs ts j \<Longrightarrow> j \<noteq> i \<Longrightarrow> chunk_holds cs ts img f j
      \<Longrightarrow> chunk_holds cs ts img (write_at f (chunk_off cs ts i) b) j"
proof -
  have fit: "chunk_off cs ts i + length b \<le> length f"
    using chunk_span(4) [OF g v] s b by (simp add: sparse_ok_def)
  have frame: "seg (chunk_off cs ts j) (chunk_len cs ts j) (write_at f (chunk_off cs ts i) b)
      = seg (chunk_off cs ts j) (chunk_len cs ts j) f"
    if "valid_chunk cs ts j" "j \<noteq> i" for j
    using chunk_spans_disjoint [OF g that(1) v that(2)] b
    by (intro seg_write_at_disjoint [OF fit]) auto
  show "sparse_ok cs ts ps (write_at f (chunk_off cs ts i) b)"
    using s p frame length_write_at [OF fit] unfolding sparse_ok_def by metis
  show "chunk_holds cs ts img (write_at f (chunk_off cs ts i) b) j"
    if "valid_chunk cs ts j" "j \<noteq> i" "chunk_holds cs ts img f j"
    using frame [OF that(1,2)] that(3) by (simp add: chunk_holds_def)
qed

lemma write_chunk_holds:
  assumes "geom_ok cs ts" and "valid_chunk cs ts i" and "sparse_ok cs ts ps f"
    and "b = seg (chunk_off cs ts i) (chunk_len cs ts i) img" and "length img = unat ts"
  shows "chunk_holds cs ts img (write_at f (chunk_off cs ts i) b) i"
proof -
  have len: "length b = chunk_len cs ts i"
    using assms(4,5) chunk_span(4) [OF assms(1,2)] by simp
  have "seg (chunk_off cs ts i) (length b) (write_at f (chunk_off cs ts i) b) = b"
    using chunk_span(4) [OF assms(1,2)] assms(3) len by (intro seg_write_at_same) (simp add: sparse_ok_def)
  then show ?thesis using len assms(4) by (simp add: chunk_holds_def)
qed

end
