(* ===== verification/Single_Flight.thy ===== *)
theory Single_Flight
  imports Go_Base
begin

text \<open>
  The single-flight protocol that \<open>ensureChunk\<close> follows in all four chunk caches
  (\<^verbatim>\<open>memstream/resolver.go\<close>, \<^verbatim>\<open>memstream/sharedcache.go\<close>, \<^verbatim>\<open>diskstream/resolver.go\<close>,
  \<^verbatim>\<open>diskstream/sharedcache.go\<close>): many goroutines may ask for the same chunk, one of them fetches it and
  the others wait for the channel it closes.

  \<^item> \<open>flight\<close> is the state the mutex guards: the valid flags, the \<open>inflight\<close> map from chunk to
    channel, the last fetch errors. Channels are numbered in the order of \<open>make(chan struct{})\<close>;
    \<open>fl_closed\<close> holds the closed ones.
  \<^item> \<open>flight_enter\<close>, \<open>resolver_finish\<close>/\<open>cache_finish\<close> and \<open>resolver_wake\<close>/\<open>cache_wake\<close> are the three
    critical sections, each run under the mutex.
  \<^item> \<open>flight_step\<close> interleaves them: one step is one critical section of one goroutine, or its fetch,
    which runs without the mutex.
  \<^item> \<open>single_flight\<close> is the contract of a cache: what \<open>finish\<close>, \<open>wake\<close> and \<open>fetch\<close> promise. Its
    lemmas hold for every interleaving; each cache interprets the locale.
\<close>

section \<open>Critical sections\<close>

record 'e flight =
  fl_done :: "bool list"
  fl_inflight :: "int \<Rightarrow> nat option"
  fl_err :: "int \<Rightarrow> 'e option"
  fl_chans :: nat
  fl_closed :: "nat set"

text \<open>A shared cache also counts, under the same mutex, the chunks not yet flushed.\<close>

record 'e cflight = "'e flight" +
  fl_dirty :: int

datatype ('e, 'm) enter = Hit | Join nat | Lead nat "('e, 'm) flight_scheme"

datatype 'e wake = Woke "'e option" | Retry

definition flight_enter :: "('e, 'm) flight_scheme \<Rightarrow> int \<Rightarrow> ('e, 'm) enter" where
  "flight_enter fl idx =
     (if fl_done fl ! nat idx then Hit
      else case fl_inflight fl idx of
             Some ch \<Rightarrow> Join ch
           | None \<Rightarrow> Lead (fl_chans fl)
               (fl\<lparr>fl_inflight := (fl_inflight fl)(idx := Some (fl_chans fl)),
                   fl_chans := Suc (fl_chans fl)\<rparr>))"

definition resolver_finish :: "'e flight \<Rightarrow> int \<Rightarrow> nat \<Rightarrow> 'e option \<Rightarrow> 'e flight" where
  "resolver_finish fl idx ch err =
     (let fl1 = (case err of
                   None \<Rightarrow> fl\<lparr>fl_done := (fl_done fl)[nat idx := True],
                              fl_err := (fl_err fl)(idx := None)\<rparr>
                 | Some e \<Rightarrow> fl\<lparr>fl_err := (fl_err fl)(idx := Some e)\<rparr>)
      in fl1\<lparr>fl_inflight := (fl_inflight fl1)(idx := None), fl_closed := insert ch (fl_closed fl1)\<rparr>)"

definition resolver_wake :: "'e flight \<Rightarrow> int \<Rightarrow> 'e wake" where
  "resolver_wake fl idx = (if fl_done fl ! nat idx then Woke None else Woke (fl_err fl idx))"

definition cache_finish :: "'e cflight \<Rightarrow> int \<Rightarrow> nat \<Rightarrow> 'e option \<Rightarrow> 'e cflight" where
  "cache_finish fl idx ch err =
     (let fl1 = (case err of
                   None \<Rightarrow> fl\<lparr>fl_done := (fl_done fl)[nat idx := True], fl_dirty := fl_dirty fl + 1\<rparr>
                 | Some e \<Rightarrow> fl)
      in fl1\<lparr>fl_inflight := (fl_inflight fl1)(idx := None), fl_closed := insert ch (fl_closed fl1)\<rparr>)"

definition cache_wake :: "'e cflight \<Rightarrow> int \<Rightarrow> 'e wake" where
  "cache_wake fl idx = (if fl_done fl ! nat idx then Woke None else Retry)"

definition flight_init :: "nat \<Rightarrow> 'e flight" where
  "flight_init n = \<lparr>fl_done = replicate n False, fl_inflight = (\<lambda>_. None), fl_err = (\<lambda>_. None),
     fl_chans = 0, fl_closed = {}\<rparr>"

definition cflight_init :: "bool list \<Rightarrow> 'e cflight" where
  "cflight_init present = \<lparr>fl_done = present, fl_inflight = (\<lambda>_. None), fl_err = (\<lambda>_. None),
     fl_chans = 0, fl_closed = {}, fl_dirty = 0\<rparr>"

section \<open>One call running alone\<close>

text \<open>
  The outcome of a call: it returned, it would wait for another goroutine's channel, or it panicked.
  \<open>solo_call\<close> is \<open>ensureChunk\<close> after its range check, run with no other goroutine; \<open>ensure_range\<close> is the
  loop of the \<open>ReadAt\<close> methods over the chunks \<open>i, i+1, \<dots>\<close> of the requested range, where \<open>skip\<close> is
  what the loop does for an elided chunk.
\<close>

datatype 'e call = Done "'e option" | Blocked | Panics

definition solo_call ::
  "('v \<Rightarrow> 'd \<Rightarrow> int \<Rightarrow> 'e option \<times> 'd)
   \<Rightarrow> (('e, 'm) flight_scheme \<Rightarrow> int \<Rightarrow> nat \<Rightarrow> 'e option \<Rightarrow> ('e, 'm) flight_scheme)
   \<Rightarrow> 'v \<Rightarrow> ('e, 'm) flight_scheme \<Rightarrow> 'd \<Rightarrow> int \<Rightarrow> 'e call \<times> ('e, 'm) flight_scheme \<times> 'd" where
  "solo_call fetch fin env fl d idx =
     (case flight_enter fl idx of
        Hit \<Rightarrow> (Done None, fl, d)
      | Join ch \<Rightarrow> (Blocked, fl, d)
      | Lead ch fl1 \<Rightarrow> (let (err, d1) = fetch env d idx in (Done err, fin fl1 idx ch err, d1)))"

fun ensure_range ::
  "(int \<Rightarrow> 's \<Rightarrow> 'e call \<times> 's) \<Rightarrow> (int \<Rightarrow> bool) \<Rightarrow> ('s \<Rightarrow> 's) \<Rightarrow> 's \<Rightarrow> int \<Rightarrow> nat \<Rightarrow> 'e call \<times> 's" where
  "ensure_range ens present skip s i 0 = (Done None, s)"
| "ensure_range ens present skip s i (Suc n) =
     (if \<not> present i then ensure_range ens present skip (skip s) (i + 1) n
      else case ens i s of
          (Done None, s1) \<Rightarrow> ensure_range ens present skip s1 (i + 1) n
        | bad \<Rightarrow> bad)"

text \<open>
  The loop rule: an invariant \<open>I\<close> and a fact \<open>R i\<close> that ensuring chunk \<open>i\<close> establishes and nothing
  later undoes; under \<open>G\<close> no call fails.
\<close>

lemma ensure_range_rule:
  assumes "I s"
    and step: "\<And>s j. I s \<Longrightarrow> present j \<Longrightarrow> i \<le> j \<Longrightarrow> j < i + int n \<Longrightarrow>
      \<exists>e s'. ens j s = (Done e, s') \<and> I s' \<and> (e = None \<longrightarrow> R s' j) \<and> (G \<longrightarrow> e = None)"
    and mono: "\<And>s j k. I s \<Longrightarrow> present j \<Longrightarrow> R s k \<Longrightarrow> R (snd (ens j s)) k"
    and skip: "\<And>s k. I s \<Longrightarrow> I (skip s) \<and> (R s k \<longrightarrow> R (skip s) k)"
  shows "\<exists>e s'. ensure_range ens present skip s i n = (Done e, s') \<and> I s'
    \<and> (\<forall>k. R s k \<longrightarrow> R s' k)
    \<and> (e = None \<longrightarrow> (\<forall>j \<in> {i..<i + int n}. present j \<longrightarrow> R s' j)) \<and> (G \<longrightarrow> e = None)"
  using assms(1) step
proof (induction n arbitrary: s i)
  case 0
  then show ?case by auto
next
  case (Suc n)
  have "{i..<i + int (Suc n)} = insert i {i + 1..<i + 1 + int n}" by auto
  then have split: "(\<forall>j \<in> {i..<i + int (Suc n)}. present j \<longrightarrow> P j) \<longleftrightarrow>
      (present i \<longrightarrow> P i) \<and> (\<forall>j \<in> {i + 1..<i + 1 + int n}. present j \<longrightarrow> P j)" for P by simp
  have rest: "\<exists>e s''. ensure_range ens present skip s' (i + 1) n = (Done e, s'') \<and> I s''
      \<and> (\<forall>k. R s' k \<longrightarrow> R s'' k)
      \<and> (e = None \<longrightarrow> (\<forall>j \<in> {i + 1..<i + 1 + int n}. present j \<longrightarrow> R s'' j)) \<and> (G \<longrightarrow> e = None)"
    if "I s'" for s'
    using that by (rule Suc.IH) (rule Suc.prems(2), simp_all)
  show ?case
  proof (cases "present i")
    case False
    obtain e s'' where r: "ensure_range ens present skip (skip s) (i + 1) n = (Done e, s'')" "I s''"
      "\<And>k. R (skip s) k \<Longrightarrow> R s'' k"
      "e = None \<Longrightarrow> \<forall>j \<in> {i + 1..<i + 1 + int n}. present j \<longrightarrow> R s'' j" "G \<Longrightarrow> e = None"
      using rest [of "skip s"] skip [OF Suc.prems(1)] by blast
    have "ensure_range ens present skip s i (Suc n) = (Done e, s'')" using False r(1) by simp
    then show ?thesis unfolding split using False r(2-) skip [OF Suc.prems(1)] by blast
  next
    case True
    have "\<exists>e s'. ens i s = (Done e, s') \<and> I s' \<and> (e = None \<longrightarrow> R s' i) \<and> (G \<longrightarrow> e = None)"
      using Suc.prems(1) True by (rule Suc.prems(2)) simp_all
    then obtain e s' where e: "ens i s = (Done e, s')" "I s'" "e = None \<longrightarrow> R s' i" "G \<longrightarrow> e = None" by blast
    have keep: "R s k \<Longrightarrow> R s' k" for k using mono [OF Suc.prems(1) True] e(1) by (metis snd_conv)
    show ?thesis
    proof (cases e)
      case None
      obtain e2 s'' where r: "ensure_range ens present skip s' (i + 1) n = (Done e2, s'')" "I s''"
        "\<And>k. R s' k \<Longrightarrow> R s'' k"
        "e2 = None \<Longrightarrow> \<forall>j \<in> {i + 1..<i + 1 + int n}. present j \<longrightarrow> R s'' j" "G \<Longrightarrow> e2 = None"
        using rest [OF e(2)] by blast
      have "ensure_range ens present skip s i (Suc n) = (Done e2, s'')" using True e(1) None r(1) by simp
      then show ?thesis unfolding split using r(2-) e(3) None keep by blast
    next
      case (Some x)
      then have "ensure_range ens present skip s i (Suc n) = (Done e, s')" using True e(1) by simp
      then show ?thesis using Some e(2,4) keep by blast
    qed
  qed
qed

section \<open>Interleavings\<close>

datatype 'e pc =
    Idle
  | Calling int
  | Waiting int nat
  | Fetching int nat
  | Fetched int nat "'e option"
  | Returned int "'e option"

fun leads :: "'e pc \<Rightarrow> (int \<times> nat) option" where
  "leads (Fetching i ch) = Some (i, ch)"
| "leads (Fetched i ch e) = Some (i, ch)"
| "leads p = None"

type_synonym ('e, 'm, 'd) fstate = "('e, 'm) flight_scheme \<times> 'd \<times> (nat \<Rightarrow> 'e pc)"

text \<open>
  \<open>valid\<close> are the chunks callers may ask for, \<open>fetch env d i\<close> the unlocked part, \<open>ok\<close> the outside
  worlds considered, \<open>cancels e\<close> whether a waiter may give up with error \<open>e\<close> (a cancelled context).
\<close>

inductive flight_step ::
  "(int \<Rightarrow> bool) \<Rightarrow> ('v \<Rightarrow> bool) \<Rightarrow> ('v \<Rightarrow> 'd \<Rightarrow> int \<Rightarrow> 'e option \<times> 'd)
   \<Rightarrow> (('e, 'm) flight_scheme \<Rightarrow> int \<Rightarrow> nat \<Rightarrow> 'e option \<Rightarrow> ('e, 'm) flight_scheme)
   \<Rightarrow> (('e, 'm) flight_scheme \<Rightarrow> int \<Rightarrow> 'e wake) \<Rightarrow> ('e \<Rightarrow> bool)
   \<Rightarrow> ('e, 'm, 'd) fstate \<Rightarrow> ('e, 'm, 'd) fstate \<Rightarrow> bool"
  for valid ok fetch fin wk cancels where
  call: "pcs g = Idle \<or> (\<exists>j r. pcs g = Returned j r) \<Longrightarrow> valid i \<Longrightarrow>
    flight_step valid ok fetch fin wk cancels (fl, d, pcs) (fl, d, pcs(g := Calling i))"
| hit: "pcs g = Calling i \<Longrightarrow> flight_enter fl i = Hit \<Longrightarrow>
    flight_step valid ok fetch fin wk cancels (fl, d, pcs) (fl, d, pcs(g := Returned i None))"
| join: "pcs g = Calling i \<Longrightarrow> flight_enter fl i = Join ch \<Longrightarrow>
    flight_step valid ok fetch fin wk cancels (fl, d, pcs) (fl, d, pcs(g := Waiting i ch))"
| lead: "pcs g = Calling i \<Longrightarrow> flight_enter fl i = Lead ch fl' \<Longrightarrow>
    flight_step valid ok fetch fin wk cancels (fl, d, pcs) (fl', d, pcs(g := Fetching i ch))"
| fetch: "pcs g = Fetching i ch \<Longrightarrow> ok env \<Longrightarrow> fetch env d i = (e, d') \<Longrightarrow>
    flight_step valid ok fetch fin wk cancels (fl, d, pcs) (fl, d', pcs(g := Fetched i ch e))"
| finish: "pcs g = Fetched i ch e \<Longrightarrow>
    flight_step valid ok fetch fin wk cancels (fl, d, pcs) (fin fl i ch e, d, pcs(g := Returned i e))"
| wake: "pcs g = Waiting i ch \<Longrightarrow> ch \<in> fl_closed fl \<Longrightarrow> wk fl i = Woke e \<Longrightarrow>
    flight_step valid ok fetch fin wk cancels (fl, d, pcs) (fl, d, pcs(g := Returned i e))"
| retry: "pcs g = Waiting i ch \<Longrightarrow> ch \<in> fl_closed fl \<Longrightarrow> wk fl i = Retry \<Longrightarrow>
    flight_step valid ok fetch fin wk cancels (fl, d, pcs) (fl, d, pcs(g := Calling i))"
| cancel: "pcs g = Waiting i ch \<Longrightarrow> cancels e \<Longrightarrow>
    flight_step valid ok fetch fin wk cancels (fl, d, pcs) (fl, d, pcs(g := Returned i (Some e)))"

inductive flight_reach ::
  "(int \<Rightarrow> bool) \<Rightarrow> ('v \<Rightarrow> bool) \<Rightarrow> ('v \<Rightarrow> 'd \<Rightarrow> int \<Rightarrow> 'e option \<times> 'd)
   \<Rightarrow> (('e, 'm) flight_scheme \<Rightarrow> int \<Rightarrow> nat \<Rightarrow> 'e option \<Rightarrow> ('e, 'm) flight_scheme)
   \<Rightarrow> (('e, 'm) flight_scheme \<Rightarrow> int \<Rightarrow> 'e wake) \<Rightarrow> ('e \<Rightarrow> bool)
   \<Rightarrow> ('e, 'm, 'd) fstate \<Rightarrow> ('e, 'm, 'd) fstate \<Rightarrow> bool"
  for valid ok fetch fin wk cancels s0 where
  start: "flight_reach valid ok fetch fin wk cancels s0 s0"
| step: "flight_reach valid ok fetch fin wk cancels s0 s \<Longrightarrow>
    flight_step valid ok fetch fin wk cancels s t \<Longrightarrow>
    flight_reach valid ok fetch fin wk cancels s0 t"

text \<open>A call running alone is one of the interleavings.\<close>

lemma solo_call_reach:
  assumes "pcs g = Idle" and "valid i" and "ok env" and "solo_call fetch fin env fl d i = (Done e, fl', d')"
  shows "flight_reach valid ok fetch fin wk cancels (fl, d, pcs) (fl', d', pcs(g := Returned i e))"
proof -
  have c: "flight_reach valid ok fetch fin wk cancels (fl, d, pcs) (fl, d, pcs(g := Calling i))"
    using assms(1,2) by (blast intro: flight_reach.intros flight_step.call)
  show ?thesis
  proof (cases "flight_enter fl i")
    case Hit
    then have "flight_step valid ok fetch fin wk cancels (fl, d, pcs(g := Calling i)) (fl, d, pcs(g := Calling i, g := Returned i None))"
      by (intro flight_step.hit) simp_all
    then show ?thesis using flight_reach.step [OF c] Hit assms(4) by (simp add: solo_call_def)
  next
    case (Join ch)
    then show ?thesis using assms(4) by (simp add: solo_call_def)
  next
    case (Lead ch fl1)
    let ?p1 = "pcs(g := Calling i, g := Fetching i ch)" and ?p2 = "pcs(g := Calling i, g := Fetching i ch, g := Fetched i ch e)"
    have f: "fetch env d i = (e, d')" "fl' = fin fl1 i ch e"
      using Lead assms(4) by (auto simp: solo_call_def split: prod.splits)
    have "flight_step valid ok fetch fin wk cancels (fl, d, pcs(g := Calling i)) (fl1, d, ?p1)"
      using Lead by (intro flight_step.lead) simp_all
    then have "flight_reach valid ok fetch fin wk cancels (fl, d, pcs) (fl1, d, ?p1)" by (rule flight_reach.step [OF c])
    moreover have "flight_step valid ok fetch fin wk cancels (fl1, d, ?p1) (fl1, d', ?p2)"
      using f(1) assms(3) by (intro flight_step.fetch) simp_all
    ultimately have "flight_reach valid ok fetch fin wk cancels (fl, d, pcs) (fl1, d', ?p2)" by (rule flight_reach.step)
    moreover have "flight_step valid ok fetch fin wk cancels (fl1, d', ?p2) (fin fl1 i ch e, d', ?p2(g := Returned i e))"
      by (intro flight_step.finish) simp
    ultimately have "flight_reach valid ok fetch fin wk cancels (fl, d, pcs) (fin fl1 i ch e, d', ?p2(g := Returned i e))"
      by (rule flight_reach.step)
    then show ?thesis using f(2) by simp
  qed
qed

section \<open>Steps inside calls\<close>

text \<open>The steps a call may still take: enter and wait, or enter, fetch and finish. A step that starts no call is \<open>flight_work\<close>.\<close>

fun call_work :: "'e pc \<Rightarrow> nat" where
  "call_work (Calling i) = 3"
| "call_work (Fetching i ch) = 2"
| "call_work (Fetched i ch e) = 1"
| "call_work (Waiting i ch) = 1"
| "call_work p = 0"

definition flight_work ::
  "(int \<Rightarrow> bool) \<Rightarrow> ('v \<Rightarrow> bool) \<Rightarrow> ('v \<Rightarrow> 'd \<Rightarrow> int \<Rightarrow> 'e option \<times> 'd)
   \<Rightarrow> (('e, 'm) flight_scheme \<Rightarrow> int \<Rightarrow> nat \<Rightarrow> 'e option \<Rightarrow> ('e, 'm) flight_scheme)
   \<Rightarrow> (('e, 'm) flight_scheme \<Rightarrow> int \<Rightarrow> 'e wake) \<Rightarrow> ('e, 'm, 'd) fstate \<Rightarrow> ('e, 'm, 'd) fstate \<Rightarrow> bool" where
  "flight_work valid ok fetch fin wk s t \<longleftrightarrow>
     flight_step valid ok fetch fin wk (\<lambda>_. False) s t \<and> (\<forall>g. 0 < call_work (snd (snd t) g) \<longrightarrow> 0 < call_work (snd (snd s) g))"

lemma call_work_le: "call_work p \<le> 3"
  by (cases p) simp_all

lemma flight_workI:
  "flight_step valid ok fetch fin wk (\<lambda>_. False) (fl, d, pcs) (fl', d', pcs(g := p)) \<Longrightarrow> 0 < call_work (pcs g)
    \<Longrightarrow> flight_work valid ok fetch fin wk (fl, d, pcs) (fl', d', pcs(g := p))"
  by (simp add: flight_work_def)

text \<open>A step changes one goroutine; without retries, a step inside a call brings it closer to its end.\<close>

lemma flight_step_one:
  assumes "flight_step valid ok fetch fin wk cancels s t"
  shows "\<exists>g p. snd (snd t) = (snd (snd s))(g := p)"
  using assms by (cases rule: flight_step.cases) auto

lemma flight_work_less:
  assumes "flight_work valid ok fetch fin wk s t" and "\<And>fl i. wk fl i \<noteq> Retry"
  shows "\<exists>g p. snd (snd t) = (snd (snd s))(g := p) \<and> call_work p < call_work (snd (snd s) g)"
proof -
  have st: "flight_step valid ok fetch fin wk (\<lambda>_. False) s t"
    and in_call: "\<And>g. 0 < call_work (snd (snd t) g) \<Longrightarrow> 0 < call_work (snd (snd s) g)"
    using assms(1) by (simp_all add: flight_work_def)
  from st show ?thesis
  proof (cases rule: flight_step.cases)
    case (call pcs g i fl d)
    then show ?thesis using in_call [of g] by auto
  qed (use assms(2) in \<open>auto intro!: exI\<close>)
qed

lemma flight_reach_finite:
  assumes "flight_reach valid ok fetch fin wk cancels (fl0, d0, \<lambda>_. Idle) (fl, d, pcs)"
  shows "finite {g. 0 < call_work (pcs g)}"
proof -
  have "finite {g. 0 < call_work (snd (snd s) g)}" if "flight_reach valid ok fetch fin wk cancels (fl0, d0, \<lambda>_. Idle) s" for s
    using that
  proof (induction rule: flight_reach.induct)
    case (step s t)
    obtain g p where "snd (snd t) = (snd (snd s))(g := p)" using flight_step_one [OF step.hyps(2)] by blast
    then have "{g. 0 < call_work (snd (snd t) g)} \<subseteq> insert g {g. 0 < call_work (snd (snd s) g)}" by (auto split: if_splits)
    then show ?case using step.IH by (simp add: finite_subset)
  qed simp
  from this [OF assms] show ?thesis by simp
qed

lemma work_steps:
  assumes "((flight_work valid ok fetch fin wk) ^^ n) s t" and "\<And>fl i. wk fl i \<noteq> Retry" and "finite {g. 0 < call_work (snd (snd s) g)}"
  shows "n + (\<Sum>g | 0 < call_work (snd (snd s) g). call_work (snd (snd t) g)) \<le> (\<Sum>g | 0 < call_work (snd (snd s) g). call_work (snd (snd s) g))
    \<and> (\<forall>g. 0 < call_work (snd (snd t) g) \<longrightarrow> 0 < call_work (snd (snd s) g))"
  using assms(1)
proof (induction n arbitrary: t)
  case (Suc n)
  let ?A = "{g. 0 < call_work (snd (snd s) g)}"
  obtain u where u: "((flight_work valid ok fetch fin wk) ^^ n) s u" "flight_work valid ok fetch fin wk u t" using Suc.prems by auto
  obtain g p where g: "snd (snd t) = (snd (snd u))(g := p)" "call_work p < call_work (snd (snd u) g)" using flight_work_less [OF u(2) assms(2)] by blast
  have IH: "n + (\<Sum>g \<in> ?A. call_work (snd (snd u) g)) \<le> (\<Sum>g \<in> ?A. call_work (snd (snd s) g))" "\<And>g. 0 < call_work (snd (snd u) g) \<Longrightarrow> g \<in> ?A"
    using Suc.IH [OF u(1)] by auto
  have "g \<in> ?A" using IH(2) [of g] g(2) by linarith
  then have "(\<Sum>x \<in> ?A. call_work (snd (snd t) x)) < (\<Sum>x \<in> ?A. call_work (snd (snd u) x))"
    using g assms(3) by (intro sum_strict_mono_ex1) auto
  moreover have "\<forall>x. 0 < call_work (snd (snd t) x) \<longrightarrow> x \<in> ?A" using IH(2) u(2) by (auto simp: flight_work_def)
  ultimately show ?case using IH(1) by auto
qed simp

section \<open>The contract of a cache and its invariant\<close>

text \<open>
  Leaders and the \<open>inflight\<close> map agree, each channel belongs to one chunk, a waiter's channel is
  either still owned by a leader or closed with the chunk settled.
\<close>

definition flight_struct ::
  "(int \<Rightarrow> bool) \<Rightarrow> (('e, 'm) flight_scheme \<Rightarrow> int \<Rightarrow> bool) \<Rightarrow> ('e, 'm) flight_scheme
   \<Rightarrow> (nat \<Rightarrow> 'e pc) \<Rightarrow> bool" where
  "flight_struct valid settled fl pcs \<longleftrightarrow>
     (\<forall>g i ch. leads (pcs g) = Some (i, ch) \<longrightarrow> fl_inflight fl i = Some ch \<and> valid i)
   \<and> (\<forall>g g' i ch ch'. leads (pcs g) = Some (i, ch) \<and> leads (pcs g') = Some (i, ch') \<longrightarrow> g = g')
   \<and> (\<forall>i ch. fl_inflight fl i = Some ch \<longrightarrow>
        ch < fl_chans fl \<and> \<not> fl_done fl ! nat i \<and> (\<exists>g. leads (pcs g) = Some (i, ch)))
   \<and> (\<forall>i ch. fl_inflight fl i = Some ch \<longrightarrow>
        ch \<notin> fl_closed fl \<and> (\<forall>j. fl_inflight fl j = Some ch \<longrightarrow> j = i))
   \<and> (\<forall>ch. ch \<in> fl_closed fl \<longrightarrow> ch < fl_chans fl)
   \<and> (\<forall>g i ch. pcs g = Waiting i ch \<longrightarrow>
        valid i \<and> (fl_inflight fl i = Some ch \<or> ch \<in> fl_closed fl \<and> settled fl i))
   \<and> (\<forall>g i. pcs g = Calling i \<longrightarrow> valid i)
   \<and> (\<forall>i. valid i \<longrightarrow> 0 \<le> i \<and> nat i < length (fl_done fl))"

text \<open>Every valid flag, and every call that returned without error, stands for correct bytes.\<close>

definition flight_data ::
  "(int \<Rightarrow> bool) \<Rightarrow> ('d \<Rightarrow> bool) \<Rightarrow> ('d \<Rightarrow> int \<Rightarrow> bool) \<Rightarrow> ('e, 'm) flight_scheme \<Rightarrow> 'd
   \<Rightarrow> (nat \<Rightarrow> 'e pc) \<Rightarrow> bool" where
  "flight_data valid dinv holds fl d pcs \<longleftrightarrow>
     dinv d
   \<and> (\<forall>i. valid i \<and> fl_done fl ! nat i \<longrightarrow> holds d i)
   \<and> (\<forall>g i ch. pcs g = Fetched i ch None \<longrightarrow> holds d i)
   \<and> (\<forall>g i. pcs g = Returned i None \<longrightarrow> valid i \<and> fl_done fl ! nat i)"

locale single_flight =
  fixes valid :: "int \<Rightarrow> bool"
    and ok :: "'v \<Rightarrow> bool"
    and fetch :: "'v \<Rightarrow> 'd \<Rightarrow> int \<Rightarrow> 'e option \<times> 'd"
    and fin :: "('e, 'm) flight_scheme \<Rightarrow> int \<Rightarrow> nat \<Rightarrow> 'e option \<Rightarrow> ('e, 'm) flight_scheme"
    and wk :: "('e, 'm) flight_scheme \<Rightarrow> int \<Rightarrow> 'e wake"
    and settled :: "('e, 'm) flight_scheme \<Rightarrow> int \<Rightarrow> bool"
    and dinv :: "'d \<Rightarrow> bool"
    and holds :: "'d \<Rightarrow> int \<Rightarrow> bool"
  assumes fin_done: "fl_done (fin fl i ch e) = (if e = None then (fl_done fl)[nat i := True] else fl_done fl)"
    and fin_inflight: "fl_inflight (fin fl i ch e) = (fl_inflight fl)(i := None)"
    and fin_chans: "fl_chans (fin fl i ch e) = fl_chans fl"
    and fin_closed: "fl_closed (fin fl i ch e) = insert ch (fl_closed fl)"
    and fin_settled: "nat i < length (fl_done fl) \<Longrightarrow> settled (fin fl i ch e) i"
    and fin_settled_other: "nat i < length (fl_done fl) \<Longrightarrow> settled fl j \<Longrightarrow> settled (fin fl i ch e) j"
    and enter_settled: "settled (fl\<lparr>fl_inflight := x, fl_chans := y\<rparr>) j = settled fl j"
    and wake_none: "settled fl i \<Longrightarrow> wk fl i = Woke None \<Longrightarrow> fl_done fl ! nat i"
    and fetch_inv: "ok env \<Longrightarrow> dinv d \<Longrightarrow> valid i \<Longrightarrow> dinv (snd (fetch env d i))"
    and fetch_holds: "ok env \<Longrightarrow> dinv d \<Longrightarrow> valid i \<Longrightarrow> fst (fetch env d i) = None
      \<Longrightarrow> holds (snd (fetch env d i)) i"
    and fetch_frame: "ok env \<Longrightarrow> dinv d \<Longrightarrow> valid i \<Longrightarrow> valid j \<Longrightarrow> j \<noteq> i \<Longrightarrow> holds d j
      \<Longrightarrow> holds (snd (fetch env d i)) j"
begin

lemma enter_lead:
  "flight_enter fl i = Lead ch fl' \<Longrightarrow> \<not> fl_done fl ! nat i \<and> fl_inflight fl i = None \<and> ch = fl_chans fl
    \<and> fl' = fl\<lparr>fl_inflight := (fl_inflight fl)(i := Some ch), fl_chans := Suc ch\<rparr>"
  by (auto simp: flight_enter_def split: if_splits option.splits)

lemma enter_join: "flight_enter fl i = Join ch \<Longrightarrow> fl_inflight fl i = Some ch"
  by (auto simp: flight_enter_def split: if_splits option.splits)

lemma enter_hit: "flight_enter fl i = Hit \<Longrightarrow> fl_done fl ! nat i"
  by (auto simp: flight_enter_def split: if_splits option.splits)

lemma structD:
  assumes "flight_struct valid settled fl pcs"
  shows lead_inflight: "leads (pcs g) = Some (i, ch) \<Longrightarrow> fl_inflight fl i = Some ch \<and> valid i"
    and lead_unique: "leads (pcs g) = Some (i, ch) \<Longrightarrow> leads (pcs g') = Some (i, ch') \<Longrightarrow> g = g'"
    and inflight_lead: "fl_inflight fl i = Some ch \<Longrightarrow>
      ch < fl_chans fl \<and> \<not> fl_done fl ! nat i \<and> (\<exists>g. leads (pcs g) = Some (i, ch))"
    and inflight_chan: "fl_inflight fl i = Some ch \<Longrightarrow>
      ch \<notin> fl_closed fl \<and> (\<forall>j. fl_inflight fl j = Some ch \<longrightarrow> j = i)"
    and closed_chan: "ch \<in> fl_closed fl \<Longrightarrow> ch < fl_chans fl"
    and waiting: "pcs g = Waiting i ch \<Longrightarrow>
      valid i \<and> (fl_inflight fl i = Some ch \<or> ch \<in> fl_closed fl \<and> settled fl i)"
    and calling: "pcs g = Calling i \<Longrightarrow> valid i"
    and valid_idx: "valid i \<Longrightarrow> 0 \<le> i \<and> nat i < length (fl_done fl)"
proof -
  note p = assms [unfolded flight_struct_def]
  from p have q1: "\<forall>g i ch. leads (pcs g) = Some (i, ch) \<longrightarrow> fl_inflight fl i = Some ch \<and> valid i" by simp
  from p have q2: "\<forall>g g' i ch ch'. leads (pcs g) = Some (i, ch) \<and> leads (pcs g') = Some (i, ch') \<longrightarrow> g = g'"
    by (elim conjE) assumption
  from p have q3: "\<forall>i ch. fl_inflight fl i = Some ch \<longrightarrow>
      ch < fl_chans fl \<and> \<not> fl_done fl ! nat i \<and> (\<exists>g. leads (pcs g) = Some (i, ch))" by simp
  from p have q4: "\<forall>i ch. fl_inflight fl i = Some ch \<longrightarrow>
      ch \<notin> fl_closed fl \<and> (\<forall>j. fl_inflight fl j = Some ch \<longrightarrow> j = i)" by (elim conjE) assumption
  from p have q5: "\<forall>ch. ch \<in> fl_closed fl \<longrightarrow> ch < fl_chans fl" by simp
  from p have q6: "\<forall>g i ch. pcs g = Waiting i ch \<longrightarrow>
      valid i \<and> (fl_inflight fl i = Some ch \<or> ch \<in> fl_closed fl \<and> settled fl i)" by simp
  from p have q7: "\<forall>g i. pcs g = Calling i \<longrightarrow> valid i" by simp
  from p have q8: "\<forall>i. valid i \<longrightarrow> 0 \<le> i \<and> nat i < length (fl_done fl)" by simp
  show "leads (pcs g) = Some (i, ch) \<Longrightarrow> fl_inflight fl i = Some ch \<and> valid i" using q1 by blast
  show "leads (pcs g) = Some (i, ch) \<Longrightarrow> leads (pcs g') = Some (i, ch') \<Longrightarrow> g = g'" using q2 by blast
  show "fl_inflight fl i = Some ch \<Longrightarrow>
      ch < fl_chans fl \<and> \<not> fl_done fl ! nat i \<and> (\<exists>g. leads (pcs g) = Some (i, ch))" using q3 by blast
  show "fl_inflight fl i = Some ch \<Longrightarrow>
      ch \<notin> fl_closed fl \<and> (\<forall>j. fl_inflight fl j = Some ch \<longrightarrow> j = i)" using q4 by blast
  show "ch \<in> fl_closed fl \<Longrightarrow> ch < fl_chans fl" using q5 by blast
  show "pcs g = Waiting i ch \<Longrightarrow>
      valid i \<and> (fl_inflight fl i = Some ch \<or> ch \<in> fl_closed fl \<and> settled fl i)" using q6 by blast
  show "pcs g = Calling i \<Longrightarrow> valid i" using q7 by blast
  show "valid i \<Longrightarrow> 0 \<le> i \<and> nat i < length (fl_done fl)" using q8 by blast
qed

lemma structI:
  assumes "\<And>g i ch. leads (pcs g) = Some (i, ch) \<Longrightarrow> fl_inflight fl i = Some ch \<and> valid i"
    and "\<And>g g' i ch ch'. leads (pcs g) = Some (i, ch) \<Longrightarrow> leads (pcs g') = Some (i, ch') \<Longrightarrow> g = g'"
    and "\<And>i ch. fl_inflight fl i = Some ch \<Longrightarrow>
      ch < fl_chans fl \<and> \<not> fl_done fl ! nat i \<and> (\<exists>g. leads (pcs g) = Some (i, ch))"
    and "\<And>i ch. fl_inflight fl i = Some ch \<Longrightarrow>
      ch \<notin> fl_closed fl \<and> (\<forall>j. fl_inflight fl j = Some ch \<longrightarrow> j = i)"
    and "\<And>ch. ch \<in> fl_closed fl \<Longrightarrow> ch < fl_chans fl"
    and "\<And>g i ch. pcs g = Waiting i ch \<Longrightarrow>
      valid i \<and> (fl_inflight fl i = Some ch \<or> ch \<in> fl_closed fl \<and> settled fl i)"
    and "\<And>g i. pcs g = Calling i \<Longrightarrow> valid i"
    and "\<And>i. valid i \<Longrightarrow> 0 \<le> i \<and> nat i < length (fl_done fl)"
  shows "flight_struct valid settled fl pcs"
  unfolding flight_struct_def using assms by (intro conjI allI impI) (elim conjE | blast)+

lemma struct_cong:
  assumes inv: "flight_struct valid settled fl pcs"
    and lead: "\<And>g. leads (pcs' g) = leads (pcs g)"
    and wait: "\<And>g i ch. pcs' g = Waiting i ch \<Longrightarrow>
      pcs g = Waiting i ch \<or> valid i \<and> fl_inflight fl i = Some ch"
    and call: "\<And>g i. pcs' g = Calling i \<Longrightarrow> pcs g = Calling i \<or> valid i"
  shows "flight_struct valid settled fl pcs'"
proof -
  note D = structD [OF inv]
  show ?thesis
  proof (rule structI, unfold lead)
    show "\<And>g i ch. leads (pcs g) = Some (i, ch) \<Longrightarrow> fl_inflight fl i = Some ch \<and> valid i" by (rule D(1))
    show "\<And>g g' i ch ch'. leads (pcs g) = Some (i, ch) \<Longrightarrow> leads (pcs g') = Some (i, ch') \<Longrightarrow> g = g'"
      by (rule D(2))
    show "\<And>g i ch. pcs' g = Waiting i ch \<Longrightarrow>
        valid i \<and> (fl_inflight fl i = Some ch \<or> ch \<in> fl_closed fl \<and> settled fl i)"
      using wait D(6) by blast
    show "\<And>g i. pcs' g = Calling i \<Longrightarrow> valid i" using call D(7) by blast
  qed (fact D)+
qed

lemma struct_move:
  assumes "flight_struct valid settled fl pcs" and "leads (pcs g) = None" and "leads p = None"
    and "\<And>i ch. p = Waiting i ch \<Longrightarrow> valid i \<and> fl_inflight fl i = Some ch"
    and "\<And>i. p = Calling i \<Longrightarrow> valid i"
  shows "flight_struct valid settled fl (pcs(g := p))"
  using assms(1) by (rule struct_cong) (use assms(2-) in \<open>auto split: if_splits\<close>)

lemma struct_lead:
  assumes inv: "flight_struct valid settled fl pcs" and pc: "pcs g = Calling i"
    and e: "flight_enter fl i = Lead ch fl'"
  shows "flight_struct valid settled fl' (pcs(g := Fetching i ch))"
proof -
  note D = structD [OF inv]
  have fl': "\<not> fl_done fl ! nat i" "fl_inflight fl i = None" "ch = fl_chans fl"
    "fl' = fl\<lparr>fl_inflight := (fl_inflight fl)(i := Some ch), fl_chans := Suc ch\<rparr>"
    using enter_lead [OF e] by auto
  have v: "valid i" using D(7) pc by simp
  have none: "leads (pcs g') \<noteq> Some (i, c)" for g' c using D(1) [of g' i c] fl'(2) by auto
  have fresh: "fl_inflight fl j \<noteq> Some ch" "ch \<notin> fl_closed fl" for j
    using D(3) [of j ch] D(5) [of ch] fl'(3) by auto
  have lead: "leads ((pcs(g := Fetching i ch)) g') = (if g' = g then Some (i, ch) else leads (pcs g'))" for g'
    by simp
  show ?thesis
  proof (rule structI, unfold lead)
    fix j c assume j: "fl_inflight fl' j = Some c"
    show "c < fl_chans fl' \<and> \<not> fl_done fl' ! nat j
        \<and> (\<exists>g'. (if g' = g then Some (i, ch) else leads (pcs g')) = Some (j, c))"
    proof (cases "j = i")
      case True
      then show ?thesis using j fl'(1) by (auto simp: fl'(4))
    next
      case False
      then have "fl_inflight fl j = Some c" using j by (simp add: fl'(4))
      then obtain g' where g': "leads (pcs g') = Some (j, c)" "c < fl_chans fl" "\<not> fl_done fl ! nat j"
        using D(3) by blast
      then have "g' \<noteq> g" using pc by auto
      then have "(if g' = g then Some (i, ch) else leads (pcs g')) = Some (j, c)" using g' by simp
      moreover have "c < fl_chans fl' \<and> \<not> fl_done fl' ! nat j" using g' fl'(3) by (simp add: fl'(4))
      ultimately show ?thesis by blast
    qed
  next
    fix g' j c assume "(pcs(g := Fetching i ch)) g' = Waiting j c"
    then have "pcs g' = Waiting j c" by (auto split: if_splits)
    then show "valid j \<and> (fl_inflight fl' j = Some c \<or> c \<in> fl_closed fl' \<and> settled fl' j)"
      using D(6) [of g' j c] fl'(2) by (auto simp: fl'(4) enter_settled)
  qed (use D v none fresh fl'(2,3) in
        \<open>auto simp: fl'(4) enter_settled less_Suc_eq split: if_splits\<close>)
qed

lemma struct_fetched:
  assumes "flight_struct valid settled fl pcs" and "pcs g = Fetching i ch"
  shows "flight_struct valid settled fl (pcs(g := Fetched i ch e))"
  using assms(1) by (rule struct_cong) (use assms(2) in \<open>auto split: if_splits\<close>)

lemma struct_finish:
  assumes inv: "flight_struct valid settled fl pcs" and pc: "pcs g = Fetched i ch e"
  shows "flight_struct valid settled (fin fl i ch e) (pcs(g := Returned i e))"
proof -
  note D = structD [OF inv]
  let ?fl = "fin fl i ch e"
  have own: "leads (pcs g) = Some (i, ch)" using pc by simp
  have i: "fl_inflight fl i = Some ch" "valid i" using D(1) [OF own] by auto
  have idx: "0 \<le> i" "nat i < length (fl_done fl)" using D(8) [OF i(2)] by auto
  have lead: "leads ((pcs(g := Returned i e)) g') = (if g' = g then None else leads (pcs g'))" for g' by simp
  have other: "j \<noteq> i" if "leads (pcs g') = Some (j, c)" "g' \<noteq> g" for g' j c
    using D(2) [OF own, of g' c] that by auto
  show ?thesis
  proof (rule structI, unfold lead)
    fix j c assume "fl_inflight ?fl j = Some c"
    then have j: "j \<noteq> i" "fl_inflight fl j = Some c" by (auto simp: fin_inflight split: if_splits)
    then obtain g' where g': "leads (pcs g') = Some (j, c)" "c < fl_chans fl" "\<not> fl_done fl ! nat j"
      using D(3) by blast
    have "nat j \<noteq> nat i" using D(1) [OF g'(1)] D(8) [of j] j(1) idx(1) by auto
    then have "c < fl_chans ?fl \<and> \<not> fl_done ?fl ! nat j" using g' by (simp add: fin_chans fin_done)
    moreover have "g' \<noteq> g" using g' own j(1) by auto
    then have "(if g' = g then None else leads (pcs g')) = Some (j, c)" using g' by simp
    ultimately show "c < fl_chans ?fl \<and> \<not> fl_done ?fl ! nat j
        \<and> (\<exists>g'. (if g' = g then None else leads (pcs g')) = Some (j, c))" by blast
  next
    fix g' j c assume "(pcs(g := Returned i e)) g' = Waiting j c"
    then have "pcs g' = Waiting j c" by (auto split: if_splits)
    then show "valid j \<and> (fl_inflight ?fl j = Some c \<or> c \<in> fl_closed ?fl \<and> settled ?fl j)"
      using D(6) [of g' j c] fin_settled [OF idx(2)] fin_settled_other [OF idx(2)] i(1)
      by (cases "j = i") (auto simp: fin_inflight fin_closed)
  qed (use D i other in
        \<open>auto simp: fin_inflight fin_closed fin_chans fin_done split: if_splits\<close>)
qed

lemma struct_step:
  assumes "flight_struct valid settled fl pcs"
    and "flight_step valid ok fetch fin wk cancels (fl, d, pcs) (fl', d', pcs')"
  shows "flight_struct valid settled fl' pcs'"
  using assms(2)
proof (cases rule: flight_step.cases)
  case (call g i)
  then show ?thesis using assms(1) by (auto intro!: struct_move)
next
  case (hit g i)
  then show ?thesis using assms(1) by (auto intro!: struct_move)
next
  case (join g i ch)
  then have "valid i" using assms(1) by (auto dest: structD(7))
  with join show ?thesis
    using assms(1) enter_join [of fl i ch] by (auto intro!: struct_move)
next
  case (lead g i ch)
  then show ?thesis using assms(1) struct_lead by simp
next
  case (fetch g i ch env e)
  then show ?thesis using assms(1) struct_fetched by simp
next
  case (finish g i ch e)
  then show ?thesis using assms(1) struct_finish by simp
next
  case (wake g i ch e)
  then show ?thesis using assms(1) by (auto intro!: struct_move)
next
  case (retry g i ch)
  then have "valid i" using assms(1) by (auto dest: structD(6))
  with retry show ?thesis using assms(1) by (auto intro!: struct_move)
next
  case (cancel g i ch e)
  then show ?thesis using assms(1) by (auto intro!: struct_move)
qed

lemma data_move:
  assumes "flight_data valid dinv holds fl d pcs"
    and "\<And>i ch. p = Fetched i ch None \<Longrightarrow> holds d i"
    and "\<And>i. p = Returned i None \<Longrightarrow> valid i \<and> fl_done fl ! nat i"
    and "fl_done fl' = fl_done fl"
  shows "flight_data valid dinv holds fl' d (pcs(g := p))"
  using assms unfolding flight_data_def by auto

lemma data_fetch:
  assumes s: "flight_struct valid settled fl pcs" and inv: "flight_data valid dinv holds fl d pcs"
    and pc: "pcs g = Fetching i ch" and e: "ok env" and f: "fetch env d i = (r, d')"
  shows "flight_data valid dinv holds fl d' (pcs(g := Fetched i ch r))"
proof -
  have "leads (pcs g) = Some (i, ch)" using pc by simp
  then have v: "valid i" "\<not> fl_done fl ! nat i" and
    u: "leads (pcs g') = Some (i, c) \<Longrightarrow> g' = g" and
    vl: "leads (pcs g') = Some (j, c) \<Longrightarrow> valid j" for g' c j
    using structD(1-3) [OF s] by (blast | metis)+
  have d: "dinv d" using inv by (simp add: flight_data_def)
  have d': "d' = snd (fetch env d i)" "r = fst (fetch env d i)" using f by simp_all
  have keep: "holds d' j" if "valid j" "j \<noteq> i" "holds d j" for j
    using fetch_frame [OF e d v(1) that] by (simp add: d')
  have "holds d' i" if "r = None" using that fetch_holds [OF e d v(1)] by (simp add: d')
  moreover have "dinv d'" using fetch_inv [OF e d v(1)] by (simp add: d')
  moreover have "holds d' j" if "valid j" "fl_done fl ! nat j" for j
    using that v(2) inv keep unfolding flight_data_def by metis
  moreover have "holds d' j" if "pcs g' = Fetched j c None" "g' \<noteq> g" for g' j c
    using that u [of g' c] vl [of g' j c] inv keep unfolding flight_data_def by fastforce
  ultimately show ?thesis
    using inv unfolding flight_data_def by auto
qed

lemma data_finish:
  assumes s: "flight_struct valid settled fl pcs" and inv: "flight_data valid dinv holds fl d pcs"
    and pc: "pcs g = Fetched i ch e"
  shows "flight_data valid dinv holds (fin fl i ch e) d (pcs(g := Returned i e))"
proof -
  have "leads (pcs g) = Some (i, ch)" using pc by simp
  then have v: "valid i" "nat i < length (fl_done fl)" "0 \<le> i" using structD(1,8) [OF s] by blast+
  have nn: "0 \<le> j" if "valid j" for j using structD(8) [OF s that] by blast
  have "holds d i" if "e = None" using inv pc that unfolding flight_data_def by auto
  then have "holds d j" if "valid j" "fl_done (fin fl i ch e) ! nat j" for j
    using that inv v(3) nn [OF that(1)] unfolding flight_data_def fin_done
    by (cases "j = i") (auto split: if_splits)
  moreover have "valid j \<and> fl_done (fin fl i ch e) ! nat j" if "(pcs(g := Returned i e)) g' = Returned j None" for g' j
  proof (cases "g' = g")
    case True
    then show ?thesis using that v by (auto simp: fin_done)
  next
    case False
    then have "valid j \<and> fl_done fl ! nat j" using that inv by (auto simp: flight_data_def)
    then show ?thesis using v(2) by (cases "nat i = nat j") (auto simp: fin_done)
  qed
  ultimately show ?thesis using inv unfolding flight_data_def by auto
qed

lemma data_step:
  assumes s: "flight_struct valid settled fl pcs" and inv: "flight_data valid dinv holds fl d pcs"
    and "flight_step valid ok fetch fin wk cancels (fl, d, pcs) (fl', d', pcs')"
  shows "flight_data valid dinv holds fl' d' pcs'"
  using assms(3)
proof (cases rule: flight_step.cases)
  case (call g i)
  then show ?thesis using inv by (auto intro!: data_move [where fl = fl])
next
  case (hit g i)
  then have "valid i" "fl_done fl ! nat i"
    using structD(7) [OF s] enter_hit [of fl i] by auto
  with hit show ?thesis using inv by (auto intro!: data_move [where fl = fl])
next
  case (join g i ch)
  then show ?thesis using inv by (auto intro!: data_move [where fl = fl])
next
  case (lead g i ch)
  then show ?thesis using inv enter_lead [of fl i ch fl'] by (auto intro!: data_move [where fl = fl])
next
  case (fetch g i ch env e)
  then show ?thesis using data_fetch [OF s inv] by simp
next
  case (finish g i ch e)
  then show ?thesis using data_finish [OF s inv] by simp
next
  case (wake g i ch e)
  have "valid i \<and> fl_done fl ! nat i" if "e = None"
  proof -
    have "settled fl i" "valid i" using structD(4,6) [OF s] wake by blast+
    then show ?thesis using wake_none wake that by auto
  qed
  with wake show ?thesis using inv by (auto intro!: data_move [where fl = fl])
next
  case (retry g i ch)
  then show ?thesis using inv by (auto intro!: data_move [where fl = fl])
next
  case (cancel g i ch e)
  then show ?thesis using inv by (auto intro!: data_move [where fl = fl])
qed

lemma struct_init:
  assumes "fl_inflight fl = (\<lambda>_. None)" and "fl_closed fl = {}"
    and "\<And>i. valid i \<Longrightarrow> 0 \<le> i \<and> nat i < length (fl_done fl)"
  shows "flight_struct valid settled fl (\<lambda>_. Idle)"
  using assms by (intro structI) auto

lemma data_init:
  assumes "dinv d" and "\<And>i. valid i \<Longrightarrow> fl_done fl ! nat i \<Longrightarrow> holds d i"
  shows "flight_data valid dinv holds fl d (\<lambda>_. Idle)"
  using assms by (simp add: flight_data_def)

lemma reach_inv:
  assumes "flight_reach valid ok fetch fin wk cancels (fl0, d0, pcs0) s"
    and "flight_struct valid settled fl0 pcs0" and "flight_data valid dinv holds fl0 d0 pcs0"
  shows "flight_struct valid settled (fst s) (snd (snd s))
    \<and> flight_data valid dinv holds (fst s) (fst (snd s)) (snd (snd s))"
  using assms(1)
proof (induction rule: flight_reach.induct)
  case start
  show ?case using assms(2,3) by simp
next
  case (step s t)
  obtain fl d pcs fl' d' pcs' where st: "s = (fl, d, pcs)" "t = (fl', d', pcs')"
    by (metis prod.exhaust)
  show ?case using step struct_step data_step unfolding st by auto
qed

lemma one_leader:
  assumes "flight_reach valid ok fetch fin wk cancels (fl0, d0, pcs0) (fl, d, pcs)"
    and "flight_struct valid settled fl0 pcs0" and "flight_data valid dinv holds fl0 d0 pcs0"
    and "leads (pcs g) = Some (i, ch)" and "leads (pcs g') = Some (i, ch')"
  shows "g = g'"
  using reach_inv [OF assms(1-3)] structD(2) assms(4,5) by fastforce

lemma returned_holds:
  assumes "flight_reach valid ok fetch fin wk cancels (fl0, d0, pcs0) (fl, d, pcs)"
    and "flight_struct valid settled fl0 pcs0" and "flight_data valid dinv holds fl0 d0 pcs0"
    and "pcs g = Returned i None"
  shows "valid i \<and> fl_done fl ! nat i \<and> holds d i"
  using reach_inv [OF assms(1-3)] assms(4) by (auto simp: flight_data_def)

text \<open>
  No call is ever stuck: while a call is in progress, a goroutine inside some call can step.
\<close>

lemma leader_works:
  assumes "leads (pcs g) = Some (i, ch)" and "ok env"
  shows "\<exists>t. flight_work valid ok fetch fin wk (fl, d, pcs) t"
proof (cases "pcs g")
  case (Fetching j c)
  obtain e d' where "fetch env d j = (e, d')" by (cases "fetch env d j")
  then have "flight_step valid ok fetch fin wk (\<lambda>_. False) (fl, d, pcs) (fl, d', pcs(g := Fetched j c e))"
    using Fetching assms(2) by (blast intro: flight_step.fetch)
  then show ?thesis using Fetching by (intro exI) (erule flight_workI, simp_all)
next
  case (Fetched j c e)
  then have "flight_step valid ok fetch fin wk (\<lambda>_. False) (fl, d, pcs) (fin fl j c e, d, pcs(g := Returned j e))"
    by (blast intro: flight_step.finish)
  then show ?thesis using Fetched by (intro exI) (erule flight_workI, simp_all)
qed (use assms(1) in simp_all)

lemma call_works:
  assumes s: "flight_struct valid settled fl pcs" and ok: "ok env" and g: "0 < call_work (pcs g)"
  shows "\<exists>t. flight_work valid ok fetch fin wk (fl, d, pcs) t"
proof (cases "pcs g")
  case (Calling i)
  have "\<exists>fl' p. flight_step valid ok fetch fin wk (\<lambda>_. False) (fl, d, pcs) (fl', d, pcs(g := p))"
    using Calling by (cases "flight_enter fl i") (blast intro: flight_step.hit flight_step.join flight_step.lead)+
  then show ?thesis using Calling by (elim exE) (intro exI, erule flight_workI, simp)
next
  case (Waiting i ch)
  show ?thesis
  proof (cases "ch \<in> fl_closed fl")
    case True
    then have "\<exists>p. flight_step valid ok fetch fin wk (\<lambda>_. False) (fl, d, pcs) (fl, d, pcs(g := p))"
      using Waiting by (cases "wk fl i") (blast intro: flight_step.wake flight_step.retry)+
    then show ?thesis using Waiting by (elim exE) (intro exI, erule flight_workI, simp)
  next
    case False
    then have "fl_inflight fl i = Some ch" using structD(6) [OF s Waiting] by simp
    then obtain g' where "leads (pcs g') = Some (i, ch)" using structD(3) [OF s] by blast
    then show ?thesis using ok by (rule leader_works)
  qed
next
  case (Fetching i ch)
  then have "leads (pcs g) = Some (i, ch)" by simp
  then show ?thesis using ok by (rule leader_works)
next
  case (Fetched i ch e)
  then have "leads (pcs g) = Some (i, ch)" by simp
  then show ?thesis using ok by (rule leader_works)
qed (use g in simp_all)

text \<open>
  When a woken waiter never goes back (the resolvers), every call returns: however the goroutines inside calls are scheduled, they take at most three steps per call, and when none of them can step any
  more no call is in progress.
\<close>

lemma calls_return:
  assumes r: "flight_reach valid ok fetch fin wk cancels (fl0, d0, \<lambda>_. Idle) (fl, d, pcs)"
    and init: "flight_struct valid settled fl0 (\<lambda>_. Idle)" "flight_data valid dinv holds fl0 d0 (\<lambda>_. Idle)"
    and ok: "ok env" and wk: "\<And>fl i. wk fl i \<noteq> Retry"
  shows "((flight_work valid ok fetch fin wk) ^^ n) (fl, d, pcs) t \<Longrightarrow> n \<le> 3 * card {g. 0 < call_work (pcs g)}"
    and "(flight_work valid ok fetch fin wk)\<^sup>*\<^sup>* (fl, d, pcs) t \<Longrightarrow> \<forall>u. \<not> flight_work valid ok fetch fin wk t u
      \<Longrightarrow> call_work (snd (snd t) g) = 0"
proof -
  let ?A = "{g. 0 < call_work (pcs g)}"
  assume "((flight_work valid ok fetch fin wk) ^^ n) (fl, d, pcs) t"
  then have "n \<le> (\<Sum>g \<in> ?A. call_work (pcs g))"
    using work_steps [where s = "(fl, d, pcs)" and t = t and wk = wk and n = n] wk flight_reach_finite [OF r] by fastforce
  also have "\<dots> \<le> (\<Sum>g \<in> ?A. 3)" by (rule sum_mono) (rule call_work_le)
  finally show "n \<le> 3 * card ?A" by (simp add: mult.commute)
next
  assume st: "(flight_work valid ok fetch fin wk)\<^sup>*\<^sup>* (fl, d, pcs) t" and stuck: "\<forall>u. \<not> flight_work valid ok fetch fin wk t u"
  have s: "flight_struct valid settled fl pcs" using reach_inv [OF r init] by simp
  have "flight_struct valid settled (fst t) (snd (snd t))"
    using st
  proof (induction rule: rtranclp_induct)
    case base
    show ?case using s by simp
  next
    case (step u v)
    then show ?case using struct_step by (cases u; cases v) (auto simp: flight_work_def)
  qed
  then show "call_work (snd (snd t) g) = 0"
    using call_works [OF _ ok, of "fst t" "snd (snd t)" g "fst (snd t)"] stuck by auto
qed

text \<open>A moment with no fetch in flight.\<close>

definition quiet :: "('e, 'm) flight_scheme \<Rightarrow> 'd \<Rightarrow> bool" where
  "quiet fl d \<longleftrightarrow> fl_inflight fl = (\<lambda>_. None) \<and> dinv d
     \<and> (\<forall>i. valid i \<longrightarrow> 0 \<le> i \<and> nat i < length (fl_done fl))
     \<and> (\<forall>i. valid i \<and> fl_done fl ! nat i \<longrightarrow> holds d i)"

lemma solo_call_quiet:
  assumes q: "quiet fl d" and ok: "ok env" and v: "valid i"
  obtains e fl' d' where "solo_call fetch fin env fl d i = (Done e, fl', d')" "quiet fl' d'"
    "e = None \<longleftrightarrow> fl_done fl' ! nat i"
    "fl_done fl' = (if fl_done fl ! nat i \<or> e = None then (fl_done fl)[nat i := True] else fl_done fl)"
    "fst (fetch env d i) = None \<longrightarrow> e = None"
    "fl_done fl ! nat i \<longrightarrow> fl' = fl \<and> d' = d \<and> e = None"
proof -
  have idx: "0 \<le> i" "nat i < length (fl_done fl)" using q v by (auto simp: quiet_def)
  show thesis
  proof (cases "fl_done fl ! nat i")
    case True
    then have "(fl_done fl)[nat i := True] = fl_done fl" by (metis list_update_id)
    then show thesis
      using True q by (intro that [of None fl d]) (auto simp: solo_call_def flight_enter_def)
  next
    case False
    obtain e d' where f: "fetch env d i = (e, d')" by fastforce
    define fl1 where "fl1 = fl\<lparr>fl_inflight := (fl_inflight fl)(i := Some (fl_chans fl)), fl_chans := Suc (fl_chans fl)\<rparr>"
    let ?fl = "fin fl1 i (fl_chans fl) e"
    have call: "solo_call fetch fin env fl d i = (Done e, ?fl, d')"
      using False q f by (simp add: solo_call_def flight_enter_def quiet_def fl1_def)
    have fd: "fl_done ?fl = (if e = None then (fl_done fl)[nat i := True] else fl_done fl)"
      by (simp add: fin_done fl1_def)
    have dinv: "dinv d" using q by (simp add: quiet_def)
    have "holds d' j" if j: "valid j" "fl_done ?fl ! nat j" for j
    proof (cases "j = i")
      case True
      then show ?thesis using j False fetch_holds [OF ok dinv v] f fd by (auto split: if_splits)
    next
      case ne: False
      then have "nat j \<noteq> nat i" using q j(1) idx(1) by (auto simp: quiet_def)
      then have "holds d j" using q j fd by (auto simp: quiet_def split: if_splits)
      then show ?thesis using fetch_frame [OF ok dinv v j(1) ne] f by simp
    qed
    moreover have "dinv d'" using fetch_inv [OF ok dinv v] f by simp
    moreover have "fl_inflight ?fl = (\<lambda>_. None)" using q by (auto simp: fin_inflight fl1_def quiet_def)
    ultimately have "quiet ?fl d'" using q fd by (simp add: quiet_def)
    then show thesis using call fd False f idx by (intro that [of e ?fl d']) auto
  qed
qed

end

section \<open>What the two kinds of finish and wake promise\<close>

text \<open>
  A resolver's chunk is settled once it is valid or has a recorded error: a waiter then never returns
  success without the chunk. A shared cache retries instead, so nothing has to be recorded.
\<close>

definition resolver_settled :: "'e flight \<Rightarrow> int \<Rightarrow> bool" where
  "resolver_settled fl i \<longleftrightarrow> fl_done fl ! nat i \<or> fl_err fl i \<noteq> None"

lemma resolver_finish_fields:
  "fl_done (resolver_finish fl i ch e) = (if e = None then (fl_done fl)[nat i := True] else fl_done fl)"
  "fl_inflight (resolver_finish fl i ch e) = (fl_inflight fl)(i := None)"
  "fl_chans (resolver_finish fl i ch e) = fl_chans fl"
  "fl_closed (resolver_finish fl i ch e) = insert ch (fl_closed fl)"
  "fl_err (resolver_finish fl i ch e) = (fl_err fl)(i := e)"
  by (auto simp: resolver_finish_def Let_def split: option.splits)

lemma cache_finish_fields:
  "fl_done (cache_finish fl i ch e) = (if e = None then (fl_done fl)[nat i := True] else fl_done fl)"
  "fl_inflight (cache_finish fl i ch e) = (fl_inflight fl)(i := None)"
  "fl_chans (cache_finish fl i ch e) = fl_chans fl"
  "fl_closed (cache_finish fl i ch e) = insert ch (fl_closed fl)"
  "fl_dirty (cache_finish fl i ch e) = (if e = None then fl_dirty fl + 1 else fl_dirty fl)"
  by (auto simp: cache_finish_def Let_def split: option.splits)

lemma resolver_finish_settled:
  assumes "nat i < length (fl_done fl)"
  shows "resolver_settled (resolver_finish fl i ch e) i"
    and "resolver_settled fl j \<Longrightarrow> resolver_settled (resolver_finish fl i ch e) j"
  using assms
  by (cases e; auto simp: resolver_settled_def resolver_finish_fields nth_list_update)+

lemma resolver_wake_none:
  "resolver_settled fl i \<Longrightarrow> resolver_wake fl i = Woke None \<Longrightarrow> fl_done fl ! nat i"
  by (auto simp: resolver_settled_def resolver_wake_def split: if_splits)

lemma cache_wake_none: "cache_wake fl i = Woke None \<Longrightarrow> fl_done fl ! nat i"
  by (auto simp: cache_wake_def split: if_splits)

lemmas flight_finish_fields = resolver_finish_fields cache_finish_fields

end
