(* ===== verification/Mem_Resolver.thy ===== *)
theory Mem_Resolver
  imports Mem_Codec Chunk_Store Single_Flight
begin

text \<open>
  The per-restore page resolver of the memory stream
  (\<^verbatim>\<open>src/agent/internal/memstream/resolver.go\<close>) and the recording and replay of its working set
  (\<open>BuildPrefetch\<close>, \<open>Prefault\<close> in \<^verbatim>\<open>prefetch.go\<close>).

  The resolver is a record: header, page size, the mutex-guarded \<open>flight\<close> state, the sparse cache file
  and the counters. \<open>ms_ensureChunk\<close> is one call running alone; a call that would wait on another
  goroutine's channel is \<open>Blocked\<close>, and an index panic is \<open>Panics\<close>. All interleavings of calls are
  covered by the interpretation \<open>ms_flight\<close> of \<open>single_flight\<close>.
\<close>

section \<open>State and operations\<close>

datatype ms_rerror =
    FetchError int int int string
  | ShortFetch int int int
  | CacheWriteError int string
  | OffsetOutOfRange int int
  | CacheReadError string
  | NilHeader
  | OpenCacheError string
  | SizeCacheError string

record ms_Resolver =
  rs_h :: ms_Header
  rs_pageSize :: int
  rs_fl :: "ms_rerror flight"
  rs_store :: store
  rs_faults :: int
  rs_zeroFill :: int

definition ms_PageSize :: int where
  "ms_PageSize = 4096"

text \<open>
  \<open>existing\<close> is the content found at \<open>cachePath\<close> (empty when the file is created) or the error of
  \<open>OpenFile\<close>; \<open>trunc\<close> is the error of \<open>Truncate\<close>, which also rejects a negative size.
\<close>

definition ms_NewResolver ::
  "ms_Header option \<Rightarrow> string + byte list \<Rightarrow> string option \<Rightarrow> int \<Rightarrow> ms_rerror + ms_Resolver" where
  "ms_NewResolver ho existing trunc pageSize0 =
     (case ho of
        None \<Rightarrow> Inl NilHeader
      | Some h \<Rightarrow>
          (let pageSize = (if pageSize0 \<le> 0 then ms_PageSize else pageSize0) in
           case existing of
             Inl e \<Rightarrow> Inl (OpenCacheError e)
           | Inr f \<Rightarrow>
               (if sint (ms_TotalSize h) < 0 then Inl (SizeCacheError ''invalid argument'')
                else case trunc of
                  Some e \<Rightarrow> Inl (SizeCacheError e)
                | None \<Rightarrow> Inr \<lparr>rs_h = h, rs_pageSize = pageSize,
                     rs_fl = flight_init (nat (ms_NumChunks h)),
                     rs_store = \<lparr>st_file = truncate_to f (nat (sint (ms_TotalSize h))),
                                 st_fetches = 0, st_verifyErr = 0\<rparr>,
                     rs_faults = 0, rs_zeroFill = 0\<rparr>)))"

definition ms_fetchChunk ::
  "ms_Header \<Rightarrow> fetch_env \<Rightarrow> store \<Rightarrow> int \<Rightarrow> ms_rerror option \<times> store" where
  "ms_fetchChunk h env st idx =
     (let (off, len) = ms_ChunkRange h idx in
      if len = 0 then (None, st)
      else let (buf, err) = src_read env off len in
        case err of
          Some e \<Rightarrow> (Some (FetchError idx off len e), st)
        | None \<Rightarrow>
            if int (length buf) < len then (Some (ShortFetch idx (int (length buf)) len), st)
            else case write_fail env of
                Some (k, e) \<Rightarrow>
                  (Some (CacheWriteError idx e),
                   st\<lparr>st_file := write_at (st_file st) (nat off) (take k buf)\<rparr>)
              | None \<Rightarrow>
                  (None, st\<lparr>st_file := write_at (st_file st) (nat off) buf,
                            st_fetches := st_fetches st + 1\<rparr>))"

definition ms_ensureChunk :: "fetch_env \<Rightarrow> ms_Resolver \<Rightarrow> int \<Rightarrow> ms_rerror call \<times> ms_Resolver" where
  "ms_ensureChunk env r idx =
     (if idx < 0 \<or> int (length (fl_done (rs_fl r))) \<le> idx then (Panics, r)
      else case flight_enter (rs_fl r) idx of
        Hit \<Rightarrow> (Done None, r)
      | Join ch \<Rightarrow> (Blocked, r)
      | Lead ch fl1 \<Rightarrow>
          (let (err, st) = ms_fetchChunk (rs_h r) env (rs_store r) idx in
           (Done err, r\<lparr>rs_fl := resolver_finish fl1 idx ch err, rs_store := st\<rparr>)))"

definition ms_EnsureChunk :: "fetch_env \<Rightarrow> ms_Resolver \<Rightarrow> int \<Rightarrow> ms_rerror call \<times> ms_Resolver" where
  "ms_EnsureChunk env r idx =
     (if \<not> ms_IsPresent (rs_h r) idx then (Done None, r) else ms_ensureChunk env r idx)"

text \<open>
  \<open>ResolvePage\<close> returns the outcome, the destination buffer as it leaves it, and the new state.
  \<open>rd\<close> is the error of the final \<open>cache.ReadAt\<close> when it is not \<open>EOF\<close>.
\<close>

definition clamp_len :: "int \<Rightarrow> int \<Rightarrow> int \<Rightarrow> int" where
  "clamp_len sz off len = (if i64 (off + len) > sz then i64 (sz - off) else len)"

definition ms_ResolvePage ::
  "fetch_env \<Rightarrow> string option \<Rightarrow> ms_Resolver \<Rightarrow> int \<Rightarrow> byte list \<Rightarrow> ms_rerror call \<times> byte list \<times> ms_Resolver" where
  "ms_ResolvePage env rd r0 off dst =
     (let r = r0\<lparr>rs_faults := rs_faults r0 + 1\<rparr>; h = rs_h r; total = sint (ms_TotalSize h) in
      if off < 0 \<or> off \<ge> total then (Done (Some (OffsetOutOfRange off total)), dst, r)
      else
        let plen = clamp_len total off (int (length dst));
            chunk = ms_ChunkForOffset h off
        in if \<not> ms_IsPresent h chunk
           then (Done None, zeros (nat plen) @ drop (nat plen) dst, r\<lparr>rs_zeroFill := rs_zeroFill r + 1\<rparr>)
           else case ms_ensureChunk env r chunk of
               (Done None, r1) \<Rightarrow>
                 (case rd of
                    Some e \<Rightarrow> (Done (Some (CacheReadError e)), dst, r1)
                  | None \<Rightarrow>
                     (let got = seg (nat off) (nat plen) (st_file (rs_store r1)) in
                      (Done None, got @ drop (length got) dst, r1)))
             | (bad, r1) \<Rightarrow> (bad, dst, r1))"

definition ms_FetchedChunks :: "ms_Resolver \<Rightarrow> int list" where
  "ms_FetchedChunks r = map int (filter (\<lambda>i. fl_done (rs_fl r) ! i) [0..<length (fl_done (rs_fl r))])"

definition ms_BuildPrefetch :: "ms_Resolver \<Rightarrow> ms_Prefetch" where
  "ms_BuildPrefetch r =
     \<lparr>ms_pVersion = ms_prefetchVersion, ms_pChunkSize = ms_ChunkSize (rs_h r),
      ms_Chunks = map word_of_int (sort (ms_FetchedChunks r))\<rparr>"

text \<open>
  \<open>Prefault\<close>: the workers drain the list front to back, each error is ignored, and a cancelled
  context stops after the chunks already handed out (\<open>stop\<close>). The workers' interleavings are those of
  \<open>flight_step\<close>; this is one of them, the sequential one.
\<close>

definition prefault_workers :: "int \<Rightarrow> nat \<Rightarrow> nat" where
  "prefault_workers workers n =
     (let w = (if workers \<le> 0 then 4 else workers) in if w > int n then n else nat w)"

fun ms_prefault_loop :: "fetch_env \<Rightarrow> ms_Resolver \<Rightarrow> u32 list \<Rightarrow> ms_Resolver" where
  "ms_prefault_loop env r [] = r"
| "ms_prefault_loop env r (c # cs) = ms_prefault_loop env (snd (ms_EnsureChunk env r (uint c))) cs"

definition ms_Prefault ::
  "fetch_env \<Rightarrow> ms_Resolver \<Rightarrow> u32 list \<Rightarrow> u32 \<Rightarrow> nat option \<Rightarrow> ms_Resolver" where
  "ms_Prefault env r chunks chunkSize stop =
     (if chunks = [] then r
      else if chunkSize \<noteq> 0 \<and> chunkSize \<noteq> ms_ChunkSize (rs_h r) then r
      else ms_prefault_loop env r (case stop of None \<Rightarrow> chunks | Some k \<Rightarrow> take k chunks))"

section \<open>Invariant\<close>

definition ms_describes :: "ms_Header \<Rightarrow> byte list \<Rightarrow> bool" where
  "ms_describes h img \<longleftrightarrow> describes (ms_ChunkSize h) (ms_TotalSize h) (ms_present h) img"

definition ms_valid :: "ms_Header \<Rightarrow> int \<Rightarrow> bool" where
  "ms_valid h i \<longleftrightarrow> valid_chunk (ms_ChunkSize h) (ms_TotalSize h) i \<and> ms_IsPresent h i"

definition ms_inv :: "byte list \<Rightarrow> ms_Resolver \<Rightarrow> bool" where
  "ms_inv img r \<longleftrightarrow> ms_describes (rs_h r) img \<and> fl_inflight (rs_fl r) = (\<lambda>_. None)
     \<and> store_inv (ms_ChunkSize (rs_h r)) (ms_TotalSize (rs_h r)) (ms_present (rs_h r)) img
         (st_file (rs_store r)) (fl_done (rs_fl r))
     \<and> (\<forall>i < length (fl_done (rs_fl r)). fl_done (rs_fl r) ! i \<longrightarrow> ms_IsPresent (rs_h r) (int i))"

definition ms_holds :: "ms_Header \<Rightarrow> byte list \<Rightarrow> store \<Rightarrow> int \<Rightarrow> bool" where
  "ms_holds h img st i \<longleftrightarrow> chunk_holds (ms_ChunkSize h) (ms_TotalSize h) img (st_file st) i"

definition ms_sparse :: "ms_Header \<Rightarrow> store \<Rightarrow> bool" where
  "ms_sparse h st \<longleftrightarrow> sparse_ok (ms_ChunkSize h) (ms_TotalSize h) (ms_present h) (st_file st)"

lemma ms_valid_present: "ms_describes h img \<Longrightarrow> ms_IsPresent h i \<Longrightarrow> ms_valid h i"
  using is_present_valid [of "ms_present h" i]
  by (simp add: ms_valid_def ms_IsPresent_def ms_describes_def describes_def valid_chunk_def)

text \<open>One fetch against any well-behaved source touches only its own chunk.\<close>

lemma ms_fetchChunk_cases:
  assumes d: "ms_describes h img" and v: "ms_valid h i" and ok: "source_of img env"
  obtains
    (none) "\<exists>e. ms_fetchChunk h env st i = (Some e, st)"
  | (partial) b e where "length b \<le> chunk_len (ms_ChunkSize h) (ms_TotalSize h) i"
      "ms_fetchChunk h env st i = (Some e, st\<lparr>st_file :=
         write_at (st_file st) (chunk_off (ms_ChunkSize h) (ms_TotalSize h) i) b\<rparr>)"
  | (full) b where "b = seg (chunk_off (ms_ChunkSize h) (ms_TotalSize h) i)
         (chunk_len (ms_ChunkSize h) (ms_TotalSize h) i) img"
      "length b = chunk_len (ms_ChunkSize h) (ms_TotalSize h) i"
      "ms_fetchChunk h env st i = (None, st\<lparr>st_file :=
         write_at (st_file st) (chunk_off (ms_ChunkSize h) (ms_TotalSize h) i) b,
         st_fetches := st_fetches st + 1\<rparr>)"
proof -
  let ?cs = "ms_ChunkSize h" and ?ts = "ms_TotalSize h"
  have g: "geom_ok ?cs ?ts" and vc: "valid_chunk ?cs ?ts i"
    using d v by (simp_all add: ms_describes_def describes_def ms_valid_def)
  obtain off len where r: "ms_ChunkRange h i = (off, len)" by fastforce
  note sp = chunk_span [OF g vc]
  have eq: "chunk_range ?cs ?ts i = (off, len)" using r by (simp add: ms_ChunkRange_def)
  have "0 \<le> i" "i < num_chunks ?cs ?ts" using vc by (simp_all add: valid_chunk_def)
  then have o: "off = int (chunk_off ?cs ?ts i)" and l: "len = int (chunk_len ?cs ?ts i)"
    using chunk_range_eq [OF g, of i] sp(1,2) eq by simp_all
  obtain buf err where rd: "src_read env off len = (buf, err)" by fastforce
  have blen: "length buf \<le> chunk_len ?cs ?ts i"
    using ok rd o l unfolding source_of_def reader_ok_def by (metis fst_conv of_nat_0_le_iff of_nat_le_iff)
  show thesis
  proof (cases "err = None \<and> length buf = chunk_len ?cs ?ts i")
    case False
    then have "\<exists>e. ms_fetchChunk h env st i = (Some e, st)"
      using rd l blen sp(3) by (cases err) (auto simp: ms_fetchChunk_def r)
    then show thesis by (rule none)
  next
    case True
    then have buf: "buf = seg (chunk_off ?cs ?ts i) (chunk_len ?cs ?ts i) img"
      using ok rd o l unfolding source_of_def by (metis nat_int of_nat_0_le_iff)
    show thesis
    proof (cases "write_fail env")
      case None
      then show thesis using True rd o l sp(3) buf by (intro full) (auto simp: ms_fetchChunk_def r)
    next
      case (Some ke)
      obtain k e where ke: "ke = (k, e)" by fastforce
      show thesis
        using True rd o l sp(3) Some ke blen
        by (intro partial [of "take k buf" "CacheWriteError i e"]) (auto simp: ms_fetchChunk_def r)
    qed
  qed
qed

text \<open>In a healthy world the fetch of a chunk succeeds.\<close>

lemma ms_fetchChunk_healthy:
  assumes d: "ms_describes h img" and v: "ms_valid h i" and ok: "healthy img env"
  shows "fst (ms_fetchChunk h env st i) = None"
proof -
  let ?cs = "ms_ChunkSize h" and ?ts = "ms_TotalSize h"
  have g: "geom_ok ?cs ?ts" and vc: "valid_chunk ?cs ?ts i" and li: "unat ?ts = length img"
    using d v by (simp_all add: ms_describes_def describes_def ms_valid_def)
  note sp = chunk_span [OF g vc]
  have "0 \<le> i" "i < num_chunks ?cs ?ts" using vc by (simp_all add: valid_chunk_def)
  then have r: "ms_ChunkRange h i = (int (chunk_off ?cs ?ts i), int (chunk_len ?cs ?ts i))"
    using chunk_range_eq [OF g, of i] sp(1,2) by (simp add: ms_ChunkRange_def)
  have "src_read env (int (chunk_off ?cs ?ts i)) (int (chunk_len ?cs ?ts i))
      = (seg (chunk_off ?cs ?ts i) (chunk_len ?cs ?ts i) img, None)"
    using ok sp(4) li by (simp add: healthy_def)
  then show ?thesis
    using r sp(3,4) li ok by (simp add: ms_fetchChunk_def healthy_def)
qed

definition ms_dinv :: "ms_Header \<Rightarrow> byte list \<Rightarrow> store \<Rightarrow> bool" where
  "ms_dinv h img st \<longleftrightarrow> ms_describes h img \<and> ms_sparse h st"

lemma ms_fetchChunk_laws:
  assumes ok: "source_of img env" and dinv: "ms_dinv h img st" and v: "ms_valid h i"
  shows "ms_dinv h img (snd (ms_fetchChunk h env st i))"
    and "fst (ms_fetchChunk h env st i) = None \<Longrightarrow> ms_holds h img (snd (ms_fetchChunk h env st i)) i"
    and "ms_valid h j \<Longrightarrow> j \<noteq> i \<Longrightarrow> ms_holds h img st j
      \<Longrightarrow> ms_holds h img (snd (ms_fetchChunk h env st i)) j"
proof -
  let ?cs = "ms_ChunkSize h" and ?ts = "ms_TotalSize h"
  have d: "ms_describes h img" and s: "sparse_ok ?cs ?ts (ms_present h) (st_file st)"
    using dinv by (simp_all add: ms_dinv_def ms_sparse_def)
  have g: "geom_ok ?cs ?ts" and li: "length img = unat ?ts"
    using d by (simp_all add: ms_describes_def describes_def)
  have vc: "valid_chunk ?cs ?ts i" and p: "is_present (ms_present h) i"
    using v by (simp_all add: ms_valid_def ms_IsPresent_def)
  have goals: "ms_dinv h img (snd (ms_fetchChunk h env st i))
    \<and> (fst (ms_fetchChunk h env st i) = None \<longrightarrow> ms_holds h img (snd (ms_fetchChunk h env st i)) i)
    \<and> (\<forall>j. ms_valid h j \<and> j \<noteq> i \<and> ms_holds h img st j
        \<longrightarrow> ms_holds h img (snd (ms_fetchChunk h env st i)) j)"
  proof (cases rule: ms_fetchChunk_cases [OF d v ok, of st, case_names none partial full])
    case none
    then show ?thesis using dinv by auto
  next
    case (partial b e)
    then show ?thesis
      using d write_chunk_frame [OF g vc p s partial(1)]
      by (auto simp: ms_dinv_def ms_sparse_def ms_holds_def ms_valid_def)
  next
    case (full b)
    then show ?thesis
      using d write_chunk_frame [OF g vc p s, of b] write_chunk_holds [OF g vc s full(1) li]
      by (auto simp: ms_dinv_def ms_sparse_def ms_holds_def ms_valid_def)
  qed
  show "ms_dinv h img (snd (ms_fetchChunk h env st i))" using goals by blast
  show "fst (ms_fetchChunk h env st i) = None \<Longrightarrow> ms_holds h img (snd (ms_fetchChunk h env st i)) i"
    using goals by blast
  show "ms_valid h j \<Longrightarrow> j \<noteq> i \<Longrightarrow> ms_holds h img st j
      \<Longrightarrow> ms_holds h img (snd (ms_fetchChunk h env st i)) j"
    using goals by blast
qed

interpretation ms_flight: single_flight "ms_valid h" "source_of img" "ms_fetchChunk h"
  resolver_finish resolver_wake resolver_settled "ms_dinv h img" "ms_holds h img" for h img
proof unfold_locales
  show "\<And>fl x y j. resolver_settled (fl\<lparr>fl_inflight := x, fl_chans := y\<rparr>) j = resolver_settled fl j"
    by (simp add: resolver_settled_def)
qed (auto intro: resolver_finish_settled resolver_wake_none ms_fetchChunk_laws
     simp: resolver_finish_fields)

section \<open>One goroutine at a time\<close>

lemma ms_NewResolver_inv:
  assumes "ms_describes h img" and "ms_NewResolver (Some h) (Inr []) None ps = Inr r"
  shows "ms_inv img r" and "rs_h r = h"
proof -
  have g: "geom_ok (ms_ChunkSize h) (ms_TotalSize h)"
    using assms(1) by (simp add: ms_describes_def describes_def)
  have "nat (sint (ms_TotalSize h)) = unat (ms_TotalSize h)" using geom_okD(4) [OF g] by simp
  moreover have "store_inv (ms_ChunkSize h) (ms_TotalSize h) (ms_present h) img
      (zeros (unat (ms_TotalSize h))) (replicate (nat (ms_NumChunks h)) False)"
    using assms(1) num_chunks_nonneg [OF g]
    by (intro store_inv_empty) (simp_all add: ms_describes_def ms_NumChunks_def)
  ultimately show "ms_inv img r" and "rs_h r = h"
    using assms by (auto simp: ms_NewResolver_def ms_inv_def flight_init_def truncate_to_Nil Let_def split: if_splits)
qed

lemma ms_ensureChunk_step:
  assumes inv: "ms_inv img r" and ok: "source_of img env" and p: "ms_IsPresent (rs_h r) i"
  obtains e r' where "ms_ensureChunk env r i = (Done e, r')" "ms_inv img r'" "rs_h r' = rs_h r"
    "e = None \<longleftrightarrow> fl_done (rs_fl r') ! nat i"
    "\<And>j. j \<noteq> nat i \<Longrightarrow> fl_done (rs_fl r') ! j = fl_done (rs_fl r) ! j"
    "fl_done (rs_fl r) ! nat i \<Longrightarrow> e = None \<and> r' = r"
    "healthy img env \<Longrightarrow> e = None"
    "length (fl_done (rs_fl r')) = length (fl_done (rs_fl r))"
proof -
  let ?h = "rs_h r" and ?fl = "rs_fl r"
  have d: "ms_describes ?h img" and none: "fl_inflight ?fl = (\<lambda>_. None)"
    and st: "store_inv (ms_ChunkSize ?h) (ms_TotalSize ?h) (ms_present ?h) img (st_file (rs_store r)) (fl_done ?fl)"
    using inv by (simp_all add: ms_inv_def)
  have v: "ms_valid ?h i" using d p by (rule ms_valid_present)
  have len: "0 \<le> i" "nat i < length (fl_done ?fl)" "i < int (length (fl_done ?fl))"
    using v st by (auto simp: ms_valid_def valid_chunk_def store_inv_def)
  show thesis
  proof (cases "fl_done ?fl ! nat i")
    case True
    then show thesis using len inv by (intro that [of None r]) (auto simp: ms_ensureChunk_def flight_enter_def)
  next
    case False
    obtain e st' where f: "ms_fetchChunk ?h env (rs_store r) i = (e, st')" by fastforce
    have dinv: "ms_dinv ?h img (rs_store r)" using d st by (simp add: ms_dinv_def ms_sparse_def store_inv_def)
    note laws = ms_fetchChunk_laws [OF ok dinv v]
    define fl1 where "fl1 = ?fl\<lparr>fl_inflight := (fl_inflight ?fl)(i := Some (fl_chans ?fl)),
      fl_chans := Suc (fl_chans ?fl)\<rparr>"
    define r' where "r' = r\<lparr>rs_fl := resolver_finish fl1 i (fl_chans ?fl) e, rs_store := st'\<rparr>"
    have call: "ms_ensureChunk env r i = (Done e, r')"
      using len False none f by (simp add: ms_ensureChunk_def flight_enter_def fl1_def r'_def)
    have fd: "fl_done (rs_fl r') = (if e = None then (fl_done ?fl)[nat i := True] else fl_done ?fl)"
      by (simp add: r'_def fl1_def resolver_finish_fields)
    have holds: "chunk_holds (ms_ChunkSize ?h) (ms_TotalSize ?h) img (st_file st') j"
      if "valid_chunk (ms_ChunkSize ?h) (ms_TotalSize ?h) j" "fl_done (rs_fl r') ! nat j" for j
    proof (cases "j = i")
      case True
      then show ?thesis using that False laws(2) f fd by (auto simp: ms_holds_def split: if_splits)
    next
      case ne: False
      have "nat j \<noteq> nat i" using ne len(1) that(1) by (auto simp: valid_chunk_def)
      then have "chunk_holds (ms_ChunkSize ?h) (ms_TotalSize ?h) img (st_file (rs_store r)) j"
        using that st fd by (auto simp: store_inv_def split: if_splits)
      moreover have "sparse_ok (ms_ChunkSize ?h) (ms_TotalSize ?h) (ms_present ?h) (st_file st')"
        using laws(1) f by (simp add: ms_dinv_def ms_sparse_def)
      ultimately show ?thesis
        using laws(3) [of j] ne that(1) f absent_holds [of "ms_ChunkSize ?h" "ms_TotalSize ?h" "ms_present ?h" img]
          d by (cases "ms_IsPresent ?h j") (auto simp: ms_holds_def ms_valid_def ms_describes_def ms_IsPresent_def)
    qed
    have "ms_IsPresent ?h (int j)" if "j < length (fl_done (rs_fl r'))" "fl_done (rs_fl r') ! j" for j
      using that fd inv p len(1) by (cases "j = nat i") (auto simp: ms_inv_def split: if_splits)
    then have "ms_inv img r'"
      unfolding ms_inv_def store_inv_def
      using d st none laws(1) f fd holds
      by (simp add: r'_def fl1_def resolver_finish_fields ms_dinv_def ms_sparse_def store_inv_def)
    then show thesis
      using call fd False len f ms_fetchChunk_healthy [OF d v, of env "rs_store r"]
      by (intro that [of e r']) (auto simp: r'_def)
  qed
qed

text \<open>The number of bytes \<open>ResolvePage\<close> serves, clamped at the end of the image.\<close>

definition ms_plen :: "byte list \<Rightarrow> int \<Rightarrow> byte list \<Rightarrow> nat" where
  "ms_plen img off dst = min (length dst) (length img - nat off)"

lemma ms_describes_total:
  assumes "ms_describes h img"
  shows "geom_ok (ms_ChunkSize h) (ms_TotalSize h)" "unat (ms_TotalSize h) = length img"
    "sint (ms_TotalSize h) = int (length img)"
proof -
  show g: "geom_ok (ms_ChunkSize h) (ms_TotalSize h)" and ts: "unat (ms_TotalSize h) = length img"
    using assms by (simp_all add: ms_describes_def describes_def)
  show "sint (ms_TotalSize h) = int (length img)"
    using geom_okD(4) [OF g] ts uint_nat [of "ms_TotalSize h"] by simp
qed

text \<open>A page inside one chunk reads the image's bytes once that chunk is elided or valid.\<close>

lemma ms_page_bytes:
  assumes inv: "ms_describes h img"
      "store_inv (ms_ChunkSize h) (ms_TotalSize h) (ms_present h) img f done"
    and off: "0 \<le> off" "off < int (length img)"
    and page: "ms_ChunkForOffset h (min (off + int (length dst)) (int (length img)) - 1) = ms_ChunkForOffset h off"
    and ready: "ms_IsPresent h (ms_ChunkForOffset h off) \<Longrightarrow> done ! nat (ms_ChunkForOffset h off)"
  shows "seg (nat off) (ms_plen img off dst) f = seg (nat off) (ms_plen img off dst) img"
proof -
  note t = ms_describes_total [OF inv(1)]
  have "chunk_for_offset (ms_ChunkSize h) (int k) = ms_ChunkForOffset h off"
    if k: "nat off \<le> k" "k < nat off + ms_plen img off dst" for k
  proof -
    have "off \<le> int k" "int k \<le> min (off + int (length dst)) (int (length img)) - 1"
      using k off unfolding ms_plen_def by linarith+
    then show ?thesis
      using chunk_for_offset_mono [OF t(1), of off "int k"] page off
        chunk_for_offset_mono [OF t(1), of "int k" "min (off + int (length dst)) (int (length img)) - 1"]
      by (simp add: ms_ChunkForOffset_def)
  qed
  moreover have "nat off + ms_plen img off dst \<le> unat (ms_TotalSize h)"
    using off t(2) unfolding ms_plen_def by linarith
  ultimately show ?thesis
    using inv ready by (intro store_read) (auto simp: ms_describes_def ms_IsPresent_def)
qed

lemma ms_ResolvePage_eq:
  fixes dst img :: "byte list"
  assumes "ms_describes (rs_h r) img" and "0 \<le> off" "off < int (length img)"
    and "int (length img) + int (length dst) < 2 ^ 63"
  shows "ms_ResolvePage env rd r off dst =
    (let r1 = r\<lparr>rs_faults := rs_faults r + 1\<rparr>; n = ms_plen img off dst;
         c = ms_ChunkForOffset (rs_h r) off in
     if \<not> ms_IsPresent (rs_h r) c
     then (Done None, zeros n @ drop n dst, r1\<lparr>rs_zeroFill := rs_zeroFill r1 + 1\<rparr>)
     else case ms_ensureChunk env r1 c of
         (Done None, r2) \<Rightarrow> (case rd of Some e \<Rightarrow> (Done (Some (CacheReadError e)), dst, r2)
           | None \<Rightarrow> (let got = seg (nat off) n (st_file (rs_store r2)) in (Done None, got @ drop (length got) dst, r2)))
       | (bad, r2) \<Rightarrow> (bad, dst, r2))"
proof -
  have "i64 (off + int (length dst)) = off + int (length dst)"
    "i64 (int (length img) - off) = int (length img) - off"
    using assms by (auto intro!: i64_id)
  then have "nat (clamp_len (int (length img)) off (int (length dst))) = ms_plen img off dst"
    using assms(2,3) by (auto simp: ms_plen_def clamp_len_def)
  then show ?thesis
    using assms(2,3) ms_describes_total(3) [OF assms(1)]
    by (auto simp: ms_ResolvePage_def Let_def split: prod.splits call.splits option.splits)
qed

lemma ms_ResolvePage_step:
  assumes inv: "ms_inv img r" and ok: "source_of img env"
    and off: "0 \<le> off" "off < int (length img)" and dst: "int (length img) + int (length dst) < 2 ^ 63"
    and page: "ms_ChunkForOffset (rs_h r) (min (off + int (length dst)) (int (length img)) - 1)
      = ms_ChunkForOffset (rs_h r) off"
  shows "\<exists>e dst' r'. ms_ResolvePage env rd r off dst = (Done e, dst', r') \<and> ms_inv img r' \<and> rs_h r' = rs_h r
    \<and> (e = None \<longrightarrow> dst' = seg (nat off) (length dst) img
         @ drop (min (length dst) (length img - nat off)) dst)
    \<and> (healthy img env \<and> rd = None \<longrightarrow> e = None)"
proof -
  let ?h = "rs_h r" and ?c = "ms_ChunkForOffset (rs_h r) off" and ?n = "ms_plen img off dst"
  define r1 where "r1 = r\<lparr>rs_faults := rs_faults r + 1\<rparr>"
  have d: "ms_describes ?h img" using inv by (simp add: ms_inv_def)
  note t = ms_describes_total [OF d] and eq = ms_ResolvePage_eq [OF d off dst, of env rd]
  have inv1: "ms_inv img r1" and h1: "rs_h r1 = ?h" using inv by (simp_all add: ms_inv_def r1_def)
  have img: "seg (nat off) ?n img = seg (nat off) (length dst) img" "length (seg (nat off) ?n img) = ?n"
    using off by (auto simp: seg_def ms_plen_def min_def)
  show ?thesis
  proof (cases "ms_IsPresent ?h ?c")
    case False
    have zfit: "nat off + ?n \<le> length img" using off by (simp add: ms_plen_def)
    have "store_inv (ms_ChunkSize ?h) (ms_TotalSize ?h) (ms_present ?h) img (zeros (length img))
        (replicate (nat (ms_NumChunks ?h)) False)"
      using d num_chunks_nonneg [OF t(1)] store_inv_empty [of "ms_ChunkSize ?h" "ms_TotalSize ?h"] t(2)
      by (simp add: ms_describes_def ms_NumChunks_def)
    then have "seg (nat off) ?n img = zeros ?n"
      using ms_page_bytes [OF d _ off page] False seg_zeros [of "nat off" ?n "length img"] zfit by metis
    then show ?thesis
      using False eq inv1 img(1) by (auto simp: Let_def r1_def ms_inv_def ms_plen_def)
  next
    case True
    obtain e r' where ec: "ms_ensureChunk env r1 ?c = (Done e, r')" "ms_inv img r'" "rs_h r' = ?h"
      "e = None \<longleftrightarrow> fl_done (rs_fl r') ! nat ?c" "healthy img env \<Longrightarrow> e = None"
      using ms_ensureChunk_step [OF inv1 ok] True h1 by metis
    have "seg (nat off) ?n (st_file (rs_store r')) = seg (nat off) ?n img" if "e = None"
      using ms_page_bytes [OF d _ off page] ec that by (auto simp: ms_inv_def)
    moreover have "length (st_file (rs_store r')) = length img"
      using ec(2,3) t(2) by (simp add: ms_inv_def store_inv_def sparse_ok_def)
    ultimately show ?thesis
      using True eq ec img by (cases e; cases rd) (auto simp: Let_def r1_def ms_plen_def)
  qed
qed

lemma ms_ResolvePage_length:
  assumes "ms_inv img r" and "0 \<le> off" "off < int (length img)" "int (length img) + int (length dst) < 2 ^ 63"
    and "ms_ResolvePage env rd r off dst = (c, dst', r')"
  shows "length dst' = length dst"
  using assms(5) ms_ResolvePage_eq [of r img off dst env rd] assms(1-4)
  by (auto simp: ms_inv_def Let_def ms_plen_def split: if_splits prod.splits call.splits option.splits)

text \<open>
  C2: a page fault that is resolved without error leaves in the destination exactly the bytes of the
  memory image at the faulting offset (clamped at the end of the image), for any honest source and any
  pattern of earlier faults, and keeps the invariant. It never panics, and it succeeds when the source
  and the local disk are healthy. The page must not straddle two
  chunks, which holds because chunk sizes are multiples of the page size.
\<close>

theorem ms_ResolvePage_correct:
  assumes inv: "ms_inv img r" and ok: "source_of img env"
    and off: "0 \<le> off" "off < int (length img)" and dst: "int (length img) + int (length dst) < 2 ^ 63"
    and page: "ms_ChunkForOffset (rs_h r) (min (off + int (length dst)) (int (length img)) - 1)
      = ms_ChunkForOffset (rs_h r) off"
  shows "\<exists>e dst' r'. ms_ResolvePage env rd r off dst = (Done e, dst', r') \<and> ms_inv img r'
    \<and> (e = None \<longrightarrow> dst' = seg (nat off) (length dst) img
         @ drop (min (length dst) (length img - nat off)) dst)
    \<and> (healthy img env \<and> rd = None \<longrightarrow> e = None)"
  using ms_ResolvePage_step [OF assms] by blast

section \<open>All interleavings\<close>

text \<open>A fresh resolver as a state of \<open>flight_step\<close>, with no goroutine inside \<open>ensureChunk\<close>.\<close>

definition ms_start :: "ms_Header \<Rightarrow> (ms_rerror, unit, store) fstate" where
  "ms_start h = (flight_init (nat (ms_NumChunks h)),
     \<lparr>st_file = zeros (unat (ms_TotalSize h)), st_fetches = 0, st_verifyErr = 0\<rparr>, \<lambda>_. Idle)"

abbreviation ms_reach :: "ms_Header \<Rightarrow> byte list \<Rightarrow> (ms_rerror, unit, store) fstate \<Rightarrow> bool" where
  "ms_reach h img \<equiv> flight_reach (ms_valid h) (source_of img) (ms_fetchChunk h) resolver_finish
     resolver_wake (\<lambda>_. False) (ms_start h)"

lemma ms_start_inv:
  assumes "ms_describes h img"
  shows "flight_struct (ms_valid h) resolver_settled (flight_init (nat (ms_NumChunks h)) :: ms_rerror flight) (\<lambda>_. Idle)"
    and "flight_data (ms_valid h) (ms_dinv h img) (ms_holds h img) (flight_init (nat (ms_NumChunks h)) :: ms_rerror flight)
      \<lparr>st_file = zeros (unat (ms_TotalSize h)), st_fetches = 0, st_verifyErr = 0\<rparr> (\<lambda>_. Idle)"
proof -
  have v: "0 \<le> i \<and> nat i < nat (ms_NumChunks h)" if "ms_valid h i" for i
    using that by (auto simp: ms_valid_def valid_chunk_def ms_NumChunks_def)
  then show "flight_struct (ms_valid h) resolver_settled (flight_init (nat (ms_NumChunks h)) :: ms_rerror flight) (\<lambda>_. Idle)"
    by (intro ms_flight.struct_init) (auto simp: flight_init_def)
  show "flight_data (ms_valid h) (ms_dinv h img) (ms_holds h img) (flight_init (nat (ms_NumChunks h)) :: ms_rerror flight)
      \<lparr>st_file = zeros (unat (ms_TotalSize h)), st_fetches = 0, st_verifyErr = 0\<rparr> (\<lambda>_. Idle)"
    using assms v sparse_ok_zeros ms_describes_total(1) [OF assms]
    by (intro ms_flight.data_init) (auto simp: ms_dinv_def ms_sparse_def flight_init_def)
qed

text \<open>
  C4: however the fault goroutines interleave, a chunk never has two fetches in flight.
\<close>

theorem ms_single_flight:
  assumes "ms_describes h img" and "ms_reach h img (fl, st, pcs)"
    and "leads (pcs g) = Some (i, ch)" and "leads (pcs g') = Some (i, ch')"
  shows "g = g'"
  using assms ms_flight.one_leader [OF _ ms_start_inv [OF assms(1)]] by (auto simp: ms_start_def)

text \<open>
  C5: however the fault goroutines interleave, a call of \<open>ensureChunk\<close> that returned without error
  (the leader that fetched the chunk, a waiter it woke, or a later hit) finds the image's bytes in the
  cache file, and they stay there.
\<close>

theorem ms_ensure_returns_image:
  assumes "ms_describes h img" and "ms_reach h img (fl, st, pcs)" and "pcs g = Returned i None"
  shows "seg (chunk_off (ms_ChunkSize h) (ms_TotalSize h) i) (chunk_len (ms_ChunkSize h) (ms_TotalSize h) i)
      (st_file st)
    = seg (chunk_off (ms_ChunkSize h) (ms_TotalSize h) i) (chunk_len (ms_ChunkSize h) (ms_TotalSize h) i) img"
  using assms ms_flight.returned_holds [OF _ ms_start_inv [OF assms(1)]]
  by (auto simp: ms_start_def ms_holds_def chunk_holds_def)

text \<open>A step of a goroutine inside \<open>ensureChunk\<close>; new calls are not among them.\<close>

abbreviation ms_work :: "ms_Header \<Rightarrow> byte list \<Rightarrow> (ms_rerror, unit, store) fstate \<Rightarrow> (ms_rerror, unit, store) fstate \<Rightarrow> bool" where
  "ms_work h img \<equiv> flight_work (ms_valid h) (source_of img) (ms_fetchChunk h) resolver_finish resolver_wake"

text \<open>
  C6: every call of \<open>ensureChunk\<close> returns. From any state the fault goroutines reach, however the goroutines inside calls are scheduled from then on, they take at most three steps per call in progress; and
  whenever none of them can step (each waits for a channel, say), no call is in progress. So no waiter is left behind by a leader, whether the leader's fetch succeeded or failed.
\<close>

theorem ms_calls_return:
  assumes "ms_describes h img" and "ms_reach h img (fl, st, pcs)" and "source_of img env"
  shows "(\<forall>n t. ((ms_work h img) ^^ n) (fl, st, pcs) t \<longrightarrow> n \<le> 3 * card {g. 0 < call_work (pcs g)})
    \<and> (\<forall>t. (ms_work h img)\<^sup>*\<^sup>* (fl, st, pcs) t \<and> (\<forall>u. \<not> ms_work h img t u) \<longrightarrow> (\<forall>g. call_work (snd (snd t) g) = 0))"
proof -
  have wk: "\<And>fl i. resolver_wake fl i \<noteq> (Retry :: ms_rerror wake)" by (simp add: resolver_wake_def)
  note R = ms_flight.calls_return [OF assms(2) [unfolded ms_start_def] ms_start_inv [OF assms(1)] assms(3) wk]
  show ?thesis using R by blast
qed

section \<open>Recording and replaying the working set\<close>

lemma ms_EnsureChunk_healthy:
  fixes i :: int
  assumes inv: "ms_inv img r" and ok: "healthy img env"
  defines "r' \<equiv> snd (ms_EnsureChunk env r i)"
  shows "ms_inv img r' \<and> rs_h r' = rs_h r \<and> length (fl_done (rs_fl r')) = length (fl_done (rs_fl r))
    \<and> (\<forall>j. fl_done (rs_fl r') ! j \<longleftrightarrow> fl_done (rs_fl r) ! j \<or> ms_IsPresent (rs_h r) i \<and> i = int j)"
proof (cases "ms_IsPresent (rs_h r) i")
  case False
  then show ?thesis using inv by (simp add: r'_def ms_EnsureChunk_def)
next
  case True
  have "source_of img env" using ok by (simp add: healthy_def)
  then obtain e q where q: "ms_ensureChunk env r i = (Done e, q)" "ms_inv img q" "rs_h q = rs_h r"
    "e = None \<longleftrightarrow> fl_done (rs_fl q) ! nat i" "\<And>j. j \<noteq> nat i \<Longrightarrow> fl_done (rs_fl q) ! j = fl_done (rs_fl r) ! j"
    "healthy img env \<Longrightarrow> e = None" "length (fl_done (rs_fl q)) = length (fl_done (rs_fl r))"
    using ms_ensureChunk_step [OF inv _ True] by metis
  then have "r' = q" using True by (simp add: r'_def ms_EnsureChunk_def)
  moreover have "0 \<le> i" using True is_present_valid by (auto simp: ms_IsPresent_def)
  then have "j = nat i \<longleftrightarrow> i = int j" for j by auto
  ultimately show ?thesis using q ok True by metis
qed

lemma ms_prefault_loop_done:
  assumes "ms_inv img r" and "healthy img env"
  shows "ms_inv img (ms_prefault_loop env r cs) \<and> rs_h (ms_prefault_loop env r cs) = rs_h r
    \<and> length (fl_done (rs_fl (ms_prefault_loop env r cs))) = length (fl_done (rs_fl r))
    \<and> (\<forall>j. fl_done (rs_fl (ms_prefault_loop env r cs)) ! j \<longleftrightarrow>
          fl_done (rs_fl r) ! j \<or> (\<exists>c \<in> set cs. ms_IsPresent (rs_h r) (uint c) \<and> uint c = int j))"
  using assms(1)
proof (induction cs arbitrary: r)
  case Nil
  then show ?case by simp
next
  case (Cons c cs)
  let ?q = "snd (ms_EnsureChunk env r (uint c))"
  have q: "ms_inv img ?q" "rs_h ?q = rs_h r" "length (fl_done (rs_fl ?q)) = length (fl_done (rs_fl r))"
    "\<And>j. fl_done (rs_fl ?q) ! j \<longleftrightarrow> fl_done (rs_fl r) ! j \<or> ms_IsPresent (rs_h r) (uint c) \<and> uint c = int j"
    using ms_EnsureChunk_healthy [OF Cons.prems assms(2), of "uint c"] by blast+
  show ?case using Cons.IH [OF q(1)] q(2-4) by auto
qed

lemma ms_FetchedChunks_sorted: "sort (ms_FetchedChunks r) = ms_FetchedChunks r"
  by (rule sorted_sort_id) (simp add: ms_FetchedChunks_def sorted_map sorted_wrt_filter)

lemma ms_BuildPrefetch_chunks:
  assumes inv: "ms_inv img r" and n: "ms_NumChunks (rs_h r) < 2 ^ 32"
  shows "length (ms_Chunks (ms_BuildPrefetch r)) < 2 ^ 32"
    and "j < length (fl_done (rs_fl r)) \<Longrightarrow>
      (\<exists>c \<in> set (ms_Chunks (ms_BuildPrefetch r)). ms_IsPresent (rs_h r) (uint c) \<and> uint c = int j)
      \<longleftrightarrow> fl_done (rs_fl r) ! j"
proof -
  let ?p = "ms_BuildPrefetch r" and ?n = "length (fl_done (rs_fl r))"
  have len: "int ?n = ms_NumChunks (rs_h r)" using inv by (simp add: ms_inv_def store_inv_def ms_NumChunks_def)
  have "length (ms_Chunks ?p) \<le> ?n"
    using length_filter_le [of "\<lambda>i. fl_done (rs_fl r) ! i" "[0..<?n]"]
    by (simp add: ms_BuildPrefetch_def ms_FetchedChunks_def)
  then show "length (ms_Chunks ?p) < 2 ^ 32" using len n by simp
  have small: "uint (word_of_int (int j) :: u32) = int j" if "j < ?n" for j
  proof -
    have "j < 2 ^ 32" using that len n by simp
    then have "unat (word_of_nat j :: u32) = j" by (simp add: unsigned_of_nat take_bit_nat_eq_self)
    then show ?thesis by (metis of_int_of_nat_eq uint_nat)
  qed
  have "set (ms_Chunks ?p) = (\<lambda>k. word_of_int (int k)) ` {k. k < ?n \<and> fl_done (rs_fl r) ! k}"
    by (simp add: ms_BuildPrefetch_def ms_FetchedChunks_def image_image)
  moreover have "ms_IsPresent (rs_h r) (uint (word_of_int (int k) :: u32))"
    if "k < ?n" "fl_done (rs_fl r) ! k" for k
    using inv that small [OF that(1)] by (simp add: ms_inv_def)
  ultimately show "j < ?n \<Longrightarrow>
      (\<exists>c \<in> set (ms_Chunks ?p). ms_IsPresent (rs_h r) (uint c) \<and> uint c = int j) \<longleftrightarrow> fl_done (rs_fl r) ! j"
    using small by auto
qed

text \<open>
  C40: the working set recorded at bake time survives its trip through the prefetch file: a fresh
  resolver that replays the decoded list over a healthy source ends with exactly the recorded chunks
  in its cache.
\<close>

theorem ms_prefetch_replay:
  assumes inv: "ms_inv img r" and new: "ms_NewResolver (Some (rs_h r)) (Inr []) None ps = Inr r0"
    and n: "ms_NumChunks (rs_h r) < 2 ^ 32" and ok: "healthy img env"
  shows "\<exists>p. ms_DecodePrefetch (ms_PrefetchEncode (ms_BuildPrefetch r)) = Inr p
    \<and> ms_FetchedChunks (ms_Prefault env r0 (ms_Chunks p) (ms_pChunkSize p) None) = ms_FetchedChunks r"
proof -
  let ?p = "ms_BuildPrefetch r" and ?n = "length (fl_done (rs_fl r))"
  have d: "ms_describes (rs_h r) img" using inv by (simp add: ms_inv_def)
  note r0 = ms_NewResolver_inv [OF d new] and rec = ms_BuildPrefetch_chunks [OF inv n]
  have len: "length (fl_done (rs_fl r0)) = ?n" and fresh: "fl_done (rs_fl r0) ! j \<Longrightarrow> \<not> j < ?n" for j
    using inv new num_chunks_nonneg [OF ms_describes_total(1) [OF d]]
    by (auto simp: ms_inv_def store_inv_def ms_NumChunks_def ms_NewResolver_def flight_init_def Let_def
        split: if_splits)
  define q where "q = ms_prefault_loop env r0 (ms_Chunks ?p)"
  note L = ms_prefault_loop_done [OF r0(1) ok, of "ms_Chunks ?p", folded q_def, unfolded r0(2)]
  have "fl_done (rs_fl q) ! j \<longleftrightarrow> fl_done (rs_fl r) ! j" if j: "j < ?n" for j
  proof -
    have "fl_done (rs_fl q) ! j \<longleftrightarrow> fl_done (rs_fl r0) ! j
        \<or> (\<exists>c \<in> set (ms_Chunks ?p). ms_IsPresent (rs_h r) (uint c) \<and> uint c = int j)"
      using L by simp
    then show ?thesis using rec(2) [OF j] fresh [of j] j by blast
  qed
  moreover have "length (fl_done (rs_fl q)) = ?n" using L len by simp
  ultimately have "ms_FetchedChunks q = ms_FetchedChunks r"
    by (auto simp: ms_FetchedChunks_def intro!: filter_cong arg_cong [where f = "map int"])
  moreover have "ms_Prefault env r0 (ms_Chunks ?p) (ms_pChunkSize ?p) None = q"
    using r0(2) by (simp add: ms_Prefault_def q_def ms_BuildPrefetch_def)
  moreover have "ms_DecodePrefetch (ms_PrefetchEncode ?p @ []) = Inr ?p"
    using rec(1) by (intro ms_prefetch_decode) (simp_all add: ms_BuildPrefetch_def)
  ultimately show ?thesis by auto
qed

section \<open>A concrete restore\<close>

definition ms_demo_resolver :: ms_Resolver where
  "ms_demo_resolver = \<lparr>rs_h = ms_demo, rs_pageSize = 4096, rs_fl = flight_init 3,
     rs_store = \<lparr>st_file = zeros 5, st_fetches = 0, st_verifyErr = 0\<rparr>, rs_faults = 0, rs_zeroFill = 0\<rparr>"

lemma ms_demo_describes: "ms_describes ms_demo demo_img"
  using demo_describes by (simp add: ms_describes_def ms_demo_def)

lemma ms_demo_new: "ms_NewResolver (Some ms_demo) (Inr []) None 0 = Inr ms_demo_resolver"
  by (simp add: ms_NewResolver_def ms_demo_resolver_def ms_demo_def ms_NumChunks_def demo_num_chunks
      ms_PageSize_def truncate_to_Nil)

lemma ms_demo_inv: "ms_inv demo_img ms_demo_resolver" "rs_h ms_demo_resolver = ms_demo"
  using ms_NewResolver_inv [OF ms_demo_describes ms_demo_new] by auto

lemma ms_demo_valid: "ms_valid ms_demo 1"
  by (simp add: ms_valid_def ms_demo_def valid_chunk_def demo_num_chunks ms_IsPresent_def is_present_def)

lemma demo_source: "source_of demo_img (file_env demo_img)"
  using file_env_healthy [of demo_img] by (simp add: healthy_def)

theorem ms_ResolvePage_correct_witness:
  "\<exists>r'. ms_ResolvePage (file_env demo_img) None ms_demo_resolver 2 [1, 1] = (Done None, [7, 9], r')
    \<and> ms_inv demo_img r'"
proof -
  have "ms_ChunkForOffset (rs_h ms_demo_resolver) (min (2 + int (length [1, 1 :: byte])) (int (length demo_img)) - 1)
      = ms_ChunkForOffset (rs_h ms_demo_resolver) 2"
    by (simp add: demo_img_def ms_demo_inv(2) ms_demo_def ms_ChunkForOffset_def chunk_for_offset_def tdiv_def)
  from ms_ResolvePage_correct [OF ms_demo_inv(1) demo_source _ _ _ this, of None]
  show ?thesis using file_env_healthy [of demo_img] by (auto simp: demo_img_def seg_def)
qed

text \<open>Goroutine 0 leads the fetch of chunk 1, goroutine 1 waits for it, goroutine 0 finishes.\<close>

definition ms_demo_fl :: "ms_rerror flight" where
  "ms_demo_fl = (flight_init 3)\<lparr>fl_inflight := (\<lambda>_. None)(1 := Some 0), fl_chans := 1\<rparr>"

definition ms_demo_store :: store where
  "ms_demo_store = \<lparr>st_file = zeros 5, st_fetches = 0, st_verifyErr = 0\<rparr>"

lemma ms_demo_lead:
  "ms_reach ms_demo demo_img (ms_demo_fl, ms_demo_store, (\<lambda>_. Idle)(0 := Fetching 1 0, 1 := Waiting 1 0))"
proof -
  let ?f = "flight_init 3 :: ms_rerror flight" and ?s = ms_demo_store
  have s0: "ms_start ms_demo = (?f, ?s, \<lambda>_. Idle)"
    by (simp add: ms_start_def ms_demo_def ms_NumChunks_def demo_num_chunks ms_demo_store_def)
  have "ms_reach ms_demo demo_img (?f, ?s, (\<lambda>_. Idle)(0 := Calling 1))"
    using ms_demo_valid unfolding s0 by (auto intro!: flight_reach.step [OF flight_reach.start] flight_step.call)
  then have "ms_reach ms_demo demo_img (?f, ?s, (\<lambda>_. Idle)(0 := Calling 1, 1 := Calling 1))"
    using ms_demo_valid by (auto elim!: flight_reach.step intro!: flight_step.call)
  then have "ms_reach ms_demo demo_img (ms_demo_fl, ?s, (\<lambda>_. Idle)(0 := Calling 1, 1 := Calling 1, 0 := Fetching 1 0))"
    by (rule flight_reach.step, intro flight_step.lead)
      (simp_all add: flight_enter_def flight_init_def ms_demo_fl_def)
  then have "ms_reach ms_demo demo_img (ms_demo_fl, ?s,
      (\<lambda>_. Idle)(0 := Calling 1, 1 := Calling 1, 0 := Fetching 1 0, 1 := Waiting 1 0))"
    by (rule flight_reach.step, intro flight_step.join)
      (simp_all add: flight_enter_def flight_init_def ms_demo_fl_def)
  then show ?thesis by (simp add: fun_upd_twist)
qed

theorem ms_single_flight_witness:
  "\<exists>fl st pcs. ms_reach ms_demo demo_img (fl, st, pcs) \<and> pcs 1 = Waiting 1 0
    \<and> {g. leads (pcs g) = Some (1, 0)} = {0}"
proof -
  let ?pcs = "(\<lambda>_. Idle)(0 := Fetching 1 0, 1 := Waiting 1 0) :: nat \<Rightarrow> ms_rerror pc"
  have l0: "leads (?pcs 0) = Some (1, 0)" by simp
  have "g = 0" if "leads (?pcs g) = Some (1, 0)" for g
    using ms_single_flight [OF ms_demo_describes ms_demo_lead that l0] .
  then have "{g. leads (?pcs g) = Some (1, 0)} = {0}" using l0 by blast
  moreover have "?pcs 1 = Waiting 1 0" by simp
  ultimately show ?thesis using ms_demo_lead by blast
qed

theorem ms_calls_return_witness:
  "\<exists>t. (ms_work ms_demo demo_img)\<^sup>*\<^sup>* (ms_demo_fl, ms_demo_store, (\<lambda>_. Idle)(0 := Fetching 1 0, 1 := Waiting 1 0)) t
    \<and> call_work (snd (snd t) 1) = 0"
proof -
  let ?pcs = "(\<lambda>_. Idle)(0 := Fetching 1 0, 1 := Waiting 1 0) :: nat \<Rightarrow> ms_rerror pc"
  let ?s = "(ms_demo_fl, ms_demo_store, ?pcs)"
  note R = ms_calls_return [OF ms_demo_describes ms_demo_lead demo_source]
  have "\<exists>n t. ((ms_work ms_demo demo_img) ^^ n) ?s t \<and> (\<forall>u. \<not> ms_work ms_demo demo_img t u)"
  proof (rule ccontr)
    assume "\<not> ?thesis"
    then have go: "\<And>n t. ((ms_work ms_demo demo_img) ^^ n) ?s t \<Longrightarrow> \<exists>u. ms_work ms_demo demo_img t u" by blast
    have "\<exists>t. ((ms_work ms_demo demo_img) ^^ n) ?s t" for n
    proof (induction n)
      case (Suc n)
      then show ?case using go by (metis relpowp_Suc_I)
    qed simp
    then show False using R by (meson not_less_eq_eq order_refl)
  qed
  then show ?thesis using R by (meson relpowp_imp_rtranclp)
qed

theorem ms_ensure_returns_image_witness:
  "\<exists>fl st pcs. ms_reach ms_demo demo_img (fl, st, pcs) \<and> pcs 0 = Returned 1 None \<and> seg 2 2 (st_file st) = [7, 9]"
proof -
  let ?st = "snd (ms_fetchChunk ms_demo (file_env demo_img) ms_demo_store 1)"
  let ?pcs = "(\<lambda>_. Idle)(0 := Fetching 1 0, 1 := Waiting 1 0, 0 := Fetched 1 0 None)"
  have "fst (ms_fetchChunk ms_demo (file_env demo_img) ms_demo_store 1) = None"
    by (rule ms_fetchChunk_healthy [OF ms_demo_describes ms_demo_valid file_env_healthy])
  then have "ms_reach ms_demo demo_img (ms_demo_fl, ?st, ?pcs)"
    using demo_source
    by (intro flight_reach.step [OF ms_demo_lead] flight_step.fetch [where env = "file_env demo_img"])
      (simp_all add: prod_eq_iff)
  then have r: "ms_reach ms_demo demo_img (resolver_finish ms_demo_fl 1 0 None, ?st, ?pcs(0 := Returned 1 None))"
    by (rule flight_reach.step, intro flight_step.finish) simp
  have "seg 2 2 (st_file ?st) = [7, 9]"
    using ms_ensure_returns_image [OF ms_demo_describes r, of 0 1] by (simp add: ms_demo_def demo_img_def seg_def demo_chunks)
  moreover have "(?pcs(0 := Returned 1 None)) 0 = Returned 1 None" by simp
  ultimately show ?thesis using r by blast
qed

theorem ms_prefetch_replay_witness:
  "\<exists>p. ms_DecodePrefetch (ms_PrefetchEncode (ms_BuildPrefetch (snd (ms_EnsureChunk (file_env demo_img) ms_demo_resolver 1))))
      = Inr p
    \<and> ms_FetchedChunks (ms_Prefault (file_env demo_img) ms_demo_resolver (ms_Chunks p) (ms_pChunkSize p) None) = [1]"
proof -
  let ?r = "snd (ms_EnsureChunk (file_env demo_img) ms_demo_resolver 1)"
  have r: "ms_inv demo_img ?r" "rs_h ?r = ms_demo"
    using ms_EnsureChunk_healthy [OF ms_demo_inv(1) file_env_healthy, of 1] ms_demo_inv(2) by auto
  have "ms_NewResolver (Some (rs_h ?r)) (Inr []) None 0 = Inr ms_demo_resolver"
    using ms_demo_new r(2) by simp
  moreover have "ms_NumChunks (rs_h ?r) < 2 ^ 32"
    unfolding r(2) by (simp add: ms_demo_def ms_NumChunks_def demo_num_chunks)
  moreover have "ms_FetchedChunks ?r = [1]" by code_simp
  ultimately show ?thesis using ms_prefetch_replay [OF r(1) _ _ file_env_healthy] by metis
qed

end
