(* ===== verification/Cache_Crash.thy ===== *)
theory Cache_Crash
  imports Chunk_Store Single_Flight
begin

text \<open>
  Crash safety of the shared caches (\<open>SharedCache.Flush\<close> and \<open>OpenSharedCache\<close> in
  \<^verbatim>\<open>memstream/sharedcache.go\<close> and \<^verbatim>\<open>diskstream/sharedcache.go\<close>, which follow the same protocol).

  \<open>cache_step\<close> runs the fetching goroutines of \<open>flight_step\<close>, the phases of one \<open>Flush\<close> (snapshot under
  the mutex, \<open>Sync\<close>, write and rename of the bitmap, acknowledgement) and crashes in any order. The
  file system is the usual weak one: without \<open>Sync\<close> each byte of the data file may or may not have
  reached the disk, and a bitmap that was renamed but not synced may come back as the bitmap found at
  the last open, as the new one, or torn (bytes missing or zero). A crash is followed by
  \<open>OpenSharedCache\<close> on whatever survived.

  The locale \<open>crash_cache\<close> states what the protocol needs of a cache's fetch, bitmap codec and open
  operation; \<open>Mem_Cache\<close> and \<open>Disk_Cache\<close> interpret it.
\<close>

section \<open>What a crash leaves\<close>

text \<open>
  What \<open>os.ReadFile\<close> finds of the bitmap: no file, an error, or its bytes. A file whose content is intact but whose read fails now and works later is not
  distinguished from one that stays unreadable.
\<close>

datatype bitmap_file = NoBitmap | BitmapUnreadable string | Bitmap "byte list"

definition survives :: "byte list \<Rightarrow> byte list \<Rightarrow> byte list \<Rightarrow> bool" where
  "survives durable current f \<longleftrightarrow> length f = length current \<and>
     (\<forall>k < length f. f ! k = durable ! k \<or> f ! k = current ! k)"

definition torn :: "byte list \<Rightarrow> byte list \<Rightarrow> bool" where
  "torn b g \<longleftrightarrow> length g \<le> length b \<and> (\<forall>k < length g. g ! k = b ! k \<or> g ! k = 0)"

datatype flush_phase =
    FIdle
  | FSnap "bool list" int
  | FSynced "bool list" int
  | FRenamed "bool list" int

text \<open>
  \<open>cr_disk\<close> is the bitmap found by the last open, \<open>cr_renamed\<close> the snapshots renamed over it since.
\<close>

record 'e crash =
  cr_fl :: "'e cflight"
  cr_store :: store
  cr_pcs :: "nat \<Rightarrow> 'e pc"
  cr_durable :: "byte list"
  cr_disk :: bitmap_file
  cr_renamed :: "bool list set"
  cr_phase :: flush_phase

definition dirty_ack :: "'e cflight \<Rightarrow> int \<Rightarrow> 'e cflight" where
  "dirty_ack fl acked = fl\<lparr>fl_dirty := (if fl_dirty fl - acked < 0 then 0 else fl_dirty fl - acked)\<rparr>"

definition crash_bitmap :: "(bool list \<Rightarrow> byte list) \<Rightarrow> 'e crash \<Rightarrow> bitmap_file \<Rightarrow> bool" where
  "crash_bitmap enc c b \<longleftrightarrow> b = cr_disk c \<or> (\<exists>s \<in> cr_renamed c. \<exists>g. torn (enc s) g \<and> b = Bitmap g)"

definition opened_state :: "bool list \<Rightarrow> byte list \<Rightarrow> bitmap_file \<Rightarrow> 'e crash" where
  "opened_state bits f b =
     \<lparr>cr_fl = cflight_init bits, cr_store = \<lparr>st_file = f, st_fetches = 0, st_verifyErr = 0\<rparr>,
      cr_pcs = (\<lambda>_. Idle), cr_durable = f, cr_disk = b, cr_renamed = {}, cr_phase = FIdle\<rparr>"

inductive cache_step ::
  "(int \<Rightarrow> bool) \<Rightarrow> ('v \<Rightarrow> bool) \<Rightarrow> ('v \<Rightarrow> store \<Rightarrow> int \<Rightarrow> 'e option \<times> store) \<Rightarrow> ('e \<Rightarrow> bool)
   \<Rightarrow> (bool list \<Rightarrow> byte list) \<Rightarrow> (byte list \<Rightarrow> bitmap_file \<Rightarrow> bool list \<Rightarrow> byte list \<Rightarrow> bitmap_file \<Rightarrow> bool)
   \<Rightarrow> 'e crash \<Rightarrow> 'e crash \<Rightarrow> bool"
  for valid ok fetch cancels enc opened where
  work: "flight_step valid ok fetch cache_finish cache_wake cancels
      (cr_fl c, cr_store c, cr_pcs c) (fl, st, pcs) \<Longrightarrow>
    cache_step valid ok fetch cancels enc opened c (c\<lparr>cr_fl := fl, cr_store := st, cr_pcs := pcs\<rparr>)"
| flush: "cr_phase c = FIdle \<Longrightarrow> fl_dirty (cr_fl c) \<noteq> 0 \<Longrightarrow>
    cache_step valid ok fetch cancels enc opened c
      (c\<lparr>cr_phase := FSnap (fl_done (cr_fl c)) (fl_dirty (cr_fl c))\<rparr>)"
| sync: "cr_phase c = FSnap s a \<Longrightarrow>
    cache_step valid ok fetch cancels enc opened c
      (c\<lparr>cr_durable := st_file (cr_store c), cr_phase := FSynced s a\<rparr>)"
| rename: "cr_phase c = FSynced s a \<Longrightarrow>
    cache_step valid ok fetch cancels enc opened c
      (c\<lparr>cr_renamed := insert s (cr_renamed c), cr_phase := FRenamed s a\<rparr>)"
| ack: "cr_phase c = FRenamed s a \<Longrightarrow>
    cache_step valid ok fetch cancels enc opened c
      (c\<lparr>cr_fl := dirty_ack (cr_fl c) a, cr_phase := FIdle\<rparr>)"
| fail: "cr_phase c = FSnap s a \<or> cr_phase c = FSynced s a \<Longrightarrow>
    cache_step valid ok fetch cancels enc opened c (c\<lparr>cr_phase := FIdle\<rparr>)"
| crash: "survives (cr_durable c) (st_file (cr_store c)) f \<Longrightarrow> crash_bitmap enc c b \<Longrightarrow>
    opened f b bits f' b' \<Longrightarrow>
    cache_step valid ok fetch cancels enc opened c (opened_state bits f' b')"

inductive cache_reach ::
  "(int \<Rightarrow> bool) \<Rightarrow> ('v \<Rightarrow> bool) \<Rightarrow> ('v \<Rightarrow> store \<Rightarrow> int \<Rightarrow> 'e option \<times> store) \<Rightarrow> ('e \<Rightarrow> bool)
   \<Rightarrow> (bool list \<Rightarrow> byte list) \<Rightarrow> (byte list \<Rightarrow> bitmap_file \<Rightarrow> bool list \<Rightarrow> byte list \<Rightarrow> bitmap_file \<Rightarrow> bool)
   \<Rightarrow> 'e crash \<Rightarrow> 'e crash \<Rightarrow> bool"
  for valid ok fetch cancels enc opened c0 where
  start: "cache_reach valid ok fetch cancels enc opened c0 c0"
| step: "cache_reach valid ok fetch cancels enc opened c0 c \<Longrightarrow>
    cache_step valid ok fetch cancels enc opened c c' \<Longrightarrow>
    cache_reach valid ok fetch cancels enc opened c0 c'"

lemma cache_reach_work:
  assumes "flight_reach valid ok fetch cache_finish cache_wake cancels (cr_fl c, cr_store c, cr_pcs c) s"
    and "cache_reach valid ok fetch cancels enc opened c0 c"
  shows "cache_reach valid ok fetch cancels enc opened c0
    (c\<lparr>cr_fl := fst s, cr_store := fst (snd s), cr_pcs := snd (snd s)\<rparr>)"
  using assms(1)
proof induction
  case start
  then show ?case using assms(2) by simp
next
  case (step s t)
  let ?c = "c\<lparr>cr_fl := fst s, cr_store := fst (snd s), cr_pcs := snd (snd s)\<rparr>"
  have "cache_step valid ok fetch cancels enc opened ?c
      (?c\<lparr>cr_fl := fst t, cr_store := fst (snd t), cr_pcs := snd (snd t)\<rparr>)"
    using step.hyps(2) by (intro cache_step.work) simp
  from cache_reach.step [OF step.IH this] show ?case by simp
qed

lemma torn_refl: "torn b b"
  by (simp add: torn_def)

lemma survives_same: "survives f f g \<Longrightarrow> g = f"
  by (auto simp: survives_def intro: nth_equalityI)

text \<open>A chunk that is right on disk and right in the page cache is right in what survives.\<close>

lemma survives_holds:
  assumes "geom_ok cs ts" and "valid_chunk cs ts i" and "length d = unat ts" and "length f = unat ts"
    and "length img = unat ts" and "survives d f g"
    and "chunk_holds cs ts img d i" and "chunk_holds cs ts img f i"
  shows "chunk_holds cs ts img g i"
  using assms by (auto simp: chunk_holds_nth survives_def)

lemma sparse_ok_holds:
  assumes "geom_ok cs ts"
  shows "sparse_ok cs ts ps f \<longleftrightarrow> length f = unat ts \<and>
    (\<forall>i. valid_chunk cs ts i \<and> \<not> is_present ps i \<longrightarrow> chunk_holds cs ts (zeros (unat ts)) f i)"
  using assms chunk_span(4) by (auto simp: sparse_ok_def chunk_holds_def seg_zeros)

lemma survives_sparse:
  assumes "geom_ok cs ts" and "survives d f g" and "sparse_ok cs ts ps d" and "sparse_ok cs ts ps f"
  shows "sparse_ok cs ts ps g"
proof -
  have "length g = unat ts" using assms(2,4) by (simp add: survives_def sparse_ok_def)
  then show ?thesis
    using assms(3,4) survives_holds [OF assms(1) _ _ _ _ assms(2)]
    unfolding sparse_ok_holds [OF assms(1)] by simp
qed

section \<open>The contract of a crash-safe cache\<close>

text \<open>
  \<open>base img\<close> is what the cache assumes of header and image, \<open>claims b i\<close> that opening with the bitmap file \<open>b\<close> would trust chunk \<open>i\<close>. A torn bitmap claims no chunk
  the written one did not, and opening either takes over the claims and the data, or starts from a
  file in which every elided chunk is zero, without leaving a bitmap that claims anything.
\<close>

locale crash_cache =
  single_flight valid ok fetch cache_finish cache_wake "\<lambda>_ _. True" dinv holds
  for valid :: "int \<Rightarrow> bool" and ok :: "'v \<Rightarrow> bool"
    and fetch :: "'v \<Rightarrow> store \<Rightarrow> int \<Rightarrow> 'e option \<times> store"
    and dinv :: "store \<Rightarrow> bool" and holds :: "store \<Rightarrow> int \<Rightarrow> bool" +
  fixes base :: "byte list \<Rightarrow> bool" and cs :: u32 and ts :: u64 and ps :: "bool list" and img :: "byte list"
    and enc :: "bool list \<Rightarrow> byte list"
    and claims :: "bitmap_file \<Rightarrow> int \<Rightarrow> bool"
    and opened :: "byte list \<Rightarrow> bitmap_file \<Rightarrow> bool list \<Rightarrow> byte list \<Rightarrow> bitmap_file \<Rightarrow> bool"
  assumes dinv_iff: "dinv st \<longleftrightarrow> base img \<and> sparse_ok cs ts ps (st_file st)"
    and base_describes: "base img \<Longrightarrow> describes cs ts ps img"
    and holds_iff: "holds st i \<longleftrightarrow> chunk_holds cs ts img (st_file st) i"
    and valid_in: "valid i \<Longrightarrow> valid_chunk cs ts i"
    and claims_torn: "describes cs ts ps img \<Longrightarrow> torn (enc s) g \<Longrightarrow> claims (Bitmap g) i \<Longrightarrow> valid i \<Longrightarrow> s ! nat i"
    and opened_file: "describes cs ts ps img \<Longrightarrow> opened f b bits f' b' \<Longrightarrow> sparse_ok cs ts ps f
      \<Longrightarrow> int (length bits) = num_chunks cs ts \<and> sparse_ok cs ts ps f'"
    and opened_bits: "opened f b bits f' b' \<Longrightarrow> valid i \<Longrightarrow> bits ! nat i \<Longrightarrow> f' = f \<and> claims b i"
    and opened_claims: "describes cs ts ps img \<Longrightarrow> sparse_ok cs ts ps f \<Longrightarrow> opened f b bits f' b' \<Longrightarrow> valid i
      \<Longrightarrow> claims b' i \<Longrightarrow> bits ! nat i"
begin

text \<open>Every chunk some snapshot or bitmap vouches for is marked valid and right on disk.\<close>

definition durable_ok :: "'e crash \<Rightarrow> (int \<Rightarrow> bool) \<Rightarrow> bool" where
  "durable_ok c p \<longleftrightarrow> (\<forall>i. valid i \<and> p i \<longrightarrow> fl_done (cr_fl c) ! nat i \<and> chunk_holds cs ts img (cr_durable c) i)"

fun phase_ok :: "'e crash \<Rightarrow> flush_phase \<Rightarrow> bool" where
  "phase_ok c FIdle \<longleftrightarrow> True"
| "phase_ok c (FSnap s a) \<longleftrightarrow> (\<forall>i. valid i \<and> s ! nat i \<longrightarrow> fl_done (cr_fl c) ! nat i)"
| "phase_ok c (FSynced s a) \<longleftrightarrow> durable_ok c (\<lambda>i. s ! nat i)"
| "phase_ok c (FRenamed s a) \<longleftrightarrow> True"

definition crash_inv :: "'e crash \<Rightarrow> bool" where
  "crash_inv c \<longleftrightarrow> base img
     \<and> flight_struct valid (\<lambda>_ _. True) (cr_fl c) (cr_pcs c)
     \<and> flight_data valid dinv holds (cr_fl c) (cr_store c) (cr_pcs c)
     \<and> int (length (fl_done (cr_fl c))) = num_chunks cs ts
     \<and> sparse_ok cs ts ps (cr_durable c)
     \<and> durable_ok c (claims (cr_disk c))
     \<and> (\<forall>s \<in> cr_renamed c. durable_ok c (\<lambda>i. s ! nat i))
     \<and> phase_ok c (cr_phase c)"

lemma step_done:
  assumes "flight_step valid ok fetch cache_finish cache_wake cancels (fl, d, pcs) (fl', d', pcs')"
  shows "length (fl_done fl') = length (fl_done fl)"
    and "i < length (fl_done fl) \<Longrightarrow> fl_done fl ! i \<Longrightarrow> fl_done fl' ! i"
proof -
  from assms have "fl' = fl \<or> (\<exists>j ch. flight_enter fl j = Lead ch fl') \<or> (\<exists>j ch e. fl' = cache_finish fl j ch e)"
    by cases blast+
  then have "fl_done fl' = fl_done fl \<or> (\<exists>j. fl_done fl' = (fl_done fl)[j := True])"
    using enter_lead fin_done by fastforce
  then show "length (fl_done fl') = length (fl_done fl)"
    and "i < length (fl_done fl) \<Longrightarrow> fl_done fl ! i \<Longrightarrow> fl_done fl' ! i"
    by (auto, metis nth_list_update_eq nth_list_update_neq)
qed

lemma durable_ok_mono:
  assumes "durable_ok c p" and "cr_durable c' = cr_durable c"
    and "\<And>i. valid i \<Longrightarrow> fl_done (cr_fl c) ! nat i \<Longrightarrow> fl_done (cr_fl c') ! nat i"
  shows "durable_ok c' p"
  using assms by (auto simp: durable_ok_def)

lemma phase_ok_mono:
  assumes "phase_ok c p" and "cr_durable c' = cr_durable c"
    and "\<And>i. valid i \<Longrightarrow> fl_done (cr_fl c) ! nat i \<Longrightarrow> fl_done (cr_fl c') ! nat i"
  shows "phase_ok c' p"
  using assms by (cases p) (auto simp: durable_ok_def)

text \<open>Chunks marked valid are right in the page cache, so \<open>Sync\<close> makes them right on disk.\<close>

lemma done_holds: "crash_inv c \<Longrightarrow> valid i \<Longrightarrow> fl_done (cr_fl c) ! nat i
    \<Longrightarrow> chunk_holds cs ts img (st_file (cr_store c)) i"
  by (simp add: crash_inv_def flight_data_def holds_iff)

lemma inv_files:
  assumes "crash_inv c"
  shows "describes cs ts ps img" "sparse_ok cs ts ps (st_file (cr_store c))" "sparse_ok cs ts ps (cr_durable c)" "base img"
  using assms base_describes by (simp_all add: crash_inv_def flight_data_def dinv_iff)

lemma inv_work:
  assumes inv: "crash_inv c"
    and s: "flight_step valid ok fetch cache_finish cache_wake cancels (cr_fl c, cr_store c, cr_pcs c) (fl, st, pcs)"
  shows "crash_inv (c\<lparr>cr_fl := fl, cr_store := st, cr_pcs := pcs\<rparr>)"
proof -
  let ?c = "c\<lparr>cr_fl := fl, cr_store := st, cr_pcs := pcs\<rparr>"
  have fs: "flight_struct valid (\<lambda>_ _. True) (cr_fl c) (cr_pcs c)"
    and fd: "flight_data valid dinv holds (cr_fl c) (cr_store c) (cr_pcs c)"
    using inv by (simp_all add: crash_inv_def)
  have "0 \<le> i \<and> nat i < length (fl_done (cr_fl c))" if "valid i" for i
    using structD(8) [OF fs that] .
  then have mono: "fl_done (cr_fl ?c) ! nat i" if "valid i" "fl_done (cr_fl c) ! nat i" for i
    using step_done(2) [OF s, of "nat i"] that by simp
  show ?thesis
    using inv struct_step [OF fs s] data_step [OF fs fd s] step_done(1) [OF s] mono
      durable_ok_mono [of c _ ?c] phase_ok_mono [of c "cr_phase c" ?c]
    by (simp add: crash_inv_def)
qed

lemma inv_state:
  assumes base: "base img" and f: "sparse_ok cs ts ps f" and n: "int (length bits) = num_chunks cs ts"
    and right: "\<And>i. valid i \<Longrightarrow> bits ! nat i \<Longrightarrow> chunk_holds cs ts img f i"
    and cl: "\<And>i. valid i \<Longrightarrow> claims b i \<Longrightarrow> bits ! nat i"
  shows "crash_inv (opened_state bits f b)"
proof -
  let ?fl = "cflight_init bits :: 'e cflight"
  have idx: "0 \<le> i \<and> nat i < length bits" if "valid i" for i
    using valid_in [OF that] n by (auto simp: valid_chunk_def)
  have "flight_struct valid (\<lambda>_ _. True) ?fl (\<lambda>_. Idle)"
    using idx by (intro struct_init) (auto simp: cflight_init_def)
  moreover have "flight_data valid dinv holds ?fl \<lparr>st_file = f, st_fetches = 0, st_verifyErr = 0\<rparr> (\<lambda>_. Idle)"
    using base f right by (intro data_init) (auto simp: dinv_iff holds_iff cflight_init_def)
  ultimately show ?thesis
    using base f n right cl by (auto simp: crash_inv_def opened_state_def durable_ok_def cflight_init_def)
qed

lemma inv_opened:
  assumes base: "base img" and f: "sparse_ok cs ts ps f"
    and o: "opened f b bits f' b'"
    and h: "\<And>i. valid i \<Longrightarrow> claims b i \<Longrightarrow> chunk_holds cs ts img f i"
  shows "crash_inv (opened_state bits f' b')"
proof (rule inv_state [OF base])
  note d = base_describes [OF base]
  show "sparse_ok cs ts ps f'" "int (length bits) = num_chunks cs ts"
    using opened_file [OF d o f] by simp_all
  show "chunk_holds cs ts img f' i" if "valid i" "bits ! nat i" for i
    using opened_bits [OF o that] h that by simp
  show "bits ! nat i" if "valid i" "claims b' i" for i
    using opened_claims [OF d f o that] .
qed

lemma inv_crash:
  assumes inv: "crash_inv c" and sv: "survives (cr_durable c) (st_file (cr_store c)) f"
    and b: "crash_bitmap enc c b" and o: "opened f b bits f' b'"
  shows "crash_inv (opened_state bits f' b')"
proof (rule inv_opened [OF _ _ o])
  note fl = inv_files [OF inv]
  show "base img" by (rule fl)
  have d: "describes cs ts ps img" by (rule fl)
  then have g: "geom_ok cs ts" and li: "length img = unat ts" by (simp_all add: describes_def)
  show "sparse_ok cs ts ps f" by (rule survives_sparse [OF g sv fl(3,2)])
  show "chunk_holds cs ts img f i" if v: "valid i" and cl: "claims b i" for i
  proof -
    have "fl_done (cr_fl c) ! nat i \<and> chunk_holds cs ts img (cr_durable c) i"
      using b inv cl v claims_torn [OF d _ _ v]
      by (fastforce simp: crash_bitmap_def crash_inv_def durable_ok_def)
    then show ?thesis
      using survives_holds [OF g valid_in [OF v] _ _ li sv] done_holds [OF inv v] fl(2,3)
      by (simp add: sparse_ok_def)
  qed
qed

lemma inv_sync:
  assumes inv: "crash_inv c" and p: "cr_phase c = FSnap s a"
  shows "crash_inv (c\<lparr>cr_durable := st_file (cr_store c), cr_phase := FSynced s a\<rparr>)"
  using inv p inv_files [OF inv] done_holds [OF inv]
  by (auto simp: crash_inv_def durable_ok_def)

lemma inv_step:
  assumes inv: "crash_inv c" and "cache_step valid ok fetch cancels enc opened c c'"
  shows "crash_inv c'"
  using assms(2)
proof cases
  case work
  then show ?thesis using inv_work [OF inv] by simp
next
  case sync
  then show ?thesis using inv_sync [OF inv] by simp
next
  case crash
  then show ?thesis using inv_crash [OF inv] by simp
next
  case (ack s a)
  then show ?thesis
    using inv by (auto simp: crash_inv_def dirty_ack_def durable_ok_def flight_struct_def flight_data_def)
qed (use inv in \<open>auto simp: crash_inv_def durable_ok_def\<close>)

lemma reach_inv_crash:
  assumes "cache_reach valid ok fetch cancels enc opened c0 c" and "crash_inv c0"
  shows "crash_inv c"
  using assms by induction (auto intro: inv_step)

text \<open>From a cold open on, a chunk marked valid is right, through any number of crashes.\<close>

lemma cold_safe:
  assumes base: "base img" and n: "int n = num_chunks cs ts" and b: "\<And>i. valid i \<Longrightarrow> \<not> claims b i"
    and r: "cache_reach valid ok fetch cancels enc opened
      (opened_state (replicate n False) (zeros (unat ts)) b) c"
    and v: "valid i" and i: "fl_done (cr_fl c) ! nat i"
  shows "chunk_holds cs ts img (st_file (cr_store c)) i"
proof -
  have "nat i < n" if "valid i" for i using valid_in [OF that] n by (simp add: valid_chunk_def nat_less_iff)
  moreover have "sparse_ok cs ts ps (zeros (unat ts))"
    using base_describes [OF base] by (intro sparse_ok_zeros) (simp add: describes_def)
  ultimately have "crash_inv (opened_state (replicate n False) (zeros (unat ts)) b)"
    using base n b by (intro inv_state) auto
  then show ?thesis using done_holds [OF reach_inv_crash [OF r] v i] by blast
qed

end

section \<open>Torn bitmaps\<close>

lemma torn_bitmap:
  assumes t: "torn (pre @ bitmap_encode p n) g" and len: "length pre = k" "k + (n + 7) div 8 \<le> length g"
    and j: "j < n" and b: "bitmap_get (seg k ((n + 7) div 8) g) j"
  shows "p j"
proof -
  have jd: "j div 8 < (n + 7) div 8" using j by auto
  then have g: "seg k ((n + 7) div 8) g ! (j div 8) = g ! (k + j div 8)"
    using len(2) by (simp add: nth_seg)
  then have bit: "bit (g ! (k + j div 8)) (j mod 8)" using b by (simp add: bitmap_get_bit)
  then have "g ! (k + j div 8) \<noteq> 0" by auto
  moreover have "k + j div 8 < length g" using jd len(2) by simp
  ultimately have "g ! (k + j div 8) = (pre @ bitmap_encode p n) ! (k + j div 8)"
    using t by (auto simp: torn_def)
  then have "bitmap_get (bitmap_encode p n) j"
    using bit len(1) by (simp add: nth_append bitmap_get_bit)
  then show ?thesis using bitmap_get_encode [OF j, of p "[]"] by simp
qed

end
