(* ===== verification/Mem_Cache.thy ===== *)
theory Mem_Cache
  imports Mem_Resolver Cache_Crash
begin

text \<open>
  The per-host shared chunk cache of the memory stream
  (\<^verbatim>\<open>src/agent/internal/memstream/sharedcache.go\<close>): the presence bitmap file \<^verbatim>\<open>present.psc\<close>, opening,
  reading, flushing and closing a cache, and the LRU eviction of cache directories.

  A cache is the record \<open>ms_SharedCache\<close>: header, the mutex-guarded state (presence bits, in-flight
  map, dirty count), the data file \<^verbatim>\<open>chunks.dat\<close> as readers see it, the part of it that is on stable
  storage, and the content of the bitmap file. \<open>ms_cache_step\<close> runs fetches, the steps of \<open>Flush\<close> and
  crashes in any order; the crash-safety theorem says that whatever survives a crash is a cache that
  serves the image.
\<close>

section \<open>The presence bitmap file\<close>

datatype ms_cerror =
    BitmapReadError string
  | BitmapNotExist
  | BitmapTooShort nat
  | BadBitmapMagic "byte list"
  | UnsupportedBitmapVersion u32
  | GeometryMismatch u32 u64 int
  | BitmapTruncated int int
  | CacheNilHeader
  | MkdirError string
  | OpenDataError string
  | ResetDataError string
  | SizeDataError string
  | ChunkOutOfRange int
  | CacheOffsetOutOfRange int int
  | DataReadError string
  | FsyncError string
  | BitmapWriteError string
  | BitmapRenameError string
  | CacheFetch ms_rerror
  | Cancelled

text \<open>\<open>"PSC1"\<close>.\<close>

definition ms_SharedBitmapMagic :: "byte list" where
  "ms_SharedBitmapMagic = [0x50, 0x53, 0x43, 0x31]"

definition ms_encodeSharedBitmap :: "ms_Header \<Rightarrow> bool list \<Rightarrow> byte list" where
  "ms_encodeSharedBitmap h present =
     (let n = ms_NumChunks h in
      ms_SharedBitmapMagic @ le32 1 @ le32 (ms_ChunkSize h) @ le64 (ms_TotalSize h)
      @ le32 (word_of_int n)
      @ bitmap_encode (\<lambda>i. i < length present \<and> present ! i) (nat n))"

definition ms_readSharedBitmap :: "bitmap_file \<Rightarrow> ms_Header \<Rightarrow> ms_cerror + bool list" where
  "ms_readSharedBitmap bf h =
     (case bf of
        NoBitmap \<Rightarrow> Inl BitmapNotExist
      | BitmapUnreadable e \<Rightarrow> Inl (BitmapReadError e)
      | Bitmap b \<Rightarrow>
          if length b < 24 then Inl (BitmapTooShort (length b))
          else if take 4 b \<noteq> ms_SharedBitmapMagic then Inl (BadBitmapMagic (take 4 b))
          else let ver = get32 (drop 4 b) in
            if ver \<noteq> 1 then Inl (UnsupportedBitmapVersion ver)
            else let cs = get32 (drop 8 b); ts = get64 (drop 12 b); n = uint (get32 (drop 20 b)) in
              if cs \<noteq> ms_ChunkSize h \<or> ts \<noteq> ms_TotalSize h \<or> n \<noteq> ms_NumChunks h
              then Inl (GeometryMismatch cs ts n)
              else let bitmapLen = (n + 7) div 8 in
                if int (length b - 24) < bitmapLen
                then Inl (BitmapTruncated bitmapLen (int (length b - 24)))
                else Inr (bitmap_decode (seg 24 (nat bitmapLen) b) (nat n)))"

text \<open>
  \<open>writeSharedBitmap\<close>: the temporary file is written, then renamed over the old bitmap; a failure of
  either leaves the old bitmap in place.
\<close>

definition ms_writeSharedBitmap ::
  "string option \<Rightarrow> string option \<Rightarrow> bitmap_file \<Rightarrow> ms_Header \<Rightarrow> bool list \<Rightarrow> ms_cerror option \<times> bitmap_file" where
  "ms_writeSharedBitmap wr rn old h present =
     (case wr of
        Some e \<Rightarrow> (Some (BitmapWriteError e), old)
      | None \<Rightarrow>
          (case rn of
             Some e \<Rightarrow> (Some (BitmapRenameError e), old)
           | None \<Rightarrow> (None, Bitmap (ms_encodeSharedBitmap h present))))"

section \<open>Opening, reading, flushing, closing\<close>

record ms_SharedCache =
  sc_h :: ms_Header
  sc_fl :: "ms_cerror cflight"
  sc_store :: store
  sc_hits :: int
  sc_durable :: "byte list"
  sc_bitmap :: bitmap_file

text \<open>
  What the file system answers to \<open>OpenSharedCache\<close>: the error of \<open>MkdirAll\<close>, the content of
  \<^verbatim>\<open>chunks.dat\<close> or the error of opening it, whether \<open>Stat\<close> succeeds, the bitmap file, whether
  \<open>os.Remove\<close> of the bitmap succeeds, and the errors of the two \<open>Truncate\<close> calls.
\<close>

record open_env =
  oe_mkdir :: "string option"
  oe_data :: "string + byte list"
  oe_stat :: bool
  oe_bitmap :: bitmap_file
  oe_remove :: bool
  oe_trunc0 :: "string option"
  oe_truncN :: "string option"

definition ms_OpenSharedCache :: "ms_Header option \<Rightarrow> open_env \<Rightarrow> ms_cerror + ms_SharedCache" where
  "ms_OpenSharedCache ho env =
     (case ho of
        None \<Rightarrow> Inl CacheNilHeader
      | Some h \<Rightarrow>
        (case oe_mkdir env of
           Some e \<Rightarrow> Inl (MkdirError e)
         | None \<Rightarrow>
          (case oe_data env of
             Inl e \<Rightarrow> Inl (OpenDataError e)
           | Inr f \<Rightarrow>
              (let sized = oe_stat env \<and> int (length f) = sint (ms_TotalSize h);
                   removed = (if oe_remove env then NoBitmap else oe_bitmap env)
               in case (if sized then ms_readSharedBitmap (oe_bitmap env) h else Inl BitmapNotExist) of
                    Inr bits \<Rightarrow>
                      Inr \<lparr>sc_h = h, sc_fl = cflight_init bits,
                           sc_store = \<lparr>st_file = f, st_fetches = 0, st_verifyErr = 0\<rparr>, sc_hits = 0,
                           sc_durable = f, sc_bitmap = oe_bitmap env\<rparr>
                  | Inl _ \<Rightarrow>
                      (case oe_trunc0 env of
                         Some e \<Rightarrow> Inl (ResetDataError e)
                       | None \<Rightarrow>
                          if sint (ms_TotalSize h) < 0 then Inl (SizeDataError ''invalid argument'')
                          else (case oe_truncN env of
                             Some e \<Rightarrow> Inl (SizeDataError e)
                           | None \<Rightarrow>
                              (let z = truncate_to (truncate_to f 0) (nat (sint (ms_TotalSize h))) in
                               Inr \<lparr>sc_h = h,
                                    sc_fl = cflight_init (replicate (nat (ms_NumChunks h)) False),
                                    sc_store = \<lparr>st_file = z, st_fetches = 0, st_verifyErr = 0\<rparr>,
                                    sc_hits = 0, sc_durable = z, sc_bitmap = removed\<rparr>)))))))"

definition ms_sc_fetchChunk ::
  "ms_Header \<Rightarrow> fetch_env \<Rightarrow> store \<Rightarrow> int \<Rightarrow> ms_cerror option \<times> store" where
  "ms_sc_fetchChunk h env st idx = map_prod (map_option CacheFetch) id (ms_fetchChunk h env st idx)"

definition ms_sc_ensureChunk ::
  "fetch_env \<Rightarrow> ms_SharedCache \<Rightarrow> int \<Rightarrow> ms_cerror call \<times> ms_SharedCache" where
  "ms_sc_ensureChunk env c idx =
     (if idx < 0 \<or> int (length (fl_done (sc_fl c))) \<le> idx then (Done (Some (ChunkOutOfRange idx)), c)
      else case flight_enter (sc_fl c) idx of
        Hit \<Rightarrow> (Done None, c\<lparr>sc_hits := sc_hits c + 1\<rparr>)
      | Join ch \<Rightarrow> (Blocked, c)
      | Lead ch fl1 \<Rightarrow>
          (let (err, st) = ms_sc_fetchChunk (sc_h c) env (sc_store c) idx in
           (Done err, c\<lparr>sc_fl := cache_finish fl1 idx ch err, sc_store := st\<rparr>)))"

definition ms_sc_EnsureChunk ::
  "fetch_env \<Rightarrow> ms_SharedCache \<Rightarrow> int \<Rightarrow> ms_cerror call \<times> ms_SharedCache" where
  "ms_sc_EnsureChunk env c idx =
     (if \<not> ms_IsPresent (sc_h c) idx then (Done None, c) else ms_sc_ensureChunk env c idx)"

text \<open>
  \<open>ReadAt\<close> on a buffer of \<open>plen\<close> bytes: the outcome, the bytes at the front of the buffer, the state.
  \<open>env i\<close> is what the fetch of chunk \<open>i\<close> meets.
\<close>

definition ms_sc_ReadAt ::
  "(int \<Rightarrow> fetch_env) \<Rightarrow> string option \<Rightarrow> ms_SharedCache \<Rightarrow> int \<Rightarrow> nat
   \<Rightarrow> ms_cerror call \<times> byte list \<times> ms_SharedCache" where
  "ms_sc_ReadAt env rd c off plen =
     (let total_size = sint (ms_TotalSize (sc_h c)) in
      if plen = 0 then (Done None, [], c)
      else if off < 0 \<or> off \<ge> total_size then (Done (Some (CacheOffsetOutOfRange off total_size)), [], c)
      else
        let len = clamp_len total_size off (int plen);
            first = ms_ChunkForOffset (sc_h c) off;
            last = ms_ChunkForOffset (sc_h c) (off + len - 1)
        in case ensure_range (\<lambda>i c. ms_sc_ensureChunk (env i) c i) (ms_IsPresent (sc_h c)) id c first
                  (nat (last - first + 1)) of
             (Done None, c1) \<Rightarrow>
               (case rd of
                  Some e \<Rightarrow> (Done (Some (DataReadError e)), [], c1)
                | None \<Rightarrow> (Done None, seg (nat off) (nat len) (st_file (sc_store c1)), c1))
           | (bad, c1) \<Rightarrow> (bad, [], c1))"

text \<open>
  \<open>Flush\<close>, run without interference: snapshot and dirty count under the mutex, \<open>Sync\<close>, bitmap
  write and rename, acknowledgement under the mutex.
\<close>

record flush_env =
  fe_sync :: "string option"
  fe_write :: "string option"
  fe_rename :: "string option"

definition ms_Flush :: "flush_env \<Rightarrow> ms_SharedCache \<Rightarrow> ms_cerror option \<times> ms_SharedCache" where
  "ms_Flush env c =
     (if fl_dirty (sc_fl c) = 0 then (None, c)
      else let snapshot = fl_done (sc_fl c); acked = fl_dirty (sc_fl c) in
        case fe_sync env of
          Some e \<Rightarrow> (Some (FsyncError e), c)
        | None \<Rightarrow>
            (let c1 = c\<lparr>sc_durable := st_file (sc_store c)\<rparr>;
                 (err, bm) = ms_writeSharedBitmap (fe_write env) (fe_rename env) (sc_bitmap c1) (sc_h c1) snapshot;
                 c2 = c1\<lparr>sc_bitmap := bm\<rparr>
             in case err of
                  Some e \<Rightarrow> (Some e, c2)
                | None \<Rightarrow> (None, c2\<lparr>sc_fl := dirty_ack (sc_fl c2) acked\<rparr>)))"

definition ms_sc_Close ::
  "flush_env \<Rightarrow> ms_cerror option \<Rightarrow> ms_cerror option \<Rightarrow> ms_SharedCache \<Rightarrow> ms_cerror option \<times> ms_SharedCache" where
  "ms_sc_Close env derr uerr c =
     (let (ferr, c1) = ms_Flush env c in
      (case ferr of Some e \<Rightarrow> Some e | None \<Rightarrow> (case derr of Some e \<Rightarrow> Some e | None \<Rightarrow> uerr), c1))"

section \<open>The bitmap file round-trips, and a torn one claims less\<close>

lemma length_SharedBitmapMagic [simp]: "length ms_SharedBitmapMagic = 4"
  by (simp add: ms_SharedBitmapMagic_def)

lemma ms_bitmap_decode:
  assumes n: "int (length present) = ms_NumChunks h" "ms_NumChunks h < 2 ^ 32"
  shows "ms_readSharedBitmap (Bitmap (ms_encodeSharedBitmap h present)) h = Inr present"
proof -
  let ?n = "ms_NumChunks h" and ?bm = "bitmap_encode (\<lambda>i. i < length present \<and> present ! i) (length present)"
  have un: "uint (word_of_int ?n :: u32) = ?n"
    using n by (simp add: uint_word_of_int)
  have nn: "nat ?n = length present" using n(1) by simp
  have len: "nat ((?n + 7) div 8) = (length present + 7) div 8"
    using n(1) bitmap_len_nat [of ?n] nn by simp
  have dec: "bitmap_decode ?bm (length present) = present"
    using bitmap_decode_encode [of present "length present" "[]"] by simp
  show ?thesis
    using un len dec nn
    by (simp add: ms_readSharedBitmap_def ms_encodeSharedBitmap_def Let_def seg_def)
qed

definition ms_claims :: "ms_Header \<Rightarrow> bitmap_file \<Rightarrow> int \<Rightarrow> bool" where
  "ms_claims h b i \<longleftrightarrow> (case ms_readSharedBitmap b h of Inl e \<Rightarrow> False | Inr bits \<Rightarrow> bits ! nat i)"

lemma ms_readSharedBitmap_Inr:
  assumes "ms_readSharedBitmap b h = Inr bits"
  obtains g where "b = Bitmap g" "bits = bitmap_decode (seg 24 (nat ((ms_NumChunks h + 7) div 8)) g) (nat (ms_NumChunks h))"
    "24 + (nat (ms_NumChunks h) + 7) div 8 \<le> length g" "0 \<le> ms_NumChunks h"
proof -
  obtain g where g: "b = Bitmap g" using assms by (cases b) (auto simp: ms_readSharedBitmap_def)
  have n: "uint (get32 (drop 20 g)) = ms_NumChunks h" "24 \<le> length g"
    "bits = bitmap_decode (seg 24 (nat ((ms_NumChunks h + 7) div 8)) g) (nat (ms_NumChunks h))"
    "\<not> int (length g - 24) < (ms_NumChunks h + 7) div 8"
    using assms g by (auto simp: ms_readSharedBitmap_def Let_def split: if_splits)
  then have "0 \<le> ms_NumChunks h" by (metis uint_ge_0)
  moreover from this have "24 + (nat (ms_NumChunks h) + 7) div 8 \<le> length g"
    using n(2,4) bitmap_len_nat [of "ms_NumChunks h"] by linarith
  ultimately show thesis using that g n(3) by blast
qed

lemma ms_readSharedBitmap_length:
  "ms_readSharedBitmap b h = Inr bits \<Longrightarrow> int (length bits) = ms_NumChunks h"
  by (erule ms_readSharedBitmap_Inr) simp

lemma ms_claims_torn:
  assumes t: "torn (ms_encodeSharedBitmap h s) g" and c: "ms_claims h (Bitmap g) i" and v: "ms_valid h i"
  shows "s ! nat i"
proof -
  obtain bits where b: "ms_readSharedBitmap (Bitmap g) h = Inr bits" "bits ! nat i"
    using c by (auto simp: ms_claims_def split: sum.splits)
  let ?n = "nat (ms_NumChunks h)" and ?p = "\<lambda>i. i < length s \<and> s ! i"
  let ?hd = "ms_SharedBitmapMagic @ le32 1 @ le32 (ms_ChunkSize h) @ le64 (ms_TotalSize h)
    @ le32 (word_of_int (ms_NumChunks h))"
  have g: "bits = bitmap_decode (seg 24 ((?n + 7) div 8) g) ?n" "24 + (?n + 7) div 8 \<le> length g"
    using ms_readSharedBitmap_Inr [OF b(1)] bitmap_len_nat [of "ms_NumChunks h"] by auto
  have i: "nat i < ?n" using v by (auto simp: ms_valid_def valid_chunk_def ms_NumChunks_def)
  have "torn (?hd @ bitmap_encode ?p ?n) g" using t by (simp add: ms_encodeSharedBitmap_def Let_def)
  moreover have "bitmap_get (seg 24 ((?n + 7) div 8) g) (nat i)" using b(2) g(1) i by (simp add: bitmap_decode_def)
  ultimately show ?thesis using torn_bitmap [of ?hd ?p ?n g 24 "nat i"] g(2) i by simp
qed

section \<open>Opening\<close>

text \<open>
  What an open makes of the files it finds. A failed \<open>Stat\<close> together with a failed \<open>Remove\<close> would
  leave a bitmap that claims chunks of a data file just reset; on an open descriptor \<open>Stat\<close> does not
  fail, and this pair is excluded here.
\<close>

definition ms_opened :: "ms_Header \<Rightarrow> byte list \<Rightarrow> bitmap_file \<Rightarrow> bool list \<Rightarrow> byte list \<Rightarrow> bitmap_file \<Rightarrow> bool" where
  "ms_opened h f b bits f' b' \<longleftrightarrow> (\<exists>env c. oe_data env = Inr f \<and> oe_bitmap env = b
     \<and> (oe_stat env \<or> oe_remove env) \<and> ms_OpenSharedCache (Some h) env = Inr c
     \<and> sc_fl c = cflight_init bits \<and> st_file (sc_store c) = f' \<and> sc_bitmap c = b')"

lemma ms_opened_cases:
  assumes "ms_opened h f b bits f' b'"
  obtains (warm) "int (length f) = sint (ms_TotalSize h)" "ms_readSharedBitmap b h = Inr bits" "f' = f" "b' = b"
  | (cold) "bits = replicate (nat (ms_NumChunks h)) False" "f' = zeros (nat (sint (ms_TotalSize h)))"
      "b' = NoBitmap \<or> b' = b \<and> (int (length f) = sint (ms_TotalSize h) \<longrightarrow> (\<exists>e. ms_readSharedBitmap b h = Inl e))"
proof -
  obtain env c where e: "oe_data env = Inr f" "oe_bitmap env = b" "oe_stat env \<or> oe_remove env"
    "ms_OpenSharedCache (Some h) env = Inr c"
    "sc_fl c = cflight_init bits" "st_file (sc_store c) = f'" "sc_bitmap c = b'"
    using assms by (auto simp: ms_opened_def)
  show thesis
  proof (cases "oe_stat env \<and> int (length f) = sint (ms_TotalSize h)")
    case True
    then show thesis
      using e that
      by (auto simp: ms_OpenSharedCache_def Let_def cflight_init_def truncate_to_def zeros_def
          split: option.splits sum.splits if_splits)
  next
    case False
    then show thesis
      using e cold
      by (auto simp: ms_OpenSharedCache_def Let_def cflight_init_def truncate_to_def zeros_def
          split: option.splits sum.splits if_splits)
  qed
qed

section \<open>Interleavings and crashes\<close>

lemma ms_sc_fetchChunk_parts:
  "fst (ms_sc_fetchChunk h env st i) = map_option CacheFetch (fst (ms_fetchChunk h env st i))"
  "snd (ms_sc_fetchChunk h env st i) = snd (ms_fetchChunk h env st i)"
  by (simp_all add: ms_sc_fetchChunk_def)

lemma ms_sc_fetchChunk_laws:
  assumes "source_of img env" and "ms_dinv h img st" and "ms_valid h i"
  shows "ms_dinv h img (snd (ms_sc_fetchChunk h env st i))"
    and "fst (ms_sc_fetchChunk h env st i) = None \<Longrightarrow> ms_holds h img (snd (ms_sc_fetchChunk h env st i)) i"
    and "ms_valid h j \<Longrightarrow> j \<noteq> i \<Longrightarrow> ms_holds h img st j
      \<Longrightarrow> ms_holds h img (snd (ms_sc_fetchChunk h env st i)) j"
  using ms_fetchChunk_laws [OF assms] by (simp_all add: ms_sc_fetchChunk_parts)

interpretation ms_sc_flight: single_flight "ms_valid h" "source_of img" "ms_sc_fetchChunk h"
  cache_finish cache_wake "\<lambda>_ _. True" "ms_dinv h img" "ms_holds h img" for h img
proof unfold_locales
  show "ms_holds h img (snd (ms_sc_fetchChunk h env d i)) j"
    if "source_of img env" "ms_dinv h img d" "ms_valid h i" "ms_valid h j" "j \<noteq> i" "ms_holds h img d j" for env d i j
    using that by (rule ms_sc_fetchChunk_laws(3))
qed (simp_all only: cache_finish_fields ms_sc_fetchChunk_laws(1,2) cache_wake_none)

interpretation ms_sc: crash_cache "ms_valid h" "source_of img" "ms_sc_fetchChunk h" "ms_dinv h img"
  "ms_holds h img" "ms_describes h" "ms_ChunkSize h" "ms_TotalSize h" "ms_present h" img "ms_encodeSharedBitmap h"
  "ms_claims h" "ms_opened h" for h img
proof unfold_locales
  let ?cs = "ms_ChunkSize h" and ?ts = "ms_TotalSize h" and ?ps = "ms_present h"
  have total: "geom_ok ?cs ?ts" "sint ?ts = int (unat ?ts)" if "describes ?cs ?ts ?ps img"
    using ms_describes_total [of h img] that by (simp_all add: ms_describes_def)
  show "int (length bits) = num_chunks ?cs ?ts \<and> sparse_ok ?cs ?ts ?ps f'"
    if d: "describes ?cs ?ts ?ps img" and o: "ms_opened h f b bits f' b'" and s: "sparse_ok ?cs ?ts ?ps f"
    for f b bits f' b'
    using o
  proof (cases rule: ms_opened_cases)
    case warm
    then show ?thesis
      using s ms_readSharedBitmap_length [OF warm(2)] by (simp add: ms_NumChunks_def)
  next
    case cold
    then show ?thesis
      using total [OF d] num_chunks_nonneg [of ?cs ?ts] sparse_ok_zeros [of ?cs ?ts ?ps]
      by (simp add: ms_NumChunks_def)
  qed
  show "f' = f \<and> ms_claims h b i" if "ms_opened h f b bits f' b'" "ms_valid h i" "bits ! nat i" for f b bits f' b' i
    using that(1)
  proof (cases rule: ms_opened_cases)
    case warm
    then show ?thesis using that(3) by (simp add: ms_claims_def)
  next
    case cold
    then show ?thesis using that(2,3) by (simp add: ms_valid_def valid_chunk_def ms_NumChunks_def nat_less_iff)
  qed
  show "bits ! nat i"
    if d: "describes ?cs ?ts ?ps img" and "sparse_ok ?cs ?ts ?ps f" and o: "ms_opened h f b bits f' b'"
      and c: "ms_claims h b' i" for f b bits f' b' i
    using o
  proof (cases rule: ms_opened_cases)
    case warm
    then show ?thesis using c by (simp add: ms_claims_def)
  next
    case cold
    then show ?thesis
      using c that(2) total(2) [OF d] by (auto simp: ms_claims_def sparse_ok_def ms_readSharedBitmap_def)
  qed
  show "ms_claims h (Bitmap g) i \<Longrightarrow> s ! nat i" if "torn (ms_encodeSharedBitmap h s) g" "ms_valid h i" for s g i
    using ms_claims_torn that by blast
qed (simp_all add: ms_dinv_def ms_describes_def ms_sparse_def ms_holds_def ms_valid_def)

abbreviation ms_cache_reach :: "ms_Header \<Rightarrow> byte list \<Rightarrow> ms_cerror crash \<Rightarrow> ms_cerror crash \<Rightarrow> bool" where
  "ms_cache_reach h img \<equiv> cache_reach (ms_valid h) (source_of img) (ms_sc_fetchChunk h) (\<lambda>e. e = Cancelled)
     (ms_encodeSharedBitmap h) (ms_opened h)"

text \<open>
  C1: crash safety of the shared cache. Start from a fresh cache directory and run any interleaving of
  fetching goroutines, cancelled waits, flushes that succeed or fail at any phase, crashes that lose or
  tear whatever was not synced, and reopens: a chunk the cache marks valid always holds the image's
  bytes, so no crash makes it serve torn data.
\<close>

theorem ms_crash_safe:
  assumes "ms_describes h img"
    and "ms_cache_reach h img
      (opened_state (replicate (nat (ms_NumChunks h)) False) (zeros (unat (ms_TotalSize h))) NoBitmap) c"
    and "ms_valid h i" and "fl_done (cr_fl c) ! nat i"
  shows "seg (chunk_off (ms_ChunkSize h) (ms_TotalSize h) i) (chunk_len (ms_ChunkSize h) (ms_TotalSize h) i)
      (st_file (cr_store c))
    = seg (chunk_off (ms_ChunkSize h) (ms_TotalSize h) i) (chunk_len (ms_ChunkSize h) (ms_TotalSize h) i) img"
proof -
  have "int (nat (ms_NumChunks h)) = num_chunks (ms_ChunkSize h) (ms_TotalSize h)"
    using num_chunks_nonneg [OF ms_describes_total(1) [OF assms(1)]] by (simp add: ms_NumChunks_def)
  from ms_sc.cold_safe [OF assms(1) this _ assms(2-4)] show ?thesis
    by (simp add: ms_claims_def ms_readSharedBitmap_def chunk_holds_def)
qed

text \<open>
  \<open>ms_abs c a\<close>: the cache object \<open>c\<close> between two operations, as a state \<open>a\<close> of \<open>cache_step\<close>.
\<close>

definition ms_abs :: "ms_SharedCache \<Rightarrow> ms_cerror crash \<Rightarrow> bool" where
  "ms_abs c a \<longleftrightarrow> cr_fl a = sc_fl c \<and> cr_store a = sc_store c \<and> cr_durable a = sc_durable c
     \<and> cr_phase a = FIdle \<and> (sc_bitmap c = cr_disk a
         \<or> (\<exists>s \<in> cr_renamed a. sc_bitmap c = Bitmap (ms_encodeSharedBitmap (sc_h c) s)))"

lemma ms_Flush_cases:
  assumes "ms_Flush env c = (e, c')"
  obtains (clean) "fl_dirty (sc_fl c) = 0" "c' = c" "e = None"
  | (nosync) "fl_dirty (sc_fl c) \<noteq> 0" "c' = c" "e \<noteq> None"
  | (nowrite) "fl_dirty (sc_fl c) \<noteq> 0" "c' = c\<lparr>sc_durable := st_file (sc_store c)\<rparr>" "e \<noteq> None"
  | (full) "fl_dirty (sc_fl c) \<noteq> 0" "e = None" "c' = c\<lparr>sc_durable := st_file (sc_store c),
      sc_bitmap := Bitmap (ms_encodeSharedBitmap (sc_h c) (fl_done (sc_fl c))),
      sc_fl := dirty_ack (sc_fl c) (fl_dirty (sc_fl c))\<rparr>"
proof (cases "fl_dirty (sc_fl c) = 0")
  case True
  then show thesis using assms by (intro clean) (simp_all add: ms_Flush_def)
next
  case dirty: False
  note F = assms [unfolded ms_Flush_def Let_def ms_writeSharedBitmap_def]
  show thesis
  proof (cases "fe_sync env")
    case (Some x)
    then show thesis using dirty F by (intro nosync) auto
  next
    case None
    show thesis
    proof (cases "fe_write env = None \<and> fe_rename env = None")
      case True
      then show thesis using dirty F None by (intro full) auto
    next
      case False
      then show thesis using dirty F None by (intro nowrite) (auto split: option.splits)
    qed
  qed
qed

text \<open>
  C7: \<open>Flush\<close> refines the protocol: whatever it returns, its effect on the cache is a sequence of
  steps of \<open>cache_step\<close>, so the crash-safety invariant covers it.
\<close>

theorem ms_Flush_refines:
  assumes "ms_abs c a" and "ms_Flush env c = (e, c')"
  shows "\<exists>a'. ms_cache_reach (sc_h c) img a a' \<and> ms_abs c' a' \<and> sc_h c' = sc_h c"
proof -
  let ?R = "ms_cache_reach (sc_h c) img" and ?s = "fl_done (sc_fl c)" and ?d = "fl_dirty (sc_fl c)"
  let ?a1 = "a\<lparr>cr_phase := FSnap ?s ?d\<rparr>"
  let ?a2 = "?a1\<lparr>cr_durable := st_file (sc_store c), cr_phase := FSynced ?s ?d\<rparr>"
  let ?a3 = "?a2\<lparr>cr_renamed := insert ?s (cr_renamed a), cr_phase := FRenamed ?s ?d\<rparr>"
  note abs = assms(1) [unfolded ms_abs_def]
  have r1: "?R a ?a1" if "?d \<noteq> 0"
    using cache_reach.step [OF cache_reach.start cache_step.flush [of a]] abs that by simp
  have r2: "?R a ?a2" if "?d \<noteq> 0"
    using cache_reach.step [OF r1 [OF that] cache_step.sync [of ?a1]] abs by simp
  have r3: "?R a ?a3" if "?d \<noteq> 0"
    using cache_reach.step [OF r2 [OF that] cache_step.rename [of ?a2]] by simp
  from assms(2) show ?thesis
  proof (cases rule: ms_Flush_cases)
    case clean
    then show ?thesis using assms(1) cache_reach.start by blast
  next
    case nosync
    have "?R a (?a1\<lparr>cr_phase := FIdle\<rparr>)"
      by (rule cache_reach.step [OF r1 [OF nosync(1)] cache_step.fail]) simp
    then show ?thesis using nosync abs by (intro exI [of _ "?a1\<lparr>cr_phase := FIdle\<rparr>"]) (auto simp: ms_abs_def)
  next
    case nowrite
    have "?R a (?a2\<lparr>cr_phase := FIdle\<rparr>)"
      by (rule cache_reach.step [OF r2 [OF nowrite(1)] cache_step.fail]) simp
    then show ?thesis using nowrite abs by (intro exI [of _ "?a2\<lparr>cr_phase := FIdle\<rparr>"]) (auto simp: ms_abs_def)
  next
    case full
    let ?a4 = "?a3\<lparr>cr_fl := dirty_ack (cr_fl ?a3) ?d, cr_phase := FIdle\<rparr>"
    have "?R a ?a4"
      by (rule cache_reach.step [OF r3 [OF full(1)] cache_step.ack]) simp
    then show ?thesis using full abs by (intro exI [of _ ?a4]) (auto simp: ms_abs_def)
  qed
qed

text \<open>
  C8: a successful \<open>Flush\<close> loses nothing: reopening the directory after it, with no failing file
  operation, gives a cache with the same valid chunks and the same data.
\<close>

theorem ms_Flush_reopen:
  assumes "ms_Flush env c = (None, c')" and "fl_dirty (sc_fl c) \<noteq> 0"
    and "int (length (fl_done (sc_fl c))) = ms_NumChunks (sc_h c)" and "ms_NumChunks (sc_h c) < 2 ^ 32"
    and "int (length (st_file (sc_store c))) = sint (ms_TotalSize (sc_h c))"
  shows "\<exists>c''. ms_OpenSharedCache (Some (sc_h c)) \<lparr>oe_mkdir = None, oe_data = Inr (sc_durable c'), oe_stat = True,
      oe_bitmap = sc_bitmap c', oe_remove = r, oe_trunc0 = t0, oe_truncN = tN\<rparr> = Inr c''
    \<and> fl_done (sc_fl c'') = fl_done (sc_fl c) \<and> st_file (sc_store c'') = st_file (sc_store c)"
  using assms(1)
proof (cases rule: ms_Flush_cases)
  case full
  then show ?thesis
    using assms(5) ms_bitmap_decode [OF assms(3,4)] by (simp add: ms_OpenSharedCache_def cflight_init_def)
qed (use assms(2) in auto)

section \<open>Reading through the cache\<close>

definition ms_sc_inv :: "byte list \<Rightarrow> ms_SharedCache \<Rightarrow> bool" where
  "ms_sc_inv img c \<longleftrightarrow> ms_describes (sc_h c) img \<and> fl_inflight (sc_fl c) = (\<lambda>_. None)
     \<and> store_inv (ms_ChunkSize (sc_h c)) (ms_TotalSize (sc_h c)) (ms_present (sc_h c)) img
         (st_file (sc_store c)) (fl_done (sc_fl c))"

lemma ms_sc_inv_quiet:
  "ms_sc_inv img c \<longleftrightarrow> ms_describes (sc_h c) img \<and> ms_sc_flight.quiet (sc_h c) img (sc_fl c) (sc_store c)
     \<and> int (length (fl_done (sc_fl c))) = ms_NumChunks (sc_h c)"
proof (cases "ms_describes (sc_h c) img \<and> ms_sparse (sc_h c) (sc_store c)
    \<and> int (length (fl_done (sc_fl c))) = ms_NumChunks (sc_h c)")
  case True
  let ?h = "sc_h c" and ?ok = "\<lambda>i. ms_holds (sc_h c) img (sc_store c) i"
  have "?ok i" if "valid_chunk (ms_ChunkSize ?h) (ms_TotalSize ?h) i" "\<not> ms_IsPresent ?h i" for i
    using absent_holds that True unfolding ms_describes_def ms_sparse_def ms_IsPresent_def ms_holds_def by blast
  then have "(\<forall>i. valid_chunk (ms_ChunkSize ?h) (ms_TotalSize ?h) i \<and> fl_done (sc_fl c) ! nat i \<longrightarrow> ?ok i)
      \<longleftrightarrow> (\<forall>i. ms_valid ?h i \<and> fl_done (sc_fl c) ! nat i \<longrightarrow> ?ok i)"
    unfolding ms_valid_def by blast
  moreover have "0 \<le> i \<and> nat i < length (fl_done (sc_fl c))" if "ms_valid ?h i" for i
    using that True by (auto simp: ms_valid_def valid_chunk_def ms_NumChunks_def)
  ultimately show ?thesis
    using True unfolding ms_sc_inv_def ms_sc_flight.quiet_def store_inv_def ms_dinv_def ms_sparse_def ms_holds_def ms_NumChunks_def
    by blast
next
  case False
  then show ?thesis
    by (auto simp: ms_sc_inv_def ms_sc_flight.quiet_def store_inv_def ms_dinv_def ms_sparse_def ms_NumChunks_def)
qed

lemma ms_sc_ensureChunk_step:
  assumes inv: "ms_sc_inv img c" and ok: "source_of img env" and p: "ms_IsPresent (sc_h c) i"
  shows "\<exists>e c'. ms_sc_ensureChunk env c i = (Done e, c') \<and> ms_sc_inv img c' \<and> sc_h c' = sc_h c
    \<and> (e = None \<longrightarrow> fl_done (sc_fl c') ! nat i)
    \<and> (\<forall>k. fl_done (sc_fl c) ! k \<longrightarrow> fl_done (sc_fl c') ! k) \<and> (healthy img env \<longrightarrow> e = None)"
proof -
  have d: "ms_describes (sc_h c) img" and q: "ms_sc_flight.quiet (sc_h c) img (sc_fl c) (sc_store c)"
    and n: "int (length (fl_done (sc_fl c))) = ms_NumChunks (sc_h c)"
    using inv by (simp_all add: ms_sc_inv_quiet)
  have v: "ms_valid (sc_h c) i" using d p by (rule ms_valid_present)
  then have rng: "\<not> (i < 0 \<or> int (length (fl_done (sc_fl c))) \<le> i)" "nat i < length (fl_done (sc_fl c))"
    using n by (auto simp: ms_valid_def valid_chunk_def ms_NumChunks_def)
  obtain e fl' st' where s: "solo_call (ms_sc_fetchChunk (sc_h c)) cache_finish env (sc_fl c) (sc_store c) i = (Done e, fl', st')"
    "ms_sc_flight.quiet (sc_h c) img fl' st'" "e = None \<longleftrightarrow> fl_done fl' ! nat i"
    "fl_done fl' = (if fl_done (sc_fl c) ! nat i \<or> e = None then (fl_done (sc_fl c))[nat i := True] else fl_done (sc_fl c))"
    "fst (ms_sc_fetchChunk (sc_h c) env (sc_store c) i) = None \<longrightarrow> e = None"
    by (rule ms_sc_flight.solo_call_quiet [OF q ok v]) (rule that)
  let ?c = "c\<lparr>sc_fl := fl', sc_store := st', sc_hits := (if fl_done (sc_fl c) ! nat i then sc_hits c + 1 else sc_hits c)\<rparr>"
  have "ms_sc_ensureChunk env c i = (Done e, ?c)"
    using rng s(1) by (auto simp: ms_sc_ensureChunk_def solo_call_def flight_enter_def
        split: enter.splits option.splits prod.splits if_splits)
  moreover have "ms_sc_inv img ?c" using d n s(2,4) by (simp add: ms_sc_inv_quiet)
  moreover have "fl_done (sc_fl c) ! k \<longrightarrow> fl_done fl' ! k" for k
    using rng(2) by (cases "k = nat i") (simp_all add: s(4))
  moreover have "healthy img env \<longrightarrow> e = None"
    using s(5) ms_fetchChunk_healthy [OF d v] by (simp add: ms_sc_fetchChunk_parts)
  ultimately show ?thesis using s(3) by (intro exI [of _ e] exI [of _ ?c]) simp
qed

lemma ms_sc_ensure_all:
  assumes inv: "ms_sc_inv img c" and ok: "\<forall>i. source_of img (env i)"
  shows "\<exists>e c1. ensure_range (\<lambda>i c. ms_sc_ensureChunk (env i) c i) (ms_IsPresent (sc_h c)) id c i n = (Done e, c1)
      \<and> (ms_sc_inv img c1 \<and> sc_h c1 = sc_h c)
      \<and> (\<forall>k. fl_done (sc_fl c) ! nat k \<longrightarrow> fl_done (sc_fl c1) ! nat k)
      \<and> (e = None \<longrightarrow> (\<forall>j \<in> {i..<i + int n}. ms_IsPresent (sc_h c) j \<longrightarrow> fl_done (sc_fl c1) ! nat j))
      \<and> ((\<forall>i. healthy img (env i)) \<longrightarrow> e = None)"
proof (rule ensure_range_rule)
  show "ms_sc_inv img c \<and> sc_h c = sc_h c" using inv by simp
  fix s j k assume s: "ms_sc_inv img s \<and> sc_h s = sc_h c"
  show "(ms_sc_inv img (id s) \<and> sc_h (id s) = sc_h c)
      \<and> (fl_done (sc_fl s) ! nat k \<longrightarrow> fl_done (sc_fl (id s)) ! nat k)" using s by simp
  assume "ms_IsPresent (sc_h c) j"
  then obtain e s' where e: "ms_sc_ensureChunk (env j) s j = (Done e, s')" "ms_sc_inv img s'" "sc_h s' = sc_h s"
    "e = None \<longrightarrow> fl_done (sc_fl s') ! nat j" "\<forall>k. fl_done (sc_fl s) ! k \<longrightarrow> fl_done (sc_fl s') ! k"
    "healthy img (env j) \<longrightarrow> e = None"
    using ms_sc_ensureChunk_step [of img s "env j" j] s ok by metis
  show "\<exists>e s'. ms_sc_ensureChunk (env j) s j = (Done e, s') \<and> (ms_sc_inv img s' \<and> sc_h s' = sc_h c)
      \<and> (e = None \<longrightarrow> fl_done (sc_fl s') ! nat j) \<and> ((\<forall>i. healthy img (env i)) \<longrightarrow> e = None)"
    using e s by (intro exI [of _ e] exI [of _ s']) simp
  show "fl_done (sc_fl s) ! nat k \<Longrightarrow> fl_done (sc_fl (snd (ms_sc_ensureChunk (env j) s j))) ! nat k"
    using e by simp
qed

text \<open>
  \<open>SharedCache.ReadAt\<close> over any range of chunks returns exactly the image's bytes, clamped at the
  end of the image, whenever it returns without error, for any honest upstream; it keeps the
  invariant, and it succeeds when upstream and local disk are healthy.
\<close>

lemma ms_sc_ReadAt_correct:
  assumes inv: "ms_sc_inv img c" and ok: "\<forall>i. source_of img (env i)" and plen: "0 < plen"
    and off: "0 \<le> off" "off < int (length img)" and sz: "int (length img) + int plen < 2 ^ 63"
  shows "\<exists>e b c'. ms_sc_ReadAt env rd c off plen = (Done e, b, c') \<and> ms_sc_inv img c'
    \<and> (e = None \<longrightarrow> b = seg (nat off) plen img)
    \<and> ((\<forall>i. healthy img (env i)) \<and> rd = None \<longrightarrow> e = None)"
proof -
  let ?h = "sc_h c" and ?len = "min (int plen) (int (length img) - off)"
  have d: "ms_describes ?h img" using inv by (simp add: ms_sc_inv_def)
  note t = ms_describes_total [OF d]
  define i0 where "i0 = ms_ChunkForOffset ?h off"
  define n where "n = nat (ms_ChunkForOffset ?h (off + ?len - 1) - i0 + 1)"
  have "i64 (off + int plen) = off + int plen" "i64 (int (length img) - off) = int (length img) - off"
    using off sz by (auto intro!: i64_id)
  then have len: "clamp_len (sint (ms_TotalSize ?h)) off (int plen) = ?len"
    using off t(3) by (auto simp: clamp_len_def min_def)
  obtain e c1 where r: "ensure_range (\<lambda>i c. ms_sc_ensureChunk (env i) c i) (ms_IsPresent ?h) id c i0 n = (Done e, c1)"
    "ms_sc_inv img c1 \<and> sc_h c1 = ?h"
    "e = None \<longrightarrow> (\<forall>j \<in> {i0..<i0 + int n}. ms_IsPresent ?h j \<longrightarrow> fl_done (sc_fl c1) ! nat j)"
    "(\<forall>i. healthy img (env i)) \<longrightarrow> e = None"
    using ms_sc_ensure_all [OF inv ok, of i0 n] by blast
  have eq: "ms_sc_ReadAt env rd c off plen = (case (Done e, c1) of
      (Done None, c1) \<Rightarrow> (case rd of Some e \<Rightarrow> (Done (Some (DataReadError e)), [], c1)
        | None \<Rightarrow> (Done None, seg (nat off) (nat ?len) (st_file (sc_store c1)), c1))
      | (bad, c1) \<Rightarrow> (bad, [], c1))"
    using plen off t(3) r(1) len by (simp add: ms_sc_ReadAt_def Let_def i0_def n_def)
  have "seg (nat off) (nat ?len) (st_file (sc_store c1)) = seg (nat off) plen img" if "e = None"
  proof -
    have "seg (nat off) (nat ?len) (st_file (sc_store c1)) = seg (nat off) (nat ?len) img"
      using r(2,3) that off plen t(2) d unfolding i0_def n_def
      by (intro store_read_range [of "ms_ChunkSize ?h" "ms_TotalSize ?h" "ms_present ?h" img _ "fl_done (sc_fl c1)"])
        (auto simp: ms_sc_inv_def ms_describes_def ms_ChunkForOffset_def ms_IsPresent_def)
    also have "\<dots> = seg (nat off) plen img" using off by (auto simp: seg_def min_def)
    finally show ?thesis .
  qed
  then show ?thesis using eq r by (cases e; cases rd) auto
qed

section \<open>A concrete cache\<close>

definition ms_demo_cache :: ms_SharedCache where
  "ms_demo_cache = \<lparr>sc_h = ms_demo, sc_fl = cflight_init [False, False, False],
     sc_store = \<lparr>st_file = zeros 5, st_fetches = 0, st_verifyErr = 0\<rparr>, sc_hits = 0,
     sc_durable = zeros 5, sc_bitmap = NoBitmap\<rparr>"

lemma ms_demo_cache_inv: "ms_sc_inv demo_img ms_demo_cache"
  using store_inv_empty [OF demo_describes, of 3] ms_demo_describes
  by (simp add: ms_sc_inv_def ms_demo_cache_def cflight_init_def ms_demo_def demo_num_chunks numeral_3_eq_3)

text \<open>The demo cache after fetching chunk 1.\<close>

definition ms_demo_warm :: ms_SharedCache where
  "ms_demo_warm = snd (ms_sc_ensureChunk (file_env demo_img) ms_demo_cache 1)"

lemma ms_demo_warm_facts:
  "sc_h ms_demo_warm = ms_demo" "fl_done (sc_fl ms_demo_warm) = [False, True, False]"
  "fl_dirty (sc_fl ms_demo_warm) = 1" "st_file (sc_store ms_demo_warm) = [0, 0, 7, 9, 0]"
  by code_simp+

lemma ms_sc_ReadAt_correct_witness:
  "\<exists>c'. ms_sc_ReadAt (\<lambda>_. file_env demo_img) None ms_demo_cache 1 9 = (Done None, [0, 7, 9, 5], c')
    \<and> ms_sc_inv demo_img c'"
proof -
  from ms_sc_ReadAt_correct [OF ms_demo_cache_inv, of "\<lambda>_. file_env demo_img" 9 1 None]
  show ?thesis using demo_source file_env_healthy [of demo_img] by (auto simp: demo_img_def seg_def)
qed

theorem ms_Flush_reopen_witness:
  "\<exists>c''. ms_OpenSharedCache (Some ms_demo) \<lparr>oe_mkdir = None, oe_data = Inr [0, 0, 7, 9, 0], oe_stat = True,
      oe_bitmap = Bitmap (ms_encodeSharedBitmap ms_demo [False, True, False]), oe_remove = True,
      oe_trunc0 = None, oe_truncN = None\<rparr> = Inr c''
    \<and> fl_done (sc_fl c'') = [False, True, False] \<and> st_file (sc_store c'') = [0, 0, 7, 9, 0]"
proof -
  let ?env = "\<lparr>fe_sync = None, fe_write = None, fe_rename = None\<rparr>"
  obtain c' where f: "ms_Flush ?env ms_demo_warm = (None, c')" "sc_durable c' = [0, 0, 7, 9, 0]"
    "sc_bitmap c' = Bitmap (ms_encodeSharedBitmap ms_demo [False, True, False])"
    by (simp add: ms_Flush_def ms_writeSharedBitmap_def ms_demo_warm_facts)
  show ?thesis
    using ms_Flush_reopen [OF f(1), where r = True and ?t0.0 = None and tN = None] f(2,3)
    by (simp add: ms_demo_warm_facts ms_NumChunks_def ms_demo_def demo_num_chunks)
qed

definition ms_demo_crash :: "ms_cerror crash" where
  "ms_demo_crash = opened_state [False, False, False] (zeros 5) NoBitmap"

theorem ms_Flush_refines_witness:
  "\<exists>a'. ms_cache_reach ms_demo demo_img ms_demo_crash a'
    \<and> ms_abs (snd (ms_Flush \<lparr>fe_sync = None, fe_write = None, fe_rename = None\<rparr> ms_demo_cache)) a'"
proof -
  have "ms_abs ms_demo_cache ms_demo_crash"
    by (simp add: ms_abs_def ms_demo_cache_def ms_demo_crash_def opened_state_def)
  from ms_Flush_refines [OF this, of "\<lparr>fe_sync = None, fe_write = None, fe_rename = None\<rparr>", OF surjective_pairing, of demo_img]
  show ?thesis by (auto simp: ms_demo_cache_def)
qed

text \<open>The demo cache fetches chunk 1, and is then read: the chunk is marked valid and right.\<close>

theorem ms_crash_safe_witness:
  "\<exists>c. ms_cache_reach ms_demo demo_img ms_demo_crash c \<and> fl_done (cr_fl c) = [False, True, False]
    \<and> seg 2 2 (st_file (cr_store c)) = [7, 9]"
proof -
  let ?fl = "cflight_init [False, False, False] :: ms_cerror cflight"
  let ?st = "\<lparr>st_file = zeros 5, st_fetches = 0, st_verifyErr = 0\<rparr>"
  obtain fl' st' where s: "solo_call (ms_sc_fetchChunk ms_demo) cache_finish (file_env demo_img) ?fl ?st 1 = (Done None, fl', st')"
    and fd: "fl_done fl' = [False, True, False]"
  proof -
    have "fst (solo_call (ms_sc_fetchChunk ms_demo) cache_finish (file_env demo_img) ?fl ?st 1) = Done None"
      "fl_done (fst (snd (solo_call (ms_sc_fetchChunk ms_demo) cache_finish (file_env demo_img) ?fl ?st 1))) = [False, True, False]"
      by code_simp+
    then show thesis using that by (metis prod.collapse)
  qed
  let ?c = "ms_demo_crash\<lparr>cr_fl := fl', cr_store := st', cr_pcs := (\<lambda>_. Idle)(0 := Returned 1 None)\<rparr>"
  have start: "ms_demo_crash = opened_state (replicate (nat (ms_NumChunks ms_demo)) False) (zeros (unat (ms_TotalSize ms_demo))) NoBitmap"
    by (simp add: ms_demo_crash_def ms_demo_def ms_NumChunks_def demo_num_chunks numeral_3_eq_3)
  have "flight_reach (ms_valid ms_demo) (source_of demo_img) (ms_sc_fetchChunk ms_demo) cache_finish cache_wake
      (\<lambda>e. e = Cancelled) (?fl, ?st, \<lambda>_. Idle) (fl', st', (\<lambda>_. Idle)(0 := Returned 1 None))"
    using ms_demo_valid demo_source s by (intro solo_call_reach) simp_all
  then have r: "ms_cache_reach ms_demo demo_img ms_demo_crash ?c"
    using cache_reach_work [OF _ cache_reach.start, of "ms_valid ms_demo" "source_of demo_img" "ms_sc_fetchChunk ms_demo"
        "\<lambda>e. e = Cancelled" ms_demo_crash "(fl', st', (\<lambda>_. Idle)(0 := Returned 1 None))"]
    by (simp add: ms_demo_crash_def opened_state_def)
  have "seg 2 2 (st_file (cr_store ?c)) = [7, 9]"
    using ms_crash_safe [OF ms_demo_describes r [unfolded start] ms_demo_valid] fd
    by (simp add: ms_demo_def demo_img_def seg_def demo_chunks)
  then show ?thesis using r fd by (intro exI [of _ ?c]) simp
qed

end
