(* ===== verification/Disk_Codec.thy ===== *)
theory Disk_Codec
  imports Mem_Codec
begin

text \<open>
  The on-disk formats of the disk-streaming package: the chunk header \<^verbatim>\<open>clone.ext4.header\<close>
  (\<^verbatim>\<open>src/agent/internal/diskstream/header.go\<close>), which carries a SHA-256 per present chunk, and the
  prefetch list \<^verbatim>\<open>clone.ext4.prefetch\<close> (\<^verbatim>\<open>diskstream/prefetch.go\<close>).

  The digest function is an argument \<open>sha\<close> of every definition that hashes; the theorems need at most
  that its results are 32 bytes long (\<open>digest_fun\<close>).
\<close>

section \<open>Headers\<close>

record ds_Header =
  ds_Version :: u32
  ds_ChunkSize :: u32
  ds_TotalSize :: u64
  ds_present :: "bool list"
  ds_blockSHA :: "byte list list"

datatype ds_error =
    DHeaderTooShort nat
  | DBadMagic "byte list"
  | DUnsupportedVersion u32
  | DZeroChunkSize
  | DChunkCountMismatch int int
  | DTruncatedBitmap int int
  | DTruncatedDigests int int
  | DOpenError string
  | DReadChunkError int string
  | DPrefetchTooShort nat
  | DBadPrefetchMagic "byte list"
  | DUnsupportedPrefetchVersion u32
  | DTruncatedPrefetch int int

definition digest_fun :: "(byte list \<Rightarrow> byte list) \<Rightarrow> bool" where
  "digest_fun sha \<longleftrightarrow> (\<forall>b. length (sha b) = 32)"

text \<open>\<open>"PSD1"\<close> and \<open>"PSPD"\<close>.\<close>

definition ds_Magic :: "byte list" where
  "ds_Magic = [0x50, 0x53, 0x44, 0x31]"

definition ds_PrefetchMagic :: "byte list" where
  "ds_PrefetchMagic = [0x50, 0x53, 0x50, 0x44]"

definition ds_DefaultChunkSize :: int where
  "ds_DefaultChunkSize = 1048576"

definition ds_headerVersion :: u32 where
  "ds_headerVersion = 1"

definition ds_NumChunks :: "ds_Header \<Rightarrow> int" where
  "ds_NumChunks h = num_chunks (ds_ChunkSize h) (ds_TotalSize h)"

definition ds_ChunkRange :: "ds_Header \<Rightarrow> int \<Rightarrow> int \<times> int" where
  "ds_ChunkRange h i = chunk_range (ds_ChunkSize h) (ds_TotalSize h) i"

definition ds_ChunkForOffset :: "ds_Header \<Rightarrow> int \<Rightarrow> int" where
  "ds_ChunkForOffset h off = chunk_for_offset (ds_ChunkSize h) off"

definition ds_IsPresent :: "ds_Header \<Rightarrow> int \<Rightarrow> bool" where
  "ds_IsPresent h i = is_present (ds_present h) i"

definition ds_ChunkSHA :: "ds_Header \<Rightarrow> int \<Rightarrow> byte list option" where
  "ds_ChunkSHA h i =
     (if i < 0 \<or> i \<ge> int (length (ds_blockSHA h)) \<or> \<not> ds_IsPresent h i then None
      else Some (ds_blockSHA h ! nat i))"

definition ds_PresentChunks :: "ds_Header \<Rightarrow> int" where
  "ds_PresentChunks h = present_chunks (ds_present h)"

text \<open>\<open>BuildHeader\<close>, with the conventions of \<open>ms_scan\<close>; an absent chunk keeps the zero digest.\<close>

fun ds_scan ::
  "(byte list \<Rightarrow> byte list) \<Rightarrow> (int \<Rightarrow> string option) \<Rightarrow> nat \<Rightarrow> int \<Rightarrow> nat \<Rightarrow> byte list
   \<Rightarrow> ds_error + (bool \<times> byte list) list" where
  "ds_scan sha rerr cs i 0 rest = Inr []"
| "ds_scan sha rerr cs i (Suc n) rest =
     (case rerr i of
        Some e \<Rightarrow> Inl (DReadChunkError i e)
      | None \<Rightarrow>
          (case ds_scan sha rerr cs (i + 1) n (drop cs rest) of
             Inl e \<Rightarrow> Inl e
           | Inr ps \<Rightarrow>
               Inr ((if anyNonZero (take cs rest) then (True, sha (take cs rest)) else (False, zeros 32)) # ps)))"

definition ds_BuildHeader ::
  "(byte list \<Rightarrow> byte list) \<Rightarrow> string + byte list \<Rightarrow> (int \<Rightarrow> string option) \<Rightarrow> int \<Rightarrow> ds_error + ds_Header" where
  "ds_BuildHeader sha file rerr chunkSize0 =
     (let chunkSize = (if chunkSize0 \<le> 0 then ds_DefaultChunkSize else chunkSize0) in
      case file of
        Inl e \<Rightarrow> Inl (DOpenError e)
      | Inr content \<Rightarrow>
          (let h = \<lparr>ds_Version = ds_headerVersion, ds_ChunkSize = word_of_int chunkSize,
                    ds_TotalSize = word_of_nat (length content), ds_present = [], ds_blockSHA = []\<rparr>
           in case ds_scan sha rerr (nat chunkSize) 0 (nat (ds_NumChunks h)) content of
                Inl e \<Rightarrow> Inl e
              | Inr ps \<Rightarrow> Inr (h\<lparr>ds_present := map fst ps, ds_blockSHA := map snd ps\<rparr>)))"

definition ds_Encode :: "ds_Header \<Rightarrow> byte list" where
  "ds_Encode h =
     (let n = ds_NumChunks h in
      ds_Magic @ le32 (ds_Version h) @ le32 (ds_ChunkSize h) @ le64 (ds_TotalSize h)
      @ le32 (word_of_int n)
      @ bitmap_encode (\<lambda>i. i < length (ds_present h) \<and> ds_present h ! i) (nat n)
      @ concat (map (\<lambda>i. if i < length (ds_present h) \<and> ds_present h ! i then ds_blockSHA h ! i else [])
          [0..<nat n]))"

fun ds_read_digests :: "bool list \<Rightarrow> byte list \<Rightarrow> byte list list" where
  "ds_read_digests [] b = []"
| "ds_read_digests (p # ps) b =
     (if p then take 32 b # ds_read_digests ps (drop 32 b) else zeros 32 # ds_read_digests ps b)"

definition ds_DecodeHeader :: "byte list \<Rightarrow> ds_error + ds_Header" where
  "ds_DecodeHeader b =
     (if length b < 24 then Inl (DHeaderTooShort (length b))
      else if take 4 b \<noteq> ds_Magic then Inl (DBadMagic (take 4 b))
      else let version = get32 (drop 4 b) in
        if version \<noteq> ds_headerVersion then Inl (DUnsupportedVersion version)
        else let cs = get32 (drop 8 b); ts = get64 (drop 12 b); n = uint (get32 (drop 20 b)) in
          if cs = 0 then Inl DZeroChunkSize
          else let got = num_chunks cs ts in
            if got \<noteq> n then Inl (DChunkCountMismatch n got)
            else let bitmapLen = (n + 7) div 8 in
              if int (length b - 24) < bitmapLen
              then Inl (DTruncatedBitmap bitmapLen (int (length b - 24)))
              else let ps = bitmap_decode (seg 24 (nat bitmapLen) b) (nat n);
                       rest = drop (24 + nat bitmapLen) b;
                       need = present_chunks ps * 32
                in if int (length rest) < need then Inl (DTruncatedDigests need (int (length rest)))
                   else Inr \<lparr>ds_Version = version, ds_ChunkSize = cs, ds_TotalSize = ts, ds_present = ps,
                             ds_blockSHA = ds_read_digests ps rest\<rparr>)"

section \<open>Prefetch lists\<close>

record ds_Prefetch =
  ds_pVersion :: u32
  ds_pChunkSize :: u32
  ds_Chunks :: "u32 list"

definition ds_prefetchVersion :: u32 where
  "ds_prefetchVersion = 1"

definition ds_PrefetchEncode :: "ds_Prefetch \<Rightarrow> byte list" where
  "ds_PrefetchEncode p =
     ds_PrefetchMagic @ le32 (ds_pVersion p) @ le32 (ds_pChunkSize p)
     @ le32 (word_of_nat (length (ds_Chunks p))) @ concat (map le32 (ds_Chunks p))"

definition ds_DecodePrefetch :: "byte list \<Rightarrow> ds_error + ds_Prefetch" where
  "ds_DecodePrefetch b =
     (if length b < 16 then Inl (DPrefetchTooShort (length b))
      else if take 4 b \<noteq> ds_PrefetchMagic then Inl (DBadPrefetchMagic (take 4 b))
      else let version = get32 (drop 4 b) in
        if version \<noteq> ds_prefetchVersion then Inl (DUnsupportedPrefetchVersion version)
        else let cs = get32 (drop 8 b); n = uint (get32 (drop 12 b)) in
          if int (length b - 16) < 4 * n
          then Inl (DTruncatedPrefetch (4 * n) (int (length b - 16)))
          else Inr \<lparr>ds_pVersion = version, ds_pChunkSize = cs,
                    ds_Chunks = read_u32s (nat n) (drop 16 b)\<rparr>)"

section \<open>Round trips\<close>

definition ds_wf :: "ds_Header \<Rightarrow> bool" where
  "ds_wf h \<longleftrightarrow> ds_Version h = ds_headerVersion \<and> ds_ChunkSize h \<noteq> 0
     \<and> int (length (ds_present h)) = ds_NumChunks h \<and> ds_NumChunks h < 2 ^ 32
     \<and> length (ds_blockSHA h) = length (ds_present h)
     \<and> (\<forall>i < length (ds_present h). length (ds_blockSHA h ! i) = 32
          \<and> (\<not> ds_present h ! i \<longrightarrow> ds_blockSHA h ! i = zeros 32))"

lemma length_ds_Magic [simp]: "length ds_Magic = 4" "length ds_PrefetchMagic = 4"
  by (simp_all add: ds_Magic_def ds_PrefetchMagic_def)

text \<open>The digest section, chunk by chunk.\<close>

fun digest_section :: "(bool \<times> byte list) list \<Rightarrow> byte list" where
  "digest_section [] = []"
| "digest_section ((p, d) # xs) = (if p then d else []) @ digest_section xs"

lemma digest_section_eq:
  "length ps = n \<Longrightarrow> length ds = n \<Longrightarrow>
    concat (map (\<lambda>i. if i < length ps \<and> ps ! i then ds ! i else []) [0..<n]) = digest_section (zip ps ds)"
proof (induction n arbitrary: ps ds)
  case 0
  then show ?case by simp
next
  case (Suc n)
  then obtain p ps' d ds' where c: "ps = p # ps'" "ds = d # ds'" "length ps' = n" "length ds' = n"
    by (metis length_Suc_conv)
  have "map (\<lambda>i. if i < length ps \<and> ps ! i then ds ! i else []) [0..<Suc n]
      = (if p then d else []) # map (\<lambda>i. if i < length ps' \<and> ps' ! i then ds' ! i else []) [0..<n]"
    using c by (auto simp: upt_conv_Cons map_Suc_upt [symmetric] simp del: upt_Suc)
  then show ?case using Suc.IH [of ps' ds'] c by simp
qed

lemma digest_section_read:
  assumes "length ds = length ps" and "\<forall>i < length ps. length (ds ! i) = 32 \<and> (\<not> ps ! i \<longrightarrow> ds ! i = zeros 32)"
  shows "ds_read_digests ps (digest_section (zip ps ds) @ rest) = ds
    \<and> int (length (digest_section (zip ps ds))) = present_chunks ps * 32"
  using assms
proof (induction ps arbitrary: ds)
  case Nil
  then show ?case by simp
next
  case (Cons p ps ds0)
  then obtain d ds where ds0: "ds0 = d # ds" "length ds = length ps" by (metis length_Suc_conv)
  have "length (ds ! i) = 32 \<and> (\<not> ps ! i \<longrightarrow> ds ! i = zeros 32)" if "i < length ps" for i
    using Cons.prems(2) ds0 that by (metis Suc_less_eq length_Cons nth_Cons_Suc)
  moreover have "length d = 32 \<and> (\<not> p \<longrightarrow> d = zeros 32)" using Cons.prems(2) ds0 by force
  ultimately show ?case using Cons.IH [OF ds0(2)] ds0 by auto
qed

lemma length_read_digests [simp]: "length (ds_read_digests ps b) = length ps"
  by (induction ps b rule: ds_read_digests.induct) auto

lemma read_digests_wf:
  assumes "present_chunks ps * 32 \<le> int (length b)" and "i < length ps"
  shows "length (ds_read_digests ps b ! i) = 32 \<and> (\<not> ps ! i \<longrightarrow> ds_read_digests ps b ! i = zeros 32)"
  using assms
proof (induction ps b arbitrary: i rule: ds_read_digests.induct)
  case (2 p ps b)
  have "0 \<le> present_chunks ps" by (induction ps) auto
  then show ?case using 2 by (cases i) (auto split: if_splits)
qed simp

text \<open>
  decoding the bytes \<open>Encode\<close> writes gives back the disk header, digests included, whatever follows
  them in the file.
\<close>

lemma ds_header_roundtrip:
  assumes "ds_wf h"
  shows "ds_DecodeHeader (ds_Encode h @ rest) = Inr h"
proof -
  let ?n = "ds_NumChunks h" and ?p = "\<lambda>i. i < length (ds_present h) \<and> ds_present h ! i"
  note wf = assms [unfolded ds_wf_def]
  have n0: "0 \<le> ?n" using wf by linarith
  have un: "uint (word_of_int ?n :: u32) = ?n"
    using wf n0 by (simp add: uint_word_of_int)
  have nn: "nat ?n = length (ds_present h)" using wf by linarith
  let ?bm = "bitmap_encode ?p (length (ds_present h))" and ?ds = "digest_section (zip (ds_present h) (ds_blockSHA h))"
  have enc: "ds_Encode h @ rest = ds_Magic @ le32 (ds_Version h) @ le32 (ds_ChunkSize h)
      @ le64 (ds_TotalSize h) @ le32 (word_of_int ?n) @ ?bm @ ?ds @ rest"
    using wf digest_section_eq [of "ds_present h" "nat ?n" "ds_blockSHA h"] nn by (simp add: ds_Encode_def Let_def)
  have len: "nat ((?n + 7) div 8) = length ?bm" using n0 nn by (simp add: bitmap_len_nat)
  have dec: "bitmap_decode ?bm (length (ds_present h)) = ds_present h"
    using bitmap_decode_encode [of "ds_present h" "length (ds_present h)" "[]"] by simp
  have dig: "ds_read_digests (ds_present h) (?ds @ rest) = ds_blockSHA h"
    "int (length ?ds) = present_chunks (ds_present h) * 32"
    using digest_section_read [of "ds_blockSHA h" "ds_present h" rest] wf by auto
  have "num_chunks (ds_ChunkSize h) (ds_TotalSize h) = ?n" by (simp add: ds_NumChunks_def)
  then show ?thesis
    unfolding enc using wf len dec un dig nn
    by (simp add: ds_DecodeHeader_def Let_def seg_def)
qed

text \<open>
  C18: a disk header that decodes without error is well formed: one presence bit and one 32-byte digest
  per chunk, so every later index into them is in range.
\<close>

theorem ds_DecodeHeader_wf:
  assumes "ds_DecodeHeader b = Inr h"
  shows "ds_wf h"
proof -
  let ?n = "uint (get32 (drop 20 b))"
  define ps where "ps = bitmap_decode (seg 24 (nat ((?n + 7) div 8)) b) (nat ?n)"
  define rest where "rest = drop (24 + nat ((?n + 7) div 8)) b"
  from assms [unfolded ds_DecodeHeader_def Let_def] have h: "ds_Version h = ds_headerVersion" "ds_ChunkSize h \<noteq> 0" "ds_NumChunks h = ?n"
    "ds_present h = ps" "ds_blockSHA h = ds_read_digests ps rest" "present_chunks ps * 32 \<le> int (length rest)"
    unfolding ps_def [symmetric] rest_def [symmetric]
    by (simp_all add: ds_NumChunks_def split: if_split_asm) auto
  moreover have "length ps = nat ?n" by (simp add: ps_def)
  ultimately show ?thesis
    using uint_u32_lt [of "get32 (drop 20 b)"] read_digests_wf [OF h(6)] by (simp add: ds_wf_def)
qed

lemma ds_prefetch_decode:
  assumes "ds_pVersion p = ds_prefetchVersion" and "length (ds_Chunks p) < 2 ^ 32"
  shows "ds_DecodePrefetch (ds_PrefetchEncode p @ rest) = Inr p"
proof -
  have "uint (word_of_nat (length (ds_Chunks p)) :: u32) = int (length (ds_Chunks p))"
    using assms(2) by (simp add: uint_word_of_int take_bit_int_eq_self unsigned_of_nat take_bit_nat_eq_self)
  then show ?thesis
    using assms(1)
    by (simp add: ds_DecodePrefetch_def ds_PrefetchEncode_def Let_def read_u32s_concat length_concat_le32)
qed

section \<open>Building a header\<close>

text \<open>What \<open>BuildHeader\<close> establishes: elided chunks are zero, and every present chunk has its digest.\<close>

definition ds_describes :: "(byte list \<Rightarrow> byte list) \<Rightarrow> ds_Header \<Rightarrow> byte list \<Rightarrow> bool" where
  "ds_describes sha h img \<longleftrightarrow> describes (ds_ChunkSize h) (ds_TotalSize h) (ds_present h) img
     \<and> (\<forall>i. ds_IsPresent h i \<longrightarrow> ds_ChunkSHA h i =
          Some (sha (seg (chunk_off (ds_ChunkSize h) (ds_TotalSize h) i) (chunk_len (ds_ChunkSize h) (ds_TotalSize h) i) img)))"

definition scan_entry :: "(byte list \<Rightarrow> byte list) \<Rightarrow> byte list \<Rightarrow> bool \<times> byte list" where
  "scan_entry sha c = (if anyNonZero c then (True, sha c) else (False, zeros 32))"

lemma ds_scan_ok:
  assumes "\<forall>i. rerr i = None"
  shows "ds_scan sha rerr cs i n rest = Inr (map (\<lambda>k. scan_entry sha (take cs (drop (k * cs) rest))) [0..<n])"
proof (induction n arbitrary: i rest)
  case 0
  show ?case by simp
next
  case (Suc n)
  have "map (\<lambda>k. scan_entry sha (take cs (drop (k * cs) rest))) [0..<Suc n]
      = scan_entry sha (take cs rest) # map (\<lambda>k. scan_entry sha (take cs (drop (k * cs) (drop cs rest)))) [0..<n]"
    by (simp add: upt_conv_Cons map_Suc_upt [symmetric] add.commute del: upt_Suc)
  then show ?case using assms Suc.IH by (simp add: scan_entry_def)
qed

text \<open>
  on a readable rootfs image \<open>BuildHeader\<close> returns a header whose present chunks are exactly the
  ones with a non-zero byte, each with the digest of its bytes; every other chunk is all zeros.
\<close>

lemma ds_BuildHeader_correct:
  assumes "0 < chunkSize" and "chunkSize < 2 ^ 32" and "int (length img) + chunkSize \<le> 2 ^ 63"
    and "\<forall>i. rerr i = None"
  shows "\<exists>h. ds_BuildHeader sha (Inr img) rerr chunkSize = Inr h
    \<and> uint (ds_ChunkSize h) = chunkSize \<and> ds_describes sha h img
    \<and> (\<forall>i. valid_chunk (ds_ChunkSize h) (ds_TotalSize h) i \<longrightarrow>
          (ds_IsPresent h i \<longleftrightarrow>
            (\<exists>c \<in> set (seg (chunk_off (ds_ChunkSize h) (ds_TotalSize h) i)
                          (chunk_len (ds_ChunkSize h) (ds_TotalSize h) i) img). c \<noteq> 0)))"
proof -
  let ?cs = "word_of_int chunkSize :: u32" and ?ts = "word_of_nat (length img) :: u64"
  have cs: "uint ?cs = chunkSize" using assms by (simp add: uint_word_of_int)
  then have ucs: "unat ?cs = nat chunkSize" by (simp flip: nat_uint_eq)
  have "length img < 2 ^ 64" using assms(1,3) by simp
  then have ts: "unat ?ts = length img" by (simp add: unsigned_of_nat take_bit_nat_eq_self)
  then have "uint ?ts = int (length img)" by (metis uint_nat)
  with cs assms(1,3) have g: "geom_ok ?cs ?ts" by (auto simp: geom_ok_def)
  let ?n = "nat (num_chunks ?cs ?ts)" and ?c = "\<lambda>k. take (unat ?cs) (drop (k * unat ?cs) img)"
  define ps where "ps = map (\<lambda>k. anyNonZero (?c k)) [0..<?n]"
  define ds where "ds = map (\<lambda>k. snd (scan_entry sha (?c k))) [0..<?n]"
  let ?h = "\<lparr>ds_Version = ds_headerVersion, ds_ChunkSize = ?cs, ds_TotalSize = ?ts, ds_present = ps, ds_blockSHA = ds\<rparr>"
  have "ds_BuildHeader sha (Inr img) rerr chunkSize = Inr ?h"
    using assms(1)
    by (simp add: ds_BuildHeader_def ds_NumChunks_def ds_scan_ok [OF assms(4)] ps_def ds_def ucs o_def)
      (simp add: scan_entry_def)
  moreover have d: "describes ?cs ?ts ps img" and
    pres: "valid_chunk ?cs ?ts i \<Longrightarrow> is_present ps i \<longleftrightarrow>
      anyNonZero (seg (chunk_off ?cs ?ts i) (chunk_len ?cs ?ts i) img)" for i
    using scanned_describes [OF g ts ps_def] by auto
  moreover have "ds_ChunkSHA ?h i = Some (sha (seg (chunk_off ?cs ?ts i) (chunk_len ?cs ?ts i) img))"
    if p: "is_present ps i" for i
  proof -
    have i: "0 \<le> i" "nat i < ?n" "int (nat i) = i" using p by (auto simp: is_present_def ps_def split: if_splits)
    from i(1,2) have v: "valid_chunk ?cs ?ts i" by (simp add: valid_chunk_def)
    then have s: "?c (nat i) = seg (chunk_off ?cs ?ts i) (chunk_len ?cs ?ts i) img"
      using seg_chunk [OF g ts, of "nat i"] i by simp
    have "ds ! nat i = sha (?c (nat i))" using i(1,2) pres [OF v] p s by (simp add: ds_def scan_entry_def)
    moreover have "length ds = ?n" by (simp add: ds_def)
    ultimately show ?thesis using i(1,2) p s by (simp add: ds_ChunkSHA_def ds_IsPresent_def)
  qed
  ultimately show ?thesis
    using cs by (intro exI [of _ ?h]) (auto simp: ds_describes_def ds_IsPresent_def anyNonZero_iff)
qed

section \<open>A concrete image\<close>

text \<open>A stand-in for the digest function: length and byte sum, padded to 32 bytes.\<close>

definition demo_sha :: "byte list \<Rightarrow> byte list" where
  "demo_sha b = of_nat (length b) # sum_list b # zeros 30"

definition ds_demo :: ds_Header where
  "ds_demo = \<lparr>ds_Version = 1, ds_ChunkSize = 2, ds_TotalSize = 5, ds_present = [False, True, True],
     ds_blockSHA = [zeros 32, demo_sha [7, 9], demo_sha [5]]\<rparr>"

lemma demo_digest: "digest_fun demo_sha"
  by (simp add: digest_fun_def demo_sha_def)

lemma ds_demo_wf: "ds_wf ds_demo"
  by (simp add: ds_wf_def ds_demo_def ds_headerVersion_def ds_NumChunks_def demo_num_chunks demo_sha_def
      less_Suc_eq numeral_3_eq_3)

lemma ds_header_roundtrip_witness:
  "ds_wf ds_demo \<and> ds_DecodeHeader (ds_Encode ds_demo @ [42]) = Inr ds_demo"
  using ds_header_roundtrip [OF ds_demo_wf, of "[42]"] ds_demo_wf by simp

theorem ds_DecodeHeader_wf_witness:
  "\<exists>h. ds_DecodeHeader (ds_Encode ds_demo) = Inr h \<and> ds_wf h"
proof -
  have "ds_DecodeHeader (ds_Encode ds_demo) = Inr ds_demo" by code_simp
  then show ?thesis using ds_DecodeHeader_wf [of "ds_Encode ds_demo" ds_demo] by simp
qed

theorem ds_BuildHeader_correct_witness:
  "\<exists>h. ds_BuildHeader demo_sha (Inr demo_img) (\<lambda>_. None) 2 = Inr h \<and> ds_describes demo_sha h demo_img"
  using ds_BuildHeader_correct [of 2 demo_img "\<lambda>_. None" demo_sha] by (auto simp: demo_img_def)

end
