(* ===== verification/Disk_Resolver.thy ===== *)
theory Disk_Resolver
  imports Disk_Codec Chunk_Store Single_Flight
begin

text \<open>
  The per-device resolver of the disk stream (\<^verbatim>\<open>src/agent/internal/diskstream/resolver.go\<close>) with
  recording and replay of its working set (\<open>BuildPrefetch\<close>, \<open>Prefault\<close> in \<^verbatim>\<open>prefetch.go\<close>).

  Its \<open>ensureChunk\<close> follows the same single-flight protocol as the memory resolver, so the locale
  \<open>single_flight\<close> is interpreted twice: \<open>ds_flight\<close> for an honest source, where valid chunks hold the
  image's bytes, and \<open>ds_integrity\<close> for an arbitrary source, where every valid chunk has the digest the
  header records.
\<close>

section \<open>State and operations\<close>

datatype ds_rerror =
    DFetchError int int int string
  | DShortFetch int int int
  | IntegrityError int int int
  | DCacheWriteError int string
  | DOffsetOutOfRange int int
  | DChunkOutOfRange int
  | DCacheReadError string
  | DNilHeader
  | DOpenCacheError string
  | DSizeCacheError string
  | DCancelled

record ds_Resolver =
  dr_h :: ds_Header
  dr_fl :: "ds_rerror flight"
  dr_store :: store
  dr_reads :: int
  dr_zeroFill :: int

definition ds_NewResolver ::
  "ds_Header option \<Rightarrow> string + byte list \<Rightarrow> string option \<Rightarrow> ds_rerror + ds_Resolver" where
  "ds_NewResolver ho existing trunc =
     (case ho of
        None \<Rightarrow> Inl DNilHeader
      | Some h \<Rightarrow>
          (case existing of
             Inl e \<Rightarrow> Inl (DOpenCacheError e)
           | Inr f \<Rightarrow>
               (if sint (ds_TotalSize h) < 0 then Inl (DSizeCacheError ''invalid argument'')
                else case trunc of
                  Some e \<Rightarrow> Inl (DSizeCacheError e)
                | None \<Rightarrow> Inr \<lparr>dr_h = h, dr_fl = flight_init (nat (ds_NumChunks h)),
                     dr_store = \<lparr>st_file = truncate_to f (nat (sint (ds_TotalSize h))),
                                 st_fetches = 0, st_verifyErr = 0\<rparr>,
                     dr_reads = 0, dr_zeroFill = 0\<rparr>)))"

definition ds_fetchChunk ::
  "(byte list \<Rightarrow> byte list) \<Rightarrow> ds_Header \<Rightarrow> fetch_env \<Rightarrow> store \<Rightarrow> int \<Rightarrow> ds_rerror option \<times> store" where
  "ds_fetchChunk sha h env st idx =
     (let (off, len) = ds_ChunkRange h idx in
      if len = 0 then (None, st)
      else let (buf, err) = src_read env off len in
        case err of
          Some e \<Rightarrow> (Some (DFetchError idx off len e), st)
        | None \<Rightarrow>
            if int (length buf) < len then (Some (DShortFetch idx (int (length buf)) len), st)
            else if (case ds_ChunkSHA h idx of Some want \<Rightarrow> sha buf \<noteq> want | None \<Rightarrow> False)
            then (Some (IntegrityError idx off len), st\<lparr>st_verifyErr := st_verifyErr st + 1\<rparr>)
            else case write_fail env of
                Some (k, e) \<Rightarrow>
                  (Some (DCacheWriteError idx e),
                   st\<lparr>st_file := write_at (st_file st) (nat off) (take k buf)\<rparr>)
              | None \<Rightarrow>
                  (None, st\<lparr>st_file := write_at (st_file st) (nat off) buf,
                            st_fetches := st_fetches st + 1\<rparr>))"

definition ds_ensureChunk ::
  "(byte list \<Rightarrow> byte list) \<Rightarrow> fetch_env \<Rightarrow> ds_Resolver \<Rightarrow> int \<Rightarrow> ds_rerror call \<times> ds_Resolver" where
  "ds_ensureChunk sha env r idx =
     (if idx < 0 \<or> idx \<ge> int (length (fl_done (dr_fl r))) then (Done (Some (DChunkOutOfRange idx)), r)
      else case flight_enter (dr_fl r) idx of
        Hit \<Rightarrow> (Done None, r)
      | Join ch \<Rightarrow> (Blocked, r)
      | Lead ch fl1 \<Rightarrow>
          (let (err, st) = ds_fetchChunk sha (dr_h r) env (dr_store r) idx in
           (Done err, r\<lparr>dr_fl := resolver_finish fl1 idx ch err, dr_store := st\<rparr>)))"

definition ds_EnsureChunk ::
  "(byte list \<Rightarrow> byte list) \<Rightarrow> fetch_env \<Rightarrow> ds_Resolver \<Rightarrow> int \<Rightarrow> ds_rerror call \<times> ds_Resolver" where
  "ds_EnsureChunk sha env r idx =
     (if \<not> ds_IsPresent (dr_h r) idx then (Done None, r) else ds_ensureChunk sha env r idx)"

text \<open>
  \<open>ReadAt\<close> returns the outcome, the destination buffer as it leaves it, and the new state; \<open>env i\<close> is
  what the fetch of chunk \<open>i\<close> meets and \<open>rd\<close> the error of the final \<open>cache.ReadAt\<close>. The tail of \<open>dst\<close>
  beyond the end of the image is zeroed first, and \<open>dst[:end-off]\<close> panics on a negative bound.
\<close>

definition ds_ReadAt ::
  "(byte list \<Rightarrow> byte list) \<Rightarrow> (int \<Rightarrow> fetch_env) \<Rightarrow> string option \<Rightarrow> ds_Resolver \<Rightarrow> byte list \<Rightarrow> int
   \<Rightarrow> ds_rerror call \<times> byte list \<times> ds_Resolver" where
  "ds_ReadAt sha env rd r0 dst off =
     (let r = r0\<lparr>dr_reads := dr_reads r0 + 1\<rparr>; h = dr_h r; size = sint (ds_TotalSize h) in
      if off < 0 \<or> off \<ge> size then (Done (Some (DOffsetOutOfRange off size)), dst, r)
      else
        let end0 = i64 (off + int (length dst));
            end1 = (if end0 > size then size else end0);
            want = end1 - off
        in if want < 0 then (Panics, dst, r)
        else
          let dst1 = (if end0 > size then take (nat want) dst @ zeros (length dst - nat want) else dst);
              c0 = ds_ChunkForOffset h off;
              c1 = ds_ChunkForOffset h (end1 - 1)
          in case ensure_range (\<lambda>i r. ds_ensureChunk sha (env i) r i) (ds_IsPresent h)
                    (\<lambda>r. r\<lparr>dr_zeroFill := dr_zeroFill r + 1\<rparr>) r c0 (nat (c1 - c0 + 1)) of
               (Done None, r1) \<Rightarrow>
                 (case rd of
                    Some e \<Rightarrow> (Done (Some (DCacheReadError e)), dst1, r1)
                  | None \<Rightarrow>
                     (let got = seg (nat off) (nat want) (st_file (dr_store r1)) in
                      (Done None, got @ drop (length got) dst1, r1)))
             | (bad, r1) \<Rightarrow> (bad, dst1, r1))"

definition ds_FetchedChunks :: "ds_Resolver \<Rightarrow> int list" where
  "ds_FetchedChunks r = sort (map int (filter (\<lambda>i. fl_done (dr_fl r) ! i) [0..<length (fl_done (dr_fl r))]))"

definition ds_BuildPrefetch :: "ds_Resolver \<Rightarrow> ds_Prefetch" where
  "ds_BuildPrefetch r =
     \<lparr>ds_pVersion = ds_prefetchVersion, ds_pChunkSize = ds_ChunkSize (dr_h r),
      ds_Chunks = map word_of_int (sort (ds_FetchedChunks r))\<rparr>"

text \<open>
  \<open>Prefault\<close> on any \<open>chunkWarmer\<close> \<open>warm\<close> (a resolver's or a shared cache's \<open>EnsureChunk\<close>), in the
  sequential interleaving of its workers; \<open>stop\<close> is the number of chunks handed out before the context
  is cancelled.
\<close>

fun ds_prefault_loop :: "('s \<Rightarrow> int \<Rightarrow> 'r \<times> 's) \<Rightarrow> 's \<Rightarrow> u32 list \<Rightarrow> 's" where
  "ds_prefault_loop warm s [] = s"
| "ds_prefault_loop warm s (c # cs) = ds_prefault_loop warm (snd (warm s (uint c))) cs"

definition ds_Prefault ::
  "('s \<Rightarrow> int \<Rightarrow> 'r \<times> 's) \<Rightarrow> 's \<Rightarrow> u32 list \<Rightarrow> u32 \<Rightarrow> u32 \<Rightarrow> nat option \<Rightarrow> 's" where
  "ds_Prefault warm s chunks chunkSize headerChunkSize stop =
     (if chunks = [] then s
      else if chunkSize \<noteq> 0 \<and> chunkSize \<noteq> headerChunkSize then s
      else ds_prefault_loop warm s (case stop of None \<Rightarrow> chunks | Some k \<Rightarrow> take k chunks))"

section \<open>One fetch\<close>

definition ds_valid :: "ds_Header \<Rightarrow> int \<Rightarrow> bool" where
  "ds_valid h i \<longleftrightarrow> valid_chunk (ds_ChunkSize h) (ds_TotalSize h) i \<and> ds_IsPresent h i"

definition ds_geom :: "ds_Header \<Rightarrow> bool" where
  "ds_geom h \<longleftrightarrow> geom_ok (ds_ChunkSize h) (ds_TotalSize h) \<and> int (length (ds_present h)) = ds_NumChunks h
     \<and> length (ds_blockSHA h) = length (ds_present h)"

abbreviation ds_seg :: "ds_Header \<Rightarrow> int \<Rightarrow> byte list \<Rightarrow> byte list" where
  "ds_seg h i f \<equiv> seg (chunk_off (ds_ChunkSize h) (ds_TotalSize h) i) (chunk_len (ds_ChunkSize h) (ds_TotalSize h) i) f"

text \<open>The bytes of chunk \<open>i\<close> in the file have the digest the header records for it.\<close>

definition ds_verified :: "(byte list \<Rightarrow> byte list) \<Rightarrow> ds_Header \<Rightarrow> store \<Rightarrow> int \<Rightarrow> bool" where
  "ds_verified sha h st i \<longleftrightarrow> ds_ChunkSHA h i = Some (sha (ds_seg h i (st_file st)))"

lemma ds_valid_sha: "ds_geom h \<Longrightarrow> ds_valid h i \<Longrightarrow> ds_ChunkSHA h i = Some (ds_blockSHA h ! nat i)"
  by (auto simp: ds_valid_def ds_geom_def ds_ChunkSHA_def ds_IsPresent_def is_present_def split: if_splits)

lemma ds_describes_geom: "ds_describes sha h img \<Longrightarrow> length (ds_blockSHA h) = length (ds_present h) \<Longrightarrow> ds_geom h"
  by (simp add: ds_describes_def describes_def ds_geom_def ds_NumChunks_def)

text \<open>
  One fetch from a source that only keeps the \<open>io.ReaderAt\<close> contract: it fails without touching the
  file, or writes a prefix of verified bytes, or writes the whole verified chunk.
\<close>

lemma ds_fetchChunk_cases:
  assumes g: "geom_ok (ds_ChunkSize h) (ds_TotalSize h)" and v: "ds_valid h i" and ok: "reader_ok env"
    and sha: "ds_ChunkSHA h i = Some want"
  obtains
    (none) e k where "ds_fetchChunk sha h env st i = (Some e, st\<lparr>st_verifyErr := k\<rparr>)"
  | (partial) k b e where "length b = chunk_len (ds_ChunkSize h) (ds_TotalSize h) i" "sha b = want"
      "src_read env (int (chunk_off (ds_ChunkSize h) (ds_TotalSize h) i)) (int (chunk_len (ds_ChunkSize h) (ds_TotalSize h) i)) = (b, None)"
      "ds_fetchChunk sha h env st i = (Some e, st\<lparr>st_file :=
         write_at (st_file st) (chunk_off (ds_ChunkSize h) (ds_TotalSize h) i) (take k b)\<rparr>)"
  | (full) b where "length b = chunk_len (ds_ChunkSize h) (ds_TotalSize h) i" "sha b = want"
      "src_read env (int (chunk_off (ds_ChunkSize h) (ds_TotalSize h) i)) (int (chunk_len (ds_ChunkSize h) (ds_TotalSize h) i)) = (b, None)"
      "ds_fetchChunk sha h env st i = (None, st\<lparr>st_file :=
         write_at (st_file st) (chunk_off (ds_ChunkSize h) (ds_TotalSize h) i) b,
         st_fetches := st_fetches st + 1\<rparr>)"
proof -
  let ?cs = "ds_ChunkSize h" and ?ts = "ds_TotalSize h"
  have vc: "valid_chunk ?cs ?ts i" using v by (simp add: ds_valid_def)
  obtain off len where r: "ds_ChunkRange h i = (off, len)" by fastforce
  note sp = chunk_span [OF g vc]
  have eq: "chunk_range ?cs ?ts i = (off, len)" using r by (simp add: ds_ChunkRange_def)
  have "0 \<le> i" "i < num_chunks ?cs ?ts" using vc by (simp_all add: valid_chunk_def)
  then have o: "off = int (chunk_off ?cs ?ts i)" and l: "len = int (chunk_len ?cs ?ts i)"
    using chunk_range_eq [OF g, of i] sp(1,2) eq by simp_all
  obtain buf err where rd: "src_read env off len = (buf, err)" by fastforce
  have blen: "length buf \<le> chunk_len ?cs ?ts i"
    using ok rd o l unfolding reader_ok_def by (metis fst_conv of_nat_0_le_iff of_nat_le_iff)
  have len0: "len \<noteq> 0" using l sp(3) by simp
  have F: "ds_fetchChunk sha h env st i = (case err of Some e \<Rightarrow> (Some (DFetchError i off len e), st)
      | None \<Rightarrow> if int (length buf) < len then (Some (DShortFetch i (int (length buf)) len), st)
        else if sha buf \<noteq> want then (Some (IntegrityError i off len), st\<lparr>st_verifyErr := st_verifyErr st + 1\<rparr>)
        else case write_fail env of Some (k, e) \<Rightarrow> (Some (DCacheWriteError i e),
              st\<lparr>st_file := write_at (st_file st) (nat off) (take k buf)\<rparr>)
            | None \<Rightarrow> (None, st\<lparr>st_file := write_at (st_file st) (nat off) buf, st_fetches := st_fetches st + 1\<rparr>))"
    using rd len0 sha by (simp add: ds_fetchChunk_def r)
  have st: "st = st\<lparr>st_verifyErr := st_verifyErr st\<rparr>" by simp
  show thesis
  proof (cases "err = None \<and> length buf = chunk_len ?cs ?ts i \<and> sha buf = want")
    case True
    then have "src_read env (int (chunk_off ?cs ?ts i)) (int (chunk_len ?cs ?ts i)) = (buf, None)"
      using rd o l by simp
    then show thesis
      using True F o l by (cases "write_fail env") (auto intro: full partial)
  next
    case False
    show thesis
    proof (cases "err = None \<and> length buf = chunk_len ?cs ?ts i")
      case True
      then show thesis using False F l by (intro none [of "IntegrityError i off len"]) simp
    next
      case short: False
      then have "\<exists>e. ds_fetchChunk sha h env st i = (Some e, st)" using F l blen by (cases err) auto
      then show thesis using none st by metis
    qed
  qed
qed

section \<open>Integrity against an arbitrary source\<close>

definition ds_file_ok :: "ds_Header \<Rightarrow> store \<Rightarrow> bool" where
  "ds_file_ok h st \<longleftrightarrow> ds_geom h \<and> length (st_file st) = unat (ds_TotalSize h)"

lemma ds_fetchChunk_integrity:
  assumes ok: "reader_ok env" and d: "ds_file_ok h st" and v: "ds_valid h i"
  shows "ds_file_ok h (snd (ds_fetchChunk sha h env st i))"
    and "fst (ds_fetchChunk sha h env st i) = None \<Longrightarrow> ds_verified sha h (snd (ds_fetchChunk sha h env st i)) i"
    and "ds_valid h j \<Longrightarrow> j \<noteq> i \<Longrightarrow> ds_verified sha h st j \<Longrightarrow> ds_verified sha h (snd (ds_fetchChunk sha h env st i)) j"
proof -
  let ?cs = "ds_ChunkSize h" and ?ts = "ds_TotalSize h"
  have g: "geom_ok ?cs ?ts" and len: "length (st_file st) = unat ?ts" and geom: "ds_geom h"
    using d by (simp_all add: ds_file_ok_def ds_geom_def)
  have vc: "valid_chunk ?cs ?ts i" using v by (simp add: ds_valid_def)
  have fit: "chunk_off ?cs ?ts i + length b \<le> length (st_file st)" if "length b \<le> chunk_len ?cs ?ts i" for b :: "byte list"
    using chunk_span(4) [OF g vc] len that by simp
  have frame: "ds_seg h j (write_at (st_file st) (chunk_off ?cs ?ts i) b) = ds_seg h j (st_file st)"
    if "ds_valid h j" "j \<noteq> i" "length b \<le> chunk_len ?cs ?ts i" for j b
    using chunk_spans_disjoint [OF g _ vc that(2)] that(1,3) fit [OF that(3)]
    by (intro seg_write_at_disjoint) (auto simp: ds_valid_def)
  have goals: "ds_file_ok h (snd (ds_fetchChunk sha h env st i))
    \<and> (fst (ds_fetchChunk sha h env st i) = None \<longrightarrow> ds_verified sha h (snd (ds_fetchChunk sha h env st i)) i)
    \<and> (ds_valid h j \<and> j \<noteq> i \<and> ds_verified sha h st j \<longrightarrow> ds_verified sha h (snd (ds_fetchChunk sha h env st i)) j)" for j
  proof (cases rule: ds_fetchChunk_cases [OF g v ok ds_valid_sha [OF geom v], of sha st, case_names none partial full])
    case (none e k)
    then show ?thesis using d by (simp add: ds_file_ok_def ds_verified_def)
  next
    case (partial k b e)
    have "length (take k b) \<le> chunk_len ?cs ?ts i" using partial(1) by simp
    then show ?thesis
      using partial(4) d frame [of j "take k b"] length_write_at [OF fit [of "take k b"]]
      by (simp add: ds_file_ok_def ds_verified_def)
  next
    case (full b)
    have "ds_seg h i (write_at (st_file st) (chunk_off ?cs ?ts i) b) = b"
      using seg_write_at_same [OF fit [of b]] full(1) by simp
    then show ?thesis
      using full d frame [of j b] length_write_at [OF fit [of b]] ds_valid_sha [OF geom v]
      by (simp add: ds_file_ok_def ds_verified_def)
  qed
  show "ds_file_ok h (snd (ds_fetchChunk sha h env st i))" using goals by blast
  show "fst (ds_fetchChunk sha h env st i) = None \<Longrightarrow> ds_verified sha h (snd (ds_fetchChunk sha h env st i)) i"
    using goals by blast
  show "ds_valid h j \<Longrightarrow> j \<noteq> i \<Longrightarrow> ds_verified sha h st j \<Longrightarrow> ds_verified sha h (snd (ds_fetchChunk sha h env st i)) j"
    using goals by blast
qed

interpretation ds_integrity: single_flight "ds_valid h" reader_ok "ds_fetchChunk sha h"
  resolver_finish resolver_wake resolver_settled "ds_file_ok h" "ds_verified sha h" for sha h
proof unfold_locales
  show "\<And>fl x y j. resolver_settled (fl\<lparr>fl_inflight := x, fl_chans := y\<rparr>) j = resolver_settled fl j"
    by (simp add: resolver_settled_def)
  show "ds_verified sha h (snd (ds_fetchChunk sha h env d i)) j"
    if "reader_ok env" "ds_file_ok h d" "ds_valid h i" "ds_valid h j" "j \<noteq> i" "ds_verified sha h d j" for env d i j
    using that by (rule ds_fetchChunk_integrity(3))
qed (simp_all only: resolver_finish_settled resolver_wake_none ds_fetchChunk_integrity(1,2) resolver_finish_fields)

text \<open>A fresh resolver as a state of \<open>flight_step\<close>, on a cache file of the right size with any content.\<close>

definition ds_start :: "ds_Header \<Rightarrow> byte list \<Rightarrow> (ds_rerror, unit, store) fstate" where
  "ds_start h f = (flight_init (nat (ds_NumChunks h)),
     \<lparr>st_file = f, st_fetches = 0, st_verifyErr = 0\<rparr>, \<lambda>_. Idle)"

abbreviation ds_reach ::
  "(byte list \<Rightarrow> byte list) \<Rightarrow> ds_Header \<Rightarrow> (fetch_env \<Rightarrow> bool) \<Rightarrow> byte list
   \<Rightarrow> (ds_rerror, unit, store) fstate \<Rightarrow> bool" where
  "ds_reach sha h ok f \<equiv> flight_reach (ds_valid h) ok (ds_fetchChunk sha h) resolver_finish
     resolver_wake (\<lambda>e. e = DCancelled) (ds_start h f)"

lemma ds_valid_idx: "ds_valid h i \<Longrightarrow> 0 \<le> i \<and> nat i < nat (ds_NumChunks h)"
  by (auto simp: ds_valid_def valid_chunk_def ds_NumChunks_def)

lemma ds_start_integrity:
  assumes "ds_geom h" and "length f = unat (ds_TotalSize h)"
  shows "flight_struct (ds_valid h) resolver_settled (flight_init (nat (ds_NumChunks h)) :: ds_rerror flight) (\<lambda>_. Idle)"
    and "flight_data (ds_valid h) (ds_file_ok h) (ds_verified sha h) (flight_init (nat (ds_NumChunks h)) :: ds_rerror flight)
      \<lparr>st_file = f, st_fetches = 0, st_verifyErr = 0\<rparr> (\<lambda>_. Idle)"
proof -
  show "flight_struct (ds_valid h) resolver_settled (flight_init (nat (ds_NumChunks h)) :: ds_rerror flight) (\<lambda>_. Idle)"
    using ds_valid_idx by (intro ds_integrity.struct_init) (auto simp: flight_init_def)
  show "flight_data (ds_valid h) (ds_file_ok h) (ds_verified sha h) (flight_init (nat (ds_NumChunks h)) :: ds_rerror flight)
      \<lparr>st_file = f, st_fetches = 0, st_verifyErr = 0\<rparr> (\<lambda>_. Idle)"
    using assms ds_valid_idx by (intro ds_integrity.data_init) (auto simp: ds_file_ok_def flight_init_def)
qed

text \<open>
  C3: integrity of the disk stream. Whatever the source serves (it may be corrupt or hostile; it only
  keeps the \<open>io.ReaderAt\<close> contract) and however reads interleave or are cancelled, a call of
  \<open>ensureChunk\<close> that returned without error finds bytes in the cache file whose SHA-256 is the one
  recorded in the header at bake time.
\<close>

theorem ds_ensure_verified:
  assumes "ds_geom h" and "length f = unat (ds_TotalSize h)"
    and "ds_reach sha h reader_ok f (fl, st, pcs)" and "pcs g = Returned i None"
  shows "ds_ChunkSHA h i = Some (sha (seg (chunk_off (ds_ChunkSize h) (ds_TotalSize h) i)
    (chunk_len (ds_ChunkSize h) (ds_TotalSize h) i) (st_file st)))"
  using assms ds_integrity.returned_holds [OF _ ds_start_integrity [OF assms(1,2)]]
  by (auto simp: ds_start_def ds_verified_def)

section \<open>An honest source\<close>

definition ds_holds :: "ds_Header \<Rightarrow> byte list \<Rightarrow> store \<Rightarrow> int \<Rightarrow> bool" where
  "ds_holds h img st i \<longleftrightarrow> chunk_holds (ds_ChunkSize h) (ds_TotalSize h) img (st_file st) i"

definition ds_dinv :: "(byte list \<Rightarrow> byte list) \<Rightarrow> ds_Header \<Rightarrow> byte list \<Rightarrow> store \<Rightarrow> bool" where
  "ds_dinv sha h img st \<longleftrightarrow> ds_describes sha h img
     \<and> sparse_ok (ds_ChunkSize h) (ds_TotalSize h) (ds_present h) (st_file st)"

lemma ds_describes_facts:
  assumes "ds_describes sha h img"
  shows "describes (ds_ChunkSize h) (ds_TotalSize h) (ds_present h) img"
    "geom_ok (ds_ChunkSize h) (ds_TotalSize h)" "unat (ds_TotalSize h) = length img"
    "sint (ds_TotalSize h) = int (length img)"
    "ds_valid h i \<Longrightarrow> ds_ChunkSHA h i = Some (sha (ds_seg h i img))"
    "ds_IsPresent h i \<Longrightarrow> ds_valid h i"
proof -
  show d: "describes (ds_ChunkSize h) (ds_TotalSize h) (ds_present h) img" using assms by (simp add: ds_describes_def)
  then show g: "geom_ok (ds_ChunkSize h) (ds_TotalSize h)" and ts: "unat (ds_TotalSize h) = length img"
    by (simp_all add: describes_def)
  show "sint (ds_TotalSize h) = int (length img)"
    using geom_okD(4) [OF g] ts uint_nat [of "ds_TotalSize h"] by simp
  show "ds_valid h i \<Longrightarrow> ds_ChunkSHA h i = Some (sha (ds_seg h i img))"
    using assms by (simp add: ds_describes_def ds_valid_def)
  show "ds_IsPresent h i \<Longrightarrow> ds_valid h i"
    using is_present_valid [of "ds_present h" i] d
    by (simp add: ds_valid_def ds_IsPresent_def describes_def valid_chunk_def)
qed

lemma ds_fetchChunk_laws:
  assumes ok: "source_of img env" and d: "ds_dinv sha h img st" and v: "ds_valid h i"
  shows "ds_dinv sha h img (snd (ds_fetchChunk sha h env st i))"
    and "fst (ds_fetchChunk sha h env st i) = None \<Longrightarrow> ds_holds h img (snd (ds_fetchChunk sha h env st i)) i"
    and "ds_valid h j \<Longrightarrow> j \<noteq> i \<Longrightarrow> ds_holds h img st j \<Longrightarrow> ds_holds h img (snd (ds_fetchChunk sha h env st i)) j"
proof -
  let ?cs = "ds_ChunkSize h" and ?ts = "ds_TotalSize h"
  have ds: "ds_describes sha h img" and s: "sparse_ok ?cs ?ts (ds_present h) (st_file st)"
    using d by (simp_all add: ds_dinv_def)
  note f = ds_describes_facts [OF ds]
  have vc: "valid_chunk ?cs ?ts i" and p: "is_present (ds_present h) i" using v by (simp_all add: ds_valid_def ds_IsPresent_def)
  have r: "reader_ok env" using ok by (simp add: source_of_def)
  have goals: "ds_dinv sha h img (snd (ds_fetchChunk sha h env st i))
    \<and> (fst (ds_fetchChunk sha h env st i) = None \<longrightarrow> ds_holds h img (snd (ds_fetchChunk sha h env st i)) i)
    \<and> (ds_valid h j \<and> j \<noteq> i \<and> ds_holds h img st j \<longrightarrow> ds_holds h img (snd (ds_fetchChunk sha h env st i)) j)" for j
  proof (cases rule: ds_fetchChunk_cases [OF f(2) v r f(5) [OF v], of sha st, case_names none partial full])
    case (none e k)
    then show ?thesis using d by (simp add: ds_dinv_def ds_holds_def)
  next
    case (partial k b e)
    have "length (take k b) \<le> chunk_len ?cs ?ts i" using partial(1) by simp
    then show ?thesis
      using partial(4) ds write_chunk_frame [OF f(2) vc p s] by (simp add: ds_dinv_def ds_holds_def ds_valid_def)
  next
    case (full b)
    have b: "b = ds_seg h i img"
      using ok full(1,3) unfolding source_of_def by (metis nat_int of_nat_0_le_iff)
    show ?thesis
      using full(1,4) ds write_chunk_frame [OF f(2) vc p s, of b] write_chunk_holds [OF f(2) vc s b] f(3)
      by (simp add: ds_dinv_def ds_holds_def ds_valid_def)
  qed
  show "ds_dinv sha h img (snd (ds_fetchChunk sha h env st i))" using goals by blast
  show "fst (ds_fetchChunk sha h env st i) = None \<Longrightarrow> ds_holds h img (snd (ds_fetchChunk sha h env st i)) i"
    using goals by blast
  show "ds_valid h j \<Longrightarrow> j \<noteq> i \<Longrightarrow> ds_holds h img st j \<Longrightarrow> ds_holds h img (snd (ds_fetchChunk sha h env st i)) j"
    using goals by blast
qed

text \<open>A healthy world delivers verified chunks.\<close>

lemma ds_fetchChunk_healthy:
  assumes d: "ds_describes sha h img" and v: "ds_valid h i" and ok: "healthy img env"
  shows "fst (ds_fetchChunk sha h env st i) = None"
proof -
  let ?cs = "ds_ChunkSize h" and ?ts = "ds_TotalSize h"
  note f = ds_describes_facts [OF d]
  have vc: "valid_chunk ?cs ?ts i" using v by (simp add: ds_valid_def)
  note sp = chunk_span [OF f(2) vc]
  have "0 \<le> i" "i < num_chunks ?cs ?ts" using vc by (simp_all add: valid_chunk_def)
  then have r: "ds_ChunkRange h i = (int (chunk_off ?cs ?ts i), int (chunk_len ?cs ?ts i))"
    using chunk_range_eq [OF f(2), of i] sp(1,2) by (simp add: ds_ChunkRange_def)
  have "src_read env (int (chunk_off ?cs ?ts i)) (int (chunk_len ?cs ?ts i)) = (ds_seg h i img, None)"
    using ok sp(4) f(3) by (simp add: healthy_def)
  then show ?thesis
    using r sp(3,4) f(3) ok f(5) [OF v] by (simp add: ds_fetchChunk_def healthy_def)
qed

interpretation ds_flight: single_flight "ds_valid h" "source_of img" "ds_fetchChunk sha h"
  resolver_finish resolver_wake resolver_settled "ds_dinv sha h img" "ds_holds h img" for sha h img
proof unfold_locales
  show "\<And>fl x y j. resolver_settled (fl\<lparr>fl_inflight := x, fl_chans := y\<rparr>) j = resolver_settled fl j"
    by (simp add: resolver_settled_def)
  show "ds_holds h img (snd (ds_fetchChunk sha h env d i)) j"
    if "source_of img env" "ds_dinv sha h img d" "ds_valid h i" "ds_valid h j" "j \<noteq> i" "ds_holds h img d j" for env d i j
    using that by (rule ds_fetchChunk_laws(3))
qed (simp_all only: resolver_finish_settled resolver_wake_none ds_fetchChunk_laws(1,2) resolver_finish_fields)

section \<open>Reading a device\<close>

definition ds_inv :: "(byte list \<Rightarrow> byte list) \<Rightarrow> byte list \<Rightarrow> ds_Resolver \<Rightarrow> bool" where
  "ds_inv sha img r \<longleftrightarrow> ds_describes sha (dr_h r) img \<and> fl_inflight (dr_fl r) = (\<lambda>_. None)
     \<and> store_inv (ds_ChunkSize (dr_h r)) (ds_TotalSize (dr_h r)) (ds_present (dr_h r)) img
         (st_file (dr_store r)) (fl_done (dr_fl r))"

lemma quiet_store_inv:
  assumes d: "ds_describes sha h img"
  shows "(fl_inflight fl = (\<lambda>_. None) \<and> store_inv (ds_ChunkSize h) (ds_TotalSize h) (ds_present h) img (st_file st) (fl_done fl))
    \<longleftrightarrow> ds_flight.quiet h sha img fl st \<and> int (length (fl_done fl)) = ds_NumChunks h"
proof (cases "sparse_ok (ds_ChunkSize h) (ds_TotalSize h) (ds_present h) (st_file st) \<and> int (length (fl_done fl)) = ds_NumChunks h")
  case True
  have "ds_holds h img st i" if "valid_chunk (ds_ChunkSize h) (ds_TotalSize h) i" "\<not> ds_IsPresent h i" for i
    using absent_holds [OF ds_describes_facts(1) [OF d]] that True unfolding ds_IsPresent_def ds_holds_def by blast
  then have "(\<forall>i. valid_chunk (ds_ChunkSize h) (ds_TotalSize h) i \<and> fl_done fl ! nat i \<longrightarrow> ds_holds h img st i)
      \<longleftrightarrow> (\<forall>i. ds_valid h i \<and> fl_done fl ! nat i \<longrightarrow> ds_holds h img st i)"
    unfolding ds_valid_def by blast
  moreover have "0 \<le> i \<and> nat i < length (fl_done fl)" if "ds_valid h i" for i
    using that True ds_valid_idx [of h i] by linarith
  ultimately show ?thesis
    using True d unfolding ds_flight.quiet_def store_inv_def ds_dinv_def ds_holds_def ds_NumChunks_def by blast
next
  case False
  then show ?thesis by (auto simp: ds_flight.quiet_def store_inv_def ds_dinv_def ds_NumChunks_def)
qed

lemma ds_inv_quiet:
  "ds_inv sha img r \<longleftrightarrow> ds_describes sha (dr_h r) img \<and> ds_flight.quiet (dr_h r) sha img (dr_fl r) (dr_store r)
     \<and> int (length (fl_done (dr_fl r))) = ds_NumChunks (dr_h r)"
  using quiet_store_inv [of sha "dr_h r" img "dr_fl r" "dr_store r"] unfolding ds_inv_def by blast

lemma ds_ensureChunk_step:
  assumes inv: "ds_inv sha img r" and ok: "source_of img env" and p: "ds_IsPresent (dr_h r) i"
  shows "\<exists>e r'. ds_ensureChunk sha env r i = (Done e, r') \<and> ds_inv sha img r' \<and> dr_h r' = dr_h r
    \<and> (e = None \<longleftrightarrow> fl_done (dr_fl r') ! nat i)
    \<and> (\<forall>k. k \<noteq> nat i \<longrightarrow> fl_done (dr_fl r') ! k = fl_done (dr_fl r) ! k)
    \<and> (fl_done (dr_fl r) ! nat i \<longrightarrow> e = None) \<and> (healthy img env \<longrightarrow> e = None)
    \<and> length (fl_done (dr_fl r')) = length (fl_done (dr_fl r))"
proof -
  have d: "ds_describes sha (dr_h r) img" and q: "ds_flight.quiet (dr_h r) sha img (dr_fl r) (dr_store r)"
    and n: "int (length (fl_done (dr_fl r))) = ds_NumChunks (dr_h r)"
    using inv by (simp_all add: ds_inv_quiet)
  have v: "ds_valid (dr_h r) i" using ds_describes_facts(6) [OF d p] .
  then have rng: "\<not> (i < 0 \<or> int (length (fl_done (dr_fl r))) \<le> i)" "nat i < length (fl_done (dr_fl r))"
    using n ds_valid_idx [OF v] by linarith+
  obtain e fl' st' where s: "solo_call (ds_fetchChunk sha (dr_h r)) resolver_finish env (dr_fl r) (dr_store r) i = (Done e, fl', st')"
    "ds_flight.quiet (dr_h r) sha img fl' st'" "e = None \<longleftrightarrow> fl_done fl' ! nat i"
    "fl_done fl' = (if fl_done (dr_fl r) ! nat i \<or> e = None then (fl_done (dr_fl r))[nat i := True] else fl_done (dr_fl r))"
    "fst (ds_fetchChunk sha (dr_h r) env (dr_store r) i) = None \<longrightarrow> e = None"
    "fl_done (dr_fl r) ! nat i \<longrightarrow> fl' = dr_fl r \<and> st' = dr_store r \<and> e = None"
    by (rule ds_flight.solo_call_quiet [OF q ok v]) (rule that)
  let ?r = "r\<lparr>dr_fl := fl', dr_store := st'\<rparr>"
  have "ds_ensureChunk sha env r i = (Done e, ?r)"
    using rng s(1) by (auto simp: ds_ensureChunk_def solo_call_def flight_enter_def
        split: enter.splits option.splits prod.splits if_splits)
  moreover have "ds_inv sha img ?r" using d n s(2,4) by (simp add: ds_inv_quiet)
  moreover have "healthy img env \<longrightarrow> e = None" using s(5) ds_fetchChunk_healthy [OF d v] by simp
  moreover have "dr_h ?r = dr_h r" "e = None \<longleftrightarrow> fl_done (dr_fl ?r) ! nat i" using s(3) by simp_all
  moreover have "\<forall>k. k \<noteq> nat i \<longrightarrow> fl_done (dr_fl ?r) ! k = fl_done (dr_fl r) ! k"
    "length (fl_done (dr_fl ?r)) = length (fl_done (dr_fl r))"
    by (simp_all add: s(4))
  ultimately show ?thesis using s(6) by blast
qed

lemma ds_ensure_all:
  assumes inv: "ds_inv sha img r" and ok: "\<forall>i. source_of img (env i)"
  shows "\<exists>e r1. ensure_range (\<lambda>i r. ds_ensureChunk sha (env i) r i) (ds_IsPresent (dr_h r))
        (\<lambda>r. r\<lparr>dr_zeroFill := dr_zeroFill r + 1\<rparr>) r i n = (Done e, r1)
      \<and> (ds_inv sha img r1 \<and> dr_h r1 = dr_h r)
      \<and> (\<forall>k. fl_done (dr_fl r) ! nat k \<longrightarrow> fl_done (dr_fl r1) ! nat k)
      \<and> (e = None \<longrightarrow> (\<forall>j \<in> {i..<i + int n}. ds_IsPresent (dr_h r) j \<longrightarrow> fl_done (dr_fl r1) ! nat j))
      \<and> ((\<forall>i. healthy img (env i)) \<longrightarrow> e = None)"
proof (rule ensure_range_rule)
  show "ds_inv sha img r \<and> dr_h r = dr_h r" using inv by simp
  fix s j k assume s: "ds_inv sha img s \<and> dr_h s = dr_h r"
  show "(ds_inv sha img (s\<lparr>dr_zeroFill := dr_zeroFill s + 1\<rparr>) \<and> dr_h (s\<lparr>dr_zeroFill := dr_zeroFill s + 1\<rparr>) = dr_h r)
      \<and> (fl_done (dr_fl s) ! nat k \<longrightarrow> fl_done (dr_fl (s\<lparr>dr_zeroFill := dr_zeroFill s + 1\<rparr>)) ! nat k)"
    using s by (auto simp: ds_inv_def)
  assume "ds_IsPresent (dr_h r) j"
  then obtain e s' where e: "ds_ensureChunk sha (env j) s j = (Done e, s')" "ds_inv sha img s'" "dr_h s' = dr_h s"
    "e = None \<longleftrightarrow> fl_done (dr_fl s') ! nat j" "\<forall>k. k \<noteq> nat j \<longrightarrow> fl_done (dr_fl s') ! k = fl_done (dr_fl s) ! k"
    "fl_done (dr_fl s) ! nat j \<longrightarrow> e = None" "healthy img (env j) \<longrightarrow> e = None"
    using ds_ensureChunk_step [of sha img s "env j" j] s ok by metis
  show "\<exists>e s'. ds_ensureChunk sha (env j) s j = (Done e, s') \<and> (ds_inv sha img s' \<and> dr_h s' = dr_h r)
      \<and> (e = None \<longrightarrow> fl_done (dr_fl s') ! nat j) \<and> ((\<forall>i. healthy img (env i)) \<longrightarrow> e = None)"
    using e s by (intro exI [of _ e] exI [of _ s']) simp
  show "fl_done (dr_fl s) ! nat k \<Longrightarrow> fl_done (dr_fl (snd (ds_ensureChunk sha (env j) s j))) ! nat k"
    using e by (cases "nat k = nat j") auto
qed

lemma ds_ReadAt_step:
  assumes inv: "ds_inv sha img r" and ok: "\<forall>i. source_of img (env i)" and dst: "dst \<noteq> []"
    and off: "0 \<le> off" "off < int (length img)" and sz: "int (length img) + int (length dst) < 2 ^ 63"
  shows "\<exists>e dst' r'. ds_ReadAt sha env rd r dst off = (Done e, dst', r') \<and> ds_inv sha img r' \<and> length dst' = length dst
    \<and> (e = None \<longrightarrow> dst' = seg (nat off) (length dst) img @ zeros (length dst - (length img - nat off)))
    \<and> ((\<forall>i. healthy img (env i)) \<and> rd = None \<longrightarrow> e = None)"
proof -
  let ?h = "dr_h r" and ?len = "min (int (length dst)) (int (length img) - off)"
  define r0 where "r0 = r\<lparr>dr_reads := dr_reads r + 1\<rparr>"
  have inv0: "ds_inv sha img r0" and h0: "dr_h r0 = ?h" using inv by (simp_all add: r0_def ds_inv_def)
  have d: "ds_describes sha ?h img" using inv by (simp add: ds_inv_def)
  note t = ds_describes_facts [OF d]
  define i0 where "i0 = ds_ChunkForOffset ?h off"
  define n where "n = nat (ds_ChunkForOffset ?h (off + ?len - 1) - i0 + 1)"
  have pos: "0 < ?len" "nat ?len \<le> length dst" using dst off by (auto simp: min_def)
  let ?dst = "take (nat ?len) dst @ zeros (length dst - nat ?len)"
  have i64: "i64 (off + int (length dst)) = off + int (length dst)" using off sz by (auto intro!: i64_id)
  obtain e r1 where rr: "ensure_range (\<lambda>i r. ds_ensureChunk sha (env i) r i) (ds_IsPresent ?h)
      (\<lambda>r. r\<lparr>dr_zeroFill := dr_zeroFill r + 1\<rparr>) r0 i0 n = (Done e, r1)"
    "ds_inv sha img r1 \<and> dr_h r1 = ?h"
    "e = None \<longrightarrow> (\<forall>j \<in> {i0..<i0 + int n}. ds_IsPresent ?h j \<longrightarrow> fl_done (dr_fl r1) ! nat j)"
    "(\<forall>i. healthy img (env i)) \<longrightarrow> e = None"
    using ds_ensure_all [OF inv0 ok, of i0 n] unfolding h0 by blast
  have end1: "(if off + int (length dst) > int (length img) then int (length img) else off + int (length dst)) = off + ?len"
    by (simp add: min_def)
  have dst1: "(if off + int (length dst) > int (length img) then ?dst else dst) = ?dst"
    by (simp add: min_def zeros_def)
  have nonneg: "\<not> ?len < 0" using pos(1) by linarith
  have range: "\<not> (off < 0 \<or> off \<ge> int (length img))" using off by simp
  have eq: "ds_ReadAt sha env rd r dst off = (case (Done e, r1) of
      (Done None, r1) \<Rightarrow> (case rd of Some x \<Rightarrow> (Done (Some (DCacheReadError x)), ?dst, r1)
        | None \<Rightarrow> (let got = seg (nat off) (nat ?len) (st_file (dr_store r1)) in (Done None, got @ drop (length got) ?dst, r1)))
      | (bad, r1) \<Rightarrow> (bad, ?dst, r1))"
    unfolding ds_ReadAt_def Let_def r0_def [symmetric] h0 t(4) i64 end1 add_diff_cancel_left' dst1 if_not_P [OF range]
      i0_def [symmetric] n_def [symmetric] rr(1) if_not_P [OF nonneg]
    by simp
  have bytes: "seg (nat off) (nat ?len) (st_file (dr_store r1)) = seg (nat off) (nat ?len) img" if "e = None"
    using rr(2,3) that off pos t(1,3) unfolding i0_def n_def
    by (intro store_read_range [of "ds_ChunkSize ?h" "ds_TotalSize ?h" "ds_present ?h" img _ "fl_done (dr_fl r1)"])
      (auto simp: ds_inv_def ds_ChunkForOffset_def ds_IsPresent_def)
  have img: "seg (nat off) (nat ?len) img = seg (nat off) (length dst) img" "length (seg (nat off) (nat ?len) img) = nat ?len"
    "length dst - nat ?len = length dst - (length img - nat off)"
    using off by (auto simp: seg_def min_def)
  have tail: "drop (nat ?len) ?dst = zeros (length dst - nat ?len)" using pos(2) by simp
  show ?thesis
  proof (cases "e = None \<and> rd = None")
    case True
    have "ds_ReadAt sha env rd r dst off
        = (Done None, seg (nat off) (nat ?len) img @ drop (length (seg (nat off) (nat ?len) img)) ?dst, r1)"
      unfolding eq bytes [OF conjunct1 [OF True], symmetric] Let_def using True by (simp del: length_seg)
    also have "\<dots> = (Done None, seg (nat off) (length dst) img @ zeros (length dst - (length img - nat off)), r1)"
      unfolding img(2) tail unfolding img(1,3) ..
    finally show ?thesis using rr(2) off by (auto simp: min_def)
  next
    case False
    then have "\<exists>x. ds_ReadAt sha env rd r dst off = (Done (Some x), ?dst, r1)"
      unfolding eq by (cases e; cases rd) simp_all
    moreover have "length ?dst = length dst" using pos(2) by simp
    ultimately show ?thesis using rr(2,4) False by blast
  qed
qed

text \<open>
  a block read of any length at any offset inside the device returns exactly the image's bytes, and
  zeros past its end, whenever it returns without error, for an honest source; it never panics, keeps
  the invariant, and succeeds when source and local disk are healthy.
\<close>

lemma ds_ReadAt_correct:
  assumes inv: "ds_inv sha img r" and ok: "\<forall>i. source_of img (env i)" and dst: "dst \<noteq> []"
    and off: "0 \<le> off" "off < int (length img)" and sz: "int (length img) + int (length dst) < 2 ^ 63"
  shows "\<exists>e dst' r'. ds_ReadAt sha env rd r dst off = (Done e, dst', r') \<and> ds_inv sha img r'
    \<and> (e = None \<longrightarrow> dst' = seg (nat off) (length dst) img @ zeros (length dst - (length img - nat off)))
    \<and> ((\<forall>i. healthy img (env i)) \<and> rd = None \<longrightarrow> e = None)"
  using ds_ReadAt_step [OF assms] by blast

section \<open>A concrete device\<close>

lemma ds_demo_describes: "ds_describes demo_sha ds_demo demo_img"
proof -
  have "ds_ChunkSHA ds_demo i = Some (demo_sha (ds_seg ds_demo i demo_img))" if "ds_IsPresent ds_demo i" for i
  proof -
    have "i = 1 \<or> i = 2"
      using that by (auto simp: ds_demo_def ds_IsPresent_def is_present_def nth_Cons' split: if_splits)
    then show ?thesis
      by (auto simp: ds_ChunkSHA_def ds_demo_def ds_IsPresent_def is_present_def demo_chunks demo_img_def seg_def)
  qed
  then show ?thesis using demo_describes by (simp add: ds_describes_def ds_demo_def)
qed

definition ds_demo_resolver :: ds_Resolver where
  "ds_demo_resolver = \<lparr>dr_h = ds_demo, dr_fl = flight_init 3,
     dr_store = \<lparr>st_file = zeros 5, st_fetches = 0, st_verifyErr = 0\<rparr>, dr_reads = 0, dr_zeroFill = 0\<rparr>"

lemma ds_demo_inv: "ds_inv demo_sha demo_img ds_demo_resolver"
  using store_inv_empty [OF demo_describes, of 3] ds_demo_describes
  by (simp add: ds_inv_def ds_demo_resolver_def flight_init_def ds_demo_def demo_num_chunks)

lemma ds_ReadAt_correct_witness:
  "\<exists>r'. ds_ReadAt demo_sha (\<lambda>_. file_env demo_img) None ds_demo_resolver [1, 1, 1, 1, 1, 1] 1
      = (Done None, [0, 7, 9, 5, 0, 0], r')
    \<and> ds_inv demo_sha demo_img r'"
proof -
  from ds_ReadAt_correct [OF ds_demo_inv, of "\<lambda>_. file_env demo_img" "[1, 1, 1, 1, 1, 1]" 1 None]
  show ?thesis
    using file_env_source file_env_healthy by (auto simp: demo_img_def seg_def zeros_def)
qed

text \<open>A source that serves a wrong byte is caught; one that serves the right bytes is verified.\<close>

lemma demo_reader_ok: "reader_ok (file_env f)"
  using file_env_source [of f] by (simp add: source_of_def)

theorem ds_ensure_verified_witness:
  "fst (ds_fetchChunk demo_sha ds_demo (file_env [0, 0, 7, 8, 5]) \<lparr>st_file = zeros 5, st_fetches = 0, st_verifyErr = 0\<rparr> 1)
      = Some (IntegrityError 1 2 2)
    \<and> (\<exists>fl st pcs. ds_reach demo_sha ds_demo reader_ok (zeros 5) (fl, st, pcs) \<and> pcs 0 = Returned 1 None
      \<and> ds_ChunkSHA ds_demo 1 = Some (demo_sha (seg 2 2 (st_file st))))"
proof -
  let ?fl = "flight_init 3 :: ds_rerror flight" and ?st = "\<lparr>st_file = zeros 5, st_fetches = 0, st_verifyErr = 0\<rparr>"
  let ?s = "solo_call (ds_fetchChunk demo_sha ds_demo) resolver_finish (file_env demo_img) ?fl ?st 1"
  have "fst ?s = Done None" by code_simp
  then obtain fl st where s: "?s = (Done None, fl, st)" by (metis prod.collapse)
  have v: "ds_valid ds_demo 1"
    by (simp add: ds_valid_def ds_demo_def valid_chunk_def demo_num_chunks ds_IsPresent_def is_present_def)
  have start: "ds_start ds_demo (zeros 5) = (?fl, ?st, \<lambda>_. Idle)"
    by (simp add: ds_start_def ds_demo_def ds_NumChunks_def demo_num_chunks)
  have r: "ds_reach demo_sha ds_demo reader_ok (zeros 5) (fl, st, (\<lambda>_. Idle)(0 := Returned 1 None))"
    unfolding start using v demo_reader_ok s by (intro solo_call_reach) simp_all
  have g: "ds_geom ds_demo" "length (zeros 5) = unat (ds_TotalSize ds_demo)"
    by (simp_all add: ds_geom_def ds_demo_def ds_NumChunks_def demo_num_chunks geom_ok_def)
  have c: "chunk_off (ds_ChunkSize ds_demo) (ds_TotalSize ds_demo) 1 = 2" "chunk_len (ds_ChunkSize ds_demo) (ds_TotalSize ds_demo) 1 = 2"
    by (simp_all add: demo_chunks ds_demo_def)
  have pc: "((\<lambda>_. Idle)(0 := Returned 1 None)) 0 = Returned 1 None" by simp
  have "ds_ChunkSHA ds_demo 1 = Some (demo_sha (seg 2 2 (st_file st)))"
    using ds_ensure_verified [OF g r pc] unfolding c .
  moreover have "fst (ds_fetchChunk demo_sha ds_demo (file_env [0, 0, 7, 8, 5]) ?st 1) = Some (IntegrityError 1 2 2)"
    by code_simp
  ultimately show ?thesis using r pc by blast
qed

end
