(* ===== verification/Disk_Cache.thy ===== *)
theory Disk_Cache
  imports Disk_Resolver Mem_Cache
begin

text \<open>
  The per-host shared chunk cache of the disk stream
  (\<^verbatim>\<open>src/agent/internal/diskstream/sharedcache.go\<close>). It follows the memory stream's cache step for step,
  with its own bitmap magic and a digest check before a chunk is written, so its crash safety is another
  interpretation of \<open>crash_cache\<close>. The last section shows that the six file formats of the two packages
  exclude each other.
\<close>

section \<open>The presence bitmap file\<close>

datatype ds_cerror =
    DCBitmapReadError string
  | DCBitmapNotExist
  | DCBitmapTooShort nat
  | DCBadBitmapMagic "byte list"
  | DCUnsupportedBitmapVersion u32
  | DCGeometryMismatch u32 u64 int
  | DCBitmapTruncated int int
  | DCacheNilHeader
  | DCMkdirError string
  | DCOpenDataError string
  | DCResetDataError string
  | DCSizeDataError string
  | DCChunkOutOfRange int
  | DCacheOffsetOutOfRange int int
  | DCDataReadError string
  | DCFsyncError string
  | DCBitmapWriteError string
  | DCBitmapRenameError string
  | DCacheFetch ds_rerror
  | DCacheCancelled

text \<open>\<open>"PSCD"\<close>.\<close>

definition ds_SharedBitmapMagic :: "byte list" where
  "ds_SharedBitmapMagic = [0x50, 0x53, 0x43, 0x44]"

definition ds_encodeSharedBitmap :: "ds_Header \<Rightarrow> bool list \<Rightarrow> byte list" where
  "ds_encodeSharedBitmap h present =
     (let n = ds_NumChunks h in
      ds_SharedBitmapMagic @ le32 1 @ le32 (ds_ChunkSize h) @ le64 (ds_TotalSize h)
      @ le32 (word_of_int n)
      @ bitmap_encode (\<lambda>i. i < length present \<and> present ! i) (nat n))"

definition ds_readSharedBitmap :: "bitmap_file \<Rightarrow> ds_Header \<Rightarrow> ds_cerror + bool list" where
  "ds_readSharedBitmap bf h =
     (case bf of
        NoBitmap \<Rightarrow> Inl DCBitmapNotExist
      | BitmapUnreadable e \<Rightarrow> Inl (DCBitmapReadError e)
      | Bitmap b \<Rightarrow>
          if length b < 24 then Inl (DCBitmapTooShort (length b))
          else if take 4 b \<noteq> ds_SharedBitmapMagic then Inl (DCBadBitmapMagic (take 4 b))
          else let ver = get32 (drop 4 b) in
            if ver \<noteq> 1 then Inl (DCUnsupportedBitmapVersion ver)
            else let cs = get32 (drop 8 b); ts = get64 (drop 12 b); n = uint (get32 (drop 20 b)) in
              if cs \<noteq> ds_ChunkSize h \<or> ts \<noteq> ds_TotalSize h \<or> n \<noteq> ds_NumChunks h
              then Inl (DCGeometryMismatch cs ts n)
              else let bitmapLen = (n + 7) div 8 in
                if int (length b - 24) < bitmapLen
                then Inl (DCBitmapTruncated bitmapLen (int (length b - 24)))
                else Inr (bitmap_decode (seg 24 (nat bitmapLen) b) (nat n)))"

text \<open>
  \<open>writeSharedBitmap\<close>: the temporary file is written, then renamed over the old bitmap; a failure of
  either leaves the old bitmap in place.
\<close>

definition ds_writeSharedBitmap ::
  "string option \<Rightarrow> string option \<Rightarrow> bitmap_file \<Rightarrow> ds_Header \<Rightarrow> bool list \<Rightarrow> ds_cerror option \<times> bitmap_file" where
  "ds_writeSharedBitmap wr rn old h present =
     (case wr of
        Some e \<Rightarrow> (Some (DCBitmapWriteError e), old)
      | None \<Rightarrow>
          (case rn of
             Some e \<Rightarrow> (Some (DCBitmapRenameError e), old)
           | None \<Rightarrow> (None, Bitmap (ds_encodeSharedBitmap h present))))"

section \<open>Opening, reading, flushing, closing\<close>

record ds_SharedCache =
  dc_h :: ds_Header
  dc_fl :: "ds_cerror cflight"
  dc_store :: store
  dc_hits :: int
  dc_durable :: "byte list"
  dc_bitmap :: bitmap_file

definition ds_OpenSharedCache :: "ds_Header option \<Rightarrow> open_env \<Rightarrow> ds_cerror + ds_SharedCache" where
  "ds_OpenSharedCache ho env =
     (case ho of
        None \<Rightarrow> Inl DCacheNilHeader
      | Some h \<Rightarrow>
        (case oe_mkdir env of
           Some e \<Rightarrow> Inl (DCMkdirError e)
         | None \<Rightarrow>
          (case oe_data env of
             Inl e \<Rightarrow> Inl (DCOpenDataError e)
           | Inr f \<Rightarrow>
              (let sized = oe_stat env \<and> int (length f) = sint (ds_TotalSize h);
                   removed = (if oe_remove env then NoBitmap else oe_bitmap env)
               in case (if sized then ds_readSharedBitmap (oe_bitmap env) h else Inl DCBitmapNotExist) of
                    Inr bits \<Rightarrow>
                      Inr \<lparr>dc_h = h, dc_fl = cflight_init bits,
                           dc_store = \<lparr>st_file = f, st_fetches = 0, st_verifyErr = 0\<rparr>, dc_hits = 0,
                           dc_durable = f, dc_bitmap = oe_bitmap env\<rparr>
                  | Inl _ \<Rightarrow>
                      (case oe_trunc0 env of
                         Some e \<Rightarrow> Inl (DCResetDataError e)
                       | None \<Rightarrow>
                          if sint (ds_TotalSize h) < 0 then Inl (DCSizeDataError ''invalid argument'')
                          else (case oe_truncN env of
                             Some e \<Rightarrow> Inl (DCSizeDataError e)
                           | None \<Rightarrow>
                              (let z = truncate_to (truncate_to f 0) (nat (sint (ds_TotalSize h))) in
                               Inr \<lparr>dc_h = h,
                                    dc_fl = cflight_init (replicate (nat (ds_NumChunks h)) False),
                                    dc_store = \<lparr>st_file = z, st_fetches = 0, st_verifyErr = 0\<rparr>,
                                    dc_hits = 0, dc_durable = z, dc_bitmap = removed\<rparr>)))))))"

definition ds_sc_fetchChunk ::
  "(byte list \<Rightarrow> byte list) \<Rightarrow> ds_Header \<Rightarrow> fetch_env \<Rightarrow> store \<Rightarrow> int \<Rightarrow> ds_cerror option \<times> store" where
  "ds_sc_fetchChunk sha h env st idx = map_prod (map_option DCacheFetch) id (ds_fetchChunk sha h env st idx)"

definition ds_sc_ensureChunk ::
  "(byte list \<Rightarrow> byte list) \<Rightarrow> fetch_env \<Rightarrow> ds_SharedCache \<Rightarrow> int \<Rightarrow> ds_cerror call \<times> ds_SharedCache" where
  "ds_sc_ensureChunk sha env c idx =
     (if idx < 0 \<or> int (length (fl_done (dc_fl c))) \<le> idx then (Done (Some (DCChunkOutOfRange idx)), c)
      else case flight_enter (dc_fl c) idx of
        Hit \<Rightarrow> (Done None, c\<lparr>dc_hits := dc_hits c + 1\<rparr>)
      | Join ch \<Rightarrow> (Blocked, c)
      | Lead ch fl1 \<Rightarrow>
          (let (err, st) = ds_sc_fetchChunk sha (dc_h c) env (dc_store c) idx in
           (Done err, c\<lparr>dc_fl := cache_finish fl1 idx ch err, dc_store := st\<rparr>)))"

definition ds_sc_EnsureChunk ::
  "(byte list \<Rightarrow> byte list) \<Rightarrow> fetch_env \<Rightarrow> ds_SharedCache \<Rightarrow> int \<Rightarrow> ds_cerror call \<times> ds_SharedCache" where
  "ds_sc_EnsureChunk sha env c idx =
     (if \<not> ds_IsPresent (dc_h c) idx then (Done None, c) else ds_sc_ensureChunk sha env c idx)"

text \<open>
  \<open>ReadAt\<close> on a buffer of \<open>plen\<close> bytes: the outcome, the bytes at the front of the buffer, the state.
  \<open>env i\<close> is what the fetch of chunk \<open>i\<close> meets.
\<close>

definition ds_sc_ReadAt ::
  "(byte list \<Rightarrow> byte list) \<Rightarrow> (int \<Rightarrow> fetch_env) \<Rightarrow> string option \<Rightarrow> ds_SharedCache \<Rightarrow> int \<Rightarrow> nat
   \<Rightarrow> ds_cerror call \<times> byte list \<times> ds_SharedCache" where
  "ds_sc_ReadAt sha env rd c off plen =
     (let total_size = sint (ds_TotalSize (dc_h c)) in
      if plen = 0 then (Done None, [], c)
      else if off < 0 \<or> off \<ge> total_size then (Done (Some (DCacheOffsetOutOfRange off total_size)), [], c)
      else
        let len = clamp_len total_size off (int plen);
            first = ds_ChunkForOffset (dc_h c) off;
            last = ds_ChunkForOffset (dc_h c) (off + len - 1)
        in case ensure_range (\<lambda>i c. ds_sc_ensureChunk sha (env i) c i) (ds_IsPresent (dc_h c)) id c first
                  (nat (last - first + 1)) of
             (Done None, c1) \<Rightarrow>
               (case rd of
                  Some e \<Rightarrow> (Done (Some (DCDataReadError e)), [], c1)
                | None \<Rightarrow> (Done None, seg (nat off) (nat len) (st_file (dc_store c1)), c1))
           | (bad, c1) \<Rightarrow> (bad, [], c1))"

text \<open>
  \<open>Flush\<close>, run without interference: snapshot and dirty count under the mutex, \<open>Sync\<close>, bitmap
  write and rename, acknowledgement under the mutex.
\<close>

definition ds_Flush :: "flush_env \<Rightarrow> ds_SharedCache \<Rightarrow> ds_cerror option \<times> ds_SharedCache" where
  "ds_Flush env c =
     (if fl_dirty (dc_fl c) = 0 then (None, c)
      else let snapshot = fl_done (dc_fl c); acked = fl_dirty (dc_fl c) in
        case fe_sync env of
          Some e \<Rightarrow> (Some (DCFsyncError e), c)
        | None \<Rightarrow>
            (let c1 = c\<lparr>dc_durable := st_file (dc_store c)\<rparr>;
                 (err, bm) = ds_writeSharedBitmap (fe_write env) (fe_rename env) (dc_bitmap c1) (dc_h c1) snapshot;
                 c2 = c1\<lparr>dc_bitmap := bm\<rparr>
             in case err of
                  Some e \<Rightarrow> (Some e, c2)
                | None \<Rightarrow> (None, c2\<lparr>dc_fl := dirty_ack (dc_fl c2) acked\<rparr>)))"

definition ds_sc_Close ::
  "flush_env \<Rightarrow> ds_cerror option \<Rightarrow> ds_cerror option \<Rightarrow> ds_SharedCache \<Rightarrow> ds_cerror option \<times> ds_SharedCache" where
  "ds_sc_Close env derr uerr c =
     (let (ferr, c1) = ds_Flush env c in
      (case ferr of Some e \<Rightarrow> Some e | None \<Rightarrow> (case derr of Some e \<Rightarrow> Some e | None \<Rightarrow> uerr), c1))"

section \<open>The bitmap file round-trips, and a torn one claims less\<close>

lemma length_ds_SharedBitmapMagic [simp]: "length ds_SharedBitmapMagic = 4"
  by (simp add: ds_SharedBitmapMagic_def)

lemma ds_bitmap_decode:
  assumes n: "int (length present) = ds_NumChunks h" "ds_NumChunks h < 2 ^ 32"
  shows "ds_readSharedBitmap (Bitmap (ds_encodeSharedBitmap h present)) h = Inr present"
proof -
  let ?n = "ds_NumChunks h" and ?bm = "bitmap_encode (\<lambda>i. i < length present \<and> present ! i) (length present)"
  have un: "uint (word_of_int ?n :: u32) = ?n"
    using n by (simp add: uint_word_of_int)
  have nn: "nat ?n = length present" using n(1) by simp
  have len: "nat ((?n + 7) div 8) = (length present + 7) div 8"
    using n(1) bitmap_len_nat [of ?n] nn by simp
  have dec: "bitmap_decode ?bm (length present) = present"
    using bitmap_decode_encode [of present "length present" "[]"] by simp
  show ?thesis
    using un len dec nn
    by (simp add: ds_readSharedBitmap_def ds_encodeSharedBitmap_def Let_def seg_def)
qed

definition ds_claims :: "ds_Header \<Rightarrow> bitmap_file \<Rightarrow> int \<Rightarrow> bool" where
  "ds_claims h b i \<longleftrightarrow> (case ds_readSharedBitmap b h of Inl e \<Rightarrow> False | Inr bits \<Rightarrow> bits ! nat i)"

lemma ds_readSharedBitmap_Inr:
  assumes "ds_readSharedBitmap b h = Inr bits"
  obtains g where "b = Bitmap g" "bits = bitmap_decode (seg 24 (nat ((ds_NumChunks h + 7) div 8)) g) (nat (ds_NumChunks h))"
    "24 + (nat (ds_NumChunks h) + 7) div 8 \<le> length g" "0 \<le> ds_NumChunks h"
proof -
  obtain g where g: "b = Bitmap g" using assms by (cases b) (auto simp: ds_readSharedBitmap_def)
  have n: "uint (get32 (drop 20 g)) = ds_NumChunks h" "24 \<le> length g"
    "bits = bitmap_decode (seg 24 (nat ((ds_NumChunks h + 7) div 8)) g) (nat (ds_NumChunks h))"
    "\<not> int (length g - 24) < (ds_NumChunks h + 7) div 8"
    using assms g by (auto simp: ds_readSharedBitmap_def Let_def split: if_splits)
  then have "0 \<le> ds_NumChunks h" by (metis uint_ge_0)
  moreover from this have "24 + (nat (ds_NumChunks h) + 7) div 8 \<le> length g"
    using n(2,4) bitmap_len_nat [of "ds_NumChunks h"] by linarith
  ultimately show thesis using that g n(3) by blast
qed

lemma ds_readSharedBitmap_length:
  "ds_readSharedBitmap b h = Inr bits \<Longrightarrow> int (length bits) = ds_NumChunks h"
  by (erule ds_readSharedBitmap_Inr) simp

lemma ds_claims_torn:
  assumes t: "torn (ds_encodeSharedBitmap h s) g" and c: "ds_claims h (Bitmap g) i" and v: "ds_valid h i"
  shows "s ! nat i"
proof -
  obtain bits where b: "ds_readSharedBitmap (Bitmap g) h = Inr bits" "bits ! nat i"
    using c by (auto simp: ds_claims_def split: sum.splits)
  let ?n = "nat (ds_NumChunks h)" and ?p = "\<lambda>i. i < length s \<and> s ! i"
  let ?hd = "ds_SharedBitmapMagic @ le32 1 @ le32 (ds_ChunkSize h) @ le64 (ds_TotalSize h)
    @ le32 (word_of_int (ds_NumChunks h))"
  have g: "bits = bitmap_decode (seg 24 ((?n + 7) div 8) g) ?n" "24 + (?n + 7) div 8 \<le> length g"
    using ds_readSharedBitmap_Inr [OF b(1)] bitmap_len_nat [of "ds_NumChunks h"] by auto
  have i: "nat i < ?n" using v by (auto simp: ds_valid_def valid_chunk_def ds_NumChunks_def)
  have "torn (?hd @ bitmap_encode ?p ?n) g" using t by (simp add: ds_encodeSharedBitmap_def Let_def)
  moreover have "bitmap_get (seg 24 ((?n + 7) div 8) g) (nat i)" using b(2) g(1) i by (simp add: bitmap_decode_def)
  ultimately show ?thesis using torn_bitmap [of ?hd ?p ?n g 24 "nat i"] g(2) i by simp
qed

section \<open>Opening\<close>

text \<open>
  What an open makes of the files it finds. A failed \<open>Stat\<close> together with a failed \<open>Remove\<close> would
  leave a bitmap that claims chunks of a data file just reset; on an open descriptor \<open>Stat\<close> does not
  fail, and this pair is excluded here.
\<close>

definition ds_opened :: "ds_Header \<Rightarrow> byte list \<Rightarrow> bitmap_file \<Rightarrow> bool list \<Rightarrow> byte list \<Rightarrow> bitmap_file \<Rightarrow> bool" where
  "ds_opened h f b bits f' b' \<longleftrightarrow> (\<exists>env c. oe_data env = Inr f \<and> oe_bitmap env = b
     \<and> (oe_stat env \<or> oe_remove env) \<and> ds_OpenSharedCache (Some h) env = Inr c
     \<and> dc_fl c = cflight_init bits \<and> st_file (dc_store c) = f' \<and> dc_bitmap c = b')"

lemma ds_opened_cases:
  assumes "ds_opened h f b bits f' b'"
  obtains (warm) "int (length f) = sint (ds_TotalSize h)" "ds_readSharedBitmap b h = Inr bits" "f' = f" "b' = b"
  | (cold) "bits = replicate (nat (ds_NumChunks h)) False" "f' = zeros (nat (sint (ds_TotalSize h)))"
      "b' = NoBitmap \<or> b' = b \<and> (int (length f) = sint (ds_TotalSize h) \<longrightarrow> (\<exists>e. ds_readSharedBitmap b h = Inl e))"
proof -
  obtain env c where e: "oe_data env = Inr f" "oe_bitmap env = b" "oe_stat env \<or> oe_remove env"
    "ds_OpenSharedCache (Some h) env = Inr c"
    "dc_fl c = cflight_init bits" "st_file (dc_store c) = f'" "dc_bitmap c = b'"
    using assms by (auto simp: ds_opened_def)
  show thesis
  proof (cases "oe_stat env \<and> int (length f) = sint (ds_TotalSize h)")
    case True
    then show thesis
      using e that
      by (auto simp: ds_OpenSharedCache_def Let_def cflight_init_def truncate_to_def zeros_def
          split: option.splits sum.splits if_splits)
  next
    case False
    then show thesis
      using e cold
      by (auto simp: ds_OpenSharedCache_def Let_def cflight_init_def truncate_to_def zeros_def
          split: option.splits sum.splits if_splits)
  qed
qed

section \<open>Interleavings and crashes\<close>

lemma ds_sc_fetchChunk_parts:
  "fst (ds_sc_fetchChunk sha h env st i) = map_option DCacheFetch (fst (ds_fetchChunk sha h env st i))"
  "snd (ds_sc_fetchChunk sha h env st i) = snd (ds_fetchChunk sha h env st i)"
  by (simp_all add: ds_sc_fetchChunk_def)

lemma ds_sc_fetchChunk_laws:
  assumes "source_of img env" and "ds_dinv sha h img st" and "ds_valid h i"
  shows "ds_dinv sha h img (snd (ds_sc_fetchChunk sha h env st i))"
    and "fst (ds_sc_fetchChunk sha h env st i) = None \<Longrightarrow> ds_holds h img (snd (ds_sc_fetchChunk sha h env st i)) i"
    and "ds_valid h j \<Longrightarrow> j \<noteq> i \<Longrightarrow> ds_holds h img st j
      \<Longrightarrow> ds_holds h img (snd (ds_sc_fetchChunk sha h env st i)) j"
  using ds_fetchChunk_laws [OF assms] by (simp_all add: ds_sc_fetchChunk_parts)

interpretation ds_sc_flight: single_flight "ds_valid h" "source_of img" "ds_sc_fetchChunk sha h"
  cache_finish cache_wake "\<lambda>_ _. True" "ds_dinv sha h img" "ds_holds h img" for sha h img
proof unfold_locales
  show "ds_holds h img (snd (ds_sc_fetchChunk sha h env d i)) j"
    if "source_of img env" "ds_dinv sha h img d" "ds_valid h i" "ds_valid h j" "j \<noteq> i" "ds_holds h img d j" for env d i j
    using that by (rule ds_sc_fetchChunk_laws(3))
qed (simp_all only: cache_finish_fields ds_sc_fetchChunk_laws(1,2) cache_wake_none)

interpretation ds_sc: crash_cache "ds_valid h" "source_of img" "ds_sc_fetchChunk sha h" "ds_dinv sha h img"
  "ds_holds h img" "ds_describes sha h" "ds_ChunkSize h" "ds_TotalSize h" "ds_present h" img "ds_encodeSharedBitmap h"
  "ds_claims h" "ds_opened h" for sha h img
proof unfold_locales
  let ?cs = "ds_ChunkSize h" and ?ts = "ds_TotalSize h" and ?ps = "ds_present h"
  have total: "geom_ok ?cs ?ts" "sint ?ts = int (unat ?ts)" if "describes ?cs ?ts ?ps img"
    using that geom_okD(4) [of ?cs ?ts] uint_nat [of ?ts] by (simp_all add: describes_def)
  show "int (length bits) = num_chunks ?cs ?ts \<and> sparse_ok ?cs ?ts ?ps f'"
    if d: "describes ?cs ?ts ?ps img" and o: "ds_opened h f b bits f' b'" and s: "sparse_ok ?cs ?ts ?ps f"
    for f b bits f' b'
    using o
  proof (cases rule: ds_opened_cases)
    case warm
    then show ?thesis
      using s ds_readSharedBitmap_length [OF warm(2)] by (simp add: ds_NumChunks_def)
  next
    case cold
    then show ?thesis
      using total [OF d] num_chunks_nonneg [of ?cs ?ts] sparse_ok_zeros [of ?cs ?ts ?ps]
      by (simp add: ds_NumChunks_def)
  qed
  show "f' = f \<and> ds_claims h b i" if "ds_opened h f b bits f' b'" "ds_valid h i" "bits ! nat i" for f b bits f' b' i
    using that(1)
  proof (cases rule: ds_opened_cases)
    case warm
    then show ?thesis using that(3) by (simp add: ds_claims_def)
  next
    case cold
    then show ?thesis using that(2,3) by (simp add: ds_valid_def valid_chunk_def ds_NumChunks_def nat_less_iff)
  qed
  show "bits ! nat i"
    if d: "describes ?cs ?ts ?ps img" and "sparse_ok ?cs ?ts ?ps f" and o: "ds_opened h f b bits f' b'"
      and c: "ds_claims h b' i" for f b bits f' b' i
    using o
  proof (cases rule: ds_opened_cases)
    case warm
    then show ?thesis using c by (simp add: ds_claims_def)
  next
    case cold
    then show ?thesis
      using c that(2) total(2) [OF d] by (auto simp: ds_claims_def sparse_ok_def ds_readSharedBitmap_def)
  qed
  show "ds_claims h (Bitmap g) i \<Longrightarrow> s ! nat i" if "torn (ds_encodeSharedBitmap h s) g" "ds_valid h i" for s g i
    using ds_claims_torn that by blast
qed (simp_all add: ds_dinv_def ds_holds_def ds_valid_def ds_describes_facts)

abbreviation ds_cache_reach :: "(byte list \<Rightarrow> byte list) \<Rightarrow> ds_Header \<Rightarrow> byte list \<Rightarrow> ds_cerror crash \<Rightarrow> ds_cerror crash \<Rightarrow> bool" where
  "ds_cache_reach sha h img \<equiv> cache_reach (ds_valid h) (source_of img) (ds_sc_fetchChunk sha h) (\<lambda>e. e = DCacheCancelled)
     (ds_encodeSharedBitmap h) (ds_opened h)"

text \<open>
  C9: crash safety of the disk cache. Start from a fresh cache directory and run any interleaving of
  fetching goroutines, cancelled waits, flushes that succeed or fail at any phase, crashes that lose or
  tear whatever was not synced, and reopens: a chunk the cache marks valid always holds the image's
  bytes, so no crash makes it serve torn data.
\<close>

theorem ds_crash_safe:
  assumes "ds_describes sha h img"
    and "ds_cache_reach sha h img
      (opened_state (replicate (nat (ds_NumChunks h)) False) (zeros (unat (ds_TotalSize h))) NoBitmap) c"
    and "ds_valid h i" and "fl_done (cr_fl c) ! nat i"
  shows "seg (chunk_off (ds_ChunkSize h) (ds_TotalSize h) i) (chunk_len (ds_ChunkSize h) (ds_TotalSize h) i)
      (st_file (cr_store c))
    = seg (chunk_off (ds_ChunkSize h) (ds_TotalSize h) i) (chunk_len (ds_ChunkSize h) (ds_TotalSize h) i) img"
proof -
  have "int (nat (ds_NumChunks h)) = num_chunks (ds_ChunkSize h) (ds_TotalSize h)"
    using num_chunks_nonneg [OF ds_describes_facts(2) [OF assms(1)]] by (simp add: ds_NumChunks_def)
  from ds_sc.cold_safe [OF assms(1) this _ assms(2-4)] show ?thesis
    by (simp add: ds_claims_def ds_readSharedBitmap_def chunk_holds_def)
qed

section \<open>Reading through the cache\<close>

definition ds_sc_inv :: "(byte list \<Rightarrow> byte list) \<Rightarrow> byte list \<Rightarrow> ds_SharedCache \<Rightarrow> bool" where
  "ds_sc_inv sha img c \<longleftrightarrow> ds_describes sha (dc_h c) img \<and> fl_inflight (dc_fl c) = (\<lambda>_. None)
     \<and> store_inv (ds_ChunkSize (dc_h c)) (ds_TotalSize (dc_h c)) (ds_present (dc_h c)) img
         (st_file (dc_store c)) (fl_done (dc_fl c))"

lemma ds_sc_inv_quiet:
  "ds_sc_inv sha img c \<longleftrightarrow> ds_describes sha (dc_h c) img \<and> ds_sc_flight.quiet (dc_h c) sha img (dc_fl c) (dc_store c)
     \<and> int (length (fl_done (dc_fl c))) = ds_NumChunks (dc_h c)"
proof (cases "ds_describes sha (dc_h c) img \<and> sparse_ok (ds_ChunkSize (dc_h c)) (ds_TotalSize (dc_h c)) (ds_present (dc_h c)) (st_file (dc_store c))
    \<and> int (length (fl_done (dc_fl c))) = ds_NumChunks (dc_h c)")
  case True
  let ?h = "dc_h c" and ?ok = "\<lambda>i. ds_holds (dc_h c) img (dc_store c) i"
  have "?ok i" if "valid_chunk (ds_ChunkSize ?h) (ds_TotalSize ?h) i" "\<not> ds_IsPresent ?h i" for i
    using absent_holds that True ds_describes_facts(1) unfolding ds_IsPresent_def ds_holds_def by blast
  then have "(\<forall>i. valid_chunk (ds_ChunkSize ?h) (ds_TotalSize ?h) i \<and> fl_done (dc_fl c) ! nat i \<longrightarrow> ?ok i)
      \<longleftrightarrow> (\<forall>i. ds_valid ?h i \<and> fl_done (dc_fl c) ! nat i \<longrightarrow> ?ok i)"
    unfolding ds_valid_def by blast
  moreover have "0 \<le> i \<and> nat i < length (fl_done (dc_fl c))" if "ds_valid ?h i" for i
    using that True by (auto simp: ds_valid_def valid_chunk_def ds_NumChunks_def)
  ultimately show ?thesis
    using True unfolding ds_sc_inv_def ds_sc_flight.quiet_def store_inv_def ds_dinv_def ds_holds_def ds_NumChunks_def
    by blast
next
  case False
  then show ?thesis
    by (auto simp: ds_sc_inv_def ds_sc_flight.quiet_def store_inv_def ds_dinv_def ds_NumChunks_def)
qed

lemma ds_sc_ensureChunk_step:
  assumes inv: "ds_sc_inv sha img c" and ok: "source_of img env" and p: "ds_IsPresent (dc_h c) i"
  shows "\<exists>e c'. ds_sc_ensureChunk sha env c i = (Done e, c') \<and> ds_sc_inv sha img c' \<and> dc_h c' = dc_h c
    \<and> (e = None \<longrightarrow> fl_done (dc_fl c') ! nat i)
    \<and> (\<forall>k. fl_done (dc_fl c) ! k \<longrightarrow> fl_done (dc_fl c') ! k) \<and> (healthy img env \<longrightarrow> e = None)"
proof -
  have d: "ds_describes sha (dc_h c) img" and q: "ds_sc_flight.quiet (dc_h c) sha img (dc_fl c) (dc_store c)"
    and n: "int (length (fl_done (dc_fl c))) = ds_NumChunks (dc_h c)"
    using inv by (simp_all add: ds_sc_inv_quiet)
  have v: "ds_valid (dc_h c) i" using ds_describes_facts(6) [OF d p] .
  then have rng: "\<not> (i < 0 \<or> int (length (fl_done (dc_fl c))) \<le> i)" "nat i < length (fl_done (dc_fl c))"
    using n by (auto simp: ds_valid_def valid_chunk_def ds_NumChunks_def)
  obtain e fl' st' where s: "solo_call (ds_sc_fetchChunk sha (dc_h c)) cache_finish env (dc_fl c) (dc_store c) i = (Done e, fl', st')"
    "ds_sc_flight.quiet (dc_h c) sha img fl' st'" "e = None \<longleftrightarrow> fl_done fl' ! nat i"
    "fl_done fl' = (if fl_done (dc_fl c) ! nat i \<or> e = None then (fl_done (dc_fl c))[nat i := True] else fl_done (dc_fl c))"
    "fst (ds_sc_fetchChunk sha (dc_h c) env (dc_store c) i) = None \<longrightarrow> e = None"
    by (rule ds_sc_flight.solo_call_quiet [OF q ok v]) (rule that)
  let ?c = "c\<lparr>dc_fl := fl', dc_store := st', dc_hits := (if fl_done (dc_fl c) ! nat i then dc_hits c + 1 else dc_hits c)\<rparr>"
  have "ds_sc_ensureChunk sha env c i = (Done e, ?c)"
    using rng s(1) by (auto simp: ds_sc_ensureChunk_def solo_call_def flight_enter_def
        split: enter.splits option.splits prod.splits if_splits)
  moreover have "ds_sc_inv sha img ?c" using d n s(2,4) by (simp add: ds_sc_inv_quiet)
  moreover have "fl_done (dc_fl c) ! k \<longrightarrow> fl_done fl' ! k" for k
    using rng(2) by (cases "k = nat i") (simp_all add: s(4))
  moreover have "healthy img env \<longrightarrow> e = None"
    using s(5) ds_fetchChunk_healthy [OF d v] by (simp add: ds_sc_fetchChunk_parts)
  ultimately show ?thesis using s(3) by (intro exI [of _ e] exI [of _ ?c]) simp
qed

lemma ds_sc_ensure_all:
  assumes inv: "ds_sc_inv sha img c" and ok: "\<forall>i. source_of img (env i)"
  shows "\<exists>e c1. ensure_range (\<lambda>i c. ds_sc_ensureChunk sha (env i) c i) (ds_IsPresent (dc_h c)) id c i n = (Done e, c1)
      \<and> (ds_sc_inv sha img c1 \<and> dc_h c1 = dc_h c)
      \<and> (\<forall>k. fl_done (dc_fl c) ! nat k \<longrightarrow> fl_done (dc_fl c1) ! nat k)
      \<and> (e = None \<longrightarrow> (\<forall>j \<in> {i..<i + int n}. ds_IsPresent (dc_h c) j \<longrightarrow> fl_done (dc_fl c1) ! nat j))
      \<and> ((\<forall>i. healthy img (env i)) \<longrightarrow> e = None)"
proof (rule ensure_range_rule)
  show "ds_sc_inv sha img c \<and> dc_h c = dc_h c" using inv by simp
  fix s j k assume s: "ds_sc_inv sha img s \<and> dc_h s = dc_h c"
  show "(ds_sc_inv sha img (id s) \<and> dc_h (id s) = dc_h c)
      \<and> (fl_done (dc_fl s) ! nat k \<longrightarrow> fl_done (dc_fl (id s)) ! nat k)" using s by simp
  assume "ds_IsPresent (dc_h c) j"
  then obtain e s' where e: "ds_sc_ensureChunk sha (env j) s j = (Done e, s')" "ds_sc_inv sha img s'" "dc_h s' = dc_h s"
    "e = None \<longrightarrow> fl_done (dc_fl s') ! nat j" "\<forall>k. fl_done (dc_fl s) ! k \<longrightarrow> fl_done (dc_fl s') ! k"
    "healthy img (env j) \<longrightarrow> e = None"
    using ds_sc_ensureChunk_step [of sha img s "env j" j] s ok by metis
  show "\<exists>e s'. ds_sc_ensureChunk sha (env j) s j = (Done e, s') \<and> (ds_sc_inv sha img s' \<and> dc_h s' = dc_h c)
      \<and> (e = None \<longrightarrow> fl_done (dc_fl s') ! nat j) \<and> ((\<forall>i. healthy img (env i)) \<longrightarrow> e = None)"
    using e s by (intro exI [of _ e] exI [of _ s']) simp
  show "fl_done (dc_fl s) ! nat k \<Longrightarrow> fl_done (dc_fl (snd (ds_sc_ensureChunk sha (env j) s j))) ! nat k"
    using e by simp
qed

text \<open>
  C00: \<open>SharedCache.ReadAt\<close> over any range of chunks returns exactly the image's bytes, clamped at the
  end of the image, whenever it returns without error, for any honest upstream; it keeps the
  invariant, and it succeeds when upstream and local disk are healthy.
\<close>

theorem ds_sc_ReadAt_correct:
  assumes inv: "ds_sc_inv sha img c" and ok: "\<forall>i. source_of img (env i)" and plen: "0 < plen"
    and off: "0 \<le> off" "off < int (length img)" and sz: "int (length img) + int plen < 2 ^ 63"
  shows "\<exists>e b c'. ds_sc_ReadAt sha env rd c off plen = (Done e, b, c') \<and> ds_sc_inv sha img c'
    \<and> (e = None \<longrightarrow> b = seg (nat off) plen img)
    \<and> ((\<forall>i. healthy img (env i)) \<and> rd = None \<longrightarrow> e = None)"
proof -
  let ?h = "dc_h c" and ?len = "min (int plen) (int (length img) - off)"
  have d: "ds_describes sha ?h img" using inv by (simp add: ds_sc_inv_def)
  note t = ds_describes_facts(2,3,4) [OF d]
  define i0 where "i0 = ds_ChunkForOffset ?h off"
  define n where "n = nat (ds_ChunkForOffset ?h (off + ?len - 1) - i0 + 1)"
  have "i64 (off + int plen) = off + int plen" "i64 (int (length img) - off) = int (length img) - off"
    using off sz by (auto intro!: i64_id)
  then have len: "clamp_len (sint (ds_TotalSize ?h)) off (int plen) = ?len"
    using off t(3) by (auto simp: clamp_len_def min_def)
  obtain e c1 where r: "ensure_range (\<lambda>i c. ds_sc_ensureChunk sha (env i) c i) (ds_IsPresent ?h) id c i0 n = (Done e, c1)"
    "ds_sc_inv sha img c1 \<and> dc_h c1 = ?h"
    "e = None \<longrightarrow> (\<forall>j \<in> {i0..<i0 + int n}. ds_IsPresent ?h j \<longrightarrow> fl_done (dc_fl c1) ! nat j)"
    "(\<forall>i. healthy img (env i)) \<longrightarrow> e = None"
    using ds_sc_ensure_all [OF inv ok, of i0 n] by blast
  have eq: "ds_sc_ReadAt sha env rd c off plen = (case (Done e, c1) of
      (Done None, c1) \<Rightarrow> (case rd of Some e \<Rightarrow> (Done (Some (DCDataReadError e)), [], c1)
        | None \<Rightarrow> (Done None, seg (nat off) (nat ?len) (st_file (dc_store c1)), c1))
      | (bad, c1) \<Rightarrow> (bad, [], c1))"
    using plen off t(3) r(1) len by (simp add: ds_sc_ReadAt_def Let_def i0_def n_def)
  have "seg (nat off) (nat ?len) (st_file (dc_store c1)) = seg (nat off) plen img" if "e = None"
  proof -
    have "seg (nat off) (nat ?len) (st_file (dc_store c1)) = seg (nat off) (nat ?len) img"
      using r(2,3) that off plen t(2) ds_describes_facts(1) [OF d] unfolding i0_def n_def
      by (intro store_read_range [of "ds_ChunkSize ?h" "ds_TotalSize ?h" "ds_present ?h" img _ "fl_done (dc_fl c1)"])
        (auto simp: ds_sc_inv_def ds_ChunkForOffset_def ds_IsPresent_def)
    also have "\<dots> = seg (nat off) plen img" using off by (auto simp: seg_def min_def)
    finally show ?thesis .
  qed
  then show ?thesis using eq r by (cases e; cases rd) auto
qed


section \<open>The file formats exclude each other\<close>

lemma decoded_magics:
  "ms_DecodeHeader b = Inr x1 \<Longrightarrow> take 4 b = ms_Magic"
  "ms_DecodePrefetch b = Inr x2 \<Longrightarrow> take 4 b = ms_PrefetchMagic"
  "ms_readSharedBitmap (Bitmap b) h = Inr x3 \<Longrightarrow> take 4 b = ms_SharedBitmapMagic"
  "ds_DecodeHeader b = Inr x4 \<Longrightarrow> take 4 b = ds_Magic"
  "ds_DecodePrefetch b = Inr x5 \<Longrightarrow> take 4 b = ds_PrefetchMagic"
  "ds_readSharedBitmap (Bitmap b) h' = Inr x6 \<Longrightarrow> take 4 b = ds_SharedBitmapMagic"
  by (auto simp: ms_DecodeHeader_def ms_DecodePrefetch_def ms_readSharedBitmap_def ds_DecodeHeader_def
      ds_DecodePrefetch_def ds_readSharedBitmap_def split: if_splits)

lemma magics_distinct:
  "distinct [ms_Magic, ms_PrefetchMagic, ms_SharedBitmapMagic, ds_Magic, ds_PrefetchMagic, ds_SharedBitmapMagic]"
  by code_simp

lemma at_most_one:
  "distinct ks \<Longrightarrow> list_all2 (\<lambda>b k. b \<longrightarrow> x = k) bs ks \<Longrightarrow> length (filter id bs) \<le> 1"
proof (induction bs arbitrary: ks)
  case (Cons b bs)
  then obtain k ks' where ks: "ks = k # ks'" "b \<longrightarrow> x = k" "list_all2 (\<lambda>b k. b \<longrightarrow> x = k) bs ks'"
    by (auto simp: list_all2_Cons1)
  have "filter id bs = []" if "x = k"
    using that ks Cons.prems(1)
    by (simp add: filter_empty_conv list_all2_conv_all_nth) (metis in_set_conv_nth)
  then show ?case using Cons.IH [of ks'] Cons.prems(1) ks by (cases b) (auto simp: id_def)
qed simp

text \<open>Which of the six decoders accept the bytes \<open>b\<close>; a bitmap is decoded against a header.\<close>

definition artifact_decoders :: "ms_Header \<Rightarrow> ds_Header \<Rightarrow> byte list \<Rightarrow> bool list" where
  "artifact_decoders h h2 b =
     [\<not> isl (ms_DecodeHeader b), \<not> isl (ms_DecodePrefetch b), \<not> isl (ms_readSharedBitmap (Bitmap b) h),
      \<not> isl (ds_DecodeHeader b), \<not> isl (ds_DecodePrefetch b), \<not> isl (ds_readSharedBitmap (Bitmap b) h2)]"

text \<open>
  C39: a memory artifact is never taken for a disk artifact, nor one kind of artifact for another: of
  the six decoders of the two packages at most one accepts any given file.
\<close>

theorem artifacts_disjoint: "length (filter id (artifact_decoders h h2 b)) \<le> 1"
proof -
  have p: "\<exists>y. x = Inr y" if "\<not> isl x" for x :: "'p + 'q" using that by (cases x) auto
  have "\<not> isl (ms_DecodeHeader b) \<longrightarrow> take 4 b = ms_Magic" "\<not> isl (ms_DecodePrefetch b) \<longrightarrow> take 4 b = ms_PrefetchMagic"
    "\<not> isl (ms_readSharedBitmap (Bitmap b) h) \<longrightarrow> take 4 b = ms_SharedBitmapMagic"
    "\<not> isl (ds_DecodeHeader b) \<longrightarrow> take 4 b = ds_Magic" "\<not> isl (ds_DecodePrefetch b) \<longrightarrow> take 4 b = ds_PrefetchMagic"
    "\<not> isl (ds_readSharedBitmap (Bitmap b) h2) \<longrightarrow> take 4 b = ds_SharedBitmapMagic"
    using decoded_magics by (blast dest: p)+
  then show ?thesis unfolding artifact_decoders_def
    by (intro at_most_one [OF magics_distinct, of "take 4 b"]) (simp only: list_all2_Cons list_all2_Nil)
qed

section \<open>A concrete cache\<close>

definition ds_demo_cache :: ds_SharedCache where
  "ds_demo_cache = \<lparr>dc_h = ds_demo, dc_fl = cflight_init [False, False, False],
     dc_store = \<lparr>st_file = zeros 5, st_fetches = 0, st_verifyErr = 0\<rparr>, dc_hits = 0,
     dc_durable = zeros 5, dc_bitmap = NoBitmap\<rparr>"

lemma ds_demo_cache_inv: "ds_sc_inv demo_sha demo_img ds_demo_cache"
  using store_inv_empty [OF demo_describes, of 3] ds_demo_describes
  by (simp add: ds_sc_inv_def ds_demo_cache_def cflight_init_def ds_demo_def demo_num_chunks numeral_3_eq_3)

theorem ds_sc_ReadAt_correct_witness:
  "\<exists>c'. ds_sc_ReadAt demo_sha (\<lambda>_. file_env demo_img) None ds_demo_cache 1 9 = (Done None, [0, 7, 9, 5], c')
    \<and> ds_sc_inv demo_sha demo_img c'"
proof -
  from ds_sc_ReadAt_correct [OF ds_demo_cache_inv, of "\<lambda>_. file_env demo_img" 9 1 None]
  show ?thesis using file_env_source file_env_healthy by (auto simp: demo_img_def seg_def)
qed

definition ds_demo_crash :: "ds_cerror crash" where
  "ds_demo_crash = opened_state [False, False, False] (zeros 5) NoBitmap"

theorem ds_crash_safe_witness:
  "\<exists>c. ds_cache_reach demo_sha ds_demo demo_img ds_demo_crash c \<and> fl_done (cr_fl c) = [False, True, False]
    \<and> seg 2 2 (st_file (cr_store c)) = [7, 9]"
proof -
  let ?fl = "cflight_init [False, False, False] :: ds_cerror cflight"
  let ?st = "\<lparr>st_file = zeros 5, st_fetches = 0, st_verifyErr = 0\<rparr>"
  let ?s = "solo_call (ds_sc_fetchChunk demo_sha ds_demo) cache_finish (file_env demo_img) ?fl ?st 1"
  have "fst ?s = Done None" "fl_done (fst (snd ?s)) = [False, True, False]" by code_simp+
  then obtain fl' st' where s: "?s = (Done None, fl', st')" and fd: "fl_done fl' = [False, True, False]"
    by (metis prod.collapse)
  have v: "ds_valid ds_demo 1"
    by (simp add: ds_valid_def ds_demo_def valid_chunk_def demo_num_chunks ds_IsPresent_def is_present_def)
  let ?c = "ds_demo_crash\<lparr>cr_fl := fl', cr_store := st', cr_pcs := (\<lambda>_. Idle)(0 := Returned 1 None)\<rparr>"
  have start: "ds_demo_crash = opened_state (replicate (nat (ds_NumChunks ds_demo)) False) (zeros (unat (ds_TotalSize ds_demo))) NoBitmap"
    by (simp add: ds_demo_crash_def ds_demo_def ds_NumChunks_def demo_num_chunks numeral_3_eq_3)
  have "flight_reach (ds_valid ds_demo) (source_of demo_img) (ds_sc_fetchChunk demo_sha ds_demo) cache_finish cache_wake
      (\<lambda>e. e = DCacheCancelled) (?fl, ?st, \<lambda>_. Idle) (fl', st', (\<lambda>_. Idle)(0 := Returned 1 None))"
    using v file_env_source s by (intro solo_call_reach) simp_all
  then have r: "ds_cache_reach demo_sha ds_demo demo_img ds_demo_crash ?c"
    using cache_reach_work [OF _ cache_reach.start, of "ds_valid ds_demo" "source_of demo_img" "ds_sc_fetchChunk demo_sha ds_demo"
        "\<lambda>e. e = DCacheCancelled" ds_demo_crash "(fl', st', (\<lambda>_. Idle)(0 := Returned 1 None))"]
    by (simp add: ds_demo_crash_def opened_state_def)
  have "seg 2 2 (st_file (cr_store ?c)) = [7, 9]"
    using ds_crash_safe [OF ds_demo_describes r [unfolded start] v] fd
    by (simp add: ds_demo_def demo_img_def seg_def demo_chunks)
  then show ?thesis using r fd by (intro exI [of _ ?c]) simp
qed

end
