(* ===== verification/Cache_Registry.thy ===== *)
theory Cache_Registry
  imports Go_Base
begin

text \<open>
  The process-wide registry of shared caches and the eviction of cache directories:
  \<open>AcquireSharedCache\<close>, \<open>evictSharedLRU\<close> and \<open>allocatedBytes\<close> of \<^verbatim>\<open>memstream/sharedcache.go\<close> and
  \<^verbatim>\<open>diskstream/sharedcache.go\<close>. The two packages carry the same code, except that the disk package
  looks at directories named \<^verbatim>\<open>disk-*\<close> only; \<open>evictSharedLRU\<close> takes that filter as its first argument.

  The theory shows what eviction promises (live caches stay, it stops as soon as the budget is met, and
  it goes by age), that a key is opened once, and one divergence: by default both packages use the same
  root directory, and the memory package's eviction also counts and removes the disk package's
  directories, live ones included.
\<close>

section \<open>Eviction\<close>

text \<open>
  A directory entry under the cache root: the files below it, each with its allocated blocks (when the
  stat backend has them) and logical size, and the modification times of its bitmap file and of itself.
  Times are integers, the zero \<open>time.Time\<close> is 0.
\<close>

record cache_entry =
  ce_name :: string
  ce_isDir :: bool
  ce_files :: "(int option \<times> int) list"
  ce_bitmapTime :: "int option"
  ce_dirTime :: "int option"

record cand =
  cand_key :: string
  cand_mtime :: int
  cand_bytes :: int

definition allocatedBytes :: "int option \<times> int \<Rightarrow> int" where
  "allocatedBytes fi = (case fst fi of Some blocks \<Rightarrow> blocks * 512 | None \<Rightarrow> snd fi)"

definition entry_bytes :: "cache_entry \<Rightarrow> int" where
  "entry_bytes e = sum_list (map allocatedBytes (ce_files e))"

definition entry_mtime :: "cache_entry \<Rightarrow> int" where
  "entry_mtime e = (case ce_bitmapTime e of Some t \<Rightarrow> t
     | None \<Rightarrow> (case ce_dirTime e of Some t \<Rightarrow> t | None \<Rightarrow> 0))"

text \<open>The scan of the root: the total of all directories, and the candidates among them.\<close>

fun scan_entries ::
  "(string \<Rightarrow> bool) \<Rightarrow> (string \<Rightarrow> bool) \<Rightarrow> cache_entry list \<Rightarrow> int \<Rightarrow> cand list \<Rightarrow> int \<times> cand list" where
  "scan_entries keep live [] tot cs = (tot, cs)"
| "scan_entries keep live (e # es) tot cs =
     (if \<not> ce_isDir e \<or> \<not> keep (ce_name e) then scan_entries keep live es tot cs
      else let tot1 = tot + entry_bytes e in
        if live (ce_name e) then scan_entries keep live es tot1 cs
        else scan_entries keep live es tot1
          (cs @ [\<lparr>cand_key = ce_name e, cand_mtime = entry_mtime e, cand_bytes = entry_bytes e\<rparr>]))"

fun evict_loop :: "(string \<Rightarrow> bool) \<Rightarrow> int \<Rightarrow> cand list \<Rightarrow> int \<Rightarrow> string list" where
  "evict_loop rm maxBytes [] tot = []"
| "evict_loop rm maxBytes (c # cs) tot =
     (if tot \<le> maxBytes then []
      else if rm (cand_key c) then cand_key c # evict_loop rm maxBytes cs (tot - cand_bytes c)
      else evict_loop rm maxBytes cs tot)"

text \<open>
  \<open>evictSharedLRU\<close> returns the directories it removed, in order. \<open>entries\<close> is \<open>None\<close> when
  \<open>ReadDir\<close> fails; \<open>rm k\<close> says whether \<open>os.RemoveAll\<close> of directory \<open>k\<close> succeeds. \<open>sort.Slice\<close>
  orders by age; entries of the same age stay in directory order here.
\<close>

definition evictSharedLRU ::
  "(string \<Rightarrow> bool) \<Rightarrow> cache_entry list option \<Rightarrow> (string \<Rightarrow> bool) \<Rightarrow> int \<Rightarrow> (string \<Rightarrow> bool) \<Rightarrow> string list" where
  "evictSharedLRU keep entries live maxBytes rm =
     (case entries of
        None \<Rightarrow> []
      | Some es \<Rightarrow>
          (let (tot, evictable) = scan_entries keep live es 0 [] in
           if tot \<le> maxBytes then []
           else evict_loop rm maxBytes (sort_key cand_mtime evictable) tot))"

definition ms_evictSharedLRU ::
  "cache_entry list option \<Rightarrow> (string \<Rightarrow> bool) \<Rightarrow> int \<Rightarrow> (string \<Rightarrow> bool) \<Rightarrow> string list" where
  "ms_evictSharedLRU = evictSharedLRU (\<lambda>_. True)"

definition disk_dir :: "string \<Rightarrow> bool" where
  "disk_dir name \<longleftrightarrow> \<not> (length name < 5 \<or> take 5 name \<noteq> ''disk-'')"

definition ds_evictSharedLRU ::
  "cache_entry list option \<Rightarrow> (string \<Rightarrow> bool) \<Rightarrow> int \<Rightarrow> (string \<Rightarrow> bool) \<Rightarrow> string list" where
  "ds_evictSharedLRU = evictSharedLRU disk_dir"

text \<open>Bytes of the considered directories, before and after some are removed.\<close>

definition dir_bytes :: "(string \<Rightarrow> bool) \<Rightarrow> cache_entry list \<Rightarrow> int" where
  "dir_bytes keep es = sum_list (map entry_bytes (filter (\<lambda>e. ce_isDir e \<and> keep (ce_name e)) es))"

definition evictable :: "(string \<Rightarrow> bool) \<Rightarrow> (string \<Rightarrow> bool) \<Rightarrow> cache_entry \<Rightarrow> bool" where
  "evictable keep live e \<longleftrightarrow> ce_isDir e \<and> keep (ce_name e) \<and> \<not> live (ce_name e)"

definition cand_of :: "cache_entry \<Rightarrow> cand" where
  "cand_of e = \<lparr>cand_key = ce_name e, cand_mtime = entry_mtime e, cand_bytes = entry_bytes e\<rparr>"

lemma cand_of_sel [simp]:
  "cand_key (cand_of e) = ce_name e" "cand_mtime (cand_of e) = entry_mtime e" "cand_bytes (cand_of e) = entry_bytes e"
  by (simp_all add: cand_of_def)

lemma scan_entries_eq:
  "scan_entries keep live es tot cs =
    (tot + dir_bytes keep es, cs @ map cand_of (filter (evictable keep live) es))"
  by (induction keep live es tot cs rule: scan_entries.induct)
     (auto simp: dir_bytes_def evictable_def cand_of_def Let_def)

text \<open>The loop removes a prefix of the candidates, less those whose removal fails.\<close>

lemma evict_loop_prefix:
  "\<exists>k \<le> length cs. evict_loop rm mb cs tot = map cand_key (filter (\<lambda>c. rm (cand_key c)) (take k cs))
    \<and> (tot - sum_list (map cand_bytes (filter (\<lambda>c. rm (cand_key c)) (take k cs))) \<le> mb \<or> k = length cs)
    \<and> (\<forall>j < k. mb < tot - sum_list (map cand_bytes (filter (\<lambda>c. rm (cand_key c)) (take j cs))))"
proof (induction rm mb cs tot rule: evict_loop.induct)
  case (1 rm mb tot)
  then show ?case by auto
next
  case (2 rm mb c cs tot)
  show ?case
  proof (cases "tot \<le> mb")
    case True
    then show ?thesis by (intro exI [of _ 0]) simp
  next
    case False
    let ?t = "if rm (cand_key c) then tot - cand_bytes c else tot"
    obtain k where k: "k \<le> length cs"
      "evict_loop rm mb cs ?t = map cand_key (filter (\<lambda>c. rm (cand_key c)) (take k cs))"
      "?t - sum_list (map cand_bytes (filter (\<lambda>c. rm (cand_key c)) (take k cs))) \<le> mb \<or> k = length cs"
      "\<forall>j < k. mb < ?t - sum_list (map cand_bytes (filter (\<lambda>c. rm (cand_key c)) (take j cs)))"
      using False 2 by (cases "rm (cand_key c)") auto
    have "mb < tot - sum_list (map cand_bytes (filter (\<lambda>c. rm (cand_key c)) (take j (c # cs))))" if "j < Suc k" for j
      using that k(4) False by (cases j) (auto split: if_splits)
    then show ?thesis
      using k False by (intro exI [of _ "Suc k"]) (auto split: if_splits)
  qed
qed

lemma evictSharedLRU_eq:
  assumes "mb < dir_bytes keep es"
  shows "evictSharedLRU keep (Some es) live mb rm =
    evict_loop rm mb (sort_key cand_mtime (map cand_of (filter (evictable keep live) es))) (dir_bytes keep es)"
  using assms by (simp add: evictSharedLRU_def scan_entries_eq)

lemma take_filter: "i < length (filter P xs) \<Longrightarrow> \<exists>j < length xs. take i (filter P xs) = filter P (take j xs)"
proof (induction xs arbitrary: i)
  case (Cons x xs)
  show ?case
  proof (cases "P x \<and> i = 0")
    case False
    let ?i = "if P x then i - 1 else i"
    have "?i < length (filter P xs)" using Cons.prems False by (auto split: if_splits)
    then obtain j where "j < length xs" "take ?i (filter P xs) = filter P (take j xs)" using Cons.IH by blast
    then show ?thesis using False by (intro exI [of _ "Suc j"]) (cases i; auto)
  qed (intro exI [of _ 0], simp)
qed simp

text \<open>The removed directories as candidates, with their position in the age order.\<close>

lemma evict_gone:
  assumes big: "mb < dir_bytes keep es" and names: "distinct (map ce_name es)"
  obtains X Z where
    "evictSharedLRU keep (Some es) live mb rm = map cand_key (filter (\<lambda>c. rm (cand_key c)) X)"
    "distinct (X @ Z)" "set (X @ Z) = cand_of ` {e \<in> set es. evictable keep live e}"
    "\<forall>x \<in> set X. \<forall>z \<in> set Z. cand_mtime x \<le> cand_mtime z"
    "dir_bytes keep es - sum_list (map cand_bytes (filter (\<lambda>c. rm (cand_key c)) X)) \<le> mb \<or> Z = []"
    "\<forall>i < length (filter (\<lambda>c. rm (cand_key c)) X). mb < dir_bytes keep es - sum_list (map cand_bytes (take i (filter (\<lambda>c. rm (cand_key c)) X)))"
proof -
  let ?C = "sort_key cand_mtime (map cand_of (filter (evictable keep live) es))"
  obtain k where k: "evict_loop rm mb ?C (dir_bytes keep es) = map cand_key (filter (\<lambda>c. rm (cand_key c)) (take k ?C))"
    "dir_bytes keep es - sum_list (map cand_bytes (filter (\<lambda>c. rm (cand_key c)) (take k ?C))) \<le> mb \<or> k = length ?C"
    and need: "\<forall>j < k. mb < dir_bytes keep es - sum_list (map cand_bytes (filter (\<lambda>c. rm (cand_key c)) (take j ?C)))"
    using evict_loop_prefix [of ?C rm mb "dir_bytes keep es"] by blast
  have "mb < dir_bytes keep es - sum_list (map cand_bytes (take i (filter (\<lambda>c. rm (cand_key c)) (take k ?C))))"
    if i: "i < length (filter (\<lambda>c. rm (cand_key c)) (take k ?C))" for i
  proof -
    obtain j where "j < length (take k ?C)" "take i (filter (\<lambda>c. rm (cand_key c)) (take k ?C)) = filter (\<lambda>c. rm (cand_key c)) (take j (take k ?C))"
      using take_filter [OF i] by blast
    then show ?thesis using need [rule_format, of j] by (simp add: min_def split: if_splits)
  qed
  note need = this
  have "distinct (map cand_of es)"
    using names by (auto simp: distinct_map inj_on_def cand_of_def)
  then have "distinct ?C" by (simp add: distinct_map inj_on_def)
  moreover have "sorted (map cand_mtime (take k ?C @ drop k ?C))" by simp
  then have "\<forall>x \<in> set (take k ?C). \<forall>z \<in> set (drop k ?C). cand_mtime x \<le> cand_mtime z"
    by (simp only: map_append sorted_append) auto
  ultimately show thesis
    using k need evictSharedLRU_eq [OF big, of live rm]
    by (intro that [of "take k ?C" "drop k ?C"]) (auto simp: set_append [symmetric] simp del: set_append)
qed

lemma evict_within: "dir_bytes keep es \<le> mb \<Longrightarrow> evictSharedLRU keep (Some es) live mb rm = []"
  by (simp add: evictSharedLRU_def scan_entries_eq)

text \<open>
  C10: what eviction promises. It removes no directory that its package had registered when it started (\<open>live\<close>; the other package's caches under a shared root are not in it, see
  \<open>ms_evicts_live_disk_cache\<close>). Each removal is needed: before it the directories still there exceed the budget, so nothing is removed while they fit. What is removed goes by age: a removed directory is
  never newer than a candidate that could have been removed and was kept. And when eviction ends, the remaining directories fit the budget or every candidate was tried.
\<close>

theorem evictSharedLRU_spec:
  assumes names: "distinct (map ce_name es)" and gone: "gone = evictSharedLRU keep (Some es) live mb rm"
  shows "(\<forall>k \<in> set gone. \<not> live k \<and> rm k \<and> (\<exists>e \<in> set es. ce_name e = k \<and> ce_isDir e \<and> keep k))
    \<and> (\<forall>i < length gone. mb < dir_bytes keep es - sum_list (map entry_bytes (filter (\<lambda>e. ce_name e \<in> set (take i gone)) es)))
    \<and> (\<forall>a \<in> set es. \<forall>b \<in> set es. ce_name a \<in> set gone \<and> evictable keep live b \<and> rm (ce_name b)
      \<and> ce_name b \<notin> set gone \<longrightarrow> entry_mtime a \<le> entry_mtime b)
    \<and> (dir_bytes keep es - sum_list (map entry_bytes (filter (\<lambda>e. ce_name e \<in> set gone) es)) \<le> mb
      \<or> (\<forall>e \<in> set es. evictable keep live e \<and> rm (ce_name e) \<longrightarrow> ce_name e \<in> set gone))"
proof (cases "dir_bytes keep es \<le> mb")
  case True
  then show ?thesis by (simp add: gone evict_within)
next
  case False
  have inj: "a = b" if "a \<in> set es" "b \<in> set es" "ce_name a = ce_name b" for a b
    using names that by (metis distinct_map inj_onD)
  have big: "mb < dir_bytes keep es" using False by simp
  obtain X Z where X: "gone = map cand_key (filter (\<lambda>c. rm (cand_key c)) X)" "distinct (X @ Z)"
    "set (X @ Z) = cand_of ` {e \<in> set es. evictable keep live e}"
    "\<forall>x \<in> set X. \<forall>z \<in> set Z. cand_mtime x \<le> cand_mtime z"
    "dir_bytes keep es - sum_list (map cand_bytes (filter (\<lambda>c. rm (cand_key c)) X)) \<le> mb \<or> Z = []"
    "\<forall>i < length (filter (\<lambda>c. rm (cand_key c)) X). mb < dir_bytes keep es - sum_list (map cand_bytes (take i (filter (\<lambda>c. rm (cand_key c)) X)))"
    by (rule evict_gone [OF big names, of live rm, folded gone])
  have entry: "\<exists>e \<in> set es. x = cand_of e \<and> evictable keep live e" if "x \<in> set X \<or> x \<in> set Z" for x
  proof -
    have "x \<in> set (X @ Z)" using that by simp
    then show ?thesis unfolding X(3) by blast
  qed
  have mem: "ce_name e \<in> set gone \<longleftrightarrow> rm (ce_name e) \<and> cand_of e \<in> set X" if "e \<in> set es" for e
  proof -
    have "x = cand_of e" if "x \<in> set X" "cand_key x = ce_name e" for x
      using entry [of x] that inj [OF _ \<open>e \<in> set es\<close>] by (metis cand_of_sel(1))
    moreover have "ce_name e \<in> set gone \<longleftrightarrow> (\<exists>x \<in> set X. rm (cand_key x) \<and> cand_key x = ce_name e)"
      unfolding X(1) by (auto simp: image_iff)
    ultimately show ?thesis by (metis cand_of_sel(1))
  qed
  have ev: "evictable keep live e \<longleftrightarrow> cand_of e \<in> set X \<or> cand_of e \<in> set Z" if e: "e \<in> set es" for e
  proof
    assume "evictable keep live e"
    then have "cand_of e \<in> set (X @ Z)" unfolding X(3) using e by simp
    then show "cand_of e \<in> set X \<or> cand_of e \<in> set Z" by simp
  next
    assume "cand_of e \<in> set X \<or> cand_of e \<in> set Z"
    then obtain e' where "e' \<in> set es" "cand_of e = cand_of e'" "evictable keep live e'" using entry by blast
    then show "evictable keep live e" using inj [OF e, of e'] by (metis cand_of_sel(1))
  qed
  let ?G = "\<lambda>i. filter (\<lambda>e. ce_name e \<in> set (take i gone)) es" and ?R = "filter (\<lambda>c. rm (cand_key c)) X"
  have sum: "sum_list (map entry_bytes (?G i)) = sum_list (map cand_bytes (take i ?R))" for i
  proof -
    have "distinct (map cand_of (?G i))" using names by (auto simp: distinct_map inj_on_def cand_of_def)
    moreover have "cand_of e \<in> set (take i ?R)" if e: "e \<in> set es" "ce_name e \<in> set (take i gone)" for e
    proof -
      obtain x where x: "x \<in> set (take i ?R)" "cand_key x = ce_name e" using e(2) unfolding X(1) take_map by auto
      then have "x \<in> set X" by (auto dest: in_set_takeD)
      then show ?thesis using x entry [of x] inj [OF _ e(1)] by (metis cand_of_sel(1))
    qed
    moreover have "x \<in> set (map cand_of (?G i))" if x: "x \<in> set (take i ?R)" for x
    proof -
      have "x \<in> set X" using x by (auto dest: in_set_takeD)
      then obtain e where e: "e \<in> set es" "x = cand_of e" using entry by blast
      then have "ce_name e \<in> set (take i gone)" using x unfolding X(1) take_map by force
      then show ?thesis using e by simp
    qed
    ultimately have "distinct (map cand_of (?G i))" "set (map cand_of (?G i)) = set (take i ?R)" by auto
    moreover have "distinct (take i ?R)" using X(2) by (simp add: distinct_take)
    ultimately have "sum_list (map cand_bytes (map cand_of (?G i))) = sum_list (map cand_bytes (take i ?R))"
      by (simp only: sum_list_distinct_conv_sum_set)
    then show ?thesis by (simp add: o_def)
  qed
  have need: "\<forall>i < length gone. mb < dir_bytes keep es - sum_list (map entry_bytes (?G i))"
    using X(6) unfolding sum by (simp add: X(1))
  have 1: "\<forall>k \<in> set gone. \<not> live k \<and> rm k \<and> (\<exists>e \<in> set es. ce_name e = k \<and> ce_isDir e \<and> keep k)"
    using X(1) entry by (fastforce simp: evictable_def)
  have "entry_mtime a \<le> entry_mtime b" if "a \<in> set es" "b \<in> set es" "ce_name a \<in> set gone"
    "evictable keep live b" "rm (ce_name b)" "ce_name b \<notin> set gone" for a b
    using that mem [OF that(1)] mem [OF that(2)] ev [OF that(2)] X(4) by force
  moreover have "dir_bytes keep es - sum_list (map entry_bytes (?G (length gone))) \<le> mb
      \<or> (\<forall>e \<in> set es. evictable keep live e \<and> rm (ce_name e) \<longrightarrow> ce_name e \<in> set gone)"
    using X(5) sum [of "length gone"] mem ev by (auto simp: X(1))
  ultimately show ?thesis using 1 need by (simp only: take_all order_refl) blast
qed

section \<open>The registry\<close>

text \<open>
  \<open>AcquireSharedCache\<close> under the registry mutex. A cache is known by its geometry \<open>geom c\<close>; \<open>mk\<close> is
  the outcome of the upstream constructor and \<open>open_cache\<close> that of \<open>OpenSharedCache\<close> on it. The result
  is the cache handed out, the new registry, and the \<open>live\<close> set of the eviction it starts, if any.
\<close>

datatype acquire_error = GeometryChanged string | UpstreamError string | OpenCacheFailed string

definition AcquireSharedCache ::
  "('c \<Rightarrow> u32 \<times> u64) \<Rightarrow> (string \<Rightarrow> 'c option) \<Rightarrow> string \<Rightarrow> u32 \<times> u64 \<Rightarrow> int \<Rightarrow> string + 's \<Rightarrow> ('s \<Rightarrow> string + 'c)
   \<Rightarrow> (acquire_error + 'c) \<times> (string \<Rightarrow> 'c option) \<times> (string \<Rightarrow> bool) option" where
  "AcquireSharedCache geom reg key g maxBytes mk open_cache =
     (case reg key of
        Some c \<Rightarrow>
          (if snd (geom c) \<noteq> snd g \<or> fst (geom c) \<noteq> fst g then (Inl (GeometryChanged key), reg, None)
           else (Inr c, reg, None))
      | None \<Rightarrow>
          (case mk of
             Inl e \<Rightarrow> (Inl (UpstreamError e), reg, None)
           | Inr up \<Rightarrow>
              (case open_cache up of
                 Inl e \<Rightarrow> (Inl (OpenCacheFailed e), reg, None)
               | Inr c \<Rightarrow>
                   (let reg1 = reg(key \<mapsto> c) in
                    (Inr c, reg1, if maxBytes > 0 then Some (\<lambda>k. reg1 k \<noteq> None) else None)))))"

text \<open>
  two restores of the same generation share one cache: once a key has been acquired, every later
  acquisition hands out that same cache (or refuses a changed geometry), whatever was acquired in
  between; and the eviction that an acquisition starts spares every cache registered at that time, the
  new one included.
\<close>

lemma AcquireSharedCache_shares:
  assumes a1: "AcquireSharedCache geom reg key g mb mk op = (Inr c, reg1, live)"
    and geom: "\<And>up c. op up = Inr c \<Longrightarrow> geom c = g" and reg2: "reg1 \<subseteq>\<^sub>m reg2"
  shows "AcquireSharedCache geom reg2 key g mb' mk' op' = (Inr c, reg2, None) \<and> reg \<subseteq>\<^sub>m reg1
    \<and> (case live of None \<Rightarrow> True | Some l \<Rightarrow>
         (\<forall>k \<in> set (evictSharedLRU keep (Some es) l mb rm). reg1 k = None \<and> k \<noteq> key))"
proof -
  have c: "reg1 key = Some c" "geom c = g" "reg \<subseteq>\<^sub>m reg1" "live = None \<or> live = Some (\<lambda>k. reg1 k \<noteq> None)"
    using a1 geom
    by (auto simp: AcquireSharedCache_def Let_def map_le_def prod_eq_iff split: option.splits sum.splits if_splits)
  have "reg2 key = Some c" using c(1) reg2 by (metis domI map_le_def)
  then have "AcquireSharedCache geom reg2 key g mb' mk' op' = (Inr c, reg2, None)"
    using c(2) by (simp add: AcquireSharedCache_def)
  moreover have "\<not> l k" if "k \<in> set (evictSharedLRU keep (Some es) l mb rm)" for l k
    using that evict_loop_prefix [of "sort_key cand_mtime (map cand_of (filter (evictable keep l) es))" rm mb "dir_bytes keep es"]
    by (auto simp: evictSharedLRU_def scan_entries_eq evictable_def split: if_splits dest!: in_set_takeD)
  then have "reg1 k = None \<and> k \<noteq> key" if "k \<in> set (evictSharedLRU keep (Some es) (\<lambda>k. reg1 k \<noteq> None) mb rm)" for k
    using that c(1) by fastforce
  ultimately show ?thesis using c(3,4) by (auto simp del: not_None_eq)
qed

text \<open>
  the two packages do not evict independently when they share a root, as they do by default. Here
  the disk package has \<^verbatim>\<open>disk-aa\<close> open and within its own budget, so its own eviction keeps it; the
  memory package's eviction, whose live set knows memory caches only, removes it although the memory
  cache \<^verbatim>\<open>bb\<close> alone is within the memory budget.
\<close>

lemma ms_evicts_live_disk_cache:
  "\<exists>es ms_live ds_live. ds_live ''disk-aa'' \<and> disk_dir ''disk-aa'' \<and>
     dir_bytes (\<lambda>n. \<not> disk_dir n) es \<le> 100 \<and> dir_bytes disk_dir es \<le> 100 \<and>
     ds_evictSharedLRU (Some es) ds_live 100 (\<lambda>_. True) = [] \<and>
     ms_evictSharedLRU (Some es) ms_live 100 (\<lambda>_. True) = [''disk-aa'']"
proof -
  let ?e = "\<lambda>n. \<lparr>ce_name = n, ce_isDir = True, ce_files = [(None, 90)], ce_bitmapTime = None, ce_dirTime = None\<rparr>"
  have "ds_evictSharedLRU (Some [?e ''bb'', ?e ''disk-aa'']) (\<lambda>n. n = ''disk-aa'') 100 (\<lambda>_. True) = []"
    "ms_evictSharedLRU (Some [?e ''bb'', ?e ''disk-aa'']) (\<lambda>n. n = ''bb'') 100 (\<lambda>_. True) = [''disk-aa'']"
    "dir_bytes (\<lambda>n. \<not> disk_dir n) [?e ''bb'', ?e ''disk-aa''] \<le> 100" "dir_bytes disk_dir [?e ''bb'', ?e ''disk-aa''] \<le> 100"
    "disk_dir ''disk-aa''"
    by code_simp+
  then show ?thesis
    by (intro exI [of _ "[?e ''bb'', ?e ''disk-aa'']"] exI [of _ "\<lambda>n. n = ''bb''"] exI [of _ "\<lambda>n. n = ''disk-aa''"]) simp
qed

section \<open>A concrete root directory\<close>

definition demo_entries :: "cache_entry list" where
  "demo_entries =
     [\<lparr>ce_name = ''a'', ce_isDir = True, ce_files = [(Some 2, 5000)], ce_bitmapTime = Some 30, ce_dirTime = None\<rparr>,
      \<lparr>ce_name = ''b'', ce_isDir = True, ce_files = [(None, 700), (None, 24)], ce_bitmapTime = None, ce_dirTime = Some 10\<rparr>,
      \<lparr>ce_name = ''c'', ce_isDir = True, ce_files = [(Some 1, 9)], ce_bitmapTime = Some 20, ce_dirTime = None\<rparr>,
      \<lparr>ce_name = ''x'', ce_isDir = False, ce_files = [], ce_bitmapTime = None, ce_dirTime = None\<rparr>]"

theorem evictSharedLRU_spec_witness:
  "evictSharedLRU (\<lambda>_. True) (Some demo_entries) (\<lambda>k. k = ''a'') 1700 (\<lambda>_. True) = [''b'']
    \<and> dir_bytes (\<lambda>_. True) demo_entries
      - sum_list (map entry_bytes (filter (\<lambda>e. ce_name e \<in> set [''b'']) demo_entries)) \<le> 1700"
proof -
  have g: "[''b''] = evictSharedLRU (\<lambda>_. True) (Some demo_entries) (\<lambda>k. k = ''a'') 1700 (\<lambda>_. True)" by code_simp
  have "distinct (map ce_name demo_entries)" by code_simp
  note spec = evictSharedLRU_spec [OF this g]
  have "\<not> (\<forall>e \<in> set demo_entries. evictable (\<lambda>_. True) (\<lambda>k. k = ''a'') e \<and> True \<longrightarrow> ce_name e \<in> set [''b''])" by code_simp
  then have "dir_bytes (\<lambda>_. True) demo_entries
      - sum_list (map entry_bytes (filter (\<lambda>e. ce_name e \<in> set [''b'']) demo_entries)) \<le> 1700"
    using spec by blast
  then show ?thesis using g [symmetric] by blast
qed

lemma AcquireSharedCache_shares_witness:
  "AcquireSharedCache id [''k'' \<mapsto> (2, 5)] ''k'' (2, 5) 0 (Inl ''down'' :: string + unit) (\<lambda>_. Inl ''down'')
    = (Inr (2, 5), [''k'' \<mapsto> (2, 5)], None)"
  using AcquireSharedCache_shares [of id Map.empty "''k''" "(2, 5)" 0 "Inr ()" "\<lambda>_. Inr (2, 5)" "(2, 5)"
      "[''k'' \<mapsto> (2, 5)]" None "[''k'' \<mapsto> (2, 5)]" 0 "Inl ''down''" "\<lambda>_. Inl ''down''"]
  by (simp add: AcquireSharedCache_def)

end
