(* ===== verification/Slot_Store.thy ===== *)
theory Slot_Store
  imports Go_Base
begin

text \<open>
  The network slot ledger (\<^verbatim>\<open>src/agent/internal/slotstore/slotstore.go\<close>): one row per \<^verbatim>\<open>/30\<close> slot index, owned
  by at most one sandbox. The SQLite table is the list of its rows in primary-key order, and each
  statement or transaction is one function on it: the store has a single connection with immediate
  transactions, so statements do not interleave and a failed transaction leaves the table as it was.

  The theory shows that every operation keeps the table well formed, what each does on every branch, that
  a slot is reclaimed once, and that the ledger implements an abstract map from slots to owners.
\<close>

section \<open>The table and the statements\<close>

record slot =
  sl_idx :: int
  sl_owner :: "string option"
  sl_kind :: string
  sl_claimed :: "int option"

type_synonym slots = "slot list"

datatype slot_error =
    EmptyId
  | EmptyTarget
  | PoolExhausted
  | TakenConcurrently int
  | SlotDb string

text \<open>\<open>UPDATE \<dots> WHERE p\<close> with its number of affected rows, and \<open>INSERT OR IGNORE\<close> of a free row.\<close>

definition sql_update :: "(slot \<Rightarrow> bool) \<Rightarrow> (slot \<Rightarrow> slot) \<Rightarrow> slots \<Rightarrow> slots \<times> nat" where
  "sql_update p f t = (map (\<lambda>r. if p r then f r else r) t, length (filter p t))"

definition free_row :: "int \<Rightarrow> slot" where
  "free_row i = \<lparr>sl_idx = i, sl_owner = None, sl_kind = '''', sl_claimed = None\<rparr>"

fun insert_ignore :: "int \<Rightarrow> slots \<Rightarrow> slots" where
  "insert_ignore i [] = [free_row i]"
| "insert_ignore i (r # rs) =
     (if i < sl_idx r then free_row i # r # rs
      else if i = sl_idx r then r # rs
      else r # insert_ignore i rs)"

definition own :: "string \<Rightarrow> string \<Rightarrow> int \<Rightarrow> slot \<Rightarrow> slot" where
  "own sandboxID kind now r = r\<lparr>sl_owner := Some sandboxID, sl_kind := kind, sl_claimed := Some now\<rparr>"

definition disown :: "slot \<Rightarrow> slot" where
  "disown r = r\<lparr>sl_owner := None, sl_kind := '''', sl_claimed := None\<rparr>"

text \<open>\<open>guardBootDiskPath\<close>: the ledger must not live on the stateful disk (\<open>strings.Contains\<close>).\<close>

fun contains :: "string \<Rightarrow> string \<Rightarrow> bool" where
  "contains [] sub \<longleftrightarrow> sub = []"
| "contains (c # cs) sub \<longleftrightarrow> take (length sub) (c # cs) = sub \<or> contains cs sub"

definition guardBootDiskPath :: "string \<Rightarrow> bool" where
  "guardBootDiskPath path \<longleftrightarrow> \<not> contains path ''/var/lib/pandastack/volumes''"

text \<open>\<open>Open\<close> creates the table when it is absent; \<open>db\<close> is a failure of SQLite and \<open>old\<close> the stored table.\<close>

definition slot_Open :: "string option \<Rightarrow> string \<Rightarrow> slots option \<Rightarrow> string + slots" where
  "slot_Open db path old =
     (if \<not> guardBootDiskPath path then Inl ''slot db path is on the stateful data disk''
      else case db of Some e \<Rightarrow> Inl e | None \<Rightarrow> Inr (case old of None \<Rightarrow> [] | Some t \<Rightarrow> t))"

definition u32_of :: "int \<Rightarrow> int" where
  "u32_of i = i mod 2 ^ 32"

section \<open>Operations\<close>

text \<open>
  \<open>db\<close> is the error of the database, if any: it leaves the table unchanged. \<open>now\<close> is
  \<open>strftime('%s','now')\<close>.
\<close>

definition slot_Seed :: "string option \<Rightarrow> u32 \<Rightarrow> slots \<Rightarrow> slot_error option \<times> slots" where
  "slot_Seed db capacity t =
     (if capacity = 0 then (None, t)
      else case db of
        Some e \<Rightarrow> (Some (SlotDb e), t)
      | None \<Rightarrow>
          if int (length t) \<ge> uint capacity then (None, t)
          else (None, fold insert_ignore (map int [0..<unat capacity]) t))"

definition slot_Claim ::
  "string option \<Rightarrow> int \<Rightarrow> string \<Rightarrow> string \<Rightarrow> slots \<Rightarrow> (slot_error + int) \<times> slots" where
  "slot_Claim db now sandboxID kind t =
     (if sandboxID = '''' then (Inl EmptyId, t)
      else case db of
        Some e \<Rightarrow> (Inl (SlotDb e), t)
      | None \<Rightarrow>
          (case find (\<lambda>r. sl_owner r = Some sandboxID) t of
             Some r \<Rightarrow> (Inr (u32_of (sl_idx r)), t)
           | None \<Rightarrow>
              (case find (\<lambda>r. sl_owner r = None) t of
                 None \<Rightarrow> (Inl PoolExhausted, t)
               | Some r \<Rightarrow>
                  (let (t1, n) = sql_update (\<lambda>q. sl_idx q = sl_idx r \<and> sl_owner q = None)
                                            (own sandboxID kind now) t in
                   if n \<noteq> 1 then (Inl (TakenConcurrently (sl_idx r)), t)
                   else (Inr (u32_of (sl_idx r)), t1)))))"

text \<open>\<open>fmt.Sprintf("prebuilt:%08x", idx)\<close>.\<close>

definition hex_digit :: "nat \<Rightarrow> char" where
  "hex_digit d = ''0123456789abcdef'' ! d"

definition hex8 :: "int \<Rightarrow> string" where
  "hex8 i = map (\<lambda>k. hex_digit (nat i div 16 ^ k mod 16)) [7, 6, 5, 4, 3, 2, 1, 0]"

definition PrebuiltOwner :: "int \<Rightarrow> string" where
  "PrebuiltOwner idx = ''prebuilt:'' @ hex8 idx"

definition slot_ClaimPrebuilt ::
  "string option \<Rightarrow> int \<Rightarrow> string \<Rightarrow> slots \<Rightarrow> (slot_error + int) \<times> slots" where
  "slot_ClaimPrebuilt db now kind t =
     (case db of
        Some e \<Rightarrow> (Inl (SlotDb e), t)
      | None \<Rightarrow>
          (case find (\<lambda>r. sl_owner r = None) t of
             None \<Rightarrow> (Inl PoolExhausted, t)
           | Some r \<Rightarrow>
              (let (t1, n) = sql_update (\<lambda>q. sl_idx q = sl_idx r \<and> sl_owner q = None)
                                        (own (PrebuiltOwner (u32_of (sl_idx r))) kind now) t in
               if n \<noteq> 1 then (Inl (TakenConcurrently (sl_idx r)), t)
               else (Inr (u32_of (sl_idx r)), t1))))"

definition slot_ClaimIdx ::
  "string option \<Rightarrow> int \<Rightarrow> string \<Rightarrow> string \<Rightarrow> int \<Rightarrow> slots \<Rightarrow> (slot_error + bool) \<times> slots" where
  "slot_ClaimIdx db now sandboxID kind idx t =
     (if sandboxID = '''' then (Inl EmptyId, t)
      else case db of
        Some e \<Rightarrow> (Inl (SlotDb e), t)
      | None \<Rightarrow>
          (let (t1, n) = sql_update (\<lambda>q. sl_idx q = idx \<and> (sl_owner q = None \<or> sl_owner q = Some sandboxID))
                                    (own sandboxID kind now) t in
           (Inr (n = 1), t1)))"

definition slot_Reassign ::
  "string option \<Rightarrow> int \<Rightarrow> string \<Rightarrow> string \<Rightarrow> string \<Rightarrow> int \<Rightarrow> slots \<Rightarrow> (slot_error + bool) \<times> slots" where
  "slot_Reassign db now fromOwner toOwner kind idx t =
     (if toOwner = '''' then (Inl EmptyTarget, t)
      else case db of
        Some e \<Rightarrow> (Inl (SlotDb e), t)
      | None \<Rightarrow>
          (let (t1, n) = sql_update (\<lambda>q. sl_idx q = idx \<and> sl_owner q = Some fromOwner) (own toOwner kind now) t in
           (Inr (n = 1), t1)))"

definition slot_Release :: "string option \<Rightarrow> string \<Rightarrow> slots \<Rightarrow> (slot_error + bool) \<times> slots" where
  "slot_Release db sandboxID t =
     (if sandboxID = '''' then (Inr False, t)
      else case db of
        Some e \<Rightarrow> (Inl (SlotDb e), t)
      | None \<Rightarrow>
          (let (t1, n) = sql_update (\<lambda>q. sl_owner q = Some sandboxID) disown t in (Inr (n = 1), t1)))"

definition slot_OwnerIdx :: "string option \<Rightarrow> string \<Rightarrow> slots \<Rightarrow> slot_error + int option" where
  "slot_OwnerIdx db sandboxID t =
     (case db of
        Some e \<Rightarrow> Inl (SlotDb e)
      | None \<Rightarrow> Inr (map_option (\<lambda>r. u32_of (sl_idx r)) (find (\<lambda>r. sl_owner r = Some sandboxID) t)))"

text \<open>
  \<open>Reconcile\<close> reads the orphans first and then frees them one statement at a time; \<open>db k\<close> is the error
  of its \<open>k\<close>-th statement (0 is the query), which leaves the rows freed so far freed.
\<close>

fun reconcile_loop :: "(nat \<Rightarrow> string option) \<Rightarrow> nat \<Rightarrow> int list \<Rightarrow> slots \<Rightarrow> slot_error option \<times> slots" where
  "reconcile_loop db k [] t = (None, t)"
| "reconcile_loop db k (i # is) t =
     (case db k of
        Some e \<Rightarrow> (Some (SlotDb e), t)
      | None \<Rightarrow> reconcile_loop db (Suc k) is (fst (sql_update (\<lambda>q. sl_idx q = i) disown t)))"

definition slot_Reconcile ::
  "(nat \<Rightarrow> string option) \<Rightarrow> string list \<Rightarrow> slots \<Rightarrow> (slot_error + int) \<times> slots" where
  "slot_Reconcile db liveIDs t =
     (case db 0 of
        Some e \<Rightarrow> (Inl (SlotDb e), t)
      | None \<Rightarrow>
          (let orphans = map sl_idx (filter (\<lambda>r. case sl_owner r of None \<Rightarrow> False | Some owner \<Rightarrow> owner \<notin> set liveIDs) t) in
           case reconcile_loop db 1 orphans t of
             (Some e, t1) \<Rightarrow> (Inl e, t1)
           | (None, t1) \<Rightarrow> (Inr (int (length orphans)), t1)))"

record slot_stats =
  ss_Capacity :: int
  ss_Free :: int
  ss_Used :: int

definition slot_Stats :: "string option \<Rightarrow> slots \<Rightarrow> slot_error + slot_stats" where
  "slot_Stats db t =
     (case db of
        Some e \<Rightarrow> Inl (SlotDb e)
      | None \<Rightarrow>
          (let cap = int (length t); fr = int (length (filter (\<lambda>r. sl_owner r = None) t)) in
           Inr \<lparr>ss_Capacity = cap, ss_Free = fr, ss_Used = cap - fr\<rparr>))"

section \<open>Well-formed tables and their abstraction\<close>

definition slots_wf :: "slots \<Rightarrow> bool" where
  "slots_wf t \<longleftrightarrow> sorted_wrt (<) (map sl_idx t) \<and> (\<forall>r \<in> set t. 0 \<le> sl_idx r \<and> sl_idx r < 2 ^ 32 \<and> sl_owner r \<noteq> Some '''')"

text \<open>The abstract ledger: which slots exist, and who owns each.\<close>

definition slot_map :: "slots \<Rightarrow> int \<Rightarrow> string option option" where
  "slot_map t = map_of (map (\<lambda>r. (sl_idx r, sl_owner r)) t)"

lemma slots_wf_distinct: "slots_wf t \<Longrightarrow> distinct (map sl_idx t)"
  by (simp add: slots_wf_def strict_sorted_iff)

lemma slot_map_iff:
  assumes "slots_wf t"
  shows "slot_map t i = Some w \<longleftrightarrow> (\<exists>r \<in> set t. sl_idx r = i \<and> sl_owner r = w)"
proof -
  have "distinct (map fst (map (\<lambda>r. (sl_idx r, sl_owner r)) t))"
    using slots_wf_distinct [OF assms] by (simp add: o_def)
  then show ?thesis unfolding slot_map_def by (subst map_of_eq_Some_iff) auto
qed

lemma slot_map_None: "slot_map t i = None \<longleftrightarrow> i \<notin> sl_idx ` set t"
  by (auto simp: slot_map_def map_of_eq_None_iff image_iff)

text \<open>An update that keeps the index of each row keeps the table well formed and acts pointwise on the map.\<close>

lemma sql_update_wf:
  assumes "slots_wf t" and "\<And>r. sl_idx (f r) = sl_idx r" and "\<And>r. sl_owner (f r) \<noteq> Some ''''"
  shows "slots_wf (fst (sql_update p f t))"
proof -
  have "sl_idx \<circ> (\<lambda>r. if p r then f r else r) = sl_idx" using assms(2) by auto
  then show ?thesis using assms unfolding slots_wf_def sql_update_def by (auto simp: map_map)
qed

lemma slot_map_update:
  assumes "\<And>r. sl_idx (f r) = sl_idx r" and "\<And>r. p r \<longleftrightarrow> q (sl_idx r) (sl_owner r)"
    and "\<And>r. sl_owner (f r) = o'"
  shows "slot_map (fst (sql_update p f t)) i =
    (case slot_map t i of None \<Rightarrow> None | Some w \<Rightarrow> Some (if q i w then o' else w))"
  using assms unfolding slot_map_def sql_update_def
  by (induction t) (auto split: option.splits)

lemma own_simps [simp]:
  "sl_idx (own s k n r) = sl_idx r" "sl_owner (own s k n r) = Some s"
  "sl_idx (disown r) = sl_idx r" "sl_owner (disown r) = None"
  by (simp_all add: own_def disown_def)

lemma u32_of_idx: "slots_wf t \<Longrightarrow> r \<in> set t \<Longrightarrow> u32_of (sl_idx r) = sl_idx r"
  by (simp add: slots_wf_def u32_of_def)

text \<open>The lowest free row.\<close>

lemma find_free_lowest:
  assumes "slots_wf t" and "find (\<lambda>r. sl_owner r = None) t = Some r"
  shows "r \<in> set t" "sl_owner r = None" "\<forall>q \<in> set t. sl_owner q = None \<longrightarrow> sl_idx r \<le> sl_idx q"
proof -
  obtain i where i: "i < length t" "sl_owner (t ! i) = None" "r = t ! i" "\<forall>j<i. sl_owner (t ! j) \<noteq> None"
    using assms(2) by (auto simp: find_Some_iff)
  then show "r \<in> set t" "sl_owner r = None" by auto
  show "\<forall>q \<in> set t. sl_owner q = None \<longrightarrow> sl_idx r \<le> sl_idx q"
  proof (intro ballI impI)
    fix q assume q: "q \<in> set t" "sl_owner q = None"
    then obtain j where j: "j < length t" "q = t ! j" by (auto simp: in_set_conv_nth)
    then have "i \<le> j" using i(4) q(2) by (metis not_less)
    then show "sl_idx r \<le> sl_idx q"
      using assms(1) i(3) j unfolding slots_wf_def sorted_wrt_map
      by (cases "i = j") (auto dest: sorted_wrt_nth_less [of _ t i j])
  qed
qed

lemma one_row:
  assumes "slots_wf t" and "r \<in> set t" and "P r"
  shows "length (filter (\<lambda>q. sl_idx q = sl_idx r \<and> P q) t) = 1"
proof -
  have "distinct t" using slots_wf_distinct [OF assms(1)] by (simp add: distinct_map)
  then have "length (filter (\<lambda>q. sl_idx q = sl_idx r \<and> P q) t) = card {q \<in> set t. sl_idx q = sl_idx r \<and> P q}"
    by (metis distinct_card distinct_filter set_filter)
  moreover have "{q \<in> set t. sl_idx q = sl_idx r \<and> P q} = {r}"
    using slots_wf_distinct [OF assms(1)] assms(2,3) by (auto simp: distinct_map inj_on_def)
  ultimately show ?thesis by simp
qed

section \<open>Functional behaviour\<close>

lemma find_owner_None: "find (\<lambda>r. sl_owner r = Some s) t = None \<Longrightarrow> slots_wf t \<Longrightarrow> slot_map t i \<noteq> Some (Some s)"
  by (auto simp: slot_map_iff find_None_iff)

text \<open>Taking the free row \<open>r\<close> for \<open>s\<close>.\<close>

lemma take_free:
  fixes kind :: string and now :: int
  assumes wf: "slots_wf t" and r: "r \<in> set t" "sl_owner r = None" and s: "s \<noteq> ''''"
  defines "u \<equiv> sql_update (\<lambda>q. sl_idx q = sl_idx r \<and> sl_owner q = None) (own s kind now) t"
  shows "snd u = 1" "slots_wf (fst u)" "slot_map (fst u) = (slot_map t)(sl_idx r \<mapsto> Some s)"
    "slot_map t (sl_idx r) = Some None"
proof -
  show "snd u = 1" using one_row [OF wf r(1), of "\<lambda>q. sl_owner q = None"] r(2) by (simp add: u_def sql_update_def)
  show "slots_wf (fst u)" unfolding u_def using wf s by (intro sql_update_wf) auto
  show m: "slot_map t (sl_idx r) = Some None" using r slot_map_iff [OF wf] by auto
  have "slot_map (fst u) i = (case slot_map t i of None \<Rightarrow> None | Some w \<Rightarrow> Some (if i = sl_idx r \<and> w = None then Some s else w))" for i
    unfolding u_def by (rule slot_map_update) auto
  then show "slot_map (fst u) = (slot_map t)(sl_idx r \<mapsto> Some s)"
    using m by (auto simp: fun_eq_iff split: option.splits)
qed

text \<open>
  \<open>Claim\<close> on every branch. A sandbox that owns a slot gets that slot back and nothing changes;
  otherwise it gets the lowest free slot and only that slot changes hands; when no slot is free it gets
  \<open>ErrPoolExhausted\<close> and nothing changes. The ledger stays well formed.
\<close>

lemma slot_Claim_spec:
  assumes wf: "slots_wf t" and s: "s \<noteq> ''''"
  shows "\<exists>res t'. slot_Claim None now s kind t = (res, t') \<and> slots_wf t' \<and>
    ((\<exists>i. res = Inr i \<and> slot_map t i = Some (Some s) \<and> t' = t)
   \<or> (\<exists>i. res = Inr i \<and> (\<forall>j. slot_map t j \<noteq> Some (Some s)) \<and> slot_map t i = Some None
        \<and> (\<forall>j. slot_map t j = Some None \<longrightarrow> i \<le> j) \<and> slot_map t' = (slot_map t)(i \<mapsto> Some s))
   \<or> (res = Inl PoolExhausted \<and> t' = t \<and> (\<forall>j. slot_map t j \<noteq> Some None) \<and> (\<forall>j. slot_map t j \<noteq> Some (Some s))))"
proof (cases "find (\<lambda>r. sl_owner r = Some s) t")
  case (Some r)
  then have "r \<in> set t" "sl_owner r = Some s" by (auto simp: find_Some_iff)
  then show ?thesis using Some s wf u32_of_idx [OF wf] slot_map_iff [OF wf] by (auto simp: slot_Claim_def)
next
  case none: None
  note no = find_owner_None [OF none wf]
  show ?thesis
  proof (cases "find (\<lambda>r. sl_owner r = None) t")
    case None
    then have "slot_map t j \<noteq> Some None" for j using slot_map_iff [OF wf] by (auto simp: find_None_iff)
    then show ?thesis using none None s wf no by (simp add: slot_Claim_def)
  next
    case (Some r)
    note r = find_free_lowest [OF wf Some]
    let ?u = "sql_update (\<lambda>q. sl_idx q = sl_idx r \<and> sl_owner q = None) (own s kind now) t"
    note u = take_free(1-3) [OF wf r(1,2) s, of kind now] and u4 = take_free(4) [OF wf r(1,2) s]
    have "slot_Claim None now s kind t = (Inr (sl_idx r), fst ?u)"
      using none Some s u(1) u32_of_idx [OF wf r(1)] by (cases ?u) (simp add: slot_Claim_def)
    moreover have "\<forall>j. slot_map t j = Some None \<longrightarrow> sl_idx r \<le> j" using r(3) slot_map_iff [OF wf] by auto
    ultimately show ?thesis using u(2,3) u4 no by (intro exI [of _ "Inr (sl_idx r)"] exI [of _ "fst ?u"]) simp
  qed
qed

text \<open>
  \<open>Release\<close> reclaims once. It frees exactly the slots of the sandbox and touches no other; it
  reports success exactly when the sandbox owned one slot; and a second release of the same sandbox
  reports nothing freed and changes nothing.
\<close>

lemma slot_Release_once:
  assumes wf: "slots_wf t" and s: "s \<noteq> ''''"
  shows "\<exists>t'. slot_Release None s t = (Inr (card {i. slot_map t i = Some (Some s)} = 1), t') \<and> slots_wf t'
    \<and> (\<forall>i. slot_map t' i = (if slot_map t i = Some (Some s) then Some None else slot_map t i))
    \<and> slot_Release None s t' = (Inr False, t')"
proof -
  let ?u = "sql_update (\<lambda>q. sl_owner q = Some s) disown t" and ?t = "fst (sql_update (\<lambda>q. sl_owner q = Some s) disown t)"
  have m: "slot_map ?t i = (if slot_map t i = Some (Some s) then Some None else slot_map t i)" for i
    using slot_map_update [of disown "\<lambda>q. sl_owner q = Some s" "\<lambda>_ w. w = Some s" None t i]
    by (auto split: option.splits)
  have wf': "slots_wf ?t" using wf by (intro sql_update_wf) auto
  have "distinct (map sl_idx (filter (\<lambda>q. sl_owner q = Some s) t))"
    using slots_wf_distinct [OF wf] by (simp add: distinct_map_filter)
  then have "card (set (map sl_idx (filter (\<lambda>q. sl_owner q = Some s) t))) = snd ?u"
    by (simp only: distinct_card) (simp add: sql_update_def)
  moreover have "set (map sl_idx (filter (\<lambda>q. sl_owner q = Some s) t)) = {i. slot_map t i = Some (Some s)}"
    using slot_map_iff [OF wf] by auto
  ultimately have "snd ?u = card {i. slot_map t i = Some (Some s)}" by simp
  moreover have none: "filter (\<lambda>q. sl_owner q = Some s) ?t = []"
    by (auto simp: sql_update_def filter_empty_conv)
  then have "map (\<lambda>r. if sl_owner r = Some s then disown r else r) ?t = ?t"
    by (intro map_idI) (auto simp: filter_empty_conv)
  then have "slot_Release None s ?t = (Inr False, ?t)" using s none by (simp add: slot_Release_def sql_update_def [of _ _ ?t])
  moreover have "slot_Release None s t = (Inr (snd ?u = 1), ?t)" using s by (simp add: slot_Release_def split: prod.splits)
  ultimately show ?thesis using m wf' by (intro exI [of _ ?t]) simp
qed

section \<open>Prebuilt sentinels\<close>

lemma digits_inj:
  fixes m n :: nat
  assumes "m < 16 ^ d" "n < 16 ^ d" "\<forall>k<d. m div 16 ^ k mod 16 = n div 16 ^ k mod 16"
  shows "m = n"
  using assms
proof (induction d arbitrary: m n)
  case (Suc d)
  have "m div 16 ^ Suc k mod 16 = n div 16 ^ Suc k mod 16" if "k < d" for k using Suc.prems(3) that by blast
  then have "m div 16 div 16 ^ k mod 16 = n div 16 div 16 ^ k mod 16" if "k < d" for k
    using that by (simp add: div_mult2_eq)
  moreover have "m div 16 < 16 ^ d" "n div 16 < 16 ^ d" using Suc.prems(1,2) by (simp_all add: less_mult_imp_div_less mult.commute)
  ultimately have "m div 16 = n div 16" using Suc.IH by blast
  moreover have "m mod 16 = n mod 16" using Suc.prems(3) by (metis div_by_1 power_0 zero_less_Suc)
  ultimately show ?case by (metis mult_div_mod_eq)
qed simp

lemma hex_digit_inj: "a < 16 \<Longrightarrow> b < 16 \<Longrightarrow> hex_digit a = hex_digit b \<longleftrightarrow> a = b"
  unfolding hex_digit_def by (intro nth_eq_iff_index_eq) simp_all

lemma hex8_inj:
  assumes "0 \<le> i" "i < 2 ^ 32" "0 \<le> j" "j < 2 ^ 32"
  shows "hex8 i = hex8 j \<longleftrightarrow> i = j"
proof
  assume "hex8 i = hex8 j"
  then have "\<forall>k \<in> {7, 6, 5, 4, 3, 2, 1, 0}. nat i div 16 ^ k mod 16 = nat j div 16 ^ k mod 16"
    by (auto simp: hex8_def hex_digit_inj)
  moreover have "{7, 6, 5, 4, 3, 2, 1, 0} = {k. k < (8 :: nat)}" by auto
  ultimately have "\<forall>k<8. nat i div 16 ^ k mod 16 = nat j div 16 ^ k mod 16" by blast
  then have "nat i = nat j" using assms by (intro digits_inj [of _ 8]) auto
  then show "i = j" using assms by simp
qed simp

lemma PrebuiltOwner_inj:
  assumes "0 \<le> i" "i < 2 ^ 32" "0 \<le> j" "j < 2 ^ 32"
  shows "PrebuiltOwner i = PrebuiltOwner j \<longleftrightarrow> i = j"
  using hex8_inj [OF assms] by (simp add: PrebuiltOwner_def)

lemma PrebuiltOwner_nonempty [simp]: "PrebuiltOwner i \<noteq> ''''" "PrebuiltOwner i \<noteq> []"
  by (simp_all add: PrebuiltOwner_def)

text \<open>Identifiers of the sentinel form. Sandbox identifiers are UUIDs and never have it.\<close>

definition sentinel :: "string \<Rightarrow> bool" where
  "sentinel s \<longleftrightarrow> take 9 s = ''prebuilt:''"

lemma sentinel_PrebuiltOwner [simp]: "sentinel (PrebuiltOwner i)"
  by (simp add: sentinel_def PrebuiltOwner_def)

section \<open>The other operations on the abstract ledger\<close>

lemma slot_ClaimPrebuilt_map:
  assumes wf: "slots_wf t" and run: "slot_ClaimPrebuilt None now kind t = (Inr i, t')"
  shows "slots_wf t'" "slot_map t i = Some None" "slot_map t' = (slot_map t)(i \<mapsto> Some (PrebuiltOwner i))"
proof -
  obtain r where r: "find (\<lambda>r. sl_owner r = None) t = Some r"
    using run by (auto simp: slot_ClaimPrebuilt_def split: option.splits)
  note l = find_free_lowest [OF wf r]
  note k = u32_of_idx [OF wf l(1)]
  note u = take_free(1-3) [OF wf l(1,2) PrebuiltOwner_nonempty(1), of "sl_idx r" kind now]
  have "i = sl_idx r" "t' = fst (sql_update (\<lambda>q. sl_idx q = sl_idx r \<and> sl_owner q = None) (own (PrebuiltOwner (sl_idx r)) kind now) t)"
    using run r k u(1) by (auto simp: slot_ClaimPrebuilt_def Let_def split: prod.splits)
  then show "slots_wf t'" "slot_map t i = Some None" "slot_map t' = (slot_map t)(i \<mapsto> Some (PrebuiltOwner i))"
    using u(2,3) take_free(4) [OF wf l(1,2) PrebuiltOwner_nonempty(1)] by simp_all
qed

lemma slot_Claim_map:
  assumes wf: "slots_wf t" and s: "s \<noteq> ''''" and run: "slot_Claim None now s kind t = (Inr i, t')"
  shows "slots_wf t' \<and> slot_map t' i = Some (Some s) \<and>
    (t' = t \<or> (\<forall>j. slot_map t j \<noteq> Some (Some s)) \<and> slot_map t i = Some None \<and> slot_map t' = (slot_map t)(i \<mapsto> Some s))"
proof (cases "find (\<lambda>r. sl_owner r = Some s) t")
  case (Some q)
  then have q: "q \<in> set t" "sl_owner q = Some s" by (auto simp: find_Some_iff)
  with Some run s wf u32_of_idx [OF wf q(1)] have "t' = t" "i = sl_idx q" by (auto simp: slot_Claim_def)
  with wf q show ?thesis using slot_map_iff [OF wf] by auto
next
  case none: None
  then obtain r where r: "find (\<lambda>r. sl_owner r = None) t = Some r"
    using run s by (auto simp: slot_Claim_def split: option.splits)
  note l = find_free_lowest [OF wf r]
  note u = take_free(1-3) [OF wf l(1,2) s, of kind now]
  have "i = sl_idx r" "t' = fst (sql_update (\<lambda>q. sl_idx q = sl_idx r \<and> sl_owner q = None) (own s kind now) t)"
    using run r none s u32_of_idx [OF wf l(1)] u(1) by (auto simp: slot_Claim_def Let_def split: prod.splits)
  then show ?thesis using u(2,3) take_free(4) [OF wf l(1,2) s] find_owner_None [OF none wf] by simp
qed

lemma slot_Reassign_map:
  assumes wf: "slots_wf t" and run: "slot_Reassign None now a b kind i t = (Inr ok, t')"
  shows "slots_wf t'" "ok \<longleftrightarrow> slot_map t i = Some (Some a)"
    "slot_map t' = (if ok then (slot_map t)(i \<mapsto> Some b) else slot_map t)"
proof -
  let ?p = "\<lambda>q. sl_idx q = i \<and> sl_owner q = Some a"
  let ?u = "sql_update ?p (own b kind now) t"
  have b: "b \<noteq> ''''" and t': "t' = fst ?u" and ok: "ok \<longleftrightarrow> snd ?u = 1"
    using run by (auto simp: slot_Reassign_def split: if_splits prod.splits)
  show "slots_wf t'" unfolding t' using wf b by (intro sql_update_wf) auto
  show iff: "ok \<longleftrightarrow> slot_map t i = Some (Some a)"
  proof
    assume ok
    then have "filter ?p t \<noteq> []" using ok by (auto simp: sql_update_def)
    then show "slot_map t i = Some (Some a)" using slot_map_iff [OF wf] by (auto simp: filter_empty_conv)
  next
    assume "slot_map t i = Some (Some a)"
    then obtain r where "r \<in> set t" "sl_idx r = i" "sl_owner r = Some a" using slot_map_iff [OF wf] by auto
    then show ok using one_row [OF wf, of r "\<lambda>q. sl_owner q = Some a"] ok by (simp add: sql_update_def)
  qed
  have "slot_map t' j = (case slot_map t j of None \<Rightarrow> None | Some w \<Rightarrow> Some (if j = i \<and> w = Some a then Some b else w))" for j
    unfolding t' by (rule slot_map_update) auto
  then show "slot_map t' = (if ok then (slot_map t)(i \<mapsto> Some b) else slot_map t)"
    using iff by (auto simp: fun_eq_iff split: option.splits)
qed

lemma slot_Release_map:
  assumes wf: "slots_wf t" and run: "slot_Release None s t = (Inr ok, t')"
  shows "slots_wf t'" "slot_map t' i = (if s \<noteq> '''' \<and> slot_map t i = Some (Some s) then Some None else slot_map t i)"
proof -
  have "slots_wf t' \<and> slot_map t' i = (if s \<noteq> '''' \<and> slot_map t i = Some (Some s) then Some None else slot_map t i)"
  proof (cases "s = ''''")
    case False
    then have t': "t' = fst (sql_update (\<lambda>q. sl_owner q = Some s) disown t)"
      using run by (auto simp: slot_Release_def split: prod.splits)
    have "slots_wf t'" unfolding t' using wf by (intro sql_update_wf) auto
    moreover have "slot_map t' i = (if slot_map t i = Some (Some s) then Some None else slot_map t i)"
      unfolding t' using slot_map_update [of disown "\<lambda>q. sl_owner q = Some s" "\<lambda>_ w. w = Some s" None t i]
      by (auto split: option.splits)
    ultimately show ?thesis using False by simp
  qed (use run wf in \<open>simp add: slot_Release_def\<close>)
  then show "slots_wf t'" "slot_map t' i = (if s \<noteq> '''' \<and> slot_map t i = Some (Some s) then Some None else slot_map t i)"
    by auto
qed

lemma reconcile_loop_map:
  assumes "slots_wf t" and db: "\<forall>k. db k = None"
  shows "\<exists>t'. reconcile_loop db n xs t = (None, t') \<and> slots_wf t' \<and>
    slot_map t' = (\<lambda>i. if i \<in> set xs \<and> slot_map t i \<noteq> None then Some None else slot_map t i)"
  using assms(1)
proof (induction xs arbitrary: t n)
  case (Cons x xs)
  let ?t = "fst (sql_update (\<lambda>q. sl_idx q = x) disown t)"
  have wf: "slots_wf ?t" using Cons.prems by (intro sql_update_wf) auto
  have m: "slot_map ?t i = (case slot_map t i of None \<Rightarrow> None | Some w \<Rightarrow> Some (if i = x then None else w))" for i
    by (rule slot_map_update) auto
  from Cons.IH [OF wf] obtain t' where "reconcile_loop db (Suc n) xs ?t = (None, t')" "slots_wf t'"
    "slot_map t' = (\<lambda>i. if i \<in> set xs \<and> slot_map ?t i \<noteq> None then Some None else slot_map ?t i)" by blast
  then show ?case unfolding reconcile_loop.simps db [rule_format, of n] option.case
    by (intro exI [of _ t']) (auto simp: fun_eq_iff m split: option.splits)
qed simp

lemma slot_Reconcile_map:
  assumes wf: "slots_wf t" and db: "\<forall>k. db k = None"
  shows "\<exists>t'. slot_Reconcile db live t = (Inr (int (card {i. \<exists>s. slot_map t i = Some (Some s) \<and> s \<notin> set live})), t')
    \<and> slots_wf t' \<and> slot_map t' = (\<lambda>i. case slot_map t i of Some (Some s) \<Rightarrow> Some (if s \<in> set live then Some s else None) | w \<Rightarrow> w)"
proof -
  let ?f = "\<lambda>r. case sl_owner r of None \<Rightarrow> False | Some owner \<Rightarrow> owner \<notin> set live"
  let ?xs = "map sl_idx (filter ?f t)"
  have "distinct ?xs" using slots_wf_distinct [OF wf] by (simp add: distinct_map_filter)
  moreover have xs: "set ?xs = {i. \<exists>s. slot_map t i = Some (Some s) \<and> s \<notin> set live}"
  proof (rule set_eqI)
    fix i
    have "?f r \<longleftrightarrow> (\<exists>s. sl_owner r = Some s \<and> s \<notin> set live)" for r by (simp split: option.splits)
    then have "i \<in> set ?xs \<longleftrightarrow> (\<exists>r \<in> set t. sl_idx r = i \<and> (\<exists>s. sl_owner r = Some s \<and> s \<notin> set live))" by auto
    then show "i \<in> set ?xs \<longleftrightarrow> i \<in> {i. \<exists>s. slot_map t i = Some (Some s) \<and> s \<notin> set live}"
      unfolding mem_Collect_eq slot_map_iff [OF wf] by blast
  qed
  ultimately have n: "length (filter ?f t) = card {i. \<exists>s. slot_map t i = Some (Some s) \<and> s \<notin> set live}"
    using distinct_card [of ?xs] by (simp only: length_map)
  obtain t' where t': "reconcile_loop db 1 ?xs t = (None, t')" "slots_wf t'"
    "slot_map t' = (\<lambda>i. if i \<in> set ?xs \<and> slot_map t i \<noteq> None then Some None else slot_map t i)"
    using reconcile_loop_map [OF wf db] by blast
  have "slot_map t' = (\<lambda>i. case slot_map t i of Some (Some s) \<Rightarrow> Some (if s \<in> set live then Some s else None) | w \<Rightarrow> w)"
    unfolding t'(3) xs by (auto simp: fun_eq_iff split: option.splits)
  then show ?thesis using t'(1,2) db n by (intro exI [of _ t']) (simp add: slot_Reconcile_def Let_def)
qed

text \<open>\<open>INSERT OR IGNORE\<close> adds a free row where there was none.\<close>

lemma set_insert_ignore: "set (insert_ignore i t) \<subseteq> insert (free_row i) (set t)"
  by (induction t) auto

lemma insert_ignore_wf:
  assumes "slots_wf t" "0 \<le> i" "i < 2 ^ 32"
  shows "slots_wf (insert_ignore i t)"
proof -
  have idx: "sl_idx (free_row i) = i" "sl_owner (free_row i) = None" by (simp_all add: free_row_def)
  have "sorted_wrt (<) (map sl_idx t) \<Longrightarrow> sorted_wrt (<) (map sl_idx (insert_ignore i t))"
    by (induction t) (use set_insert_ignore in \<open>fastforce simp: idx\<close>)+
  then show ?thesis using assms set_insert_ignore [of i t] idx unfolding slots_wf_def by auto
qed

lemma insert_ignore_map:
  assumes "slots_wf t"
  shows "slot_map (insert_ignore i t) = (if slot_map t i = None then (slot_map t)(i \<mapsto> None) else slot_map t)"
proof -
  have "sorted_wrt (<) (map sl_idx t) \<Longrightarrow>
    slot_map (insert_ignore i t) j = (if slot_map t i = None then (slot_map t)(i \<mapsto> None) else slot_map t) j" for j
  proof (induction t)
    case (Cons r rs)
    have "slot_map rs k = None" if "k < sl_idx r" for k
      using Cons.prems that by (auto simp: slot_map_None)
    then show ?case using Cons by (auto simp: slot_map_def free_row_def)
  qed (simp add: slot_map_def free_row_def)
  then show ?thesis using assms by (auto simp: slots_wf_def)
qed

lemma seed_fold:
  assumes "slots_wf t" "\<forall>i \<in> set xs. 0 \<le> i \<and> i < 2 ^ 32"
  shows "slots_wf (fold insert_ignore xs t) \<and>
    slot_map (fold insert_ignore xs t) = (\<lambda>i. if i \<in> set xs \<and> slot_map t i = None then Some None else slot_map t i)"
  using assms
proof (induction xs arbitrary: t)
  case (Cons x xs)
  note m = insert_ignore_map [OF Cons.prems(1), of x]
  have "slots_wf (insert_ignore x t)" using Cons.prems by (intro insert_ignore_wf) auto
  then show ?case using Cons.IH [of "insert_ignore x t"] Cons.prems(2) m by (auto simp: fun_eq_iff)
qed simp

text \<open>Rows counted by \<open>Stats\<close> as free.\<close>

lemma slots_free_count:
  assumes wf: "slots_wf t"
  shows "int (length (filter (\<lambda>r. sl_owner r = None) t)) = int (length t) - int (card {i. \<exists>s. slot_map t i = Some (Some s)})"
proof -
  have "distinct (map sl_idx (filter (\<lambda>r. sl_owner r \<noteq> None) t))"
    using slots_wf_distinct [OF wf] by (simp add: distinct_map_filter)
  then have "card (set (map sl_idx (filter (\<lambda>r. sl_owner r \<noteq> None) t))) = length (filter (\<lambda>r. sl_owner r \<noteq> None) t)"
    by (simp only: distinct_card length_map)
  moreover have "set (map sl_idx (filter (\<lambda>r. sl_owner r \<noteq> None) t)) = {i. \<exists>s. slot_map t i = Some (Some s)}"
    unfolding slot_map_iff [OF wf] by auto
  ultimately show ?thesis using sum_length_filter_compl [of "\<lambda>r. sl_owner r = None" t] by simp
qed

text \<open>The rows are those of the first \<open>n\<close> indices, as every seeding leaves them.\<close>

definition slots_dense :: "slots \<Rightarrow> bool" where
  "slots_dense t \<longleftrightarrow> dom (slot_map t) = {0..<int (length t)}"

lemma length_dom: "slots_wf t \<Longrightarrow> length t = card (dom (slot_map t))"
  using slots_wf_distinct [of t]
  by (simp add: slot_map_def dom_map_of_conv_image_fst image_image distinct_map card_image distinct_card)

lemma slot_Seed_spec:
  assumes wf: "slots_wf t" and dense: "slots_dense t"
  shows "\<exists>t'. slot_Seed None c t = (None, t') \<and> slots_wf t' \<and> slots_dense t' \<and>
    int (length t') = max (int (length t)) (uint c) \<and>
    slot_map t' = (\<lambda>i. if 0 \<le> i \<and> i < uint c \<and> slot_map t i = None then Some None else slot_map t i)"
proof (cases "uint c \<le> int (length t)")
  case True
  then have "slot_Seed None c t = (None, t)" by (simp add: slot_Seed_def)
  moreover have "slot_map t i \<noteq> None" if "0 \<le> i" "i < uint c" for i
  proof -
    have "i \<in> dom (slot_map t)" using dense that True unfolding slots_dense_def by simp
    then show ?thesis by auto
  qed
  ultimately show ?thesis using wf dense True by (intro exI [of _ t]) (auto simp: fun_eq_iff)
next
  case False
  let ?t = "fold insert_ignore (map int [0..<unat c]) t"
  have lim: "int (unat c) = uint c" by simp
  have "c \<noteq> 0" using False by auto
  then have run: "slot_Seed None c t = (None, ?t)" using False by (simp add: slot_Seed_def)
  have "\<forall>i \<in> set (map int [0..<unat c]). 0 \<le> i \<and> i < 2 ^ 32"
  proof -
    have "unat c < 4294967296" using unsigned_less [of c] by simp
    then show ?thesis by simp
  qed
  note s = seed_fold [OF wf this]
  have mem: "i \<in> set (map int [0..<unat c]) \<longleftrightarrow> 0 \<le> i \<and> i < uint c" for i
    using lim by (auto simp: image_iff intro!: bexI [of _ "nat i"]; linarith)
  have m: "slot_map ?t = (\<lambda>i. if 0 \<le> i \<and> i < uint c \<and> slot_map t i = None then Some None else slot_map t i)"
    using s by (simp only: mem) auto
  have "dom (slot_map ?t) = {0..<uint c}"
    using dense False unfolding m slots_dense_def by (auto simp: dom_def set_eq_iff)
  moreover from this have "int (length ?t) = uint c" using length_dom s by (metis card_atLeastLessThan_int diff_zero lim nat_int)
  ultimately show ?thesis using s m run False by (intro exI [of _ ?t]) (simp add: slots_dense_def)
qed

section \<open>Histories of the ledger\<close>

text \<open>
  Every call on the ledger: the pool claims for sandbox identifiers (never of the sentinel form), parks
  prebuilt slots, adopts a parked slot, claims an index, releases, and reconciles at start-up.
  Any of them may fail in the database. The label of a step says that it was asked to give a slot to a sandbox that owns another one:
  neither \<open>Reassign\<close> nor \<open>ClaimIdx\<close> looks for that.
\<close>

definition owns_other :: "string \<Rightarrow> int \<Rightarrow> slots \<Rightarrow> bool" where
  "owns_other s i t \<longleftrightarrow> (\<exists>j. j \<noteq> i \<and> slot_map t j = Some (Some s))"

inductive slot_step :: "bool \<Rightarrow> slots \<Rightarrow> slots \<Rightarrow> bool" where
  seed: "slot_Seed db c t = (res, t') \<Longrightarrow> slot_step False t t'"
| claim: "\<not> sentinel s \<Longrightarrow> slot_Claim db now s kind t = (res, t') \<Longrightarrow> slot_step False t t'"
| prebuild: "slot_ClaimPrebuilt db now kind t = (res, t') \<Longrightarrow> slot_step False t t'"
| adopt: "\<not> sentinel s \<Longrightarrow> slot_Reassign db now (PrebuiltOwner i) s kind i t = (res, t') \<Longrightarrow> slot_step (owns_other s i t) t t'"
| claimIdx: "\<not> sentinel s \<Longrightarrow> slot_ClaimIdx db now s kind i t = (res, t') \<Longrightarrow> slot_step (owns_other s i t) t t'"
| release: "slot_Release db s t = (res, t') \<Longrightarrow> slot_step False t t'"
| reconcile: "slot_Reconcile dbs live t = (res, t') \<Longrightarrow> slot_step False t t'"

text \<open>A history; its label says whether one of its steps was labelled.\<close>

inductive slot_reach :: "bool \<Rightarrow> slots \<Rightarrow> bool" where
  slot_empty: "slot_reach False []"
| slot_more: "slot_reach d t \<Longrightarrow> slot_step d' t t' \<Longrightarrow> slot_reach (d \<or> d') t'"

text \<open>What holds of the table; the flag asks for a single slot per owner.\<close>

definition slots_ok :: "bool \<Rightarrow> slots \<Rightarrow> bool" where
  "slots_ok single t \<longleftrightarrow> slots_wf t \<and> slots_dense t
    \<and> (\<forall>i s. slot_map t i = Some (Some s) \<longrightarrow> sentinel s \<longrightarrow> s = PrebuiltOwner i)
    \<and> (single \<longrightarrow> (\<forall>i j s. slot_map t i = Some (Some s) \<longrightarrow> slot_map t j = Some (Some s) \<longrightarrow> i = j))"

abbreviation slots_excl :: "slots \<Rightarrow> bool" where
  "slots_excl \<equiv> slots_ok True"

lemma slots_excl_def:
  "slots_excl t \<longleftrightarrow> slots_wf t \<and> slots_dense t
    \<and> (\<forall>i s. slot_map t i = Some (Some s) \<longrightarrow> sentinel s \<longrightarrow> s = PrebuiltOwner i)
    \<and> (\<forall>i j s. slot_map t i = Some (Some s) \<longrightarrow> slot_map t j = Some (Some s) \<longrightarrow> i = j)"
  by (simp add: slots_ok_def)

text \<open>What a step may do to the owner of a slot.\<close>

definition hands :: "int \<Rightarrow> string option option \<Rightarrow> string option option \<Rightarrow> bool" where
  "hands i w w' \<longleftrightarrow> w' = w \<or> w' = Some None \<or> w = Some None \<or> w = Some (Some (PrebuiltOwner i))"

lemma dense_dom:
  assumes "slots_dense t" "slots_wf t" "slots_wf t'" "dom (slot_map t') = dom (slot_map t)"
  shows "slots_dense t'"
  using assms length_dom [of t] length_dom [of t'] by (simp add: slots_dense_def)

lemma excl_cong:
  assumes "slots_ok u t" "slots_wf t'" "slots_dense t'" "\<And>i s. slot_map t' i = Some (Some s) \<Longrightarrow> slot_map t i = Some (Some s)"
  shows "slots_ok u t'"
  using assms unfolding slots_ok_def by blast

lemma excl_frees:
  assumes "slots_ok u t" "slots_wf t'"
    and "\<And>i. slot_map t' i = slot_map t i \<or> slot_map t i \<noteq> None \<and> slot_map t' i = Some None"
  shows "slots_ok u t'"
proof (rule excl_cong [OF assms(1,2)])
  have "dom (slot_map t') = dom (slot_map t)" using assms(3) by (auto simp: dom_def) (metis option.distinct(1))+
  then show "slots_dense t'" using assms(1,2) dense_dom unfolding slots_ok_def by blast
  show "slot_map t i = Some (Some s)" if "slot_map t' i = Some (Some s)" for i s
    using assms(3) [of i] that by auto
qed

lemma excl_give:
  assumes ex: "slots_ok u t" and wf: "slots_wf t'" and m: "slot_map t' = (slot_map t)(i \<mapsto> Some s)"
    and i: "slot_map t i \<noteq> None" and sn: "sentinel s \<longrightarrow> s = PrebuiltOwner i"
  shows "slots_ok (u \<and> \<not> owns_other s i t) t'"
proof -
  have "dom (slot_map t') = dom (slot_map t)" using m i by auto
  then have "slots_dense t'" using ex wf dense_dom unfolding slots_ok_def by blast
  then show ?thesis using ex wf sn unfolding slots_ok_def m owns_other_def by (auto split: if_splits)
qed

lemma slots_ok_weaken: "slots_ok u t \<Longrightarrow> (v \<Longrightarrow> u) \<Longrightarrow> slots_ok v t"
  by (auto simp: slots_ok_def)

lemma reconcile_loop_frees:
  assumes "slots_wf t" "reconcile_loop db n xs t = (res, t')"
  shows "slots_wf t' \<and> (\<forall>i. slot_map t' i = slot_map t i \<or> slot_map t i \<noteq> None \<and> slot_map t' i = Some None)"
  using assms
proof (induction xs arbitrary: t n)
  case (Cons x xs)
  let ?t = "fst (sql_update (\<lambda>q. sl_idx q = x) disown t)"
  have wf: "slots_wf ?t" using Cons.prems(1) by (intro sql_update_wf) auto
  have m: "slot_map ?t i = (case slot_map t i of None \<Rightarrow> None | Some w \<Rightarrow> Some (if i = x then None else w))" for i
    by (rule slot_map_update) auto
  then have "slot_map ?t i = slot_map t i \<or> slot_map t i \<noteq> None \<and> slot_map ?t i = Some None" for i
    by (simp split: option.splits)
  moreover have "slots_wf t' \<and> (\<forall>i. slot_map t' i = slot_map ?t i \<or> slot_map ?t i \<noteq> None \<and> slot_map t' i = Some None)"
    if "db n = None" using Cons.IH [OF wf] Cons.prems(2) that by simp
  ultimately show ?case using Cons.prems by (cases "db n") (metis, simp)
qed simp

lemma slot_Reconcile_frees:
  assumes "slots_wf t" "slot_Reconcile db live t = (res, t')"
  shows "slots_wf t' \<and> (\<forall>i. slot_map t' i = slot_map t i \<or> slot_map t i \<noteq> None \<and> slot_map t' i = Some None)"
  using assms reconcile_loop_frees [OF assms(1)]
  by (auto simp: slot_Reconcile_def Let_def split: option.splits prod.splits)

text \<open>An operation that the database refuses, or that returns an error, leaves the table as it was.\<close>

lemma slot_errors:
  "slot_Seed db c t = (Some e, t') \<Longrightarrow> t' = t"
  "slot_Claim db now s kind t = (Inl e, t') \<Longrightarrow> t' = t"
  "slot_ClaimPrebuilt db now kind t = (Inl e, t') \<Longrightarrow> t' = t"
  "slot_Reassign db now a b kind i t = (Inl e, t') \<Longrightarrow> t' = t"
  "slot_Release db s t = (Inl e, t') \<Longrightarrow> t' = t"
  "slot_ClaimIdx db now b kind i t = (Inl e, t') \<Longrightarrow> t' = t"
  by (auto simp: slot_ClaimIdx_def slot_Seed_def slot_Claim_def slot_ClaimPrebuilt_def slot_Reassign_def slot_Release_def Let_def
      split: if_splits option.splits prod.splits)

lemma slot_ok_db:
  "slot_Claim db now s kind t = (Inr i, t') \<Longrightarrow> db = None \<and> s \<noteq> ''''"
  "slot_ClaimPrebuilt db now kind t = (Inr i, t') \<Longrightarrow> db = None"
  "slot_Reassign db now a b kind i t = (Inr ok, t') \<Longrightarrow> db = None \<and> b \<noteq> ''''"
  by (auto simp: slot_Claim_def slot_ClaimPrebuilt_def slot_Reassign_def split: if_splits option.splits)

lemma slot_OwnerIdx_None: "slots_wf t \<Longrightarrow> slot_OwnerIdx None s t = Inr None \<longleftrightarrow> (\<forall>i. slot_map t i \<noteq> Some (Some s))"
  by (auto simp: slot_OwnerIdx_def slot_map_iff find_None_iff)

lemma slot_ClaimIdx_map:
  assumes wf: "slots_wf t" and run: "slot_ClaimIdx db now s kind i t = (Inr ok, t')"
  shows "slots_wf t'" "slot_map t' = (if slot_map t i \<in> {Some None, Some (Some s)} then (slot_map t)(i \<mapsto> Some s) else slot_map t)"
proof -
  let ?u = "sql_update (\<lambda>q. sl_idx q = i \<and> (sl_owner q = None \<or> sl_owner q = Some s)) (own s kind now) t"
  have s: "s \<noteq> ''''" and t': "t' = fst ?u" using run by (auto simp: slot_ClaimIdx_def Let_def split: if_splits option.splits prod.splits)
  show "slots_wf t'" unfolding t' using wf s by (intro sql_update_wf) auto
  have "slot_map t' j = (case slot_map t j of None \<Rightarrow> None | Some w \<Rightarrow> Some (if j = i \<and> (w = None \<or> w = Some s) then Some s else w))" for j
    unfolding t' by (rule slot_map_update) auto
  then show "slot_map t' = (if slot_map t i \<in> {Some None, Some (Some s)} then (slot_map t)(i \<mapsto> Some s) else slot_map t)"
    by (auto simp: fun_eq_iff split: option.splits)
qed

lemma slot_claim_ok:
  assumes ex: "slots_ok u t" and s: "\<not> sentinel s" and run: "slot_Claim db now s kind t = (res, t')"
  shows "slots_ok u t' \<and> (\<forall>i. hands i (slot_map t i) (slot_map t' i))"
proof (cases res)
  case (Inr i)
  have wf: "slots_wf t" using ex by (simp add: slots_ok_def)
  note ok = slot_ok_db(1) [OF run [unfolded Inr]]
  from slot_Claim_map [OF wf] ok run Inr consider "t' = t"
    | "slots_wf t'" "\<forall>j. slot_map t j \<noteq> Some (Some s)" "slot_map t i = Some None" "slot_map t' = (slot_map t)(i \<mapsto> Some s)" by blast
  then show ?thesis
  proof cases
    case 2
    then have "\<not> owns_other s i t" by (simp add: owns_other_def)
    then show ?thesis using excl_give [OF ex 2(1,4)] 2 s by (simp add: hands_def)
  qed (use ex in \<open>simp add: hands_def\<close>)
next
  case (Inl e)
  then have "t' = t" using run slot_errors(2) by blast
  then show ?thesis using ex by (simp add: hands_def)
qed

lemma slot_prebuild_ok:
  assumes ex: "slots_ok u t" and run: "slot_ClaimPrebuilt db now kind t = (res, t')"
  shows "slots_ok u t' \<and> (\<forall>i. hands i (slot_map t i) (slot_map t' i))"
proof (cases res)
  case (Inr i)
  have wf: "slots_wf t" using ex by (simp add: slots_ok_def)
  note m = slot_ClaimPrebuilt_map [OF wf, of now kind i t']
  have r: "slot_ClaimPrebuilt None now kind t = (Inr i, t')" using run slot_ok_db(2) Inr by blast
  have "slot_map t j \<noteq> Some (Some (PrebuiltOwner i))" for j
  proof
    assume j: "slot_map t j = Some (Some (PrebuiltOwner i))"
    then have "PrebuiltOwner i = PrebuiltOwner j" using ex by (simp add: slots_ok_def)
    moreover have "0 \<le> i" "i < 2 ^ 32" "0 \<le> j" "j < 2 ^ 32"
      using j m(2) [OF r] wf slot_map_iff [OF wf] by (auto simp: slots_wf_def)
    ultimately show False using j m(2) [OF r] PrebuiltOwner_inj by auto
  qed
  then have "\<not> owns_other (PrebuiltOwner i) i t" by (simp add: owns_other_def)
  then show ?thesis using excl_give [OF ex m(1,3) [OF r]] m(2,3) [OF r] by (auto simp: hands_def)
next
  case (Inl e)
  then have "t' = t" using run slot_errors(3) by blast
  then show ?thesis using ex by (simp add: hands_def)
qed

lemma slot_adopt_ok:
  assumes ex: "slots_ok u t" and s: "\<not> sentinel s" and run: "slot_Reassign db now (PrebuiltOwner i) s kind i t = (res, t')"
  shows "slots_ok (u \<and> \<not> owns_other s i t) t' \<and> (\<forall>i. hands i (slot_map t i) (slot_map t' i))"
proof (cases res)
  case (Inr ok)
  have wf: "slots_wf t" using ex by (simp add: slots_ok_def)
  have "slot_Reassign None now (PrebuiltOwner i) s kind i t = (Inr ok, t')" using run slot_ok_db(3) Inr by blast
  note m = slot_Reassign_map [OF wf this]
  show ?thesis
  proof (cases ok)
    case True
    then show ?thesis using excl_give [OF ex m(1), of i s] m(2,3) s by (simp add: hands_def)
  next
    case False
    then have "slots_ok u t'" using excl_frees [OF ex m(1)] m(3) by simp
    then show ?thesis using slots_ok_weaken False m(3) by (auto simp: hands_def)
  qed
next
  case (Inl e)
  then have "t' = t" using run slot_errors(4) by blast
  then show ?thesis using slots_ok_weaken [OF ex] by (simp add: hands_def)
qed

lemma slot_claimIdx_ok:
  assumes ex: "slots_ok u t" and s: "\<not> sentinel s" and run: "slot_ClaimIdx db now s kind i t = (res, t')"
  shows "slots_ok (u \<and> \<not> owns_other s i t) t' \<and> (\<forall>i. hands i (slot_map t i) (slot_map t' i))"
proof (cases res)
  case (Inr ok)
  have wf: "slots_wf t" using ex by (simp add: slots_ok_def)
  note m = slot_ClaimIdx_map [OF wf run [unfolded Inr]]
  show ?thesis
  proof (cases "slot_map t i \<in> {Some None, Some (Some s)}")
    case True
    then have "slot_map t' = (slot_map t)(i \<mapsto> Some s)" "slot_map t i \<noteq> None" using m(2) by auto
    then show ?thesis using excl_give [OF ex m(1), of i s] True s by (auto simp: hands_def)
  next
    case False
    then have "slots_ok u t'" using excl_frees [OF ex m(1)] m(2) by simp
    then show ?thesis using slots_ok_weaken False m(2) by (auto simp: hands_def)
  qed
next
  case (Inl e)
  then have "t' = t" using run slot_errors(6) by blast
  then show ?thesis using slots_ok_weaken [OF ex] by (simp add: hands_def)
qed

lemma slot_step_ok:
  assumes "slot_step d t t'" "slots_ok u t"
  shows "slots_ok (u \<and> \<not> d) t' \<and> (\<forall>i. hands i (slot_map t i) (slot_map t' i))"
  using assms
proof (induction rule: slot_step.induct)
  case (seed db c t res t')
  have wf: "slots_wf t" "slots_dense t" using seed(2) by (auto simp: slots_ok_def)
  consider "t' = t" | "db = None" using seed(1) by (auto simp: slot_Seed_def split: if_splits option.splits)
  then show ?case
  proof cases
    case 2
    obtain u' where u: "slot_Seed None c t = (None, u')" "slots_wf u'" "slots_dense u'"
      "slot_map u' = (\<lambda>i. if 0 \<le> i \<and> i < uint c \<and> slot_map t i = None then Some None else slot_map t i)"
      using slot_Seed_spec [OF wf, of c] by blast
    have "u' = t'" using seed(1) 2 u(1) by simp
    moreover have "slots_ok u u'" by (rule excl_cong [OF seed(2) u(2,3)]) (simp add: u(4) split: if_splits)
    ultimately show ?thesis using u(4) by (auto simp: hands_def)
  qed (use seed in \<open>simp add: hands_def\<close>)
next
  case (release db s t res t')
  have wf: "slots_wf t" using release by (simp add: slots_ok_def)
  show ?case
  proof (cases "db = None \<and> s \<noteq> ''''")
    case True
    then obtain ok where "slot_Release None s t = (Inr ok, t')"
      using release(1) by (auto simp: slot_Release_def split: prod.splits)
    note m = slot_Release_map [OF wf this]
    show ?thesis using excl_frees [OF release(2) m(1)] m(2) by (auto simp: hands_def)
  qed (use release in \<open>auto simp: hands_def slot_Release_def split: if_splits option.splits\<close>)
next
  case (reconcile dbs live t res t')
  then have "slots_wf t" by (simp add: slots_ok_def)
  note f = slot_Reconcile_frees [OF this reconcile(1)]
  show ?case using excl_frees [OF reconcile(2)] f by (auto simp: hands_def)
next
  case (claim s db now kind t res t')
  then show ?case using slot_claim_ok [OF claim(3,1,2)] by simp
next
  case (prebuild db now kind t res t')
  then show ?case using slot_prebuild_ok [OF prebuild(2,1)] by simp
next
  case (adopt s db now i kind t res t')
  show ?case by (rule slot_adopt_ok [OF adopt(3,1,2)])
next
  case (claimIdx s db now kind i t res t')
  show ?case by (rule slot_claimIdx_ok [OF claimIdx(3,1,2)])
qed

lemma slot_reach_ok: "slot_reach d t \<Longrightarrow> slots_ok (\<not> d) t"
proof (induction rule: slot_reach.induct)
  case slot_empty
  show ?case by (simp add: slots_ok_def slots_wf_def slots_dense_def slot_map_def)
next
  case (slot_more d t d' t')
  then show ?case using slot_step_ok [OF slot_more(2,3)] by simp
qed

text \<open>
  C29: Slot ownership. In every history of calls on the ledger, database errors included, with sandbox identifiers that are not of the form of a parked
  sentinel: no call takes a slot away from a sandbox except by freeing it (only a free slot or a parked one is given to a new owner), and a parked sentinel sits on the slot it names. As
  long as no \<open>Reassign\<close> and no \<open>ClaimIdx\<close> was asked to give a slot to a sandbox that already owns another one, every sandbox owns at most one slot; \<open>Claim\<close> sees to that itself,
  the other two do not (\<open>adopt_gives_second_slot\<close>).
\<close>

theorem slot_exclusive:
  assumes "slot_reach d t" and "slot_step d' t t'"
  shows "(\<not> d \<and> \<not> d' \<longrightarrow> (\<forall>i j s. slot_map t' i = Some (Some s) \<longrightarrow> slot_map t' j = Some (Some s) \<longrightarrow> i = j))
    \<and> (\<forall>i s. slot_map t' i = Some (Some s) \<longrightarrow> sentinel s \<longrightarrow> s = PrebuiltOwner i)
    \<and> (\<forall>i s. slot_map t i = Some (Some s) \<longrightarrow> s \<noteq> PrebuiltOwner i \<longrightarrow> slot_map t' i \<in> {Some (Some s), Some None})"
proof -
  have "slots_ok (\<not> d \<and> \<not> d') t'" and h: "\<forall>i. hands i (slot_map t i) (slot_map t' i)"
    using slot_step_ok [OF assms(2) slot_reach_ok [OF assms(1)]] by simp_all
  moreover have "slot_map t' i \<in> {Some (Some s), Some None}"
    if "slot_map t i = Some (Some s)" "s \<noteq> PrebuiltOwner i" for i s
    using h [rule_format, of i] that by (simp add: hands_def)
  ultimately show ?thesis unfolding slots_ok_def by blast
qed

definition sl_demo :: slots where
  "sl_demo = snd (slot_Seed None 3 [])"

lemma sl_demo_reach: "slot_reach False sl_demo"
proof -
  have "slot_step False [] sl_demo" unfolding sl_demo_def by (rule slot_step.seed) (rule prod.collapse [symmetric])
  then show ?thesis using slot_more [OF slot_empty] by fastforce
qed

lemma sl_demo_wf: "slots_wf sl_demo"
  using slot_reach_ok [OF sl_demo_reach] by (simp add: slots_ok_def)

text \<open>A claim, then a parked slot, then its adoption for another sandbox.\<close>

definition sl_parked :: slots where
  "sl_parked = snd (slot_ClaimPrebuilt None 8 ''natid'' (snd (slot_Claim None 7 ''sb-1'' ''natid'' sl_demo)))"

lemma sl_parked_reach: "slot_reach False sl_parked"
proof -
  let ?t = "snd (slot_Claim None 7 ''sb-1'' ''natid'' sl_demo)"
  have 1: "slot_step False sl_demo ?t" by (rule slot_step.claim [of "''sb-1''"]) (simp add: sentinel_def, rule prod.collapse [symmetric])
  have 2: "slot_step False ?t sl_parked" unfolding sl_parked_def by (rule slot_step.prebuild) (rule prod.collapse [symmetric])
  show ?thesis using slot_more [OF slot_more [OF sl_demo_reach 1] 2] by simp
qed

lemma sl_parked_eq:
  "sl_parked = [own ''sb-1'' ''natid'' 7 (free_row 0), own (PrebuiltOwner 1) ''natid'' 8 (free_row 1), free_row 2]"
proof -
  have demo: "sl_demo = [free_row 0, free_row 1, free_row 2]" by code_simp
  show ?thesis unfolding sl_parked_def demo
    by (simp add: slot_Claim_def slot_ClaimPrebuilt_def sql_update_def free_row_def own_def u32_of_def)
qed

lemma PrebuiltOwner_sb: "PrebuiltOwner i \<noteq> ''sb-1''" "PrebuiltOwner i \<noteq> ''sb-2''"
  by (simp_all add: PrebuiltOwner_def)

lemmas sl_parked_simps = sl_parked_eq slot_map_def slot_Reassign_def slot_OwnerIdx_def sql_update_def free_row_def own_def PrebuiltOwner_sb

theorem slot_exclusive_witness:
  "slot_step False sl_parked (snd (slot_Reassign None 9 (PrebuiltOwner 1) ''sb-2'' ''natid'' 1 sl_parked))
   \<and> slot_map (snd (slot_Reassign None 9 (PrebuiltOwner 1) ''sb-2'' ''natid'' 1 sl_parked)) 1 = Some (Some ''sb-2'')
   \<and> slot_map (snd (slot_Reassign None 9 (PrebuiltOwner 1) ''sb-2'' ''natid'' 1 sl_parked)) 2 \<noteq> Some (Some ''sb-2'')
   \<and> slot_map (snd (slot_Reassign None 9 (PrebuiltOwner 1) ''sb-2'' ''natid'' 1 sl_parked)) 0 \<in> {Some (Some ''sb-1''), Some None}"
proof -
  let ?t = "snd (slot_Reassign None 9 (PrebuiltOwner 1) ''sb-2'' ''natid'' 1 sl_parked)"
  have wf: "slots_wf sl_parked" using slot_reach_ok [OF sl_parked_reach] by (simp add: slots_ok_def)
  have "slot_OwnerIdx None ''sb-2'' sl_parked = Inr None" by (simp add: sl_parked_simps)
  then have "\<not> owns_other ''sb-2'' 1 sl_parked" using slot_OwnerIdx_None [OF wf] by (simp add: owns_other_def)
  moreover have "slot_step (owns_other ''sb-2'' 1 sl_parked) sl_parked ?t"
    by (rule slot_step.adopt [of "''sb-2''"]) (simp add: sentinel_def, rule prod.collapse [symmetric])
  ultimately have step: "slot_step False sl_parked ?t" by simp
  have m: "slot_map ?t 1 = Some (Some ''sb-2'')" "slot_map sl_parked 0 = Some (Some ''sb-1'')" "''sb-1'' \<noteq> PrebuiltOwner 0"
    by (simp_all add: sl_parked_simps PrebuiltOwner_sb [symmetric])
  note ex = slot_exclusive [OF sl_parked_reach step]
  have "slot_map ?t 2 \<noteq> Some (Some ''sb-2'')"
  proof
    assume "slot_map ?t 2 = Some (Some ''sb-2'')"
    then have "(2 :: int) = 1" using ex m(1) by blast
    then show False by simp
  qed
  then show ?thesis using step m(1) ex m(2,3) by blast
qed

text \<open>An adoption for a sandbox that has a slot gives it a second one.\<close>

lemma adopt_gives_second_slot:
  "let t = snd (slot_Reassign None 9 (PrebuiltOwner 1) ''sb-1'' ''natid'' 1 sl_parked)
   in slot_map t 0 = Some (Some ''sb-1'') \<and> slot_map t 1 = Some (Some ''sb-1'')"
  by (simp add: sl_parked_simps)

lemma slot_Claim_spec_witness:
  "slots_wf (snd (slot_Claim None 7 ''sb-1'' ''natid'' sl_demo)) \<and> fst (slot_Claim None 7 ''sb-1'' ''natid'' sl_demo) = Inr 0"
proof -
  have "slots_wf (snd (slot_Claim None 7 ''sb-1'' ''natid'' sl_demo))"
    using slot_Claim_spec [OF sl_demo_wf, of "''sb-1''" 7 "''natid''"] by auto
  moreover have "fst (slot_Claim None 7 ''sb-1'' ''natid'' sl_demo) = Inr 0" by code_simp
  ultimately show ?thesis by simp
qed

theorem slot_Release_once_witness:
  "\<exists>t'. slot_Release None ''sb-1'' sl_demo = (Inr (card {i. slot_map sl_demo i = Some (Some ''sb-1'')} = 1), t')
     \<and> slot_Release None ''sb-1'' t' = (Inr False, t')"
  using slot_Release_once [OF sl_demo_wf, of "''sb-1''"] by auto

text \<open>
  Start-up reconciliation. \<open>Reconcile\<close> frees exactly the slots whose owner is not in the live set,
  reports how many they were, and leaves every other slot alone; afterwards \<open>Stats\<close> counts as used exactly
  the slots of live owners, and a second reconciliation with the same live set frees nothing.
\<close>

lemma slot_Reconcile_spec:
  assumes wf: "slots_wf t" and db: "\<forall>k. db k = None"
  shows "\<exists>t'. slot_Reconcile db live t = (Inr (int (card {i. \<exists>s. slot_map t i = Some (Some s) \<and> s \<notin> set live})), t')
    \<and> (\<forall>i. slot_map t' i = (case slot_map t i of Some (Some s) \<Rightarrow> Some (if s \<in> set live then Some s else None) | w \<Rightarrow> w))
    \<and> slot_Stats None t' = Inr \<lparr>ss_Capacity = int (length t),
        ss_Free = int (length t) - int (card {i. \<exists>s \<in> set live. slot_map t i = Some (Some s)}),
        ss_Used = int (card {i. \<exists>s \<in> set live. slot_map t i = Some (Some s)})\<rparr>
    \<and> fst (slot_Reconcile db live t') = Inr 0"
proof -
  obtain t' where t': "slot_Reconcile db live t = (Inr (int (card {i. \<exists>s. slot_map t i = Some (Some s) \<and> s \<notin> set live})), t')"
    "slots_wf t'" and m: "slot_map t' = (\<lambda>i. case slot_map t i of Some (Some s) \<Rightarrow> Some (if s \<in> set live then Some s else None) | w \<Rightarrow> w)"
    using slot_Reconcile_map [OF wf db] by blast
  have "dom (slot_map t') = dom (slot_map t)" unfolding m by (auto simp: dom_def split: option.splits)
  then have len: "length t' = length t" using length_dom wf t'(2) by simp
  have used: "{i. \<exists>s. slot_map t' i = Some (Some s)} = {i. \<exists>s \<in> set live. slot_map t i = Some (Some s)}"
    unfolding m by (rule set_eqI) (simp split: option.splits)
  have none: "{i. \<exists>s. slot_map t' i = Some (Some s) \<and> s \<notin> set live} = {}"
    unfolding m by (auto split: option.splits if_splits)
  have "fst (slot_Reconcile db live t') = Inr 0" using slot_Reconcile_map [OF t'(2) db, of live] unfolding none by auto
  moreover have "int (length (filter (\<lambda>r. sl_owner r = None) t')) = int (length t') - int (card {i. \<exists>s. slot_map t' i = Some (Some s)})"
    by (rule slots_free_count [OF t'(2)])
  ultimately show ?thesis using t'(1) len used m by (intro exI [of _ t']) (simp add: slot_Stats_def Let_def)
qed

theorem slot_Reconcile_spec_witness:
  "\<exists>t'. slot_Reconcile (\<lambda>_. None) [''sb-1''] sl_demo = (Inr (int (card {i. \<exists>s. slot_map sl_demo i = Some (Some s) \<and> s \<notin> {''sb-1''}})), t')
    \<and> fst (slot_Reconcile (\<lambda>_. None) [''sb-1''] t') = Inr 0"
  using slot_Reconcile_spec [OF sl_demo_wf, of "\<lambda>_. None" "[''sb-1'']"] by auto

end
