(* ===== verification/Crash_Program.thy ===== *)
theory Crash_Program
  imports Go_Base "HOL-Library.State_Monad"
begin

text \<open>
  Programs whose effects outlive the process (commands that change the host kernel, rows of a database).
  Such a program is a state monad over the outside state together with the list of the states it has
  passed through: a crash of the agent leaves the host in one of them. \<open>wpc C m Q s\<close> says that \<open>m\<close> run
  from \<open>s\<close> passes only through states of \<open>C\<close> and ends with \<open>Q\<close>; the rules below compute it backwards
  over the structure of a program.

  The second half holds the string functions of the Go standard library that the network code uses.
\<close>

named_theorems wpc_rules "backward rules of the crash calculus"

type_synonym ('s, 'a) prog = "('s \<times> 's list, 'a) state"

definition act :: "('s \<Rightarrow> 'a \<times> 's) \<Rightarrow> ('s, 'a) prog" where
  "act f = State (\<lambda>(s, h). case f s of (r, s') \<Rightarrow> (r, (s', h @ [s'])))"

definition ask :: "('s \<Rightarrow> 'a) \<Rightarrow> ('s, 'a) prog" where
  "ask f = State (\<lambda>(s, h). (f s, (s, h)))"

definition result_of :: "('s, 'a) prog \<Rightarrow> 's \<Rightarrow> 'a" where
  "result_of m s = fst (run_state m (s, []))"

definition final_of :: "('s, 'a) prog \<Rightarrow> 's \<Rightarrow> 's" where
  "final_of m s = fst (snd (run_state m (s, [])))"

definition states_of :: "('s, 'a) prog \<Rightarrow> 's \<Rightarrow> 's list" where
  "states_of m s = snd (snd (run_state m (s, [])))"

definition wpc :: "('s \<Rightarrow> bool) \<Rightarrow> ('s, 'a) prog \<Rightarrow> ('a \<Rightarrow> 's \<Rightarrow> bool) \<Rightarrow> 's \<Rightarrow> bool" where
  "wpc C m Q s \<longleftrightarrow> (\<exists>r s' t. (\<forall>h. run_state m (s, h) = (r, (s', h @ t))) \<and> (\<forall>x \<in> set t. C x) \<and> Q r s')"

lemma wpcD:
  assumes "wpc C m Q s"
  shows "\<forall>x \<in> set (states_of m s). C x" "Q (result_of m s) (final_of m s)"
  using assms unfolding wpc_def states_of_def result_of_def final_of_def by auto

lemma wpc_return [wpc_rules]: "Q r s \<Longrightarrow> wpc C (State_Monad.return r) Q s"
  by (auto simp: wpc_def State_Monad.return_def)

lemma wpc_bind [wpc_rules]:
  assumes "wpc C m (\<lambda>r. wpc C (f r) Q) s"
  shows "wpc C (State_Monad.bind m f) Q s"
proof -
  obtain r1 s1 t1 where 1: "\<And>h. run_state m (s, h) = (r1, (s1, h @ t1))" "\<forall>x \<in> set t1. C x" "wpc C (f r1) Q s1"
    using assms unfolding wpc_def by blast
  obtain r2 s2 t2 where 2: "\<And>h. run_state (f r1) (s1, h) = (r2, (s2, h @ t2))" "\<forall>x \<in> set t2. C x" "Q r2 s2"
    using 1(3) unfolding wpc_def by blast
  have "\<forall>h. run_state (State_Monad.bind m f) (s, h) = (r2, (s2, h @ (t1 @ t2)))"
    using 1(1) 2(1) by (simp add: State_Monad.bind_def)
  moreover have "\<forall>x \<in> set (t1 @ t2). C x" using 1(2) 2(2) by auto
  ultimately show ?thesis using 2(3) unfolding wpc_def by blast
qed

lemma wpc_act: "C (snd (f s)) \<Longrightarrow> Q (fst (f s)) (snd (f s)) \<Longrightarrow> wpc C (act f) Q s"
  unfolding wpc_def act_def
  by (intro exI [of _ "fst (f s)"] exI [of _ "snd (f s)"] exI [of _ "[snd (f s)]"]) (simp split: prod.splits)

lemma wpc_ask [wpc_rules]: "Q (f s) s \<Longrightarrow> wpc C (ask f) Q s"
  unfolding wpc_def ask_def by (intro exI [of _ "f s"] exI [of _ s] exI [of _ "[]"]) simp

lemma wpc_mono: "wpc C m R s \<Longrightarrow> (\<And>r s'. R r s' \<Longrightarrow> Q r s') \<Longrightarrow> wpc C m Q s"
  unfolding wpc_def by blast



lemma wpc_strengthen: "wpc C m R s \<Longrightarrow> (\<And>x. C x \<Longrightarrow> D x) \<Longrightarrow> (\<And>r s'. R r s' \<Longrightarrow> Q r s') \<Longrightarrow> wpc D m Q s"
  unfolding wpc_def by blast

lemma wpc_if [wpc_rules]:
  "(b \<Longrightarrow> wpc C m Q s) \<Longrightarrow> (\<not> b \<Longrightarrow> wpc C n Q s) \<Longrightarrow> wpc C (if b then m else n) Q s"
  by simp

lemma wpc_case_option [wpc_rules]:
  "(v = None \<Longrightarrow> wpc C m Q s) \<Longrightarrow> (\<And>x. v = Some x \<Longrightarrow> wpc C (n x) Q s) \<Longrightarrow>
    wpc C (case v of None \<Rightarrow> m | Some x \<Rightarrow> n x) Q s"
  by (cases v) simp_all

lemma wpc_case_sum [wpc_rules]:
  "(\<And>x. v = Inl x \<Longrightarrow> wpc C (m x) Q s) \<Longrightarrow> (\<And>x. v = Inr x \<Longrightarrow> wpc C (n x) Q s) \<Longrightarrow>
    wpc C (case v of Inl x \<Rightarrow> m x | Inr x \<Rightarrow> n x) Q s"
  by (cases v) simp_all

text \<open>Loops over a list: an invariant indexed by the part of the list still to do.\<close>

fun for_each :: "('b \<Rightarrow> ('s, unit) prog) \<Rightarrow> 'b list \<Rightarrow> ('s, unit) prog" where
  "for_each f [] = State_Monad.return ()"
| "for_each f (x # xs) = State_Monad.bind (f x) (\<lambda>_. for_each f xs)"

lemma wpc_for_each:
  assumes "I xs s" and "\<And>x ys s. x \<in> set xs \<Longrightarrow> I (x # ys) s \<Longrightarrow> wpc C (f x) (\<lambda>_. I ys) s"
  shows "wpc C (for_each f xs) (\<lambda>_. I []) s"
  using assms
proof (induction xs arbitrary: s)
  case (Cons x xs)
  have "wpc C (f x) (\<lambda>_. I xs) s" using Cons.prems by simp
  then have "wpc C (f x) (\<lambda>_. wpc C (for_each f xs) (\<lambda>_. I [])) s"
    by (rule wpc_mono) (use Cons in simp)
  then show ?case by (simp add: wpc_bind)
qed (simp add: wpc_return)

section \<open>Strings\<close>

text \<open>\<open>strconv.Itoa\<close> and \<open>%d\<close> of a non-negative number.\<close>

fun dec :: "nat \<Rightarrow> string" where
  "dec n = (if n < 10 then [char_of (48 + n)] else dec (n div 10) @ [char_of (48 + n mod 10)])"

declare dec.simps [simp del]

definition dec_int :: "int \<Rightarrow> string" where
  "dec_int i = (if i < 0 then CHR ''-'' # dec (nat (- i)) else dec (nat i))"

definition has_prefix :: "string \<Rightarrow> string \<Rightarrow> bool" where
  "has_prefix s p \<longleftrightarrow> take (length p) s = p"

definition trim_prefix :: "string \<Rightarrow> string \<Rightarrow> string" where
  "trim_prefix s p = (if has_prefix s p then drop (length p) s else s)"

fun split_on :: "char \<Rightarrow> string \<Rightarrow> string list" where
  "split_on c [] = [[]]"
| "split_on c (x # xs) =
     (if x = c then [] # split_on c xs
      else case split_on c xs of [] \<Rightarrow> [[x]] | w # ws \<Rightarrow> (x # w) # ws)"

fun join :: "string \<Rightarrow> string list \<Rightarrow> string" where
  "join sep [] = []"
| "join sep [x] = x"
| "join sep (x # y # zs) = x @ sep @ join sep (y # zs)"

definition is_space :: "char \<Rightarrow> bool" where
  "is_space c \<longleftrightarrow> of_char c \<in> {9, 10, 11, 12, 13, 32 :: nat}"

definition trim_space :: "string \<Rightarrow> string" where
  "trim_space s = rev (dropWhile is_space (rev (dropWhile is_space s)))"

text \<open>\<open>strings.Fields\<close> on ASCII text.\<close>

fun str_fields_acc :: "string \<Rightarrow> string \<Rightarrow> string list" where
  "str_fields_acc w [] = (if w = [] then [] else [rev w])"
| "str_fields_acc w (c # cs) =
     (if is_space c then (if w = [] then str_fields_acc [] cs else rev w # str_fields_acc [] cs)
      else str_fields_acc (c # w) cs)"

definition str_fields :: "string \<Rightarrow> string list" where
  "str_fields s = str_fields_acc [] s"

lemma has_prefix_append [simp]: "has_prefix (p @ s) p"
  by (simp add: has_prefix_def)

lemma trim_prefix_append [simp]: "trim_prefix (p @ s) p = s"
  by (simp add: trim_prefix_def)

lemma digit_char_inj: "a < 10 \<Longrightarrow> b < 10 \<Longrightarrow> (char_of (48 + a :: nat) :: char) = char_of (48 + b) \<longleftrightarrow> a = b"
  by (simp add: char_of_eq_iff [of "48 + b"] flip: nat_int_comparison)

lemma dec_digits: "c \<in> set (dec n) \<Longrightarrow> 48 \<le> (of_char c :: nat) \<and> of_char c < (58 :: nat)"
proof (induction n rule: dec.induct)
  case (1 n)
  have "of_char (char_of (48 + d :: nat) :: char) = 48 + d" if "d < 10" for d
    using that by (simp add: of_char_of)
  then show ?case using 1 by (subst (asm) dec.simps) (auto split: if_splits)
qed

lemma dec_not_Nil [simp]: "dec n \<noteq> []"
  by (subst dec.simps) simp

lemma dec_inj: "dec m = dec n \<longleftrightarrow> m = n"
proof
  show "dec m = dec n \<Longrightarrow> m = n"
  proof (induction m arbitrary: n rule: dec.induct)
    case (1 m)
    have eq: "dec m = (if m < 10 then [char_of (48 + m)] else dec (m div 10) @ [char_of (48 + m mod 10)])"
      "dec n = (if n < 10 then [char_of (48 + n)] else dec (n div 10) @ [char_of (48 + n mod 10)])"
      by (simp_all only: dec.simps [of m] dec.simps [of n])
    show ?case
    proof (cases "m < 10 \<or> n < 10")
      case True
      then show ?thesis using 1(2) digit_char_inj [of m n] dec_not_Nil [symmetric]
        unfolding eq by (auto split: if_splits simp: append_eq_Cons_conv Cons_eq_append_conv)
    next
      case False
      then have "dec (m div 10) = dec (n div 10)" "m mod 10 = n mod 10"
        using 1(2) digit_char_inj [of "m mod 10" "n mod 10"] unfolding eq by auto
      then have "m div 10 = n div 10" "m mod 10 = n mod 10" using 1(1) False by auto
      then show ?thesis by (metis mult_div_mod_eq)
    qed
  qed
qed simp

text \<open>Digits followed by a separator determine the number and the rest.\<close>

lemma dec_sep:
  assumes "of_char c < (48 :: nat)"
  shows "dec m @ c # xs = dec n @ c # ys \<longleftrightarrow> m = n \<and> xs = ys"
proof
  assume eq: "dec m @ c # xs = dec n @ c # ys"
  have no: "c \<notin> set (dec k)" for k using dec_digits [of c k] assms by auto
  have tw: "takeWhile (\<lambda>x. x \<noteq> c) (dec k @ c # zs) = dec k" for k zs
    using no [of k] by (subst takeWhile_append2) auto
  have "dec m = dec n" using arg_cong [OF eq, of "takeWhile (\<lambda>x. x \<noteq> c)"] by (simp only: tw)
  then show "m = n \<and> xs = ys" using eq dec_inj by simp
qed simp

end
