(* ===== verification/Netns.thy ===== *)
theory Netns
  imports Crash_Program
begin

text \<open>
  Network namespaces of the sandboxes (\<^verbatim>\<open>src/agent/internal/netns/netns.go\<close>). Every effect goes through \<open>run\<close>,
  which executes \<open>ip\<close>, \<open>iptables\<close> or \<open>sysctl\<close>: it is a parameter that maps a command and the state of
  the host to an error and the new state. What the code relies on of these programs is stated by
  \<open>links_ok\<close> (root-side addresses and named namespaces) and \<open>forward_ok\<close> (the \<open>FORWARD\<close> chain).

  The theory shows that the isolation rules stay ahead of the egress rules at every moment, that a failed
  \<open>Create\<close> leaves nothing behind, that an address is only ever held while its namespace exists, and that
  the self-healing of a slot touches no other interface.
\<close>

type_synonym cmd = "string list"
type_synonym 's runner = "cmd \<Rightarrow> 's \<Rightarrow> string option \<times> 's"

record Spec =
  sp_Name :: string
  sp_VethHost :: string
  sp_VethGuest :: string
  sp_VethHostIP :: string
  sp_VethGuestIP :: string
  sp_VethSubnetMask :: int
  sp_TapName :: string
  sp_TapHostIP :: string
  sp_TapSubnetMask :: int
  sp_GuestIP :: string
  sp_PortMap :: "(int \<times> int) list"
  sp_WANIface :: string
  sp_PoolCIDR :: string

definition runc :: "'s runner \<Rightarrow> cmd \<Rightarrow> ('s, string option) prog" where
  "runc run c = act (run c)"

section \<open>Root firewall rules\<close>

definition iptablesVerbAt :: "string list \<Rightarrow> nat" where
  "iptablesVerbAt args = (if length args \<ge> 2 \<and> args ! 0 = ''-t'' then 2 else 0)"

definition iptablesCheckArgs :: "string list \<Rightarrow> string list" where
  "iptablesCheckArgs args = (let v = iptablesVerbAt args in take v args @ [''-C''] @ drop v args)"

definition iptablesInsertArgs :: "string list \<Rightarrow> string list" where
  "iptablesInsertArgs args =
     (let v = iptablesVerbAt args in take v args @ [''-I'', args ! v, ''1''] @ drop (Suc v) args)"

definition ensureRoot :: "'s runner \<Rightarrow> string list \<Rightarrow> ('s, unit) prog" where
  "ensureRoot run args =
     (let v = (if length args \<ge> 2 \<and> args ! 0 = ''-t'' then 2 else 0) in
      do {
        e \<leftarrow> runc run (''iptables'' # take v args @ [''-C''] @ drop v args);
        if e = None then State_Monad.return ()
        else do {
          _ \<leftarrow> runc run (''iptables'' # take v args @ [''-A''] @ drop v args);
          State_Monad.return ()
        }
      })"

definition ensureRootFirst :: "'s runner \<Rightarrow> string list \<Rightarrow> ('s, unit) prog" where
  "ensureRootFirst run args =
     do {
       e \<leftarrow> runc run (''iptables'' # iptablesCheckArgs args);
       if e = None then State_Monad.return ()
       else do {
         _ \<leftarrow> runc run (''iptables'' # iptablesInsertArgs args);
         State_Monad.return ()
       }
     }"

definition defaultBlockedEgressPorts :: "string list" where
  "defaultBlockedEgressPorts = [''3333'', ''4444'', ''5555'', ''7777'', ''8333'', ''9999'', ''14444'', ''45700'']"

text \<open>The environment variable is an argument: \<open>None\<close> when it is not set.\<close>

definition blockedEgressPorts :: "string option \<Rightarrow> string list" where
  "blockedEgressPorts env =
     (case env of
        None \<Rightarrow> defaultBlockedEgressPorts
      | Some v \<Rightarrow>
          if trim_space v = [] then []
          else filter (\<lambda>p. p \<noteq> []) (map trim_space (split_on (CHR '','') (trim_space v))))"

text \<open>
  \<open>cidrNetwork\<close> through \<open>net.ParseCIDR\<close> on a dotted quad: four decimal octets without leading zeros. The
  network address clears the host bits.
\<close>

definition parse_octet :: "string \<Rightarrow> nat option" where
  "parse_octet s =
     (if s \<noteq> [] \<and> length s \<le> 3 \<and> (\<forall>c \<in> set s. 48 \<le> (of_char c :: nat) \<and> of_char c < (58 :: nat))
         \<and> (length s > 1 \<longrightarrow> s ! 0 \<noteq> CHR ''0'')
      then (let v = fold (\<lambda>c a. a * 10 + (of_char c - 48)) s 0 in if v < 256 then Some v else None)
      else None)"

definition parse_ip4 :: "string \<Rightarrow> u32 option" where
  "parse_ip4 s =
     (case map parse_octet (split_on (CHR ''.'') s) of
        [Some a, Some b, Some c, Some d] \<Rightarrow> Some (of_nat (a * 2 ^ 24 + b * 2 ^ 16 + c * 2 ^ 8 + d))
      | _ \<Rightarrow> None)"

text \<open>\<open>net.IP.String\<close> of a four-byte address.\<close>

definition ip_string :: "u32 \<Rightarrow> string" where
  "ip_string v =
     dec (unat v div 2 ^ 24) @ ''.'' @ dec (unat v div 2 ^ 16 mod 256) @ ''.'' @
     dec (unat v div 2 ^ 8 mod 256) @ ''.'' @ dec (unat v mod 256)"

definition cidrNetwork :: "string \<Rightarrow> int \<Rightarrow> string" where
  "cidrNetwork ip bits =
     (case parse_ip4 ip of
        None \<Rightarrow> ip @ ''/32''
      | Some v \<Rightarrow>
          if 0 \<le> bits \<and> bits \<le> 32
          then ip_string (of_nat (unat v div 2 ^ (32 - nat bits) * 2 ^ (32 - nat bits))) @ ''/'' @ dec (nat bits)
          else ip @ ''/32'')"

definition pool_drop :: "Spec \<Rightarrow> string list" where
  "pool_drop s = [''-s'', sp_PoolCIDR s, ''-d'', sp_PoolCIDR s, ''-j'', ''DROP'']"

definition metadata_drop :: "Spec \<Rightarrow> string list" where
  "metadata_drop s = [''-s'', sp_PoolCIDR s, ''-d'', ''169.254.0.0/16'', ''-j'', ''DROP'']"

definition port_drop :: "Spec \<Rightarrow> string \<Rightarrow> string list" where
  "port_drop s port = [''-s'', sp_PoolCIDR s, ''-o'', sp_WANIface s, ''-p'', ''tcp'', ''--dport'', port, ''-j'', ''DROP'']"

definition out_accept :: "Spec \<Rightarrow> string list" where
  "out_accept s = [''-s'', sp_PoolCIDR s, ''-o'', sp_WANIface s, ''-j'', ''ACCEPT'']"

definition in_accept :: "Spec \<Rightarrow> string list" where
  "in_accept s = [''-d'', sp_PoolCIDR s, ''-i'', sp_WANIface s, ''-j'', ''ACCEPT'']"

definition root_rules :: "'s runner \<Rightarrow> string option \<Rightarrow> Spec \<Rightarrow> ('s, unit) prog" where
  "root_rules run env s =
     do {
       _ \<leftarrow> ensureRootFirst run (''FORWARD'' # pool_drop s);
       _ \<leftarrow> ensureRootFirst run (''FORWARD'' # metadata_drop s);
       _ \<leftarrow> for_each (\<lambda>port. ensureRootFirst run (''FORWARD'' # port_drop s port)) (blockedEgressPorts env);
       _ \<leftarrow> ensureRoot run [''-t'', ''nat'', ''POSTROUTING'', ''-s'', sp_PoolCIDR s, ''-o'', sp_WANIface s, ''-j'', ''MASQUERADE''];
       _ \<leftarrow> ensureRoot run (''FORWARD'' # out_accept s);
       ensureRoot run (''FORWARD'' # in_accept s)
     }"

definition setupEgress :: "'s runner \<Rightarrow> string option \<Rightarrow> Spec \<Rightarrow> ('s, string option) prog" where
  "setupEgress run env s =
     do {
       e \<leftarrow> runc run [''ip'', ''-n'', sp_Name s, ''route'', ''replace'', ''default'', ''via'', sp_VethHostIP s, ''dev'', sp_VethGuest s];
       case e of
         Some m \<Rightarrow> State_Monad.return (Some (''netns default route: '' @ m))
       | None \<Rightarrow> do {
           e \<leftarrow> runc run [''ip'', ''netns'', ''exec'', sp_Name s, ''iptables'', ''-t'', ''nat'', ''-A'', ''POSTROUTING'',
                 ''-s'', cidrNetwork (sp_TapHostIP s) (sp_TapSubnetMask s), ''-o'', sp_VethGuest s,
                 ''-j'', ''SNAT'', ''--to-source'', sp_VethGuestIP s];
           case e of
             Some m \<Rightarrow> State_Monad.return (Some (''netns egress SNAT: '' @ m))
           | None \<Rightarrow> do {
               _ \<leftarrow> (if sp_PoolCIDR s \<noteq> [] then root_rules run env s else State_Monad.return ());
               State_Monad.return None
             }
         }
     }"

section \<open>Lifecycle of a namespace\<close>

definition netns_Destroy :: "'s runner \<Rightarrow> string \<Rightarrow> string \<Rightarrow> ('s, unit) prog" where
  "netns_Destroy run name vethHost =
     do {
       _ \<leftarrow> (if vethHost \<noteq> [] then runc run [''ip'', ''link'', ''del'', vethHost] else State_Monad.return None);
       _ \<leftarrow> (if name \<noteq> [] then runc run [''ip'', ''netns'', ''del'', name] else State_Monad.return None);
       State_Monad.return ()
     }"

fun run_all :: "'s runner \<Rightarrow> cmd list \<Rightarrow> ('s, string option) prog" where
  "run_all run [] = State_Monad.return None"
| "run_all run (c # cs) =
     do {
       e \<leftarrow> runc run c;
       case e of None \<Rightarrow> run_all run cs | Some m \<Rightarrow> State_Monad.return (Some m)
     }"

definition with_mask :: "string \<Rightarrow> int \<Rightarrow> string" where
  "with_mask ip bits = ip @ ''/'' @ dec_int bits"

definition create_steps :: "Spec \<Rightarrow> cmd list" where
  "create_steps s =
     [[''ip'', ''netns'', ''add'', sp_Name s],
      [''ip'', ''-n'', sp_Name s, ''link'', ''set'', ''lo'', ''up''],
      [''ip'', ''link'', ''add'', sp_VethHost s, ''type'', ''veth'', ''peer'', ''name'', sp_VethGuest s],
      [''ip'', ''link'', ''set'', sp_VethGuest s, ''netns'', sp_Name s],
      [''ip'', ''addr'', ''add'', with_mask (sp_VethHostIP s) (sp_VethSubnetMask s), ''dev'', sp_VethHost s],
      [''ip'', ''link'', ''set'', sp_VethHost s, ''up''],
      [''ip'', ''-n'', sp_Name s, ''addr'', ''add'', with_mask (sp_VethGuestIP s) (sp_VethSubnetMask s), ''dev'', sp_VethGuest s],
      [''ip'', ''-n'', sp_Name s, ''link'', ''set'', sp_VethGuest s, ''up''],
      [''ip'', ''netns'', ''exec'', sp_Name s, ''ip'', ''tuntap'', ''add'', ''dev'', sp_TapName s, ''mode'', ''tap''],
      [''ip'', ''-n'', sp_Name s, ''addr'', ''add'', with_mask (sp_TapHostIP s) (sp_TapSubnetMask s), ''dev'', sp_TapName s],
      [''ip'', ''-n'', sp_Name s, ''link'', ''set'', sp_TapName s, ''up''],
      [''ip'', ''netns'', ''exec'', sp_Name s, ''sysctl'', ''-q'', ''-w'', ''net.ipv4.ip_forward=1''],
      [''ip'', ''netns'', ''exec'', sp_Name s, ''sysctl'', ''-q'', ''-w'', ''net.ipv4.conf.all.route_localnet=1'']]"

definition dnat_rule :: "Spec \<Rightarrow> int \<times> int \<Rightarrow> cmd" where
  "dnat_rule s p =
     [''ip'', ''netns'', ''exec'', sp_Name s, ''iptables'', ''-t'', ''nat'', ''-A'', ''PREROUTING'', ''-d'', sp_VethGuestIP s,
      ''-p'', ''tcp'', ''--dport'', dec_int (fst p), ''-j'', ''DNAT'', ''--to-destination'', sp_GuestIP s @ '':'' @ dec_int (snd p)]"

definition wildcard_dnat :: "Spec \<Rightarrow> cmd" where
  "wildcard_dnat s =
     [''ip'', ''netns'', ''exec'', sp_Name s, ''iptables'', ''-t'', ''nat'', ''-A'', ''PREROUTING'', ''-d'', sp_VethGuestIP s,
      ''-p'', ''tcp'', ''-j'', ''DNAT'', ''--to-destination'', sp_GuestIP s]"

definition tap_snat :: "Spec \<Rightarrow> cmd" where
  "tap_snat s =
     [''ip'', ''netns'', ''exec'', sp_Name s, ''iptables'', ''-t'', ''nat'', ''-A'', ''POSTROUTING'', ''-o'', sp_TapName s,
      ''-j'', ''SNAT'', ''--to-source'', sp_TapHostIP s]"

text \<open>A step of \<open>Create\<close>: on an error the namespace is destroyed and the error returned.\<close>

definition or_destroy ::
  "'s runner \<Rightarrow> Spec \<Rightarrow> ('s, string option) prog \<Rightarrow> ('s, string option) prog \<Rightarrow> ('s, string option) prog" where
  "or_destroy run s m k =
     do {
       e \<leftarrow> m;
       case e of
         None \<Rightarrow> k
       | Some x \<Rightarrow> do { _ \<leftarrow> netns_Destroy run (sp_Name s) (sp_VethHost s); State_Monad.return (Some x) }
     }"

definition netns_Create :: "'s runner \<Rightarrow> string option \<Rightarrow> Spec \<Rightarrow> ('s, string option) prog" where
  "netns_Create run env s =
     do {
       _ \<leftarrow> netns_Destroy run (sp_Name s) (sp_VethHost s);
       or_destroy run s (run_all run (create_steps s))
         (or_destroy run s (run_all run (map (dnat_rule s) (sp_PortMap s)))
           (or_destroy run s (runc run (wildcard_dnat s))
             (or_destroy run s (runc run (tap_snat s))
               (if sp_WANIface s \<noteq> [] then or_destroy run s (setupEgress run env s) (State_Monad.return None)
                else State_Monad.return None))))
     }"

text \<open>
  \<open>ClearStaleHolders\<close>: \<open>out\<close> is the output of \<open>ip -o -4 addr show to <ip>/32\<close>, or \<open>None\<close> when the query fails.
\<close>

definition stale_holders :: "string \<Rightarrow> string \<Rightarrow> string list" where
  "stale_holders out keepVeth =
     concat (map (\<lambda>line.
       (let f = str_fields line in
        if length f < 2 then []
        else (let w = f ! 1;
                  dev = (if w \<noteq> [] \<and> last w = CHR '':'' then butlast w else w) in
              if dev = [] \<or> dev = keepVeth \<or> \<not> has_prefix dev ''vh-'' then [] else [dev])))
       (split_on (CHR 0x0A) out))"

definition ClearStaleHolders ::
  "'s runner \<Rightarrow> (string \<Rightarrow> 's \<Rightarrow> string option) \<Rightarrow> string \<Rightarrow> string \<Rightarrow> ('s, string list) prog" where
  "ClearStaleHolders run addr_show hostVethIP keepVeth =
     (if hostVethIP = [] then State_Monad.return []
      else do {
        out \<leftarrow> ask (addr_show (hostVethIP @ ''/32''));
        case out of
          None \<Rightarrow> State_Monad.return []
        | Some text \<Rightarrow> do {
            _ \<leftarrow> for_each (\<lambda>dev. do { _ \<leftarrow> runc run [''ip'', ''link'', ''del'', dev]; State_Monad.return () }) (stale_holders text keepVeth);
            State_Monad.return (stale_holders text keepVeth)
          }
      })"

text \<open>\<open>devFromRoute\<close> and \<open>detectWAN\<close>; \<open>route args\<close> is the output of \<open>ip -o route <args>\<close>.\<close>

fun after_dev :: "string list \<Rightarrow> string" where
  "after_dev (f # g # fs) = (if f = ''dev'' then g else after_dev (g # fs))"
| "after_dev _ = []"

definition devFromRoute :: "(string list \<Rightarrow> string option) \<Rightarrow> string list \<Rightarrow> string" where
  "devFromRoute route args = (case route args of None \<Rightarrow> [] | Some out \<Rightarrow> after_dev (str_fields out))"

definition detectWAN :: "(string list \<Rightarrow> string option) \<Rightarrow> string" where
  "detectWAN route =
     (if devFromRoute route [''get'', ''1.1.1.1''] \<noteq> [] then devFromRoute route [''get'', ''1.1.1.1'']
      else if devFromRoute route [''show'', ''default''] \<noteq> [] then devFromRoute route [''show'', ''default'']
      else ''eth0'')"

section \<open>The FORWARD chain\<close>

text \<open>
  What the rules rely on of \<open>iptables\<close>: a check changes nothing and succeeds only for a rule that is there,
  an insertion at position 1 goes to the front, an addition to the end, a command that reports an error
  has no effect, and commands on other tables or namespaces leave the chain alone.
\<close>

definition forward_cmd :: "cmd \<Rightarrow> bool" where
  "forward_cmd c \<longleftrightarrow> length c \<ge> 3 \<and> c ! 0 = ''iptables'' \<and> c ! 2 = ''FORWARD''"

definition forward_ok :: "'s runner \<Rightarrow> ('s \<Rightarrow> string list list) \<Rightarrow> bool" where
  "forward_ok run chain \<longleftrightarrow>
     (\<forall>r k. chain (snd (run (''iptables'' # ''-C'' # ''FORWARD'' # r) k)) = chain k
        \<and> (fst (run (''iptables'' # ''-C'' # ''FORWARD'' # r) k) = None \<longrightarrow> r \<in> set (chain k)))
   \<and> (\<forall>r k. chain (snd (run (''iptables'' # ''-I'' # ''FORWARD'' # ''1'' # r) k)) =
        (if fst (run (''iptables'' # ''-I'' # ''FORWARD'' # ''1'' # r) k) = None then r # chain k else chain k))
   \<and> (\<forall>r k. chain (snd (run (''iptables'' # ''-A'' # ''FORWARD'' # r) k)) =
        (if fst (run (''iptables'' # ''-A'' # ''FORWARD'' # r) k) = None then chain k @ [r] else chain k))
   \<and> (\<forall>c k. \<not> forward_cmd c \<longrightarrow> chain (snd (run c k)) = chain k)"

text \<open>No rule that accepts is ahead of one that drops.\<close>

definition drops_first :: "string list list \<Rightarrow> bool" where
  "drops_first = sorted_wrt (\<lambda>a b. \<not> (last a = ''ACCEPT'' \<and> last b = ''DROP''))"

lemma iptables_args [simp]:
  "iptablesCheckArgs (''FORWARD'' # r) = ''-C'' # ''FORWARD'' # r"
  "iptablesInsertArgs (''FORWARD'' # r) = ''-I'' # ''FORWARD'' # ''1'' # r"
  by (simp_all add: iptablesCheckArgs_def iptablesInsertArgs_def iptablesVerbAt_def)

lemma wpc_runc: "C (snd (run c s)) \<Longrightarrow> Q (fst (run c s)) (snd (run c s)) \<Longrightarrow> wpc C (runc run c) Q s"
  unfolding runc_def by (rule wpc_act)

text \<open>Progress of the chain: it stays ordered, keeps its rules, and commands that never fail add \<open>R\<close>.\<close>

definition grown :: "bool \<Rightarrow> (string list) set \<Rightarrow> string list list \<Rightarrow> string list list \<Rightarrow> bool" where
  "grown healthy R old new \<longleftrightarrow> drops_first new \<and> set old \<subseteq> set new \<and> (healthy \<longrightarrow> R \<subseteq> set new)"

definition changes_succeed :: "'s runner \<Rightarrow> bool" where
  "changes_succeed run \<longleftrightarrow> (\<forall>r k. fst (run (''iptables'' # ''-I'' # ''FORWARD'' # ''1'' # r) k) = None
     \<and> fst (run (''iptables'' # ''-A'' # ''FORWARD'' # r) k) = None)"

lemma ensureRootFirst_grows:
  assumes ok: "forward_ok run chain" and d: "drops_first (chain s)" and r: "last r = ''DROP''"
  shows "wpc (\<lambda>x. drops_first (chain x)) (ensureRootFirst run (''FORWARD'' # r))
    (\<lambda>_ s'. grown (changes_succeed run) {r} (chain s) (chain s')) s"
proof -
  have "drops_first (r # chain s)" using d r by (simp add: drops_first_def)
  moreover have c: "chain (snd (run (''iptables'' # ''-C'' # ''FORWARD'' # r) s)) = chain s"
    "fst (run (''iptables'' # ''-C'' # ''FORWARD'' # r) s) = None \<Longrightarrow> r \<in> set (chain s)"
    using ok unfolding forward_ok_def by blast+
  moreover have "chain (snd (run (''iptables'' # ''-I'' # ''FORWARD'' # ''1'' # r) k)) =
      (if fst (run (''iptables'' # ''-I'' # ''FORWARD'' # ''1'' # r) k) = None then r # chain k else chain k)" for k
    using ok unfolding forward_ok_def by blast
  ultimately show ?thesis using d unfolding ensureRootFirst_def
    by (intro wpc_rules wpc_runc) (auto simp: grown_def changes_succeed_def)
qed

lemma ensureRoot_grows:
  assumes ok: "forward_ok run chain" and d: "drops_first (chain s)" and r: "last r = ''ACCEPT''"
  shows "wpc (\<lambda>x. drops_first (chain x)) (ensureRoot run (''FORWARD'' # r))
    (\<lambda>_ s'. grown (changes_succeed run) {r} (chain s) (chain s')) s"
proof -
  have "drops_first (chain s @ [r])" using d r by (simp add: drops_first_def sorted_wrt_append)
  moreover have c: "chain (snd (run (''iptables'' # ''-C'' # ''FORWARD'' # r) s)) = chain s"
    "fst (run (''iptables'' # ''-C'' # ''FORWARD'' # r) s) = None \<Longrightarrow> r \<in> set (chain s)"
    using ok unfolding forward_ok_def by blast+
  moreover have "chain (snd (run (''iptables'' # ''-A'' # ''FORWARD'' # r) k)) =
      (if fst (run (''iptables'' # ''-A'' # ''FORWARD'' # r) k) = None then chain k @ [r] else chain k)" for k
    using ok unfolding forward_ok_def by blast
  ultimately show ?thesis using d unfolding ensureRoot_def Let_def
    by (simp, intro wpc_rules wpc_runc) (auto simp: grown_def changes_succeed_def)
qed

text \<open>Commands outside the chain.\<close>

lemma runc_other:
  assumes "forward_ok run chain" "drops_first (chain s)" "\<not> forward_cmd c"
  shows "wpc (\<lambda>x. drops_first (chain x)) (runc run c) (\<lambda>_ s'. chain s' = chain s) s"
  using assms unfolding forward_ok_def by (intro wpc_runc) metis+

lemma ensureRoot_nat_other:
  assumes "forward_ok run chain" "drops_first (chain s)"
  shows "wpc (\<lambda>x. drops_first (chain x)) (ensureRoot run (''-t'' # ''nat'' # r)) (\<lambda>_ s'. chain s' = chain s) s"
proof -
  have "chain (snd (run (''iptables'' # ''-t'' # ''nat'' # xs) k)) = chain k" for xs k
    using assms(1) unfolding forward_ok_def by (simp add: forward_cmd_def)
  then show ?thesis using assms(2) unfolding ensureRoot_def Let_def
    by (simp, intro wpc_rules wpc_runc) auto
qed

lemma grown_trans: "grown h R a b \<Longrightarrow> grown h S b c \<Longrightarrow> grown h (R \<union> S) a c"
  by (auto simp: grown_def)

lemma wpc_grown_bind:
  assumes "wpc C m (\<lambda>_ s'. grown h R (chain s) (chain s')) s"
    and "\<And>r s'. drops_first (chain s') \<Longrightarrow> wpc C (f r) (\<lambda>_ s''. grown h S (chain s') (chain s'')) s'"
  shows "wpc C (State_Monad.bind m f) (\<lambda>_ s''. grown h (R \<union> S) (chain s) (chain s'')) s"
proof (rule wpc_bind, rule wpc_mono [OF assms(1)])
  fix r s' assume g: "grown h R (chain s) (chain s')"
  then have "wpc C (f r) (\<lambda>_ s''. grown h S (chain s') (chain s'')) s'" using assms(2) by (simp add: grown_def)
  then show "wpc C (f r) (\<lambda>_ s''. grown h (R \<union> S) (chain s) (chain s'')) s'"
    by (rule wpc_mono) (rule grown_trans [OF g])
qed

lemma same_grown: "wpc C m (\<lambda>_ s'. chain s' = chain s) s \<Longrightarrow> drops_first (chain s) \<Longrightarrow>
    wpc C m (\<lambda>_ s'. grown h {} (chain s) (chain s')) s"
  by (erule wpc_mono) (simp add: grown_def)

lemma ports_grow:
  assumes "forward_ok run chain" "drops_first (chain s)"
  shows "wpc (\<lambda>x. drops_first (chain x)) (for_each (\<lambda>p. ensureRootFirst run (''FORWARD'' # port_drop sp p)) ps)
    (\<lambda>_ s'. grown (changes_succeed run) (port_drop sp ` set ps) (chain s) (chain s')) s"
  using assms(2)
proof (induction ps arbitrary: s)
  case (Cons p ps)
  have "wpc (\<lambda>x. drops_first (chain x)) (for_each (\<lambda>p. ensureRootFirst run (''FORWARD'' # port_drop sp p)) (p # ps))
    (\<lambda>_ s'. grown (changes_succeed run) ({port_drop sp p} \<union> port_drop sp ` set ps) (chain s) (chain s')) s"
    unfolding for_each.simps
    by (rule wpc_grown_bind, rule ensureRootFirst_grows [OF assms(1) Cons.prems]) (simp_all add: port_drop_def Cons.IH [unfolded port_drop_def])
  then show ?case by simp
qed (simp add: wpc_return grown_def)

definition egress_rules :: "string option \<Rightarrow> Spec \<Rightarrow> string list set" where
  "egress_rules env s = {pool_drop s, metadata_drop s, out_accept s, in_accept s} \<union> port_drop s ` set (blockedEgressPorts env)"

lemma root_rules_grow:
  assumes ok: "forward_ok run chain" and d: "drops_first (chain k)"
  shows "wpc (\<lambda>x. drops_first (chain x)) (root_rules run env s)
    (\<lambda>_ k'. grown (changes_succeed run) (egress_rules env s) (chain k) (chain k')) k"
proof -
  have l: "last (pool_drop s) = ''DROP''" "last (metadata_drop s) = ''DROP''"
    "last (out_accept s) = ''ACCEPT''" "last (in_accept s) = ''ACCEPT''"
    by (simp_all add: pool_drop_def metadata_drop_def out_accept_def in_accept_def)
  have "wpc (\<lambda>x. drops_first (chain x)) (root_rules run env s)
    (\<lambda>_ k'. grown (changes_succeed run)
      ({pool_drop s} \<union> ({metadata_drop s} \<union> (port_drop s ` set (blockedEgressPorts env) \<union> ({} \<union> ({out_accept s} \<union> {in_accept s})))))
      (chain k) (chain k')) k"
    unfolding root_rules_def
    by (intro wpc_grown_bind ensureRootFirst_grows [OF ok] ensureRoot_grows [OF ok] ports_grow [OF ok]
        same_grown ensureRoot_nat_other [OF ok] d l) assumption+
  then show ?thesis by (simp add: egress_rules_def insert_commute Un_ac)
qed

lemma run_all_other:
  assumes "forward_ok run chain" "drops_first (chain s)" "\<forall>c \<in> set cs. \<not> forward_cmd c"
  shows "wpc (\<lambda>x. drops_first (chain x)) (run_all run cs) (\<lambda>_ s'. chain s' = chain s) s"
  using assms(2,3)
proof (induction cs arbitrary: s)
  case (Cons c cs)
  have "wpc (\<lambda>x. drops_first (chain x)) (runc run c) (\<lambda>_ s'. chain s' = chain s) s"
    using Cons.prems by (intro runc_other [OF assms(1)]) auto
  then have "wpc (\<lambda>x. drops_first (chain x)) (runc run c)
     (\<lambda>e. wpc (\<lambda>x. drops_first (chain x)) (case e of None \<Rightarrow> run_all run cs | Some m \<Rightarrow> State_Monad.return (Some m)) (\<lambda>_ s'. chain s' = chain s)) s"
  proof (rule wpc_mono)
    fix e s' assume "chain s' = chain s"
    then show "wpc (\<lambda>x. drops_first (chain x)) (case e of None \<Rightarrow> run_all run cs | Some m \<Rightarrow> State_Monad.return (Some m)) (\<lambda>_ s'. chain s' = chain s) s'"
      using Cons.IH [of s'] Cons.prems by (auto intro!: wpc_rules)
  qed
  then show ?case by (simp add: wpc_bind)
qed (simp add: wpc_return)

lemma destroy_other:
  assumes "forward_ok run chain" "drops_first (chain s)"
  shows "wpc (\<lambda>x. drops_first (chain x)) (netns_Destroy run n v) (\<lambda>_ s'. chain s' = chain s) s"
proof -
  have "chain (snd (run [''ip'', x, ''del'', y] k)) = chain k" for x y k
    using assms(1) unfolding forward_ok_def by (simp add: forward_cmd_def)
  then show ?thesis using assms(2) unfolding netns_Destroy_def by (intro wpc_rules wpc_runc) auto
qed

text \<open>Postcondition of a part of \<open>Create\<close>: the chain grew, by \<open>R\<close> when the part succeeded.\<close>

definition part_ok :: "bool \<Rightarrow> string list set \<Rightarrow> string list list \<Rightarrow> string option \<Rightarrow> string list list \<Rightarrow> bool" where
  "part_ok h R old e new \<longleftrightarrow> grown h (if e = None then R else {}) old new"

lemma or_destroy_part:
  assumes ok: "forward_ok run chain"
    and m: "wpc (\<lambda>x. drops_first (chain x)) m (\<lambda>e s'. part_ok h R (chain s) e (chain s')) s"
    and k: "\<And>s'. drops_first (chain s') \<Longrightarrow> wpc (\<lambda>x. drops_first (chain x)) k (\<lambda>e s''. part_ok h S (chain s') e (chain s'')) s'"
  shows "wpc (\<lambda>x. drops_first (chain x)) (or_destroy run sp m k) (\<lambda>e s'. part_ok h (R \<union> S) (chain s) e (chain s')) s"
  unfolding or_destroy_def
proof (rule wpc_bind, rule wpc_mono [OF m], rule wpc_case_option)
  fix e s' assume p: "part_ok h R (chain s) e (chain s')"
  then have d: "drops_first (chain s')" by (simp add: part_ok_def grown_def)
  show "wpc (\<lambda>x. drops_first (chain x)) k (\<lambda>e s'. part_ok h (R \<union> S) (chain s) e (chain s')) s'" if "e = None"
    using k [OF d] by (rule wpc_mono) (use p that in \<open>auto simp: part_ok_def grown_def split: if_splits\<close>)
  show "wpc (\<lambda>x. drops_first (chain x)) (do { _ \<leftarrow> netns_Destroy run (sp_Name sp) (sp_VethHost sp); State_Monad.return (Some x) })
     (\<lambda>e s'. part_ok h (R \<union> S) (chain s) e (chain s')) s'" if "e = Some x" for x
    by (rule wpc_bind, rule wpc_mono [OF destroy_other [OF ok d]], rule wpc_return)
      (use p in \<open>auto simp: part_ok_def grown_def split: if_splits\<close>)
qed

lemma same_part: "wpc C m (\<lambda>_ s'. chain s' = chain s) s \<Longrightarrow> drops_first (chain s) \<Longrightarrow>
    wpc C m (\<lambda>e s'. part_ok h {} (chain s) e (chain s')) s"
  by (erule wpc_mono) (simp add: grown_def part_ok_def)

lemma setupEgress_part:
  assumes ok: "forward_ok run chain" and d: "drops_first (chain k)" and p: "sp_PoolCIDR s \<noteq> []"
  shows "wpc (\<lambda>x. drops_first (chain x)) (setupEgress run env s)
    (\<lambda>e k'. part_ok (changes_succeed run) (egress_rules env s) (chain k) e (chain k')) k"
proof -
  have r: "wpc (\<lambda>x. drops_first (chain x)) (do { _ \<leftarrow> (if sp_PoolCIDR s \<noteq> [] then root_rules run env s else State_Monad.return ()); State_Monad.return None })
    (\<lambda>e k'. part_ok (changes_succeed run) (egress_rules env s) (chain k) e (chain k')) k'"
    if "chain k' = chain k" for k'
    using root_rules_grow [OF ok, of k' env s] d p that
    by (auto intro!: wpc_rules elim!: wpc_mono simp: part_ok_def)
  show ?thesis unfolding setupEgress_def
    by (intro wpc_bind wpc_mono [OF runc_other [OF ok]] wpc_case_option wpc_return r)
      (use d in \<open>auto simp: forward_cmd_def part_ok_def grown_def\<close>)
qed

lemma Create_part:
  assumes ok: "forward_ok run chain" and d: "drops_first (chain k)" and s: "sp_PoolCIDR s \<noteq> []" "sp_WANIface s \<noteq> []"
  shows "wpc (\<lambda>x. drops_first (chain x)) (netns_Create run env s)
    (\<lambda>e k'. part_ok (changes_succeed run) (egress_rules env s) (chain k) e (chain k')) k"
proof -
  have o1: "\<forall>c \<in> set (create_steps s). \<not> forward_cmd c" "\<forall>c \<in> set (map (dnat_rule s) (sp_PortMap s)). \<not> forward_cmd c"
    "\<not> forward_cmd (wildcard_dnat s)" "\<not> forward_cmd (tap_snat s)"
    by (auto simp: create_steps_def dnat_rule_def wildcard_dnat_def tap_snat_def forward_cmd_def)
  let ?R = "egress_rules env s"
  have "wpc (\<lambda>x. drops_first (chain x)) (State_Monad.return None) (\<lambda>e k''. part_ok (changes_succeed run) {} (chain k') e (chain k'')) k'"
    if "drops_first (chain k')" for k' using that by (intro wpc_return) (simp add: part_ok_def grown_def)
  note parts = or_destroy_part [OF ok same_part [OF run_all_other [OF ok _ o1(1)]]] or_destroy_part [OF ok same_part [OF run_all_other [OF ok _ o1(2)]]]
    or_destroy_part [OF ok same_part [OF runc_other [OF ok _ o1(3)]]] or_destroy_part [OF ok same_part [OF runc_other [OF ok _ o1(4)]]]
    or_destroy_part [OF ok setupEgress_part [OF ok _ s(1)] this]
  have all: "wpc (\<lambda>x. drops_first (chain x)) (or_destroy run s (run_all run (create_steps s))
         (or_destroy run s (run_all run (map (dnat_rule s) (sp_PortMap s)))
           (or_destroy run s (runc run (wildcard_dnat s))
             (or_destroy run s (runc run (tap_snat s)) (or_destroy run s (setupEgress run env s) (State_Monad.return None))))))
    (\<lambda>e k''. part_ok (changes_succeed run) ({} \<union> ({} \<union> ({} \<union> ({} \<union> (?R \<union> {}))))) (chain k') e (chain k'')) k'"
    if "drops_first (chain k')" for k'
    using that by (intro parts) assumption+
  have "wpc (\<lambda>x. drops_first (chain x)) (or_destroy run s (run_all run (create_steps s))
         (or_destroy run s (run_all run (map (dnat_rule s) (sp_PortMap s)))
           (or_destroy run s (runc run (wildcard_dnat s))
             (or_destroy run s (runc run (tap_snat s)) (or_destroy run s (setupEgress run env s) (State_Monad.return None))))))
    (\<lambda>e k''. part_ok (changes_succeed run) ?R (chain k) e (chain k'')) k'"
    if "chain k' = chain k" for k' using all [of k'] that d by simp
  then show ?thesis unfolding netns_Create_def using s(2) d
    by (simp, intro wpc_bind wpc_mono [OF destroy_other [OF ok]]) auto
qed

section \<open>Addresses and namespaces\<close>

text \<open>
  What the lifecycle relies on of \<open>ip\<close>. \<open>links\<close> are the interfaces of the root namespace with the addresses
  they carry, \<open>nss\<close> the named namespaces. Deleting a link or a namespace leaves none of that name (the
  command fails only when there is none), adding does at most what it says, also when it reports an error,
  and every other command leaves both alone.
\<close>

fun touches :: "cmd \<Rightarrow> bool" where
  "touches [a, b, c, d] \<longleftrightarrow> a = ''ip'' \<and> (b = ''link'' \<and> c = ''del'' \<or> b = ''netns'' \<and> (c = ''del'' \<or> c = ''add''))"
| "touches [a, b, c, d, e, f] \<longleftrightarrow> a = ''ip'' \<and> b = ''addr'' \<and> c = ''add''"
| "touches _ \<longleftrightarrow> False"

definition links_ok :: "'s runner \<Rightarrow> ('s \<Rightarrow> (string \<times> string) set) \<Rightarrow> ('s \<Rightarrow> string set) \<Rightarrow> bool" where
  "links_ok run links nss \<longleftrightarrow>
     (\<forall>d k. links (snd (run [''ip'', ''link'', ''del'', d] k)) = {l \<in> links k. fst l \<noteq> d}
        \<and> nss (snd (run [''ip'', ''link'', ''del'', d] k)) = nss k)
   \<and> (\<forall>n k. links (snd (run [''ip'', ''netns'', ''del'', n] k)) \<subseteq> links k
        \<and> nss (snd (run [''ip'', ''netns'', ''del'', n] k)) = nss k - {n})
   \<and> (\<forall>n k. links (snd (run [''ip'', ''netns'', ''add'', n] k)) = links k
        \<and> nss k \<subseteq> nss (snd (run [''ip'', ''netns'', ''add'', n] k))
        \<and> nss (snd (run [''ip'', ''netns'', ''add'', n] k)) \<subseteq> insert n (nss k)
        \<and> (fst (run [''ip'', ''netns'', ''add'', n] k) = None \<longrightarrow> n \<in> nss (snd (run [''ip'', ''netns'', ''add'', n] k))))
   \<and> (\<forall>a d k. links (snd (run [''ip'', ''addr'', ''add'', a, ''dev'', d] k)) \<subseteq> insert (d, a) (links k)
        \<and> nss (snd (run [''ip'', ''addr'', ''add'', a, ''dev'', d] k)) = nss k)
   \<and> (\<forall>c k. \<not> touches c \<longrightarrow> links (snd (run c k)) = links k \<and> nss (snd (run c k)) = nss k)"

text \<open>The commands reach the rest of the state (\<open>rest\<close>) in no way.\<close>

definition rest_ok :: "'s runner \<Rightarrow> ('s \<Rightarrow> 'r) \<Rightarrow> bool" where
  "rest_ok run rest \<longleftrightarrow> (\<forall>c k. rest (snd (run c k)) = rest k)"

lemma touches_ip: "touches c \<Longrightarrow> \<exists>cs. c = ''ip'' # cs"
  by (cases c rule: touches.cases) simp_all

lemma links_okD:
  assumes "links_ok run links nss"
  shows "links (snd (run [''ip'', ''link'', ''del'', d] k)) = {l \<in> links k. fst l \<noteq> d}"
    "nss (snd (run [''ip'', ''link'', ''del'', d] k)) = nss k"
    "links (snd (run [''ip'', ''netns'', ''del'', n] k)) \<subseteq> links k"
    "nss (snd (run [''ip'', ''netns'', ''del'', n] k)) = nss k - {n}"
    "links (snd (run [''ip'', ''netns'', ''add'', n] k)) = links k"
    "nss k \<subseteq> nss (snd (run [''ip'', ''netns'', ''add'', n] k))"
    "nss (snd (run [''ip'', ''netns'', ''add'', n] k)) \<subseteq> insert n (nss k)"
    "fst (run [''ip'', ''netns'', ''add'', n] k) = None \<Longrightarrow> n \<in> nss (snd (run [''ip'', ''netns'', ''add'', n] k))"
    "links (snd (run [''ip'', ''addr'', ''add'', a, ''dev'', d] k)) \<subseteq> insert (d, a) (links k)"
    "nss (snd (run [''ip'', ''addr'', ''add'', a, ''dev'', d] k)) = nss k"
    "\<not> touches c \<Longrightarrow> links (snd (run c k)) = links k"
    "\<not> touches c \<Longrightarrow> nss (snd (run c k)) = nss k"
  using assms by (simp_all add: links_ok_def)

text \<open>
  States met on the way of a \<open>Create\<close> or \<open>Destroy\<close> of namespace \<open>n\<close> with root interface \<open>v\<close> at address
  \<open>a\<close>, from state \<open>s\<close>: only these three can differ, and the interface has an address only while the
  namespace exists.
\<close>

definition near :: "('s \<Rightarrow> (string \<times> string) set) \<Rightarrow> ('s \<Rightarrow> string set) \<Rightarrow> ('s \<Rightarrow> 'r) \<Rightarrow> string \<Rightarrow> string \<Rightarrow> string \<Rightarrow> 's \<Rightarrow> 's \<Rightarrow> bool" where
  "near links nss rest n v a s x \<longleftrightarrow>
     rest x = rest s \<and> links x \<subseteq> insert (v, a) (links s) \<and> nss s - {n} \<subseteq> nss x \<and> nss x \<subseteq> insert n (nss s)
     \<and> ((\<exists>l \<in> links x. fst l = v) \<longrightarrow> n \<in> nss x)"

definition gone :: "('s \<Rightarrow> (string \<times> string) set) \<Rightarrow> ('s \<Rightarrow> string set) \<Rightarrow> ('s \<Rightarrow> 'r) \<Rightarrow> string \<Rightarrow> string \<Rightarrow> 's \<Rightarrow> 's \<Rightarrow> bool" where
  "gone links nss rest n v s x \<longleftrightarrow>
     rest x = rest s \<and> links x \<subseteq> links s \<and> (\<forall>l \<in> links x. fst l \<noteq> v) \<and> nss x = nss s - {n}"

lemma Destroy_gone:
  assumes ok: "links_ok run links nss" "rest_ok run rest" and ne: "n \<noteq> []" "v \<noteq> []"
  shows "wpc (\<lambda>x. rest x = rest s \<and> links x \<subseteq> links s \<and> (\<forall>l \<in> links x. fst l \<noteq> v) \<and> nss s - {n} \<subseteq> nss x \<and> nss x \<subseteq> nss s)
    (netns_Destroy run n v) (\<lambda>_. gone links nss rest n v s) s"
proof -
  let ?k = "snd (run [''ip'', ''link'', ''del'', v] s)"
  let ?k' = "snd (run [''ip'', ''netns'', ''del'', n] ?k)"
  have r: "rest ?k = rest s" "rest ?k' = rest s" using ok(2) by (simp_all add: rest_ok_def)
  have l: "links ?k = {l \<in> links s. fst l \<noteq> v}" "nss ?k = nss s" by (rule links_okD [OF ok(1)])+
  have l': "links ?k' \<subseteq> links ?k" "nss ?k' = nss s - {n}" using links_okD(3,4) [OF ok(1)] l(2) by auto
  have "links ?k' \<subseteq> {l \<in> links s. fst l \<noteq> v}" using l'(1) l(1) by simp
  then show ?thesis unfolding netns_Destroy_def using ne r l l'
    by (intro wpc_rules wpc_runc) (auto simp: gone_def)
qed

lemma Destroy_shrinks:
  assumes ok: "links_ok run links nss" "rest_ok run rest"
  shows "wpc (\<lambda>x. rest x = rest s \<and> links x \<subseteq> links s) (netns_Destroy run n v)
    (\<lambda>_ x. (rest x = rest s \<and> links x \<subseteq> links s) \<and> (v \<noteq> [] \<longrightarrow> (\<forall>l \<in> links x. fst l \<noteq> v))) s"
proof -
  have r: "rest (snd (run c q)) = rest q" for c q using ok(2) by (simp add: rest_ok_def)
  have d1: "links (snd (run [''ip'', ''link'', ''del'', v] q)) = {l \<in> links q. fst l \<noteq> v}" for q by (rule links_okD(1) [OF ok(1)])
  have d2: "l \<in> links (snd (run [''ip'', ''netns'', ''del'', n] q)) \<Longrightarrow> l \<in> links q" for l q using links_okD(3) [OF ok(1)] by blast
  show ?thesis unfolding netns_Destroy_def
    by (intro wpc_bind wpc_if wpc_runc wpc_return) (use r d1 in \<open>auto dest!: d2\<close>)
qed

definition mild :: "string \<Rightarrow> string \<Rightarrow> cmd \<Rightarrow> bool" where
  "mild v a c \<longleftrightarrow> \<not> touches c \<or> c = [''ip'', ''addr'', ''add'', a, ''dev'', v]"

definition busy :: "('s \<Rightarrow> (string \<times> string) set) \<Rightarrow> ('s \<Rightarrow> string set) \<Rightarrow> ('s \<Rightarrow> 'r) \<Rightarrow> string \<Rightarrow> string \<Rightarrow> string \<Rightarrow> 's \<Rightarrow> 's \<Rightarrow> bool" where
  "busy links nss rest n v a s x \<longleftrightarrow> near links nss rest n v a s x \<and> n \<in> nss x"

lemma runc_busy:
  assumes ok: "links_ok run links nss" "rest_ok run rest" and "mild v a c" "busy links nss rest n v a s x"
  shows "wpc (near links nss rest n v a s) (runc run c) (\<lambda>_. busy links nss rest n v a s) x"
proof -
  have "rest (snd (run c x)) = rest x" using ok(2) by (simp add: rest_ok_def)
  moreover have "links (snd (run c x)) \<subseteq> insert (v, a) (links x)" "nss (snd (run c x)) = nss x"
    using assms(3) links_okD(9-12) [OF ok(1)] unfolding mild_def by blast+
  ultimately show ?thesis using assms(4) by (intro wpc_runc) (auto simp: busy_def near_def)
qed

lemma run_all_busy:
  assumes ok: "links_ok run links nss" "rest_ok run rest" and "\<forall>c \<in> set cs. mild v a c" "busy links nss rest n v a s x"
  shows "wpc (near links nss rest n v a s) (run_all run cs) (\<lambda>_. busy links nss rest n v a s) x"
  using assms(3,4)
proof (induction cs arbitrary: x)
  case (Cons c cs)
  have "wpc (near links nss rest n v a s) (case e of None \<Rightarrow> run_all run cs | Some m \<Rightarrow> State_Monad.return (Some m)) (\<lambda>_. busy links nss rest n v a s) y"
    if "busy links nss rest n v a s y" for e y using Cons.IH [of y] Cons.prems(1) that by (auto intro!: wpc_rules)
  then show ?case unfolding run_all.simps using Cons.prems
    by (intro wpc_bind wpc_mono [OF runc_busy [OF ok]]) auto
qed (simp add: wpc_return)

lemma mild_iptables [simp]: "mild v a (''iptables'' # c)"
  using touches_ip [of "''iptables'' # c"] by (auto simp: mild_def)

lemma setupEgress_busy:
  assumes ok: "links_ok run links nss" "rest_ok run rest" and b: "busy links nss rest n v a s x"
  shows "wpc (near links nss rest n v a s) (setupEgress run env sp) (\<lambda>_. busy links nss rest n v a s) x"
proof -
  note run1 = runc_busy [OF ok]
  have m: "mild v a [''ip'', ''-n'', sp_Name sp, ''route'', ''replace'', ''default'', ''via'', sp_VethHostIP sp, ''dev'', sp_VethGuest sp]"
    "mild v a (''ip'' # ''netns'' # ''exec'' # x1 # x2 # x3 # x4 # xs)" for x1 x2 x3 x4 xs
    by (simp_all add: mild_def)
  have root: "wpc (near links nss rest n v a s) (ensureRoot run r) (\<lambda>_. busy links nss rest n v a s) y"
    "wpc (near links nss rest n v a s) (ensureRootFirst run r) (\<lambda>_. busy links nss rest n v a s) y"
    if "busy links nss rest n v a s y" for r y
    unfolding ensureRoot_def ensureRootFirst_def Let_def using that
    by (intro wpc_bind wpc_mono [OF run1] wpc_if wpc_return; simp)+
  have each: "wpc (near links nss rest n v a s) (for_each (\<lambda>p. ensureRootFirst run (''FORWARD'' # port_drop sp p)) ps) (\<lambda>_. busy links nss rest n v a s) y"
    if "busy links nss rest n v a s y" for ps y
    by (rule wpc_for_each [of "\<lambda>_. busy links nss rest n v a s"]) (use that root(2) in simp_all)
  have rules: "wpc (near links nss rest n v a s) (root_rules run env sp) (\<lambda>_. busy links nss rest n v a s) y"
    if "busy links nss rest n v a s y" for y
    unfolding root_rules_def using that
    by (intro wpc_bind wpc_mono [OF root(1)] wpc_mono [OF root(2)] wpc_mono [OF each])
  have last: "wpc (near links nss rest n v a s) (do { _ \<leftarrow> (if sp_PoolCIDR sp \<noteq> [] then root_rules run env sp else State_Monad.return ()); State_Monad.return None })
      (\<lambda>_. busy links nss rest n v a s) y" if "busy links nss rest n v a s y" for y
    by (intro wpc_bind wpc_if wpc_mono [OF rules [OF that]] wpc_return that)
  show ?thesis unfolding setupEgress_def
    by (rule wpc_bind, rule wpc_mono [OF run1 [OF m(1) b]], rule wpc_case_option, rule wpc_bind, rule wpc_mono [OF run1 [OF m(2)]], assumption)
      (intro wpc_case_option last wpc_return; assumption)+
qed

text \<open>A part of \<open>Create\<close>: while it succeeds the namespace is being built, and on an error it is gone.\<close>

lemma or_destroy_built:
  assumes ok: "links_ok run links nss" "rest_ok run rest" and ne: "sp_Name sp \<noteq> []" "sp_VethHost sp \<noteq> []"
    and m: "wpc (near links nss rest (sp_Name sp) (sp_VethHost sp) a s) m
      (\<lambda>e y. near links nss rest (sp_Name sp) (sp_VethHost sp) a s y \<and> (e = None \<longrightarrow> sp_Name sp \<in> nss y)) x"
    and k: "\<And>y. busy links nss rest (sp_Name sp) (sp_VethHost sp) a s y \<Longrightarrow>
      wpc (near links nss rest (sp_Name sp) (sp_VethHost sp) a s) k
      (\<lambda>e y. near links nss rest (sp_Name sp) (sp_VethHost sp) a s y \<and> (if e = None then sp_Name sp \<in> nss y else gone links nss rest (sp_Name sp) (sp_VethHost sp) s y)) y"
  shows "wpc (near links nss rest (sp_Name sp) (sp_VethHost sp) a s) (or_destroy run sp m k)
      (\<lambda>e y. near links nss rest (sp_Name sp) (sp_VethHost sp) a s y \<and> (if e = None then sp_Name sp \<in> nss y else gone links nss rest (sp_Name sp) (sp_VethHost sp) s y)) x"
proof -
  have d: "wpc (near links nss rest (sp_Name sp) (sp_VethHost sp) a s) (netns_Destroy run (sp_Name sp) (sp_VethHost sp))
     (\<lambda>_ z. near links nss rest (sp_Name sp) (sp_VethHost sp) a s z \<and> gone links nss rest (sp_Name sp) (sp_VethHost sp) s z) y"
    if y: "near links nss rest (sp_Name sp) (sp_VethHost sp) a s y" for y
  proof (rule wpc_strengthen [OF Destroy_gone [OF ok ne, of y]])
    have y': "rest y = rest s" "nss s - {sp_Name sp} \<subseteq> nss y" "nss y \<subseteq> insert (sp_Name sp) (nss s)"
      and lk: "l \<in> links y \<Longrightarrow> fst l \<noteq> sp_VethHost sp \<Longrightarrow> l \<in> links s" for l using y by (auto simp: near_def)
    have sub: "A \<subseteq> links y \<Longrightarrow> \<forall>l \<in> A. fst l \<noteq> sp_VethHost sp \<Longrightarrow> A \<subseteq> links s" for A using lk by blast
    show "near links nss rest (sp_Name sp) (sp_VethHost sp) a s z"
      if "rest z = rest y \<and> links z \<subseteq> links y \<and> (\<forall>l \<in> links z. fst l \<noteq> sp_VethHost sp) \<and> nss y - {sp_Name sp} \<subseteq> nss z \<and> nss z \<subseteq> nss y" for z
      unfolding near_def by (intro conjI; use that y' sub [of "links z"] in \<open>(simp; fail) | blast\<close>)
    show "near links nss rest (sp_Name sp) (sp_VethHost sp) a s z \<and> gone links nss rest (sp_Name sp) (sp_VethHost sp) s z"
      if "gone links nss rest (sp_Name sp) (sp_VethHost sp) y z" for z
      unfolding near_def gone_def
      by (intro conjI; use that [unfolded gone_def] y' sub [of "links z"] in \<open>(simp; fail) | blast\<close>)
  qed
  show ?thesis unfolding or_destroy_def
  proof (rule wpc_bind, rule wpc_mono [OF m], rule wpc_case_option, goal_cases)
    case (1 e y)
    then show ?case by (intro k) (simp add: busy_def)
  next
    case (2 e y m)
    then show ?case by (intro wpc_bind wpc_mono [OF d] wpc_return) auto
  qed
qed

lemma Create_built:
  assumes ok: "links_ok run links nss" "rest_ok run rest" and ne: "sp_Name sp \<noteq> []" "sp_VethHost sp \<noteq> []"
  defines "a \<equiv> with_mask (sp_VethHostIP sp) (sp_VethSubnetMask sp)"
  shows "wpc (near links nss rest (sp_Name sp) (sp_VethHost sp) a s) (netns_Create run env sp)
    (\<lambda>e y. near links nss rest (sp_Name sp) (sp_VethHost sp) a s y \<and> (if e = None then sp_Name sp \<in> nss y else gone links nss rest (sp_Name sp) (sp_VethHost sp) s y)) s"
proof -
  let ?near = "near links nss rest (sp_Name sp) (sp_VethHost sp) a s"
  let ?busy = "busy links nss rest (sp_Name sp) (sp_VethHost sp) a s"
  let ?gone = "gone links nss rest (sp_Name sp) (sp_VethHost sp) s"
  have soft: "wpc ?near m (\<lambda>e y. ?near y \<and> (e = None \<longrightarrow> sp_Name sp \<in> nss y)) y" if "wpc ?near m (\<lambda>_. ?busy) y" for m y
    using that by (rule wpc_mono) (simp add: busy_def)
  have steps: "create_steps sp = [''ip'', ''netns'', ''add'', sp_Name sp] # drop 1 (create_steps sp)" by (simp add: create_steps_def)
  have mild1: "\<forall>c \<in> set (drop 1 (create_steps sp)). mild (sp_VethHost sp) a c" by (simp add: create_steps_def mild_def a_def)
  have mild2: "\<forall>c \<in> set (map (dnat_rule sp) (sp_PortMap sp)). mild (sp_VethHost sp) a c"
    "mild (sp_VethHost sp) a (wildcard_dnat sp)" "mild (sp_VethHost sp) a (tap_snat sp)"
    by (simp_all add: dnat_rule_def wildcard_dnat_def tap_snat_def mild_def)
  have add: "wpc ?near (runc run [''ip'', ''netns'', ''add'', sp_Name sp]) (\<lambda>e y. ?near y \<and> (e = None \<longrightarrow> ?busy y)) y" if "?gone y" for y
  proof -
    let ?y = "snd (run [''ip'', ''netns'', ''add'', sp_Name sp] y)"
    have "links ?y = links y" "nss y \<subseteq> nss ?y" "nss ?y \<subseteq> insert (sp_Name sp) (nss y)" by (rule links_okD [OF ok(1)])+
    then have "?near ?y" using that ok(2) unfolding near_def gone_def rest_ok_def by auto
    then show ?thesis using links_okD(8) [OF ok(1)] by (intro wpc_runc) (auto simp: busy_def)
  qed
  have build: "wpc ?near (run_all run (create_steps sp)) (\<lambda>e y. ?near y \<and> (e = None \<longrightarrow> sp_Name sp \<in> nss y)) y" if "?gone y" for y
    by (subst steps, unfold run_all.simps, intro wpc_bind wpc_mono [OF add [OF that]] wpc_case_option wpc_return soft run_all_busy [OF ok mild1]) auto
  have tail: "wpc ?near (if sp_WANIface sp \<noteq> [] then or_destroy run sp (setupEgress run env sp) (State_Monad.return None) else State_Monad.return None)
    (\<lambda>e y. ?near y \<and> (if e = None then sp_Name sp \<in> nss y else ?gone y)) y" if "?busy y" for y
    by (intro wpc_if or_destroy_built [OF ok ne] soft setupEgress_busy [OF ok] wpc_return) (use that in \<open>auto simp: busy_def\<close>)
  have body: "wpc ?near (or_destroy run sp (run_all run (create_steps sp))
         (or_destroy run sp (run_all run (map (dnat_rule sp) (sp_PortMap sp)))
           (or_destroy run sp (runc run (wildcard_dnat sp))
             (or_destroy run sp (runc run (tap_snat sp))
               (if sp_WANIface sp \<noteq> [] then or_destroy run sp (setupEgress run env sp) (State_Monad.return None) else State_Monad.return None)))))
     (\<lambda>e y. ?near y \<and> (if e = None then sp_Name sp \<in> nss y else ?gone y)) y" if "?gone y" for y
    by (intro or_destroy_built [OF ok ne] build [OF that] soft run_all_busy [OF ok mild2(1)] runc_busy [OF ok mild2(2)] runc_busy [OF ok mild2(3)] tail)
  show ?thesis unfolding netns_Create_def
    by (rule wpc_bind, rule wpc_strengthen [OF Destroy_gone [OF ok ne, of s]]) (simp add: near_def subset_insertI2 subset_insert_iff, blast, rule body)
qed

section \<open>A host for examples\<close>

text \<open>
  A small host that meets both sets of assumptions: \<open>fails\<close> says which commands report an error.
\<close>

record host =
  h_chain :: "string list list"
  h_links :: "(string \<times> string) list"
  h_nss :: "string list"

definition host_forward :: "string \<Rightarrow> string list \<Rightarrow> host \<Rightarrow> string option \<times> host" where
  "host_forward verb r h =
     (if verb = ''-C'' then (if r \<in> set (h_chain h) then None else Some ''no such rule'', h)
      else if verb = ''-I'' then (None, h\<lparr>h_chain := drop 1 r # h_chain h\<rparr>)
      else if verb = ''-A'' then (None, h\<lparr>h_chain := h_chain h @ [r]\<rparr>)
      else (None, h))"

definition host_links :: "cmd \<Rightarrow> host \<Rightarrow> string option \<times> host" where
  "host_links c h =
     (if c ! 1 = ''link'' then (None, h\<lparr>h_links := filter (\<lambda>l. fst l \<noteq> c ! 3) (h_links h)\<rparr>)
      else if c ! 1 = ''addr'' then (None, h\<lparr>h_links := (c ! 5, c ! 3) # h_links h\<rparr>)
      else if c ! 2 = ''del'' then (None, h\<lparr>h_nss := filter (\<lambda>n. n \<noteq> c ! 3) (h_nss h)\<rparr>)
      else (None, h\<lparr>h_nss := c ! 3 # h_nss h\<rparr>))"

definition host_run :: "(cmd \<Rightarrow> bool) \<Rightarrow> host runner" where
  "host_run fails c h =
     (if fails c then (Some ''failed'', h)
      else if forward_cmd c then host_forward (c ! 1) (drop 3 c) h
      else if touches c then host_links c h
      else (None, h))"

definition empty_host :: host where
  "empty_host = \<lparr>h_chain = [], h_links = [], h_nss = []\<rparr>"

definition demo_spec :: Spec where
  "demo_spec = \<lparr>sp_Name = ''ns-p0'', sp_VethHost = ''vh-p0'', sp_VethGuest = ''vg-p0'', sp_VethHostIP = ''10.200.0.1'',
     sp_VethGuestIP = ''10.200.0.2'', sp_VethSubnetMask = 30, sp_TapName = ''tap0'', sp_TapHostIP = ''172.20.6.117'',
     sp_TapSubnetMask = 30, sp_GuestIP = ''172.20.6.118'', sp_PortMap = [(22, 22)], sp_WANIface = ''ens4'',
     sp_PoolCIDR = ''10.200.0.0/16''\<rparr>"

lemma host_forward_ok: "forward_ok (host_run (\<lambda>_. False)) h_chain"
proof -
  have "h_chain (snd (host_run (\<lambda>_. False) c k)) = h_chain k" if "\<not> forward_cmd c" for c k
    using that by (simp add: host_run_def host_links_def)
  then show ?thesis unfolding forward_ok_def
    by (simp add: host_run_def host_forward_def forward_cmd_def)
qed

lemma host_links_ok: "links_ok (host_run (\<lambda>_. False)) (\<lambda>h. set (h_links h)) (\<lambda>h. set (h_nss h))"
proof -
  have "h_links (snd (host_run (\<lambda>_. False) c k)) = h_links k \<and> h_nss (snd (host_run (\<lambda>_. False) c k)) = h_nss k"
    if "\<not> touches c" for c k
    using that by (simp add: host_run_def host_forward_def)
  then show ?thesis unfolding links_ok_def
    by (auto simp: host_run_def host_links_def forward_cmd_def)
qed

lemmas host_eval = result_of_def final_of_def netns_Create_def netns_Destroy_def or_destroy_def create_steps_def dnat_rule_def
  wildcard_dnat_def tap_snat_def setupEgress_def root_rules_def ensureRoot_def ensureRootFirst_def runc_def act_def host_run_def
  host_forward_def host_links_def forward_cmd_def empty_host_def State_Monad.bind_def pool_drop_def metadata_drop_def
  port_drop_def out_accept_def in_accept_def demo_spec_def blockedEgressPorts_def trim_space_def

lemma demo_Create: "result_of (netns_Create (host_run (\<lambda>_. False)) (Some []) demo_spec) empty_host = None"
  by (simp add: host_eval)

section \<open>Properties\<close>

text \<open>
  C38: Tenant isolation. On a host whose \<open>FORWARD\<close> chain has no accepting rule ahead of a dropping one, with a pool and a WAN interface given: while \<open>Create\<close> builds a namespace,
  and whichever of its commands fail, the chain never gets an accepting rule ahead of a dropping one, and no rule is lost. That the dropping rules are there needs their
  insertions to work: when \<open>Create\<close> returns without error and every insertion and addition to the chain succeeded, the rules that drop guest-to-guest,
  metadata and mining traffic are all in it, ahead of every accepting rule. \<open>Create\<close> itself does not look at the errors of these insertions (\<open>Create_fails_open\<close>).
\<close>

theorem Create_isolates:
  assumes ok: "forward_ok run chain" and d: "drops_first (chain k)" and s: "sp_PoolCIDR s \<noteq> []" "sp_WANIface s \<noteq> []"
  shows "(\<forall>x \<in> set (states_of (netns_Create run env s) k). drops_first (chain x))
    \<and> set (chain k) \<subseteq> set (chain (final_of (netns_Create run env s) k))
    \<and> (result_of (netns_Create run env s) k = None \<longrightarrow> changes_succeed run \<longrightarrow>
        (\<forall>r \<in> {pool_drop s, metadata_drop s} \<union> port_drop s ` set (blockedEgressPorts env).
           \<exists>pre post. chain (final_of (netns_Create run env s) k) = pre @ r # post \<and> (\<forall>q \<in> set pre. last q \<noteq> ''ACCEPT'')))"
proof -
  note w = wpcD [OF Create_part [OF ok d s, of env]]
  let ?c = "chain (final_of (netns_Create run env s) k)"
  have fin: "drops_first ?c" "set (chain k) \<subseteq> set ?c" using w(2) by (simp_all add: part_ok_def grown_def)
  have "\<exists>pre post. ?c = pre @ r # post \<and> (\<forall>q \<in> set pre. last q \<noteq> ''ACCEPT'')"
    if r: "r \<in> set ?c" "last r = ''DROP''" for r
  proof -
    obtain pre post where "?c = pre @ r # post" using r(1) by (meson split_list)
    then show ?thesis using fin(1) r(2) unfolding drops_first_def by (fastforce simp: sorted_wrt_append)
  qed
  moreover have "r \<in> set ?c \<and> last r = ''DROP''"
    if "result_of (netns_Create run env s) k = None" "changes_succeed run"
      "r \<in> {pool_drop s, metadata_drop s} \<union> port_drop s ` set (blockedEgressPorts env)" for r
    using w(2) that by (auto simp: part_ok_def grown_def egress_rules_def pool_drop_def metadata_drop_def port_drop_def)
  ultimately show ?thesis using w(1) fin(2) by blast
qed

theorem Create_isolates_witness:
  "\<exists>pre post. h_chain (final_of (netns_Create (host_run (\<lambda>_. False)) (Some []) demo_spec) empty_host) = pre @ pool_drop demo_spec # post
     \<and> (\<forall>q \<in> set pre. last q \<noteq> ''ACCEPT'')"
proof -
  note demo_Create
  moreover have "changes_succeed (host_run (\<lambda>_. False))"
    by (simp add: changes_succeed_def host_run_def host_forward_def forward_cmd_def)
  moreover have "drops_first (h_chain empty_host)" "sp_PoolCIDR demo_spec \<noteq> []" "sp_WANIface demo_spec \<noteq> []"
    by (simp_all add: drops_first_def empty_host_def demo_spec_def)
  ultimately show ?thesis using Create_isolates [OF host_forward_ok, of empty_host demo_spec "Some []"] by blast
qed

text \<open>
  The isolation rules are best effort. When the insertion of the drop rules fails, \<open>Create\<close> still
  returns without error, with the egress rules in the chain and no rule against guest-to-guest or
  metadata traffic.
\<close>

lemma Create_fails_open:
  "result_of (netns_Create (host_run (\<lambda>c. take 2 c = [''iptables'', ''-I''])) (Some []) demo_spec) empty_host = None
   \<and> h_chain (final_of (netns_Create (host_run (\<lambda>c. take 2 c = [''iptables'', ''-I''])) (Some []) demo_spec) empty_host)
     = [out_accept demo_spec, in_accept demo_spec]"
  by (simp add: host_eval)

text \<open>
  \<open>Create\<close> is all or nothing. At every moment of it the interface carries its address only while the
  namespace exists and every other interface, namespace and part of the state is as before; if it
  returns an error, neither the interface nor the namespace is left.
\<close>

lemma Create_all_or_nothing:
  assumes ok: "links_ok run links nss" "rest_ok run rest" and ne: "sp_Name s \<noteq> []" "sp_VethHost s \<noteq> []"
  shows "(\<forall>x \<in> set (states_of (netns_Create run env s) k).
        rest x = rest k
      \<and> (\<forall>d a. (d, a) \<in> links x \<longrightarrow> (d, a) \<in> links k \<or> d = sp_VethHost s \<and> a = with_mask (sp_VethHostIP s) (sp_VethSubnetMask s))
      \<and> nss x - {sp_Name s} = nss k - {sp_Name s}
      \<and> ((\<exists>a. (sp_VethHost s, a) \<in> links x) \<longrightarrow> sp_Name s \<in> nss x))
    \<and> (if result_of (netns_Create run env s) k = None then sp_Name s \<in> nss (final_of (netns_Create run env s) k)
       else (\<forall>a. (sp_VethHost s, a) \<notin> links (final_of (netns_Create run env s) k))
          \<and> nss (final_of (netns_Create run env s) k) = nss k - {sp_Name s})"
proof -
  note w = wpcD [OF Create_built [OF ok ne, of k env]]
  show ?thesis
  proof (intro conjI ballI, goal_cases)
    case (1 x) then show ?case using w(1) by (simp add: near_def)
  next
    case (2 x) then show ?case using w(1) by (auto simp: near_def)
  next
    case (3 x) then show ?case using w(1) by (auto simp: near_def)
  next
    case (4 x) then show ?case using w(1) by (force simp: near_def)
  next
    case 5 show ?case using w(2) by (auto simp: gone_def split: if_splits)
  qed
qed

lemma Create_all_or_nothing_witness:
  "''ns-p0'' \<in> set (h_nss (final_of (netns_Create (host_run (\<lambda>_. False)) (Some []) demo_spec) empty_host))"
proof -
  note demo_Create
  moreover have "rest_ok (host_run (\<lambda>_. False)) (\<lambda>_. ())" by (simp add: rest_ok_def)
  moreover have "sp_Name demo_spec \<noteq> []" "sp_VethHost demo_spec \<noteq> []" by (simp_all add: demo_spec_def)
  ultimately show ?thesis
    using Create_all_or_nothing [OF host_links_ok, of "\<lambda>_. ()" demo_spec "Some []" empty_host] by (simp add: demo_spec_def)
qed

text \<open>
  Self-healing of a slot deletes only stale sandbox interfaces: every interface \<open>ClearStaleHolders\<close>
  removes has the prefix \<open>vh-\<close> and is not the one to keep, and the address of every other interface
  stays.
\<close>

lemma ClearStaleHolders_safe:
  assumes ok: "links_ok run links nss"
  shows "(\<forall>d \<in> set (result_of (ClearStaleHolders run show_addr ip keep) k). has_prefix d ''vh-'' \<and> d \<noteq> keep)
    \<and> (\<forall>d a. (d, a) \<in> links k \<longrightarrow> (d, a) \<in> links (final_of (ClearStaleHolders run show_addr ip keep) k)
        \<or> d \<in> set (result_of (ClearStaleHolders run show_addr ip keep) k))
    \<and> links (final_of (ClearStaleHolders run show_addr ip keep) k) \<subseteq> links k"
proof -
  have dev: "\<forall>d \<in> set (stale_holders out keep). has_prefix d ''vh-'' \<and> d \<noteq> keep" for out
    by (auto simp: stale_holders_def Let_def split: if_splits)
  have loop: "wpc (\<lambda>_. True) (for_each (\<lambda>dev. do { _ \<leftarrow> runc run [''ip'', ''link'', ''del'', dev]; State_Monad.return () }) ds)
     (\<lambda>_ x. links x = {l \<in> links k'. fst l \<notin> set ds}) k'" for ds k'
  proof (induction ds arbitrary: k')
    case (Cons d ds)
    have l: "links (snd (run [''ip'', ''link'', ''del'', d] k')) = {l \<in> links k'. fst l \<noteq> d}" by (rule links_okD(1) [OF ok])
    have "wpc (\<lambda>_. True) (for_each (\<lambda>dev. do { _ \<leftarrow> runc run [''ip'', ''link'', ''del'', dev]; State_Monad.return () }) ds)
       (\<lambda>_ x. links x = {l \<in> links k'. fst l \<notin> set (d # ds)}) (snd (run [''ip'', ''link'', ''del'', d] k'))"
      by (rule wpc_mono [OF Cons.IH]) (auto simp: l)
    then show ?case unfolding for_each.simps by (intro wpc_bind wpc_runc wpc_return) simp_all
  qed (simp add: wpc_return)
  have "wpc (\<lambda>_. True) (ClearStaleHolders run show_addr ip keep)
    (\<lambda>r x. (\<forall>d \<in> set r. has_prefix d ''vh-'' \<and> d \<noteq> keep) \<and> links x = {l \<in> links k. fst l \<notin> set r}) k"
    unfolding ClearStaleHolders_def
    by (intro wpc_if wpc_bind wpc_ask wpc_case_option wpc_return wpc_mono [OF loop]) (use dev in auto)
  then show ?thesis using wpcD(2) by fastforce
qed

definition stale_output :: string where
  "stale_output = ''7: vh-dead    inet 10.200.0.1/30 scope global vh-dead'' @ [CHR 0x0A] @ ''9: vh-p0    inet 10.200.0.1/30 scope global vh-p0''"

theorem ClearStaleHolders_safe_witness:
  "result_of (ClearStaleHolders (host_run (\<lambda>_. False)) (\<lambda>_ _. Some stale_output) ''10.200.0.1'' ''vh-p0'') empty_host = [''vh-dead'']
   \<and> has_prefix ''vh-dead'' ''vh-''"
proof -
  have "result_of (ClearStaleHolders (host_run (\<lambda>_. False)) (\<lambda>_ _. Some stale_output) ''10.200.0.1'' ''vh-p0'') empty_host = [''vh-dead'']"
    by code_simp
  then show ?thesis
    using ClearStaleHolders_safe [OF host_links_ok, of "\<lambda>_ _. Some stale_output" "''10.200.0.1''" "''vh-p0''" empty_host] by simp
qed

end
