(* ===== verification/Network_Pool.thy ===== *)
theory Network_Pool
  imports Slot_Store Netns
begin

text \<open>
  The network pool (\<^verbatim>\<open>src/agent/internal/network/pool.go\<close> and \<^verbatim>\<open>natid.go\<close>): it claims a slot in the ledger
  of \<^verbatim>\<open>Slot_Store\<close>, builds the kernel objects of the slot with \<^verbatim>\<open>Netns\<close>, and records the allocation in the
  main store. Its operations are crash-aware programs over the ledger, the stored payloads, the host and
  the fields of \<open>Pool\<close>; the errors of the databases are part of the environment. The host commands are
  a parameter, as in \<^verbatim>\<open>Netns\<close>; ports maps are lists in the iteration order of the run.

  The theory shows that the addresses of different slots never overlap, and that whatever instant the agent
  is killed at, no slot is free while an interface of the host still carries its address.
\<close>

section \<open>Addresses\<close>

record Allocation =
  al_SandboxID :: string
  al_TAP :: string
  al_HostIP :: string
  al_GuestIP :: string
  al_MAC :: string
  al_VsockCID :: u32
  al_Subnet :: string
  al_Idx :: int

record NATIDAlloc =
  na_SandboxID :: string
  na_Netns :: string
  na_VethHost :: string
  na_VethGuest :: string
  na_ProxyHostIP :: string
  na_ProxyGuestIP :: string
  na_TapName :: string
  na_TapHostIP :: string
  na_GuestIP :: string
  na_MAC :: string
  na_Idx :: int

text \<open>A base network is its first address and its prefix length.\<close>

type_synonym ipnet = "u32 \<times> nat"

definition poolCapacity :: "ipnet \<Rightarrow> u32" where
  "poolCapacity base = (let total = push_bit (32 - snd base) 1 in total div 4)"

definition carve :: "ipnet \<Rightarrow> u32 \<Rightarrow> (u32 \<times> u32 \<times> u32) option" where
  "carve base idx =
     (let free = push_bit (32 - snd base) 1 in
      if idx * 4 + 4 > free then None
      else (let subStart = fst base + idx * 4 in Some (subStart, subStart + 1, subStart + 2)))"

definition natid_base :: u32 where
  "natid_base = 180879360"

definition carveNATID :: "u32 \<Rightarrow> (u32 \<times> u32) option" where
  "carveNATID idx =
     (let subStart = natid_base + idx * 4 in
      if subStart + 4 > natid_base + 65536 then None
      else Some (subStart + 1, subStart + 2))"

definition hex2 :: "nat \<Rightarrow> string" where
  "hex2 b = [''0123456789ABCDEF'' ! (b div 16), ''0123456789ABCDEF'' ! (b mod 16)]"

definition macFromIP :: "u32 \<Rightarrow> string" where
  "macFromIP v = ''06:00:AC:'' @ hex2 (unat v div 2 ^ 16 mod 256) @ '':'' @ hex2 (unat v div 2 ^ 8 mod 256) @ '':'' @ hex2 (unat v mod 256)"

definition tapName :: "string \<Rightarrow> string" where
  "tapName sandboxID = ''fc'' @ take 12 (filter (\<lambda>c. c \<noteq> CHR ''-'') sandboxID)"

definition shortHex :: "string \<Rightarrow> string" where
  "shortHex sandboxID = take 10 (filter (\<lambda>c. c \<noteq> CHR ''-'') sandboxID)"

definition natidShort :: "int \<Rightarrow> string" where
  "natidShort idx = ''p'' @ hex8 idx"

definition slotPrebuiltOwner :: "int \<Rightarrow> string" where
  "slotPrebuiltOwner idx = ''prebuilt:'' @ hex8 idx"

definition natidIdentityKey :: "string \<Rightarrow> string \<Rightarrow> string \<Rightarrow> (int \<times> int) list \<Rightarrow> string" where
  "natidIdentityKey tapHostIP guestIP mac ports =
     join ''|'' ([tapHostIP, guestIP, mac] @ map (\<lambda>(k, v). dec_int k @ '':'' @ dec_int v) ports)"

section \<open>State and environment\<close>

record 'k pool =
  pl_slots :: slots
  pl_store :: "string \<Rightarrow> Allocation option"
  pl_cidrow :: u32
  pl_kern :: 'k
  pl_base :: ipnet
  pl_nextCID :: u32
  pl_free :: "string \<Rightarrow> NATIDAlloc list"
  pl_refill :: bool
  pl_spawned :: "string list"

text \<open>\<open>pe_json\<close>: what \<open>json.Unmarshal\<close> makes of a stored payload, with \<open>False\<close> when it reports an error.\<close>

record 'k pool_env =
  pe_run :: "'k runner"
  pe_show :: "string \<Rightarrow> 'k \<Rightarrow> string option"
  pe_list :: "'k \<Rightarrow> string + string list"
  pe_ports :: "string option"
  pe_wan :: string
  pe_now :: int
  pe_claim :: "string option"
  pe_release :: "string option"
  pe_reassign :: "string option"
  pe_get :: "string \<Rightarrow> string option"
  pe_json :: "Allocation \<Rightarrow> bool \<times> Allocation"
  pe_save :: "string option"
  pe_savecid :: "string option"
  pe_delete :: "string option"

datatype pool_error =
    SlotErr slot_error
  | CIDRExhausted
  | TapSetup string
  | NetnsCreate string
  | StoreErr string
  | PersistErr string
  | SweepIncomplete
  | ListErr string

definition krun :: "'k pool_env \<Rightarrow> 'k pool runner" where
  "krun env c p = (case pe_run env c (pl_kern p) of (e, k) \<Rightarrow> (e, p\<lparr>pl_kern := k\<rparr>))"

definition do_slots :: "(slots \<Rightarrow> 'a \<times> slots) \<Rightarrow> ('k pool, 'a) prog" where
  "do_slots f = act (\<lambda>p. case f (pl_slots p) of (r, t) \<Rightarrow> (r, p\<lparr>pl_slots := t\<rparr>))"

definition free_slot :: "'k pool_env \<Rightarrow> string \<Rightarrow> ('k pool, slot_error + bool) prog" where
  "free_slot env owner = do_slots (slot_Release (pe_release env) owner)"

definition SaveAllocation :: "'k pool_env \<Rightarrow> Allocation \<Rightarrow> ('k pool, string option) prog" where
  "SaveAllocation env a =
     act (\<lambda>p. case pe_save env of
        Some e \<Rightarrow> (Some e, p)
      | None \<Rightarrow> (None, p\<lparr>pl_store := (pl_store p)(al_SandboxID a \<mapsto> a)\<rparr>))"

text \<open>The read of the release paths: the errors of the query and of the decoder are ignored.\<close>

definition GetAllocation :: "'k pool_env \<Rightarrow> string \<Rightarrow> ('k pool, Allocation option) prog" where
  "GetAllocation env sandboxID =
     ask (\<lambda>p. case pe_get env sandboxID of Some e \<Rightarrow> None | None \<Rightarrow> map_option (snd \<circ> pe_json env) (pl_store p sandboxID))"

definition DeleteAllocation :: "'k pool_env \<Rightarrow> string \<Rightarrow> ('k pool, string option) prog" where
  "DeleteAllocation env sandboxID =
     act (\<lambda>p. case pe_delete env of
        Some e \<Rightarrow> (Some e, p)
      | None \<Rightarrow> (None, p\<lparr>pl_store := (pl_store p)(sandboxID := None)\<rparr>))"

definition spawn_refill :: "string \<Rightarrow> ('k pool, unit) prog" where
  "spawn_refill key = act (\<lambda>p. ((), if pl_refill p then p\<lparr>pl_spawned := pl_spawned p @ [key]\<rparr> else p))"

section \<open>Operations\<close>

text \<open>
  \<open>cid\<close> is the row of the main store's network state and \<open>saved\<close> its allocations: \<open>NewPool\<close> reads the first
  and leaves both alone.
\<close>

definition NewPool :: "string option \<Rightarrow> ipnet option \<Rightarrow> string + u32 \<Rightarrow> (string \<Rightarrow> Allocation option) \<Rightarrow> slots \<Rightarrow> 'k \<Rightarrow> string + 'k pool" where
  "NewPool db base row saved t k =
     (case base of
        None \<Rightarrow> Inl ''parse cidr''
      | Some n \<Rightarrow>
          (case row of
             Inl e \<Rightarrow> Inl e
           | Inr cid \<Rightarrow>
               (case slot_Seed db (poolCapacity n) t of
                  (Some e, t') \<Rightarrow> Inl ''seed slots''
                | (None, t') \<Rightarrow>
                    Inr \<lparr>pl_slots = t', pl_store = saved, pl_cidrow = cid, pl_kern = k, pl_base = n,
                         pl_nextCID = (if cid < 3 then 3 else cid), pl_free = (\<lambda>_. []), pl_refill = False, pl_spawned = []\<rparr>)))"

definition setupTAP :: "'s runner \<Rightarrow> string \<Rightarrow> Allocation \<Rightarrow> ('s, string option) prog" where
  "setupTAP run wan a =
     do {
       _ \<leftarrow> runc run [''ip'', ''link'', ''del'', al_TAP a];
       e \<leftarrow> run_all run
             [[''ip'', ''tuntap'', ''add'', ''dev'', al_TAP a, ''mode'', ''tap''],
              [''ip'', ''addr'', ''add'', al_HostIP a @ ''/30'', ''dev'', al_TAP a],
              [''ip'', ''link'', ''set'', ''dev'', al_TAP a, ''up'']];
       case e of
         Some m \<Rightarrow> State_Monad.return (Some m)
       | None \<Rightarrow> do {
           c \<leftarrow> runc run [''iptables'', ''-t'', ''nat'', ''-C'', ''POSTROUTING'', ''-s'', al_Subnet a, ''-j'', ''MASQUERADE''];
           e \<leftarrow> (if c = None then State_Monad.return None
                else runc run [''iptables'', ''-t'', ''nat'', ''-A'', ''POSTROUTING'', ''-s'', al_Subnet a, ''-j'', ''MASQUERADE'']);
           case e of
             Some m \<Rightarrow> State_Monad.return (Some (''add MASQUERADE: '' @ m))
           | None \<Rightarrow> do {
               _ \<leftarrow> runc run [''iptables'', ''-C'', ''FORWARD'', ''-i'', al_TAP a, ''-o'', wan, ''-j'', ''ACCEPT''];
               _ \<leftarrow> runc run [''iptables'', ''-A'', ''FORWARD'', ''-i'', al_TAP a, ''-o'', wan, ''-j'', ''ACCEPT''];
               _ \<leftarrow> runc run [''iptables'', ''-C'', ''FORWARD'', ''-o'', al_TAP a, ''-i'', wan, ''-j'', ''ACCEPT''];
               _ \<leftarrow> runc run [''iptables'', ''-A'', ''FORWARD'', ''-o'', al_TAP a, ''-i'', wan, ''-j'', ''ACCEPT''];
               State_Monad.return None
             }
         }
     }"

definition teardownTAP :: "'s runner \<Rightarrow> string \<Rightarrow> ('s, string option) prog" where
  "teardownTAP run tap = runc run [''ip'', ''link'', ''del'', tap]"

definition Allocate :: "'k pool_env \<Rightarrow> string \<Rightarrow> ('k pool, pool_error + Allocation) prog" where
  "Allocate env sandboxID =
     do {
       r \<leftarrow> do_slots (slot_Claim (pe_claim env) (pe_now env) sandboxID ''legacy'');
       case r of
         Inl e \<Rightarrow> State_Monad.return (Inl (SlotErr e))
       | Inr idx \<Rightarrow> do {
           cid \<leftarrow> act (\<lambda>p. (pl_nextCID p, p\<lparr>pl_nextCID := pl_nextCID p + 1\<rparr>));
           base \<leftarrow> ask pl_base;
           case carve base (word_of_int idx) of
             None \<Rightarrow> do { _ \<leftarrow> free_slot env sandboxID; State_Monad.return (Inl CIDRExhausted) }
           | Some (subnet, host, guest) \<Rightarrow>
               (let alloc = \<lparr>al_SandboxID = sandboxID, al_TAP = tapName sandboxID, al_HostIP = ip_string host,
                      al_GuestIP = ip_string guest, al_MAC = macFromIP guest, al_VsockCID = cid,
                      al_Subnet = ip_string subnet @ ''/30'', al_Idx = idx\<rparr> in
                do {
                  e \<leftarrow> setupTAP (krun env) (pe_wan env) alloc;
                  case e of
                    Some m \<Rightarrow> do { _ \<leftarrow> free_slot env sandboxID; State_Monad.return (Inl (TapSetup m)) }
                  | None \<Rightarrow> do {
                      e \<leftarrow> SaveAllocation env alloc;
                      case e of
                        Some m \<Rightarrow> do {
                          _ \<leftarrow> teardownTAP (krun env) (al_TAP alloc);
                          _ \<leftarrow> free_slot env sandboxID;
                          State_Monad.return (Inl (StoreErr m))
                        }
                      | None \<Rightarrow> do {
                          _ \<leftarrow> act (\<lambda>p. ((), if pe_savecid env = None then p\<lparr>pl_cidrow := cid + 1\<rparr> else p));
                          State_Monad.return (Inr alloc)
                        }
                    }
                })
         }
     }"

text \<open>
  \<open>Release\<close> and \<open>ReleaseNATID\<close>: kernel objects first, then the payload, then the slot.
\<close>

definition destroy_recorded :: "'k pool_env \<Rightarrow> Allocation option \<Rightarrow> ('k pool, unit) prog" where
  "destroy_recorded env alloc =
     (case alloc of
        None \<Rightarrow> State_Monad.return ()
      | Some a \<Rightarrow>
          if al_TAP a \<noteq> [] then
            (if has_prefix (al_TAP a) ''ns-'' then netns_Destroy (krun env) (al_TAP a) (al_Subnet a)
             else do { _ \<leftarrow> teardownTAP (krun env) (al_TAP a); State_Monad.return () })
          else State_Monad.return ())"

definition pool_Release :: "'k pool_env \<Rightarrow> string \<Rightarrow> ('k pool, pool_error option) prog" where
  "pool_Release env sandboxID =
     do {
       alloc \<leftarrow> GetAllocation env sandboxID;
       _ \<leftarrow> destroy_recorded env alloc;
       storeErr \<leftarrow> DeleteAllocation env sandboxID;
       r \<leftarrow> free_slot env sandboxID;
       State_Monad.return (case r of Inl e \<Rightarrow> Some (SlotErr e) | Inr _ \<Rightarrow> map_option StoreErr storeErr)
     }"

definition ReleaseNATID :: "'k pool_env \<Rightarrow> string \<Rightarrow> ('k pool, pool_error option) prog" where
  "ReleaseNATID env sandboxID =
     do {
       alloc \<leftarrow> GetAllocation env sandboxID;
       _ \<leftarrow> destroy_recorded env alloc;
       storeErr \<leftarrow> DeleteAllocation env sandboxID;
       r \<leftarrow> free_slot env sandboxID;
       State_Monad.return (case r of Inl e \<Rightarrow> Some (SlotErr e) | Inr _ \<Rightarrow> map_option StoreErr storeErr)
     }"

definition Lookup :: "'k pool_env \<Rightarrow> string \<Rightarrow> 'k pool \<Rightarrow> string + Allocation" where
  "Lookup env sandboxID p =
     (case pe_get env sandboxID of
        Some e \<Rightarrow> Inl e
      | None \<Rightarrow> (case pl_store p sandboxID of None \<Rightarrow> Inl ''sql: no rows in result set''
         | Some a \<Rightarrow> (case pe_json env a of (True, b) \<Rightarrow> Inr b | (False, b) \<Rightarrow> Inl ''json'')))"

definition default_ports :: "(int \<times> int) list option \<Rightarrow> (int \<times> int) list" where
  "default_ports ports = (case ports of None \<Rightarrow> [(22, 22)] | Some ps \<Rightarrow> ps)"

definition natid_spec ::
  "'k pool_env \<Rightarrow> string \<Rightarrow> u32 \<times> u32 \<Rightarrow> string \<Rightarrow> string \<Rightarrow> (int \<times> int) list \<Rightarrow> Spec" where
  "natid_spec env short ips tapHostIP guestIP ports =
     \<lparr>sp_Name = ''ns-'' @ short, sp_VethHost = ''vh-'' @ short, sp_VethGuest = ''vg-'' @ short,
      sp_VethHostIP = ip_string (fst ips), sp_VethGuestIP = ip_string (snd ips), sp_VethSubnetMask = 30,
      sp_TapName = ''tap0'', sp_TapHostIP = tapHostIP, sp_TapSubnetMask = 30, sp_GuestIP = guestIP,
      sp_PortMap = ports, sp_WANIface = pe_wan env, sp_PoolCIDR = ''10.200.0.0/16''\<rparr>"

definition natid_alloc :: "string \<Rightarrow> string \<Rightarrow> u32 \<times> u32 \<Rightarrow> string \<Rightarrow> string \<Rightarrow> string \<Rightarrow> int \<Rightarrow> NATIDAlloc" where
  "natid_alloc sandboxID short ips tapHostIP guestIP mac idx =
     \<lparr>na_SandboxID = sandboxID, na_Netns = ''ns-'' @ short, na_VethHost = ''vh-'' @ short, na_VethGuest = ''vg-'' @ short,
      na_ProxyHostIP = ip_string (fst ips), na_ProxyGuestIP = ip_string (snd ips), na_TapName = ''tap0'',
      na_TapHostIP = tapHostIP, na_GuestIP = guestIP, na_MAC = mac, na_Idx = idx\<rparr>"

definition PrebuildNATID ::
  "'k pool_env \<Rightarrow> string \<Rightarrow> string \<Rightarrow> string \<Rightarrow> (int \<times> int) list option \<Rightarrow> ('k pool, pool_error + nat) prog" where
  "PrebuildNATID env tapHostIP guestIP mac ports0 =
     (let ports = default_ports ports0; key = natidIdentityKey tapHostIP guestIP mac ports in
      do {
        r \<leftarrow> do_slots (slot_ClaimPrebuilt (pe_claim env) (pe_now env) ''prebuilt'');
        case r of
          Inl e \<Rightarrow> State_Monad.return (Inl (SlotErr e))
        | Inr idx \<Rightarrow>
            (case carveNATID (word_of_int idx) of
               None \<Rightarrow> do { _ \<leftarrow> free_slot env (slotPrebuiltOwner idx); State_Monad.return (Inl CIDRExhausted) }
             | Some ips \<Rightarrow> do {
                 e \<leftarrow> netns_Create (krun env) (pe_ports env) (natid_spec env (natidShort idx) ips tapHostIP guestIP ports);
                 case e of
                   Some m \<Rightarrow> do { _ \<leftarrow> free_slot env (slotPrebuiltOwner idx); State_Monad.return (Inl (NetnsCreate m)) }
                 | None \<Rightarrow> do {
                     _ \<leftarrow> act (\<lambda>p. ((), p\<lparr>pl_free := (pl_free p)(key := pl_free p key @
                            [natid_alloc [] (natidShort idx) ips tapHostIP guestIP mac idx])\<rparr>));
                     n \<leftarrow> ask (\<lambda>p. length (pl_free p key));
                     State_Monad.return (Inr n)
                   }
               })
      })"

text \<open>The slow path of \<open>AllocateNATID\<close>: claim, build, persist.\<close>

definition natid_slow ::
  "'k pool_env \<Rightarrow> string \<Rightarrow> string \<Rightarrow> string \<Rightarrow> string \<Rightarrow> (int \<times> int) list \<Rightarrow> ('k pool, pool_error + NATIDAlloc) prog" where
  "natid_slow env sandboxID tapHostIP guestIP mac ports =
     do {
       r \<leftarrow> do_slots (slot_Claim (pe_claim env) (pe_now env) sandboxID ''natid'');
       case r of
         Inl e \<Rightarrow> State_Monad.return (Inl (SlotErr e))
       | Inr idx \<Rightarrow>
           (case carveNATID (word_of_int idx) of
              None \<Rightarrow> do { _ \<leftarrow> free_slot env sandboxID; State_Monad.return (Inl CIDRExhausted) }
            | Some ips \<Rightarrow>
                (let short = shortHex sandboxID; spec = natid_spec env short ips tapHostIP guestIP ports in
                 do {
                   e \<leftarrow> netns_Create (krun env) (pe_ports env) spec;
                   case e of
                     Some m \<Rightarrow> do { _ \<leftarrow> free_slot env sandboxID; State_Monad.return (Inl (NetnsCreate m)) }
                   | None \<Rightarrow> do {
                       e \<leftarrow> SaveAllocation env \<lparr>al_SandboxID = sandboxID, al_TAP = ''ns-'' @ short, al_HostIP = ip_string (fst ips),
                              al_GuestIP = guestIP, al_MAC = mac, al_VsockCID = 0, al_Subnet = ''vh-'' @ short, al_Idx = idx\<rparr>;
                       case e of
                         Some m \<Rightarrow> do {
                           _ \<leftarrow> netns_Destroy (krun env) (sp_Name spec) (sp_VethHost spec);
                           _ \<leftarrow> free_slot env sandboxID;
                           State_Monad.return (Inl (StoreErr m))
                         }
                       | None \<Rightarrow> State_Monad.return (Inr (natid_alloc sandboxID short ips tapHostIP guestIP mac idx))
                     }
                 }))
     }"

text \<open>The fast path once a parked slot has been adopted.\<close>

definition natid_adopted ::
  "'k pool_env \<Rightarrow> string \<Rightarrow> string \<Rightarrow> NATIDAlloc \<Rightarrow> ('k pool, pool_error + NATIDAlloc) prog" where
  "natid_adopted env sandboxID key parked =
     do {
       e \<leftarrow> SaveAllocation env \<lparr>al_SandboxID = sandboxID, al_TAP = na_Netns parked, al_HostIP = na_ProxyHostIP parked,
              al_GuestIP = na_GuestIP parked, al_MAC = na_MAC parked, al_VsockCID = 0, al_Subnet = na_VethHost parked,
              al_Idx = na_Idx parked\<rparr>;
       case e of
         Some m \<Rightarrow> do {
           _ \<leftarrow> free_slot env sandboxID;
           _ \<leftarrow> netns_Destroy (krun env) (na_Netns parked) (na_VethHost parked);
           _ \<leftarrow> spawn_refill key;
           State_Monad.return (Inl (PersistErr m))
         }
       | None \<Rightarrow> do {
           _ \<leftarrow> ClearStaleHolders (krun env) (\<lambda>a p. pe_show env a (pl_kern p)) (na_ProxyHostIP parked) (''vh-'' @ natidShort (na_Idx parked));
           _ \<leftarrow> spawn_refill key;
           State_Monad.return (Inr (parked\<lparr>na_SandboxID := sandboxID\<rparr>))
         }
     }"

definition AllocateNATID ::
  "'k pool_env \<Rightarrow> string \<Rightarrow> string \<Rightarrow> string \<Rightarrow> string \<Rightarrow> (int \<times> int) list option \<Rightarrow> ('k pool, pool_error + NATIDAlloc) prog" where
  "AllocateNATID env sandboxID tapHostIP guestIP mac ports0 =
     (let ports = default_ports ports0; key = natidIdentityKey tapHostIP guestIP mac ports in
      do {
        list \<leftarrow> ask (\<lambda>p. pl_free p key);
        (if list = [] then natid_slow env sandboxID tapHostIP guestIP mac ports
         else (let parked = last list in
           do {
             _ \<leftarrow> act (\<lambda>p. ((), p\<lparr>pl_free := (pl_free p)(key := butlast list)\<rparr>));
             r \<leftarrow> do_slots (slot_Reassign (pe_reassign env) (pe_now env) (slotPrebuiltOwner (na_Idx parked)) sandboxID ''natid'' (na_Idx parked));
             (if r = Inr True then natid_adopted env sandboxID key parked
              else do {
                _ \<leftarrow> netns_Destroy (krun env) (na_Netns parked) (na_VethHost parked);
                _ \<leftarrow> spawn_refill key;
                natid_slow env sandboxID tapHostIP guestIP mac ports
              })
           }))
      })"

definition NATIDPoolSize :: "string \<Rightarrow> string \<Rightarrow> string \<Rightarrow> (int \<times> int) list option \<Rightarrow> 'k pool \<Rightarrow> nat" where
  "NATIDPoolSize tapHostIP guestIP mac ports p =
     length (pl_free p (natidIdentityKey tapHostIP guestIP mac (default_ports ports)))"

section \<open>Boot-time sweep\<close>

fun liveNetnsNames :: "'k pool_env \<Rightarrow> 'k pool \<Rightarrow> string list \<Rightarrow> string list option" where
  "liveNetnsNames env p [] = Some []"
| "liveNetnsNames env p (i # is) =
     (case pe_get env i of
        Some e \<Rightarrow> None
      | None \<Rightarrow>
          (case liveNetnsNames env p is of
             None \<Rightarrow> None
           | Some keep \<Rightarrow>
               Some (case pl_store p i of
                       None \<Rightarrow> keep
                     | Some a \<Rightarrow> (case pe_json env a of (ok, b) \<Rightarrow> if ok \<and> has_prefix (al_TAP b) ''ns-'' then al_TAP b # keep else keep))))"

definition orphanNetnsToSweep :: "string list \<Rightarrow> string list \<Rightarrow> string list" where
  "orphanNetnsToSweep names keep = filter (\<lambda>name. has_prefix name ''ns-'' \<and> name \<notin> set keep) names"

definition SweepOrphanNetns :: "'k pool_env \<Rightarrow> string list \<Rightarrow> ('k pool, pool_error + nat) prog" where
  "SweepOrphanNetns env liveIDs =
     do {
       keep \<leftarrow> ask (\<lambda>p. liveNetnsNames env p liveIDs);
       case keep of
         None \<Rightarrow> State_Monad.return (Inl SweepIncomplete)
       | Some ks \<Rightarrow> do {
           names \<leftarrow> ask (\<lambda>p. pe_list env (pl_kern p));
           case names of
             Inl e \<Rightarrow> State_Monad.return (Inl (ListErr e))
           | Inr ns \<Rightarrow> do {
               _ \<leftarrow> for_each (\<lambda>name. netns_Destroy (krun env) name (''vh-'' @ trim_prefix name ''ns-'')) (orphanNetnsToSweep ns ks);
               State_Monad.return (Inr (length (orphanNetnsToSweep ns ks)))
             }
         }
     }"

section \<open>Addresses of slots\<close>

lemma ip_string_inj: "ip_string v = ip_string w \<longleftrightarrow> v = w"
proof
  assume "ip_string v = ip_string w"
  then have "unat v div 2 ^ 24 = unat w div 2 ^ 24" "unat v div 2 ^ 16 mod 256 = unat w div 2 ^ 16 mod 256"
    "unat v div 2 ^ 8 mod 256 = unat w div 2 ^ 8 mod 256" "unat v mod 256 = unat w mod 256"
    by (simp_all add: ip_string_def dec_sep dec_inj)
  moreover have "x = ((x div 2 ^ 24 * 256 + x div 2 ^ 16 mod 256) * 256 + x div 2 ^ 8 mod 256) * 256 + x mod 256" for x :: nat
  proof -
    have "x div 2 ^ 24 = x div 2 ^ 16 div 256" "x div 2 ^ 16 = x div 2 ^ 8 div 256" "x div 2 ^ 8 = x div 256"
      by (simp_all add: div_mult2_eq [symmetric])
    then show ?thesis by (simp only: div_mult_mod_eq)
  qed
  ultimately have "unat v = unat w" by metis
  then show "v = w" by (simp add: unsigned_word_eqI)
qed simp

definition slot_addr :: "int \<Rightarrow> string" where
  "slot_addr i = with_mask (ip_string (natid_base + word_of_int i * 4 + 1)) 30"

lemma uint_natid:
  assumes "0 \<le> i" "i < 16384" "0 \<le> k" "k \<le> 4"
  shows "uint (natid_base + word_of_int i * 4 + word_of_int k) = 180879360 + 4 * i + k"
proof -
  have "natid_base + word_of_int i * 4 + word_of_int k = word_of_int (180879360 + 4 * i + k)"
    by (simp add: natid_base_def)
  then have "uint (natid_base + word_of_int i * 4 + word_of_int k) = uint (word_of_int (180879360 + 4 * i + k) :: u32)" by (rule arg_cong)
  then show ?thesis using assms by (simp only: uint_word_of_int) simp
qed

lemma slot_addr_inj:
  assumes "0 \<le> i" "i < 16384" "0 \<le> j" "j < 16384"
  shows "slot_addr i = slot_addr j \<longleftrightarrow> i = j"
proof
  assume "slot_addr i = slot_addr j"
  then have "natid_base + word_of_int i * 4 + word_of_int 1 = natid_base + word_of_int j * 4 + word_of_int 1"
    by (simp add: slot_addr_def with_mask_def ip_string_inj)
  then have "uint (natid_base + word_of_int i * 4 + word_of_int 1) = uint (natid_base + word_of_int j * 4 + word_of_int 1)"
    by (rule arg_cong)
  then show "i = j" using uint_natid [of i 1] uint_natid [of j 1] assms by simp
qed simp

lemma carveNATID_addr:
  "carveNATID (word_of_int i) = Some ips \<Longrightarrow> with_mask (ip_string (fst ips)) 30 = slot_addr i"
  by (auto simp: carveNATID_def slot_addr_def Let_def split: if_splits)

text \<open>
  C37: Slots do not overlap. For every index below the capacity \<open>carveNATID\<close> succeeds, its two
  addresses lie strictly inside the \<open>/30\<close> block of the index and inside \<open>10.200.0.0/16\<close> without wrapping
  around, and different indices get different addresses; indices from the capacity up to where the
  32-bit arithmetic wraps around are refused.
\<close>

theorem carveNATID_bounds:
  assumes i: "0 \<le> i" "i < 16384" and j: "0 \<le> j" "j < 16384" "i \<noteq> j" and k: "16384 \<le> k" "k < 1028521983"
  shows "\<exists>h g h' g'. carveNATID (word_of_int i) = Some (h, g) \<and> carveNATID (word_of_int j) = Some (h', g')
    \<and> uint h = 180879360 + 4 * i + 1 \<and> uint g = 180879360 + 4 * i + 2 \<and> uint g < 180879360 + 65536
    \<and> {ip_string h, ip_string g} \<inter> {ip_string h', ip_string g'} = {}
    \<and> carveNATID (word_of_int k) = None"
proof -
  have carve: "carveNATID (word_of_int x) = Some (natid_base + word_of_int x * 4 + word_of_int 1, natid_base + word_of_int x * 4 + word_of_int 2)"
    if "0 \<le> x" "x < 16384" for x
  proof -
    have "uint (natid_base + word_of_int x * 4 + 4) \<le> uint (natid_base + 65536)"
      using uint_natid [of x 4] that by (simp add: natid_base_def)
    then have "\<not> natid_base + word_of_int x * 4 + 4 > natid_base + 65536" unfolding word_less_def by simp
    then show ?thesis by (simp add: carveNATID_def Let_def)
  qed
  have "natid_base + word_of_int k * 4 + 4 = word_of_int (180879360 + 4 * k + 4)"
    by (simp add: natid_base_def)
  then have "uint (natid_base + word_of_int k * 4 + 4) = uint (word_of_int (180879360 + 4 * k + 4) :: u32)" by (rule arg_cong)
  then have "uint (natid_base + word_of_int k * 4 + 4) = 180879360 + 4 * k + 4" using k by (simp only: uint_word_of_int) simp
  then have "natid_base + word_of_int k * 4 + 4 > natid_base + 65536"
    unfolding word_less_def using k by (simp add: natid_base_def)
  then have "carveNATID (word_of_int k) = None" by (simp add: carveNATID_def Let_def)
  moreover define ad :: "int \<Rightarrow> int \<Rightarrow> u32" where "ad x a = natid_base + word_of_int x * 4 + word_of_int a" for x a
  have ne: "natid_base + word_of_int i * 4 + word_of_int a \<noteq> natid_base + word_of_int j * 4 + word_of_int b"
    if "a \<in> {1, 2}" "b \<in> {1, 2}" for a b :: int
  proof
    assume "natid_base + word_of_int i * 4 + word_of_int a = natid_base + word_of_int j * 4 + word_of_int b"
    then have "uint (natid_base + word_of_int i * 4 + word_of_int a) = uint (natid_base + word_of_int j * 4 + word_of_int b)" by (rule arg_cong)
    moreover have "0 \<le> a" "a \<le> 4" "0 \<le> b" "b \<le> 4" using that by auto
    ultimately have "4 * i + a = 4 * j + b" using uint_natid [OF i, of a] uint_natid [OF j(1,2), of b] by simp
    then show False using that j(3) by auto
  qed
  have "{ip_string (ad i 1), ip_string (ad i 2)} \<inter> {ip_string (ad j 1), ip_string (ad j 2)} = {}"
    using ne [folded ad_def, of 1 1] ne [folded ad_def, of 1 2] ne [folded ad_def, of 2 1] ne [folded ad_def, of 2 2]
    by (simp add: ip_string_inj)
  ultimately show ?thesis
    using carve [OF i, folded ad_def] carve [OF j(1,2), folded ad_def] i(2)
      uint_natid [OF i, of 1, folded ad_def] uint_natid [OF i, of 2, folded ad_def]
    by (intro exI [of _ "ad i 1"] exI [of _ "ad i 2"] exI [of _ "ad j 1"] exI [of _ "ad j 2"]) simp
qed

theorem carveNATID_bounds_witness:
  "\<exists>h g h' g'. carveNATID (word_of_int 0) = Some (h, g) \<and> carveNATID (word_of_int 16383) = Some (h', g')
    \<and> {ip_string h, ip_string g} \<inter> {ip_string h', ip_string g'} = {} \<and> carveNATID (word_of_int 16384) = None"
  using carveNATID_bounds [of 0 16383 16384] by force

section \<open>No free slot is poisoned\<close>

text \<open>
  \<open>clean L t\<close>: no interface of the host carries the address of a slot that is free in the ledger.
\<close>

definition clean :: "(string \<times> string) set \<Rightarrow> slots \<Rightarrow> bool" where
  "clean L t \<longleftrightarrow> (\<forall>i d. 0 \<le> i \<longrightarrow> i < 16384 \<longrightarrow> slot_map t i = Some None \<longrightarrow> (d, slot_addr i) \<notin> L)"

lemma clean_mono:
  assumes "clean L t" "L' \<subseteq> L" "\<And>i. slot_map t' i = Some None \<Longrightarrow> slot_map t i = Some None"
  shows "clean L' t'"
  using assms unfolding clean_def by blast

lemma clean_insert:
  assumes "clean L t" "0 \<le> i" "i < 16384" "slot_map t i \<noteq> Some None"
  shows "clean (insert (v, slot_addr i) L) t"
  using assms slot_addr_inj [of _ i] unfolding clean_def by auto

text \<open>Freeing the slots of \<open>owner\<close> keeps the host clean when none of their addresses is in use.\<close>

lemma clean_release:
  assumes "clean L t" "slots_wf t" "slot_Release db owner t = (r, t')"
    and "\<And>i d. slot_map t i = Some (Some owner) \<Longrightarrow> 0 \<le> i \<Longrightarrow> i < 16384 \<Longrightarrow> (d, slot_addr i) \<notin> L"
  shows "clean L t'"
proof (cases "db = None \<and> owner \<noteq> ''''")
  case True
  then obtain ok where "slot_Release None owner t = (Inr ok, t')"
    using assms(3) by (auto simp: slot_Release_def split: prod.splits)
  then have "slot_map t' i = (if owner \<noteq> '''' \<and> slot_map t i = Some (Some owner) then Some None else slot_map t i)" for i
    using slot_Release_map(2) assms(2) by blast
  then show ?thesis using assms(1,4) unfolding clean_def by (auto split: if_splits)
next
  case False
  then have "t' = t" using assms(3) by (auto simp: slot_Release_def split: if_splits option.splits)
  then show ?thesis using assms(1) by simp
qed

lemma krun_conv: "fst (krun env c p) = fst (pe_run env c (pl_kern p))"
    "snd (krun env c p) = p\<lparr>pl_kern := snd (pe_run env c (pl_kern p))\<rparr>"
  by (simp_all add: krun_def split: prod.splits)

lemma krun_links: "links_ok (pe_run env) links nss \<Longrightarrow> links_ok (krun env) (\<lambda>p. links (pl_kern p)) (\<lambda>p. nss (pl_kern p))"
  by (simp add: links_ok_def krun_conv)

lemma krun_rest: "rest_ok (krun env) (\<lambda>p. (pl_slots p, pl_store p))"
  by (simp add: rest_ok_def krun_conv)

abbreviation pool_clean :: "('k \<Rightarrow> (string \<times> string) set) \<Rightarrow> 'k pool \<Rightarrow> bool" where
  "pool_clean links p \<equiv> clean (links (pl_kern p)) (pl_slots p)"

lemma wpc_do_slots:
  "C (p\<lparr>pl_slots := snd (f (pl_slots p))\<rparr>) \<Longrightarrow> Q (fst (f (pl_slots p))) (p\<lparr>pl_slots := snd (f (pl_slots p))\<rparr>) \<Longrightarrow>
    wpc C (do_slots f) Q p"
  unfolding do_slots_def by (rule wpc_act) (simp_all add: case_prod_beta)

lemma wpc_free_slot:
  assumes "pool_clean links p" "slots_wf (pl_slots p)"
    and "\<And>i d. slot_map (pl_slots p) i = Some (Some owner) \<Longrightarrow> 0 \<le> i \<Longrightarrow> i < 16384 \<Longrightarrow> (d, slot_addr i) \<notin> links (pl_kern p)"
  shows "wpc (pool_clean links) (free_slot env owner) (\<lambda>_. pool_clean links) p"
proof -
  have "clean (links (pl_kern p)) (snd (slot_Release (pe_release env) owner (pl_slots p)))"
    using assms by (intro clean_release [OF _ _ prod.collapse [symmetric]])
  then show ?thesis unfolding free_slot_def by (intro wpc_do_slots) simp_all
qed

lemma wpc_Destroy_pool:
  assumes ok: "links_ok (pe_run env) links nss" and c: "pool_clean links p"
  shows "wpc (pool_clean links) (netns_Destroy (krun env) n v)
    (\<lambda>_ x. pool_clean links x \<and> pl_slots x = pl_slots p \<and> links (pl_kern x) \<subseteq> links (pl_kern p)
       \<and> (v \<noteq> [] \<longrightarrow> (\<forall>l \<in> links (pl_kern x). fst l \<noteq> v))) p"
proof -
  have "clean L (pl_slots p)" if "L \<subseteq> links (pl_kern p)" for L using clean_mono [OF c that] by blast
  then show ?thesis by (intro wpc_strengthen [OF Destroy_shrinks [OF krun_links [OF ok] krun_rest]]) auto
qed

text \<open>The interfaces that hold the addresses of a sandbox's slots are those its payload records.\<close>

definition recorded :: "('k \<Rightarrow> (string \<times> string) set) \<Rightarrow> 'k pool \<Rightarrow> string \<Rightarrow> bool" where
  "recorded links p s \<longleftrightarrow> (\<forall>i d. slot_map (pl_slots p) i = Some (Some s) \<longrightarrow> 0 \<le> i \<longrightarrow> i < 16384 \<longrightarrow>
     (d, slot_addr i) \<in> links (pl_kern p) \<longrightarrow>
     (\<exists>a. pl_store p s = Some a \<and> has_prefix (al_TAP a) ''ns-'' \<and> al_Subnet a = d \<and> d \<noteq> []))"

lemma ReleaseNATID_clean:
  assumes ok: "links_ok (pe_run env) links nss" and c: "pool_clean links p" and wf: "slots_wf (pl_slots p)"
    and get: "pe_get env s = None" and rec: "recorded links p s" and json: "\<forall>a. pl_store p s = Some a \<longrightarrow> snd (pe_json env a) = a"
  shows "wpc (pool_clean links) (ReleaseNATID env s) (\<lambda>_. pool_clean links) p"
proof -
  have tap: "wpc (pool_clean links) (teardownTAP (krun env) tap)
    (\<lambda>_ x. pool_clean links x \<and> pl_slots x = pl_slots p \<and> links (pl_kern x) \<subseteq> links (pl_kern p)) p" for tap
  proof -
    have l: "links (pl_kern (snd (krun env [''ip'', ''link'', ''del'', tap] p))) \<subseteq> links (pl_kern p)"
      using links_okD(1) [OF krun_links [OF ok], of tap p] by auto
    have "clean (links (pl_kern (snd (krun env [''ip'', ''link'', ''del'', tap] p)))) (pl_slots p)"
      using clean_mono [OF c l] by blast
    then show ?thesis using l unfolding teardownTAP_def by (intro wpc_runc) (simp_all add: krun_conv)
  qed
  let ?free = "\<lambda>x. \<forall>i d. slot_map (pl_slots x) i = Some (Some s) \<longrightarrow> 0 \<le> i \<longrightarrow> i < 16384 \<longrightarrow> (d, slot_addr i) \<notin> links (pl_kern x)"
  have destroy: "wpc (pool_clean links) (destroy_recorded env (pl_store p s)) (\<lambda>_ x. pool_clean links x \<and> pl_slots x = pl_slots p \<and> ?free x) p"
  proof (cases "pl_store p s")
    case None
    then show ?thesis using c rec by (auto simp: destroy_recorded_def recorded_def intro!: wpc_return)
  next
    case (Some a)
    have only: "d = al_Subnet a \<and> d \<noteq> [] \<and> has_prefix (al_TAP a) ''ns-''"
      if "slot_map (pl_slots p) i = Some (Some s)" "0 \<le> i" "i < 16384" "(d, slot_addr i) \<in> links (pl_kern p)" for i d
      using rec that Some unfolding recorded_def by auto
    have ns: "wpc (pool_clean links) (netns_Destroy (krun env) (al_TAP a) (al_Subnet a)) (\<lambda>_ x. pool_clean links x \<and> pl_slots x = pl_slots p \<and> ?free x) p"
      by (rule wpc_mono [OF wpc_Destroy_pool [OF ok c]]) (use only in \<open>force dest: subsetD\<close>)
    have other: "wpc (pool_clean links) (teardownTAP (krun env) (al_TAP a)) (\<lambda>_ x. pool_clean links x \<and> pl_slots x = pl_slots p \<and> ?free x) p"
      if "\<not> has_prefix (al_TAP a) ''ns-''"
      by (rule wpc_mono [OF tap]) (use only that in \<open>force dest: subsetD\<close>)
    have "?free p" if "al_TAP a = []" using only that by (auto simp: has_prefix_def)
    then show ?thesis unfolding destroy_recorded_def Some option.case
      by (intro wpc_if ns wpc_bind wpc_mono [OF other] wpc_return) (use c in auto)
  qed
  have del: "wpc (pool_clean links) (DeleteAllocation env s) (\<lambda>_ x. pool_clean links x \<and> pl_slots x = pl_slots p \<and> ?free x) y"
    if "pool_clean links y \<and> pl_slots y = pl_slots p \<and> ?free y" for y
    unfolding DeleteAllocation_def using that by (intro wpc_act) (auto split: option.splits)
  have pay: "map_option (snd \<circ> pe_json env) (pl_store p s) = pl_store p s" using json by (cases "pl_store p s") simp_all
  show ?thesis unfolding ReleaseNATID_def GetAllocation_def
    by (intro wpc_bind wpc_ask, simp only: get option.case pay)
      (intro wpc_bind wpc_mono [OF destroy] wpc_mono [OF del] wpc_mono [OF wpc_free_slot] wpc_return; use wf in auto)
qed

text \<open>Building a namespace for slot \<open>i\<close> that is owned and not in use.\<close>

lemma create_phase:
  assumes ok: "links_ok (pe_run env) links nss" and c: "pool_clean links p"
    and i: "0 \<le> i" "i < 16384" "slot_map (pl_slots p) i = Some (Some owner)"
    and unused: "\<forall>d. (d, slot_addr i) \<notin> links (pl_kern p)"
    and spec: "sp_Name sp \<noteq> []" "sp_VethHost sp \<noteq> []" "with_mask (sp_VethHostIP sp) (sp_VethSubnetMask sp) = slot_addr i"
  shows "wpc (pool_clean links) (netns_Create (krun env) ports sp)
    (\<lambda>e x. pool_clean links x \<and> pl_slots x = pl_slots p \<and>
       (\<forall>d. (d, slot_addr i) \<in> links (pl_kern x) \<longrightarrow> d = sp_VethHost sp \<and> e = None)) p"
proof (rule wpc_strengthen [OF Create_built [OF krun_links [OF ok] krun_rest spec(1,2)]])
  let ?near = "near (\<lambda>p. links (pl_kern p)) (\<lambda>p. nss (pl_kern p)) (\<lambda>p. (pl_slots p, pl_store p)) (sp_Name sp) (sp_VethHost sp) (with_mask (sp_VethHostIP sp) (sp_VethSubnetMask sp)) p"
  have clean: "pool_clean links x" if "?near x" for x
  proof (rule clean_mono [OF clean_insert [OF c i(1,2), of "sp_VethHost sp"]])
    show "slot_map (pl_slots p) i \<noteq> Some None" using i(3) by simp
    show "links (pl_kern x) \<subseteq> insert (sp_VethHost sp, slot_addr i) (links (pl_kern p))"
      "\<And>j. slot_map (pl_slots x) j = Some None \<Longrightarrow> slot_map (pl_slots p) j = Some None"
      using that unfolding near_def spec(3) by auto
  qed
  then show "pool_clean links x" if "?near x" for x using that by blast
  show "pool_clean links x \<and> pl_slots x = pl_slots p \<and> (\<forall>d. (d, slot_addr i) \<in> links (pl_kern x) \<longrightarrow> d = sp_VethHost sp \<and> e = None)"
    if "?near x \<and> (if e = None then sp_Name sp \<in> nss (pl_kern x)
       else gone (\<lambda>p. links (pl_kern p)) (\<lambda>p. nss (pl_kern p)) (\<lambda>p. (pl_slots p, pl_store p)) (sp_Name sp) (sp_VethHost sp) p x)" for e x
    using that clean [of x] unused unfolding near_def gone_def by (auto split: if_splits)
qed

definition natid_table :: "slots \<Rightarrow> bool" where
  "natid_table t \<longleftrightarrow> slots_excl t \<and> length t \<le> 16384"

lemma natid_table_idx:
  assumes "natid_table t" "slot_map t i = Some w"
  shows "0 \<le> i" "i < 16384"
proof -
  have "i \<in> dom (slot_map t)" using assms(2) by auto
  then have "i \<in> {0..<int (length t)}" using assms(1) by (simp add: natid_table_def slots_excl_def slots_dense_def)
  then show "0 \<le> i" "i < 16384" using assms(1) by (auto simp: natid_table_def)
qed

text \<open>
  The state after a claim: slot \<open>i\<close> is the only one of \<open>owner\<close>, its address is not in use, and the host
  is clean.
\<close>

definition claimed :: "('k \<Rightarrow> (string \<times> string) set) \<Rightarrow> slots \<Rightarrow> int \<Rightarrow> string \<Rightarrow> 'k pool \<Rightarrow> bool" where
  "claimed links t i owner p \<longleftrightarrow> pool_clean links p \<and> pl_slots p = t \<and> slots_wf t \<and> 0 \<le> i \<and> i < 16384 \<and>
     slot_map t i = Some (Some owner) \<and> (\<forall>j. slot_map t j = Some (Some owner) \<longrightarrow> j = i)"

lemma claimed_release:
  assumes "claimed links t i owner p" "\<forall>d. (d, slot_addr i) \<notin> links (pl_kern p)"
  shows "wpc (pool_clean links) (free_slot env owner) (\<lambda>_. pool_clean links) p"
  by (rule wpc_free_slot) (use assms in \<open>auto simp: claimed_def\<close>)

lemma claimed_give:
  assumes c: "pool_clean links p" and tb: "natid_table (pl_slots p)" and ex: "slots_excl t'"
    and i: "slot_map (pl_slots p) i = Some None" and m: "slot_map t' = (slot_map (pl_slots p))(i \<mapsto> Some owner)"
  shows "claimed links t' i owner (p\<lparr>pl_slots := t'\<rparr>) \<and> (\<forall>d. (d, slot_addr i) \<notin> links (pl_kern p))"
proof -
  note r = natid_table_idx [OF tb i]
  have "clean (links (pl_kern p)) t'" using c by (rule clean_mono) (auto simp: m split: if_splits)
  moreover have "\<forall>d. (d, slot_addr i) \<notin> links (pl_kern p)" using c r i unfolding clean_def by blast
  moreover have own: "slot_map t' i = Some (Some owner)" by (simp add: m)
  moreover have "\<forall>j. slot_map t' j = Some (Some owner) \<longrightarrow> j = i" using ex own unfolding slots_excl_def by blast
  moreover have "slots_wf t'" using ex unfolding slots_excl_def by blast
  moreover have "pl_kern (p\<lparr>pl_slots := t'\<rparr>) = pl_kern p" "pl_slots (p\<lparr>pl_slots := t'\<rparr>) = t'" by simp_all
  ultimately show ?thesis using r unfolding claimed_def by metis
qed

text \<open>Build, and give the slot back when the build fails.\<close>

lemma build_phase:
  assumes ok: "links_ok (pe_run env) links nss" and cl: "claimed links t i owner p"
    and unused: "\<forall>d. (d, slot_addr i) \<notin> links (pl_kern p)"
    and spec: "sp_Name sp \<noteq> []" "sp_VethHost sp \<noteq> []" "with_mask (sp_VethHostIP sp) (sp_VethSubnetMask sp) = slot_addr i"
    and k: "\<And>x. claimed links t i owner x \<Longrightarrow> \<forall>d. (d, slot_addr i) \<in> links (pl_kern x) \<longrightarrow> d = sp_VethHost sp \<Longrightarrow>
      wpc (pool_clean links) k (\<lambda>_. pool_clean links) x"
  shows "wpc (pool_clean links)
    (do { e \<leftarrow> netns_Create (krun env) ports sp;
          case e of Some m \<Rightarrow> do { _ \<leftarrow> free_slot env owner; State_Monad.return (Inl (f m)) } | None \<Rightarrow> k })
    (\<lambda>_. pool_clean links) p"
proof -
  have create: "wpc (pool_clean links) (netns_Create (krun env) ports sp)
    (\<lambda>e x. pool_clean links x \<and> pl_slots x = pl_slots p \<and> (\<forall>d. (d, slot_addr i) \<in> links (pl_kern x) \<longrightarrow> d = sp_VethHost sp \<and> e = None)) p"
    using cl unused spec by (intro create_phase [OF ok]) (auto simp: claimed_def)
  show ?thesis
  proof (rule wpc_bind, rule wpc_mono [OF create], rule wpc_case_option, goal_cases)
    case (1 e x)
    then have "claimed links t i owner x" using cl by (auto simp: claimed_def)
    then show ?case using 1 by (intro k) auto
  next
    case (2 e x m)
    then have "claimed links t i owner x" using cl by (auto simp: claimed_def)
    then show ?case using 2 by (intro wpc_bind wpc_mono [OF claimed_release] wpc_return) auto
  qed
qed

lemma PrebuildNATID_clean:
  assumes ok: "links_ok (pe_run env) links nss" and c: "pool_clean links p" and tb: "natid_table (pl_slots p)"
  shows "wpc (pool_clean links) (PrebuildNATID env tapHostIP guestIP mac ports) (\<lambda>_. pool_clean links) p"
proof -
  let ?f = "slot_ClaimPrebuilt (pe_claim env) (pe_now env) ''prebuilt''"
  obtain r t' where run: "?f (pl_slots p) = (r, t')" by (cases "?f (pl_slots p)")
  have ex: "slots_excl t'" using slot_step_ok [OF slot_step.prebuild [OF run]] tb by (simp add: natid_table_def)
  show ?thesis
  proof (cases r)
    case (Inl e)
    then have "t' = pl_slots p" using run slot_errors(3) by blast
    then show ?thesis unfolding PrebuildNATID_def Let_def
      using run Inl c by (intro wpc_bind wpc_do_slots) (simp_all add: wpc_return)
  next
    case (Inr i)
    have run': "slot_ClaimPrebuilt None (pe_now env) ''prebuilt'' (pl_slots p) = (Inr i, t')" using run Inr slot_ok_db(2) by metis
    have "slots_wf (pl_slots p)" using tb by (simp add: natid_table_def slots_excl_def)
    note m = slot_ClaimPrebuilt_map [OF this run']
    have cl: "claimed links t' i (slotPrebuiltOwner i) (p\<lparr>pl_slots := t'\<rparr>)" and un: "\<forall>d. (d, slot_addr i) \<notin> links (pl_kern (p\<lparr>pl_slots := t'\<rparr>))"
      using claimed_give [of links p t' i "slotPrebuiltOwner i", OF c tb ex m(2)] m(3)
      by (simp_all add: slotPrebuiltOwner_def PrebuiltOwner_def)
    have park: "wpc (pool_clean links) (do { _ \<leftarrow> act (\<lambda>p. ((), p\<lparr>pl_free := (pl_free p)(key := pl_free p key @ [a])\<rparr>));
         n \<leftarrow> ask (\<lambda>p. length (pl_free p key)); State_Monad.return (Inr n) }) (\<lambda>_. pool_clean links) x"
      if "claimed links t' i (slotPrebuiltOwner i) x" for x key a
      using that by (intro wpc_bind wpc_act wpc_ask wpc_return) (auto simp: claimed_def)
    have body: "wpc (pool_clean links)
       (case carveNATID (word_of_int i) of
          None \<Rightarrow> do { _ \<leftarrow> free_slot env (slotPrebuiltOwner i); State_Monad.return (Inl CIDRExhausted) }
        | Some ips \<Rightarrow> do {
            e \<leftarrow> netns_Create (krun env) (pe_ports env) (natid_spec env (natidShort i) ips tapHostIP guestIP pm);
            case e of
              Some m \<Rightarrow> do { _ \<leftarrow> free_slot env (slotPrebuiltOwner i); State_Monad.return (Inl (NetnsCreate m)) }
            | None \<Rightarrow> do { _ \<leftarrow> act (\<lambda>p. ((), p\<lparr>pl_free := (pl_free p)(key := pl_free p key @ [natid_alloc [] (natidShort i) ips tapHostIP guestIP mac i])\<rparr>));
                n \<leftarrow> ask (\<lambda>p. length (pl_free p key)); State_Monad.return (Inr n) } })
       (\<lambda>_. pool_clean links) (p\<lparr>pl_slots := t'\<rparr>)" for key pm
      by (intro wpc_case_option wpc_bind [OF wpc_mono [OF claimed_release [OF cl un]]] wpc_return build_phase [OF ok cl un] park)
        (simp_all add: natid_spec_def carveNATID_addr)
    show ?thesis unfolding PrebuildNATID_def Let_def
      using run Inr cl body by (intro wpc_bind wpc_do_slots) (simp_all add: claimed_def)
  qed
qed

text \<open>A sandbox identifier about to be allocated: not of the sentinel form, and owner of nothing.\<close>

definition fresh_id :: "string \<Rightarrow> slots \<Rightarrow> bool" where
  "fresh_id s t \<longleftrightarrow> s \<noteq> [] \<and> \<not> sentinel s \<and> (\<forall>i. slot_map t i \<noteq> Some (Some s))"

lemma slow_save_phase:
  assumes ok: "links_ok (pe_run env) links nss" and cl: "claimed links t i s x"
    and one: "\<forall>d. (d, slot_addr i) \<in> links (pl_kern x) \<longrightarrow> d = v" and v: "v \<noteq> []"
  shows "wpc (pool_clean links)
     (do { e \<leftarrow> SaveAllocation env al;
           case e of
             Some m \<Rightarrow> do { _ \<leftarrow> netns_Destroy (krun env) n v; _ \<leftarrow> free_slot env s; State_Monad.return (Inl (f m)) }
           | None \<Rightarrow> State_Monad.return r }) (\<lambda>_. pool_clean links) x"
proof -
  have c: "pool_clean links x" using cl unfolding claimed_def by blast
  have "wpc (pool_clean links) (netns_Destroy (krun env) n v) (\<lambda>_ y. claimed links t i s y \<and> (\<forall>d. (d, slot_addr i) \<notin> links (pl_kern y))) x"
  proof (rule wpc_mono [OF wpc_Destroy_pool [OF ok c]])
    fix u y
    assume a: "pool_clean links y \<and> pl_slots y = pl_slots x \<and> links (pl_kern y) \<subseteq> links (pl_kern x) \<and> (v \<noteq> [] \<longrightarrow> (\<forall>l \<in> links (pl_kern y). fst l \<noteq> v))"
    then have "(d, slot_addr i) \<notin> links (pl_kern y)" for d using one v by fastforce
    then show "claimed links t i s y \<and> (\<forall>d. (d, slot_addr i) \<notin> links (pl_kern y))" using a cl unfolding claimed_def by metis
  qed
  then have err: "wpc (pool_clean links) (do { _ \<leftarrow> netns_Destroy (krun env) n v; _ \<leftarrow> free_slot env s; State_Monad.return (Inl (f m)) }) (\<lambda>_. pool_clean links) x" for m
    by (intro wpc_bind) (erule wpc_mono, auto intro!: wpc_bind wpc_mono [OF claimed_release] wpc_return)
  show ?thesis unfolding SaveAllocation_def
    by (intro wpc_bind wpc_act; cases "pe_save env") (use c err in \<open>simp_all add: wpc_return\<close>)
qed

lemma natid_slow_clean:
  assumes ok: "links_ok (pe_run env) links nss" and c: "pool_clean links p" and tb: "natid_table (pl_slots p)"
    and fr: "fresh_id s (pl_slots p)"
  shows "wpc (pool_clean links) (natid_slow env s tapHostIP guestIP mac ports) (\<lambda>_. pool_clean links) p"
proof -
  let ?f = "slot_Claim (pe_claim env) (pe_now env) s ''natid''"
  obtain r t' where run: "?f (pl_slots p) = (r, t')" by (cases "?f (pl_slots p)")
  have ex: "slots_excl t'" using slot_step_ok [OF slot_step.claim [OF _ run]] tb fr by (simp add: natid_table_def fresh_id_def)
  show ?thesis
  proof (cases r)
    case (Inl e)
    then have "t' = pl_slots p" using run slot_errors(2) by blast
    then show ?thesis unfolding natid_slow_def
      using run Inl c by (intro wpc_bind wpc_do_slots) (simp_all add: wpc_return)
  next
    case (Inr i)
    have run': "slot_Claim None (pe_now env) s ''natid'' (pl_slots p) = (Inr i, t')" "s \<noteq> ''''" using run Inr slot_ok_db(1) by metis+
    have "slots_wf (pl_slots p)" using tb by (simp add: natid_table_def slots_excl_def)
    then have m: "slot_map (pl_slots p) i = Some None" "slot_map t' = (slot_map (pl_slots p))(i \<mapsto> Some s)"
      using slot_Claim_map [OF _ run'(2,1)] fr unfolding fresh_id_def by blast+
    have cl: "claimed links t' i s (p\<lparr>pl_slots := t'\<rparr>)" and un: "\<forall>d. (d, slot_addr i) \<notin> links (pl_kern (p\<lparr>pl_slots := t'\<rparr>))"
      using claimed_give [of links p t' i s, OF c tb ex m] by simp_all
    have body: "wpc (pool_clean links)
       (case carveNATID (word_of_int i) of
          None \<Rightarrow> do { _ \<leftarrow> free_slot env s; State_Monad.return (Inl CIDRExhausted) }
        | Some ips \<Rightarrow> do {
            e \<leftarrow> netns_Create (krun env) (pe_ports env) (natid_spec env (shortHex s) ips tapHostIP guestIP ports);
            case e of
              Some m \<Rightarrow> do { _ \<leftarrow> free_slot env s; State_Monad.return (Inl (NetnsCreate m)) }
            | None \<Rightarrow> do {
                e \<leftarrow> SaveAllocation env \<lparr>al_SandboxID = s, al_TAP = ''ns-'' @ shortHex s, al_HostIP = ip_string (fst ips),
                       al_GuestIP = guestIP, al_MAC = mac, al_VsockCID = 0, al_Subnet = ''vh-'' @ shortHex s, al_Idx = i\<rparr>;
                case e of
                  Some m \<Rightarrow> do {
                    _ \<leftarrow> netns_Destroy (krun env) (sp_Name (natid_spec env (shortHex s) ips tapHostIP guestIP ports)) (sp_VethHost (natid_spec env (shortHex s) ips tapHostIP guestIP ports));
                    _ \<leftarrow> free_slot env s;
                    State_Monad.return (Inl (StoreErr m)) }
                | None \<Rightarrow> State_Monad.return (Inr (natid_alloc s (shortHex s) ips tapHostIP guestIP mac i)) } })
       (\<lambda>_. pool_clean links) (p\<lparr>pl_slots := t'\<rparr>)"
      by (intro wpc_case_option wpc_bind [OF wpc_mono [OF claimed_release [OF cl un]]] wpc_return build_phase [OF ok cl un] slow_save_phase [OF ok])
        (simp_all add: natid_spec_def carveNATID_addr)
    show ?thesis unfolding natid_slow_def Let_def
      using run Inr cl body by (intro wpc_bind wpc_do_slots) (simp_all add: claimed_def)
  qed
qed

lemma ClearStaleHolders_clean:
  assumes ok: "links_ok (pe_run env) links nss" and c: "pool_clean links p"
  shows "wpc (pool_clean links) (ClearStaleHolders (krun env) f ip keep) (\<lambda>_. pool_clean links) p"
proof -
  have del: "wpc (pool_clean links) (do { _ \<leftarrow> runc (krun env) [''ip'', ''link'', ''del'', d]; State_Monad.return () }) (\<lambda>_. pool_clean links) q"
    if "pool_clean links q" for d q
  proof -
    have "links (pl_kern (snd (krun env [''ip'', ''link'', ''del'', d] q))) \<subseteq> links (pl_kern q)"
      using links_okD(1) [OF krun_links [OF ok], of d q] by auto
    then have "clean (links (pl_kern (snd (krun env [''ip'', ''link'', ''del'', d] q)))) (pl_slots q)" using clean_mono [OF that] by blast
    then show ?thesis by (intro wpc_bind wpc_runc wpc_return) (simp_all add: krun_conv)
  qed
  have loop: "wpc (pool_clean links) (for_each (\<lambda>d. do { _ \<leftarrow> runc (krun env) [''ip'', ''link'', ''del'', d]; State_Monad.return () }) ds) (\<lambda>_. pool_clean links) p" for ds
    by (rule wpc_for_each [of "\<lambda>_. pool_clean links"]) (use c del in simp_all)
  show ?thesis unfolding ClearStaleHolders_def
    by (intro wpc_if wpc_bind wpc_ask wpc_case_option wpc_return c wpc_mono [OF loop])
qed

lemma spawn_clean: "pool_clean links p \<Longrightarrow> wpc (pool_clean links) (spawn_refill key) (\<lambda>_ x. pool_clean links x \<and> pl_slots x = pl_slots p) p"
  unfolding spawn_refill_def by (intro wpc_act) auto

lemma slot_Reassign_length: "slot_Reassign db now a b kind i t = (r, t') \<Longrightarrow> length t' = length t"
  by (auto simp: slot_Reassign_def sql_update_def split: if_splits option.splits)

lemma AllocateNATID_clean:
  assumes ok: "links_ok (pe_run env) links nss" and c: "pool_clean links p" and tb: "natid_table (pl_slots p)"
    and fr: "fresh_id s (pl_slots p)"
    and save: "pe_save env = None \<or> pl_free p (natidIdentityKey tapHostIP guestIP mac (default_ports ports)) = []"
  shows "wpc (pool_clean links) (AllocateNATID env s tapHostIP guestIP mac ports) (\<lambda>_. pool_clean links) p"
proof (cases "pl_free p (natidIdentityKey tapHostIP guestIP mac (default_ports ports)) = []")
  case True
  then show ?thesis unfolding AllocateNATID_def Let_def
    using natid_slow_clean [OF ok c tb fr] by (intro wpc_bind wpc_ask) simp
next
  case False
  then have sv: "pe_save env = None" using save by simp
  let ?key = "natidIdentityKey tapHostIP guestIP mac (default_ports ports)"
  let ?parked = "last (pl_free p ?key)"
  let ?p1 = "p\<lparr>pl_free := (pl_free p)(?key := butlast (pl_free p ?key))\<rparr>"
  let ?f = "slot_Reassign (pe_reassign env) (pe_now env) (slotPrebuiltOwner (na_Idx ?parked)) s ''natid'' (na_Idx ?parked)"
  obtain r t' where run: "?f (pl_slots p) = (r, t')" by (cases "?f (pl_slots p)")
  have wf: "slots_wf (pl_slots p)" using tb by (simp add: natid_table_def slots_excl_def)
  have own: "slot_OwnerIdx None s (pl_slots p) = Inr None" using fr slot_OwnerIdx_None [OF wf] by (simp add: fresh_id_def)
  have "\<not> owns_other s (na_Idx ?parked) (pl_slots p)" using fr by (simp add: owns_other_def fresh_id_def)
  then have ex: "slots_excl t'"
    using slot_step_ok [OF slot_step.adopt [OF _ run [unfolded slotPrebuiltOwner_def, folded PrebuiltOwner_def]]] tb fr
    by (simp add: natid_table_def fresh_id_def)
  have len: "length t' = length (pl_slots p)"
    using run by (rule slot_Reassign_length)
  have map: "slot_map t' = (if r = Inr True then (slot_map (pl_slots p))(na_Idx ?parked \<mapsto> Some s) else slot_map (pl_slots p))
     \<and> (r = Inr True \<longrightarrow> slot_map (pl_slots p) (na_Idx ?parked) \<noteq> Some None)"
  proof (cases r)
    case (Inl e) then show ?thesis using run slot_errors(4) by fastforce
  next
    case (Inr got)
    have "slot_Reassign None (pe_now env) (slotPrebuiltOwner (na_Idx ?parked)) s ''natid'' (na_Idx ?parked) (pl_slots p) = (Inr got, t')"
      using run Inr slot_ok_db(3) by metis
    from slot_Reassign_map(2,3) [OF wf this] show ?thesis using Inr by (cases got) auto
  qed
  have c1: "pool_clean links (?p1\<lparr>pl_slots := t'\<rparr>)"
  proof -
    have "slot_map (pl_slots p) i = Some None" if "slot_map t' i = Some None" for i
      using that map by (auto split: if_splits)
    then show ?thesis using clean_mono [OF c subset_refl] by simp
  qed
  have adopted: "wpc (pool_clean links) (natid_adopted env s ?key ?parked) (\<lambda>_. pool_clean links) q" if "pool_clean links q" for q
    unfolding natid_adopted_def SaveAllocation_def sv
    by (intro wpc_bind wpc_act) (use that in \<open>auto intro!: wpc_bind wpc_mono [OF ClearStaleHolders_clean [OF ok]] wpc_mono [OF spawn_clean] wpc_return\<close>)
  have slow: "wpc (pool_clean links) (natid_slow env s tapHostIP guestIP mac pm) (\<lambda>_. pool_clean links) q"
    if "pool_clean links q" "pl_slots q = t'" "r \<noteq> Inr True" for q pm
    using that tb ex len map fr by (intro natid_slow_clean [OF ok]) (auto simp: natid_table_def fresh_id_def)
  have fail: "wpc (pool_clean links) (do { _ \<leftarrow> netns_Destroy (krun env) (na_Netns ?parked) (na_VethHost ?parked);
       _ \<leftarrow> spawn_refill ?key; natid_slow env s tapHostIP guestIP mac pm }) (\<lambda>_. pool_clean links) (?p1\<lparr>pl_slots := t'\<rparr>)" if "r \<noteq> Inr True" for pm
    by (intro wpc_bind wpc_mono [OF wpc_Destroy_pool [OF ok c1]] wpc_mono [OF spawn_clean] slow) (use that in auto)
  show ?thesis unfolding AllocateNATID_def Let_def
    by (intro wpc_bind wpc_ask) (use False run c c1 adopted fail in \<open>auto intro!: wpc_bind wpc_act wpc_do_slots\<close>)
qed

section \<open>Properties\<close>

definition demo_pool :: "slots \<Rightarrow> host pool" where
  "demo_pool t = \<lparr>pl_slots = t, pl_store = (\<lambda>_. None), pl_cidrow = 3, pl_kern = empty_host, pl_base = (natid_base, 16),
     pl_nextCID = 3, pl_free = (\<lambda>_. []), pl_refill = False, pl_spawned = []\<rparr>"

definition demo_env :: "string option \<Rightarrow> host pool_env" where
  "demo_env save = \<lparr>pe_run = host_run (\<lambda>_. False), pe_show = (\<lambda>_ _. None), pe_list = (\<lambda>h. Inr (h_nss h)), pe_ports = Some [],
     pe_wan = [], pe_now = 7, pe_claim = None, pe_release = None, pe_reassign = None, pe_get = (\<lambda>_. None), pe_json = (\<lambda>a. (True, a)),
     pe_save = save, pe_savecid = None, pe_delete = None\<rparr>"

abbreviation host_links_set :: "host \<Rightarrow> (string \<times> string) set" where
  "host_links_set h \<equiv> set (h_links h)"

lemma demo_env_ok: "links_ok (pe_run (demo_env e)) host_links_set (\<lambda>h. set (h_nss h))"
  using host_links_ok by (simp add: demo_env_def)

lemma demo_pool_ok: "pool_clean host_links_set (demo_pool t)"
  by (simp add: demo_pool_def empty_host_def clean_def)

lemma sl_demo_table: "natid_table sl_demo"
proof -
  have "length sl_demo = 3" by code_simp
  then show ?thesis using slot_reach_ok [OF sl_demo_reach] by (simp add: natid_table_def)
qed

text \<open>
  C34: Allocation claims before it builds. On a host where deletions of \<open>ip\<close> take effect, from a clean state and a ledger that reachable histories give,
  killing the agent at any point of \<open>AllocateNATID\<close> for a sandbox without a slot, or of \<open>PrebuildNATID\<close>, leaves no
  free slot whose address is in use, whichever other commands and databases fail, provided that \<open>SaveAllocation\<close> succeeds or no parked slot is at hand: the rollback of an
  adoption is excepted (\<open>AllocateNATID_rollback_poisons\<close>).
\<close>

theorem AllocateNATID_crash_safe:
  assumes ok: "links_ok (pe_run env) links nss" and c: "pool_clean links p" and tb: "natid_table (pl_slots p)"
    and fr: "fresh_id s (pl_slots p)"
    and save: "pe_save env = None \<or> pl_free p (natidIdentityKey tapHostIP guestIP mac (default_ports ports)) = []"
  shows "(\<forall>x \<in> set (states_of (AllocateNATID env s tapHostIP guestIP mac ports) p). pool_clean links x)
    \<and> (\<forall>x \<in> set (states_of (PrebuildNATID env tapHostIP guestIP mac ports) p). pool_clean links x)"
  using wpcD(1) [OF AllocateNATID_clean [OF assms]] wpcD(1) [OF PrebuildNATID_clean [OF ok c tb]] by blast

theorem AllocateNATID_crash_safe_witness:
  "list_all (pool_clean host_links_set)
     (states_of (AllocateNATID (demo_env None) ''sb-1'' ''172.20.6.117'' ''172.20.6.118'' ''06:00'' None) (demo_pool sl_demo))"
proof -
  have "fresh_id ''sb-1'' sl_demo"
  proof -
    have "find (\<lambda>r. sl_owner r = Some ''sb-1'') sl_demo = None" by code_simp
    then show ?thesis using find_owner_None [OF _ sl_demo_wf] by (auto simp: fresh_id_def sentinel_def)
  qed
  then have "fresh_id ''sb-1'' (pl_slots (demo_pool sl_demo))" "natid_table (pl_slots (demo_pool sl_demo))"
    using sl_demo_table by (simp_all add: demo_pool_def)
  then show ?thesis
    using AllocateNATID_crash_safe [OF demo_env_ok demo_pool_ok, of sl_demo "''sb-1''" None "''172.20.6.117''" "''172.20.6.118''" "''06:00''" None]
    by (simp add: demo_env_def list_all_iff)
qed

text \<open>
  A pool with slot 0 prebuilt and parked, and the rollback of the fast path when the payload cannot be
  written.
\<close>

definition parked_alloc :: NATIDAlloc where
  "parked_alloc = natid_alloc [] (natidShort 0) (natid_base + 1, natid_base + 2) ''172.20.6.117'' ''172.20.6.118'' ''06:00'' 0"

definition parked_pool :: "host pool" where
  "parked_pool = (demo_pool (snd (slot_ClaimPrebuilt None 7 ''prebuilt'' sl_demo)))
     \<lparr>pl_kern := empty_host\<lparr>h_links := [(''vh-p00000000'', slot_addr 0)], h_nss := [''ns-p00000000'']\<rparr>,
      pl_free := (\<lambda>_. [])(natidIdentityKey ''172.20.6.117'' ''172.20.6.118'' ''06:00'' [(22, 22)] := [parked_alloc])\<rparr>"

lemma hex8_0: "hex8 0 = ''00000000''"
  by (simp add: hex8_def hex_digit_def)

lemma sl_demo_rows: "sl_demo = [free_row 0, free_row 1, free_row 2]"
  by code_simp

lemma parked_slots: "pl_slots parked_pool =
    [\<lparr>sl_idx = 0, sl_owner = Some ''prebuilt:00000000'', sl_kind = ''prebuilt'', sl_claimed = Some 7\<rparr>, free_row 1, free_row 2]"
  by (simp add: parked_pool_def demo_pool_def sl_demo_rows slot_ClaimPrebuilt_def free_row_def u32_of_def PrebuiltOwner_def
      hex8_0 sql_update_def own_def)

lemma parked_fields: "na_Idx parked_alloc = 0" "na_Netns parked_alloc = ''ns-p00000000''" "na_VethHost parked_alloc = ''vh-p00000000''"
  "slotPrebuiltOwner 0 = ''prebuilt:00000000''"
  "pl_free parked_pool (natidIdentityKey ''172.20.6.117'' ''172.20.6.118'' ''06:00'' [(22, 22)]) = [parked_alloc]"
  "host_links_set (pl_kern parked_pool) = {(''vh-p00000000'', slot_addr 0)}"
  by (simp_all add: parked_alloc_def natid_alloc_def natidShort_def hex8_0 slotPrebuiltOwner_def parked_pool_def)

text \<open>
  C35: Releasing a sandbox does not leave a freed slot poisoned. On a host where deletions of \<open>ip\<close> take effect, kill the agent at any point of
  \<open>ReleaseNATID\<close>: no slot is free in the ledger while an interface of the host still carries its address,
  provided the payload of the sandbox can be read and decoded and records the interface of every slot it owns. Without the payload the slot is freed all
  the same (\<open>ReleaseNATID_lost_payload_poisons\<close>).
\<close>

theorem ReleaseNATID_crash_safe:
  assumes "links_ok (pe_run env) links nss" and "pool_clean links p" and "slots_wf (pl_slots p)"
    and "pe_get env s = None" and "recorded links p s" and "\<forall>a. pl_store p s = Some a \<longrightarrow> snd (pe_json env a) = a"
  shows "\<forall>x \<in> set (states_of (ReleaseNATID env s) p). pool_clean links x"
  using wpcD(1) [OF ReleaseNATID_clean [OF assms]] .

text \<open>A sandbox that has adopted slot 0, with its interface up and its payload stored.\<close>

definition owned_alloc :: Allocation where
  "owned_alloc = \<lparr>al_SandboxID = ''sb-1'', al_TAP = ''ns-p00000000'', al_HostIP = ''10.200.0.1'', al_GuestIP = ''172.20.6.118'', al_MAC = ''06:00'',
     al_VsockCID = 0, al_Subnet = ''vh-p00000000'', al_Idx = 0\<rparr>"

definition owned_pool :: "host pool" where
  "owned_pool = (demo_pool [own ''sb-1'' ''natid'' 9 (free_row 0), free_row 1, free_row 2])
     \<lparr>pl_kern := empty_host\<lparr>h_links := [(''vh-p00000000'', slot_addr 0)], h_nss := [''ns-p00000000'', ''ns-dead'', ''cni-1'']\<rparr>,
      pl_store := [''sb-1'' \<mapsto> owned_alloc]\<rparr>"

lemma owned_map: "slot_map (pl_slots owned_pool) i = (if i = 0 then Some (Some ''sb-1'') else if i = 1 \<or> i = 2 then Some None else None)"
  by (simp add: owned_pool_def demo_pool_def slot_map_def free_row_def own_def)

lemma owned_clean: "pool_clean host_links_set owned_pool"
proof -
  have "clean (insert (''vh-p00000000'', slot_addr 0) {}) (pl_slots owned_pool)"
    by (rule clean_insert) (simp_all add: clean_def owned_map)
  then show ?thesis by (simp add: owned_pool_def)
qed

theorem ReleaseNATID_crash_safe_witness:
  "list_all (pool_clean host_links_set) (states_of (ReleaseNATID (demo_env None) ''sb-1'') owned_pool)
    \<and> slot_map (pl_slots owned_pool) 0 = Some (Some ''sb-1'') \<and> (''vh-p00000000'', slot_addr 0) \<in> host_links_set (pl_kern owned_pool)"
proof -
  have "slots_wf (pl_slots owned_pool)" by (simp add: owned_pool_def demo_pool_def slots_wf_def free_row_def own_def)
  moreover have "pe_get (demo_env None) ''sb-1'' = None" by (simp add: demo_env_def)
  moreover have "recorded host_links_set owned_pool ''sb-1''"
    unfolding recorded_def by (simp add: owned_map) (simp add: owned_pool_def owned_alloc_def has_prefix_def)
  moreover have "\<forall>a. pl_store owned_pool ''sb-1'' = Some a \<longrightarrow> snd (pe_json (demo_env None) a) = a" by (simp add: demo_env_def)
  ultimately have "\<forall>x \<in> set (states_of (ReleaseNATID (demo_env None) ''sb-1'') owned_pool). pool_clean host_links_set x"
    by (rule ReleaseNATID_crash_safe [OF demo_env_ok owned_clean])
  then show ?thesis by (simp add: list_all_iff owned_map) (simp add: owned_pool_def)
qed

text \<open>
  When the payload cannot be decoded the release skips the kernel objects, drops the payload and frees the slot: the interface keeps the address of a free slot.
\<close>

lemma ReleaseNATID_lost_payload_poisons:
  assumes "zero = \<lparr>al_SandboxID = [], al_TAP = [], al_HostIP = [], al_GuestIP = [], al_MAC = [], al_VsockCID = 0, al_Subnet = [], al_Idx = 0\<rparr>"
    and "x = final_of (ReleaseNATID ((demo_env None)\<lparr>pe_json := (\<lambda>_. (False, zero))\<rparr>) ''sb-1'') owned_pool"
  shows "slot_map (pl_slots x) 0 = Some None \<and> (''vh-p00000000'', slot_addr 0) \<in> host_links_set (pl_kern x) \<and> pl_store x ''sb-1'' = None"
  using assms
  by (simp add: final_of_def ReleaseNATID_def GetAllocation_def destroy_recorded_def DeleteAllocation_def free_slot_def do_slots_def ask_def act_def State_Monad.bind_def
      demo_env_def owned_pool_def demo_pool_def slot_Release_def sql_update_def disown_def own_def free_row_def slot_map_def Let_def split: prod.splits)

text \<open>
  The rollback of the fast path frees the slot before it destroys the namespace. When the payload
  write fails after the adoption of a parked slot, the run of \<open>AllocateNATID\<close> passes through a state in
  which slot 0 is free and the parked interface still carries its address, which is the order the
  comments of the release path forbid.
\<close>

lemma AllocateNATID_rollback_poisons:
  "pool_clean host_links_set parked_pool
   \<and> (\<exists>x \<in> set (states_of (AllocateNATID (demo_env (Some ''disk full'')) ''sb-1'' ''172.20.6.117'' ''172.20.6.118'' ''06:00'' None) parked_pool).
        \<not> pool_clean host_links_set x)"
proof
  have "slot_map (pl_slots parked_pool) 0 = Some (Some ''prebuilt:00000000'')" by (simp add: parked_slots slot_map_def)
  moreover have "clean {} (pl_slots parked_pool)" by (simp add: clean_def)
  ultimately show "pool_clean host_links_set parked_pool"
    using clean_insert [of "{}" "pl_slots parked_pool" 0 "''vh-p00000000''"] by (simp add: parked_fields)
  let ?m = "AllocateNATID (demo_env (Some ''disk full'')) ''sb-1'' ''172.20.6.117'' ''172.20.6.118'' ''06:00'' None"
  have "\<exists>x \<in> set (states_of ?m parked_pool). pl_slots x = [free_row 0, free_row 1, free_row 2] \<and> pl_kern x = pl_kern parked_pool"
    by (simp add: states_of_def AllocateNATID_def default_ports_def ask_def act_def State_Monad.bind_def parked_fields parked_slots
        do_slots_def demo_env_def slot_Reassign_def sql_update_def own_def free_row_def natid_adopted_def SaveAllocation_def
        free_slot_def slot_Release_def disown_def netns_Destroy_def runc_def krun_def spawn_refill_def Let_def split: prod.splits)
  then obtain x where x: "x \<in> set (states_of ?m parked_pool)" "pl_slots x = [free_row 0, free_row 1, free_row 2]" "pl_kern x = pl_kern parked_pool" by blast
  have "slot_map (pl_slots x) 0 = Some None" unfolding x(2) by (simp add: slot_map_def free_row_def)
  moreover have "(''vh-p00000000'', slot_addr 0) \<in> host_links_set (pl_kern x)" unfolding x(3) parked_fields(6) by (rule insertI1)
  ultimately have "\<not> pool_clean host_links_set x" unfolding clean_def by (intro notI) (drule spec [of _ 0], drule spec [of _ "''vh-p00000000''"], simp)
  then show "\<exists>x \<in> set (states_of ?m parked_pool). \<not> pool_clean host_links_set x" using x(1) by (rule bexI)
qed

section \<open>The sweep\<close>

text \<open>The namespaces the live sandboxes record in payloads that can be decoded.\<close>

definition live_ns :: "'k pool_env \<Rightarrow> 'k pool \<Rightarrow> string list \<Rightarrow> string \<Rightarrow> bool" where
  "live_ns env p live n \<longleftrightarrow> (\<exists>i \<in> set live. \<exists>a b. pl_store p i = Some a \<and> pe_json env a = (True, b) \<and> al_TAP b = n)"

lemma liveNetnsNames_set:
  assumes "liveNetnsNames env p live = Some keep"
  shows "set keep = {n. live_ns env p live n \<and> has_prefix n ''ns-''}"
  using assms
proof (induction live arbitrary: keep)
  case (Cons i live)
  then obtain k where k: "liveNetnsNames env p live = Some k"
    "keep = (case pl_store p i of None \<Rightarrow> k | Some a \<Rightarrow> (case pe_json env a of (ok, b) \<Rightarrow> if ok \<and> has_prefix (al_TAP b) ''ns-'' then al_TAP b # k else k))"
    by (auto split: option.splits)
  have "set k = {n. live_ns env p live n \<and> has_prefix n ''ns-''}" using Cons.IH [OF k(1)] .
  moreover have "live_ns env p (i # live) n \<longleftrightarrow> live_ns env p live n \<or> (\<exists>a b. pl_store p i = Some a \<and> pe_json env a = (True, b) \<and> al_TAP b = n)" for n
    by (auto simp: live_ns_def)
  ultimately show ?case
  proof (cases "pl_store p i")
    case (Some a)
    obtain ok b where "pe_json env a = (ok, b)" by fastforce
    then show ?thesis unfolding k(2) using Some \<open>set k = _\<close> \<open>\<And>n. live_ns env p (i # live) n \<longleftrightarrow> _ n\<close> by auto
  qed (simp add: k(2))
qed (simp add: live_ns_def)

text \<open>What deletions may do whether they work or not: \<open>ip netns del\<close> removes at most the namespace it names.\<close>

definition deletes_at_most :: "'s runner \<Rightarrow> ('s \<Rightarrow> string set) \<Rightarrow> bool" where
  "deletes_at_most run nss \<longleftrightarrow>
     (\<forall>d k. nss (snd (run [''ip'', ''link'', ''del'', d] k)) = nss k)
   \<and> (\<forall>n k. nss k - {n} \<subseteq> nss (snd (run [''ip'', ''netns'', ''del'', n] k)) \<and> nss (snd (run [''ip'', ''netns'', ''del'', n] k)) \<subseteq> nss k)"

lemma links_ok_deletes: "links_ok run links nss \<Longrightarrow> deletes_at_most run nss"
  by (simp add: links_ok_def deletes_at_most_def)

lemma sweep_spares:
  assumes "deletes_at_most run nss"
  shows "wpc (\<lambda>_. True) (for_each (\<lambda>n. netns_Destroy run n (v n)) names) (\<lambda>_ x. nss k - set names \<subseteq> nss x \<and> nss x \<subseteq> nss k) k"
proof (induction names arbitrary: k)
  case (Cons n names)
  have one: "wpc (\<lambda>_. True) (netns_Destroy run n (v n)) (\<lambda>_ x. nss k - {n} \<subseteq> nss x \<and> nss x \<subseteq> nss k) k"
  proof -
    have l: "nss (snd (run [''ip'', ''link'', ''del'', d] x)) = nss x" for d x using assms by (simp add: deletes_at_most_def)
    have n: "nss x - {n} \<subseteq> nss (snd (run [''ip'', ''netns'', ''del'', n] x))" "nss (snd (run [''ip'', ''netns'', ''del'', n] x)) \<subseteq> nss x" for x
      using assms by (simp_all add: deletes_at_most_def)
    show ?thesis unfolding netns_Destroy_def
      using n [of k] n [of "snd (run [''ip'', ''link'', ''del'', v n] k)"] by (intro wpc_bind wpc_if wpc_runc wpc_return) (auto simp: l)
  qed
  show ?case unfolding for_each.simps
  proof (rule wpc_bind, rule wpc_mono [OF one])
    fix u x assume "nss k - {n} \<subseteq> nss x \<and> nss x \<subseteq> nss k"
    then show "wpc (\<lambda>_. True) (for_each (\<lambda>n. netns_Destroy run n (v n)) names) (\<lambda>_ y. nss k - set (n # names) \<subseteq> nss y \<and> nss y \<subseteq> nss k) x"
      by (intro wpc_mono [OF Cons]) auto
  qed
qed (simp add: wpc_return)

lemma sweep_loop:
  assumes ok: "links_ok run links nss" and ne: "\<forall>n \<in> set names. n \<noteq> []"
  shows "wpc (\<lambda>_. True) (for_each (\<lambda>n. netns_Destroy run n (''vh-'' @ trim_prefix n ''ns-'')) names)
    (\<lambda>_ x. nss x = nss k - set names \<and> links x \<subseteq> {l \<in> links k. \<forall>n \<in> set names. fst l \<noteq> ''vh-'' @ trim_prefix n ''ns-''}) k"
  using ne
proof (induction names arbitrary: k)
  case (Cons n names)
  have r: "rest_ok run (\<lambda>_. ())" by (simp add: rest_ok_def)
  have one: "wpc (\<lambda>_. True) (netns_Destroy run n (''vh-'' @ trim_prefix n ''ns-'')) (\<lambda>_. gone links nss (\<lambda>_. ()) n (''vh-'' @ trim_prefix n ''ns-'') k) k"
    using Cons.prems by (intro wpc_strengthen [OF Destroy_gone [OF ok r]]) auto
  show ?case unfolding for_each.simps
  proof (rule wpc_bind, rule wpc_mono [OF one])
    fix u x assume g: "gone links nss (\<lambda>_. ()) n (''vh-'' @ trim_prefix n ''ns-'') k x"
    have "wpc (\<lambda>_. True) (for_each (\<lambda>n. netns_Destroy run n (''vh-'' @ trim_prefix n ''ns-'')) names)
      (\<lambda>_ y. nss y = nss x - set names \<and> links y \<subseteq> {l \<in> links x. \<forall>n \<in> set names. fst l \<noteq> ''vh-'' @ trim_prefix n ''ns-''}) x"
      using Cons by simp
    then show "wpc (\<lambda>_. True) (for_each (\<lambda>n. netns_Destroy run n (''vh-'' @ trim_prefix n ''ns-'')) names)
      (\<lambda>_ y. nss y = nss k - set (n # names) \<and> links y \<subseteq> {l \<in> links k. \<forall>n \<in> set (n # names). fst l \<noteq> ''vh-'' @ trim_prefix n ''ns-''}) x"
      by (rule wpc_mono) (use g in \<open>auto simp: gone_def\<close>)
  qed
qed (simp add: wpc_return)

lemma Sweep_run:
  assumes "pe_list env (pl_kern p) = Inr ns" "liveNetnsNames env p live = Some keep"
    and "wpc (\<lambda>_. True) (for_each (\<lambda>n. netns_Destroy (krun env) n (''vh-'' @ trim_prefix n ''ns-'')) (orphanNetnsToSweep ns keep)) (\<lambda>_. Q) p"
  shows "Q (final_of (SweepOrphanNetns env live) p)"
proof -
  have "wpc (\<lambda>_. True) (SweepOrphanNetns env live) (\<lambda>_. Q) p"
    unfolding SweepOrphanNetns_def
    by (intro wpc_bind wpc_ask, simp only: assms(1,2) option.case sum.case)
      (intro wpc_bind wpc_ask, simp only: assms(1,2) option.case sum.case, intro wpc_bind wpc_mono [OF assms(3)] wpc_return)
  from wpcD(2) [OF this] show ?thesis .
qed

text \<open>
  C36: The boot sweep spares the living. If the payload of some live sandbox cannot be
  read it does nothing. Otherwise, also when deletions of \<open>ip\<close> fail, every namespace that the decoded payload of a live sandbox names and every namespace without the agent's
  prefix is still there; and when the deletions take effect, exactly the namespaces with the prefix that no such payload names are gone, their root interfaces
  with them. A live sandbox whose payload cannot be decoded is not spared, although the comment promises to fail closed (\<open>sweep_removes_undecoded_live\<close>).
\<close>

theorem SweepOrphanNetns_spec:
  assumes most: "deletes_at_most (pe_run env) nss" and ls: "pe_list env (pl_kern p) = Inr ns" "set ns = nss (pl_kern p)"
  shows "((\<exists>i \<in> set live. pe_get env i \<noteq> None) \<longrightarrow>
       result_of (SweepOrphanNetns env live) p = Inl SweepIncomplete \<and> final_of (SweepOrphanNetns env live) p = p)
    \<and> ((\<forall>i \<in> set live. pe_get env i = None) \<longrightarrow>
       (\<forall>n. n \<in> nss (pl_kern p) \<longrightarrow> \<not> has_prefix n ''ns-'' \<or> live_ns env p live n \<longrightarrow> n \<in> nss (pl_kern (final_of (SweepOrphanNetns env live) p))))
    \<and> ((\<forall>i \<in> set live. pe_get env i = None) \<longrightarrow> links_ok (pe_run env) links nss \<longrightarrow>
       (\<forall>n. n \<in> nss (pl_kern (final_of (SweepOrphanNetns env live) p)) \<longleftrightarrow> n \<in> nss (pl_kern p) \<and> (has_prefix n ''ns-'' \<longrightarrow> live_ns env p live n))
       \<and> (\<forall>m a. ''ns-'' @ m \<in> nss (pl_kern p) \<longrightarrow> (''vh-'' @ m, a) \<in> links (pl_kern (final_of (SweepOrphanNetns env live) p)) \<longrightarrow>
          live_ns env p live (''ns-'' @ m)))"
proof (intro conjI impI)
  assume "\<exists>i \<in> set live. pe_get env i \<noteq> None"
  then have "liveNetnsNames env p live = None" by (induction live) (auto split: option.splits, blast)
  then show "result_of (SweepOrphanNetns env live) p = Inl SweepIncomplete" "final_of (SweepOrphanNetns env live) p = p"
    by (simp_all add: SweepOrphanNetns_def result_of_def final_of_def ask_def State_Monad.bind_def)
next
  have "liveNetnsNames env p live \<noteq> None" if "\<forall>i \<in> set live. pe_get env i = None"
    using that by (induction live) (auto split: option.splits)
  then obtain keep where keep: "(\<forall>i \<in> set live. pe_get env i = None) \<Longrightarrow> liveNetnsNames env p live = Some keep" by (metis not_None_eq)
  let ?del = "orphanNetnsToSweep ns keep" and ?fin = "final_of (SweepOrphanNetns env live) p"
  have del: "n \<in> set ?del \<longleftrightarrow> n \<in> nss (pl_kern p) \<and> has_prefix n ''ns-'' \<and> \<not> live_ns env p live n" if "\<forall>i \<in> set live. pe_get env i = None" for n
    using ls(2) liveNetnsNames_set [OF keep [OF that]] by (auto simp: orphanNetnsToSweep_def)
  assume live: "\<forall>i \<in> set live. pe_get env i = None"
  have "deletes_at_most (krun env) (\<lambda>p. nss (pl_kern p))" using most by (simp add: deletes_at_most_def krun_conv)
  note spare = Sweep_run [OF ls(1) keep [OF live] sweep_spares [OF this]]
  then show "\<forall>n. n \<in> nss (pl_kern p) \<longrightarrow> \<not> has_prefix n ''ns-'' \<or> live_ns env p live n \<longrightarrow> n \<in> nss (pl_kern ?fin)" using del [OF live] by blast
  assume ok: "links_ok (pe_run env) links nss"
  have ne: "\<forall>n \<in> set ?del. n \<noteq> []" by (auto simp: orphanNetnsToSweep_def has_prefix_def)
  note fin = Sweep_run [OF ls(1) keep [OF live] sweep_loop [OF krun_links [OF ok] ne]]
  then show "\<forall>n. n \<in> nss (pl_kern ?fin) \<longleftrightarrow> n \<in> nss (pl_kern p) \<and> (has_prefix n ''ns-'' \<longrightarrow> live_ns env p live n)"
    using del [OF live] by blast
  show "\<forall>m a. ''ns-'' @ m \<in> nss (pl_kern p) \<longrightarrow> (''vh-'' @ m, a) \<in> links (pl_kern ?fin) \<longrightarrow> live_ns env p live (''ns-'' @ m)"
  proof (intro allI impI)
    fix m a assume a: "''ns-'' @ m \<in> nss (pl_kern p)" "(''vh-'' @ m, a) \<in> links (pl_kern ?fin)"
    then have "''vh-'' @ m \<noteq> ''vh-'' @ trim_prefix (''ns-'' @ m) ''ns-''" if "''ns-'' @ m \<in> set ?del" using fin that by fastforce
    then have "''ns-'' @ m \<notin> set ?del" by (metis trim_prefix_append)
    then show "live_ns env p live (''ns-'' @ m)" using del [OF live, of "''ns-'' @ m"] a(1) has_prefix_append [of "''ns-''" m] by blast
  qed
qed

text \<open>A live sandbox, a leftover namespace and a foreign one.\<close>

theorem SweepOrphanNetns_spec_witness:
  "set (h_nss (pl_kern (final_of (SweepOrphanNetns (demo_env None) [''sb-1'']) owned_pool))) = {''ns-p00000000'', ''cni-1''}"
proof -
  let ?f = "final_of (SweepOrphanNetns (demo_env None) [''sb-1'']) owned_pool"
  have ns: "pe_list (demo_env None) (pl_kern owned_pool) = Inr (h_nss (pl_kern owned_pool))" by (simp add: demo_env_def)
  have get: "\<forall>i \<in> set [''sb-1'']. pe_get (demo_env None) i = None" by (simp add: demo_env_def)
  have live: "live_ns (demo_env None) owned_pool [''sb-1''] n \<longleftrightarrow> n = ''ns-p00000000''" for n
    by (auto simp: live_ns_def demo_env_def owned_pool_def owned_alloc_def)
  have "\<forall>n. n \<in> set (h_nss (pl_kern ?f)) \<longleftrightarrow> n \<in> set (h_nss (pl_kern owned_pool)) \<and> (has_prefix n ''ns-'' \<longrightarrow> live_ns (demo_env None) owned_pool [''sb-1''] n)"
    using SweepOrphanNetns_spec [OF links_ok_deletes [OF demo_env_ok] ns refl, of "[''sb-1'']"] get demo_env_ok by blast
  then have "set (h_nss (pl_kern ?f)) = {n \<in> set (h_nss (pl_kern owned_pool)). has_prefix n ''ns-'' \<longrightarrow> n = ''ns-p00000000''}" by (auto simp: live)
  also have "\<dots> = {''ns-p00000000'', ''cni-1''}" by (auto simp: owned_pool_def has_prefix_def)
  finally show ?thesis .
qed

text \<open>The namespace of a running sandbox goes when its payload cannot be decoded.\<close>

lemma sweep_removes_undecoded_live:
  "''ns-p00000000'' \<notin> set (h_nss (pl_kern (final_of (SweepOrphanNetns ((demo_env None)\<lparr>pe_json := (\<lambda>a. (False, a))\<rparr>) [''sb-1'']) owned_pool)))"
proof -
  let ?env = "(demo_env None)\<lparr>pe_json := (\<lambda>a. (False, a))\<rparr>"
  have keep: "liveNetnsNames ?env owned_pool [''sb-1''] = Some []" by (simp add: demo_env_def owned_pool_def)
  have ls: "pe_list ?env (pl_kern owned_pool) = Inr (h_nss (pl_kern owned_pool))" by (simp add: demo_env_def)
  have del: "orphanNetnsToSweep (h_nss (pl_kern owned_pool)) [] = [''ns-p00000000'', ''ns-dead'']"
    by (simp add: orphanNetnsToSweep_def owned_pool_def has_prefix_def)
  have ok: "links_ok (krun ?env) (\<lambda>p. host_links_set (pl_kern p)) (\<lambda>p. set (h_nss (pl_kern p)))"
    using demo_env_ok [of None] by (intro krun_links) simp
  have "\<forall>n \<in> set (orphanNetnsToSweep (h_nss (pl_kern owned_pool)) []). n \<noteq> []" by (simp add: del)
  from Sweep_run [OF ls keep sweep_loop [OF ok this]] show ?thesis by (simp add: del)
qed

end
