(* ===== verification/Go_Env.thy ===== *)
theory Go_Env
  imports Go_Base
begin

text \<open>
  Configuration from environment variables: \<open>strconv.Atoi\<close> and the durations computed from it. An
  environment is a function from variable names to values, the empty string for an unset one, as
  \<open>os.Getenv\<close> has it.
\<close>

type_synonym environ = "string \<Rightarrow> string"

definition digit_val :: "char \<Rightarrow> int option" where
  "digit_val c = (let n = of_char c :: int in if 48 \<le> n \<and> n \<le> 57 then Some (n - 48) else None)"

fun digits_val :: "int \<Rightarrow> string \<Rightarrow> int option" where
  "digits_val acc [] = Some acc"
| "digits_val acc (c # cs) =
     (case digit_val c of None \<Rightarrow> None | Some d \<Rightarrow> digits_val (10 * acc + d) cs)"

text \<open>\<open>strconv.Atoi\<close>: an optional sign and at least one digit; out of range is an error.\<close>

definition atoi :: "string \<Rightarrow> int option" where
  "atoi s =
     (let (neg, ds) = (case s of [] \<Rightarrow> (False, [])
                       | c # cs \<Rightarrow> if c = CHR ''-'' then (True, cs)
                                   else if c = CHR ''+'' then (False, cs) else (False, s)) in
      if ds = [] then None
      else case digits_val 0 ds of
        None \<Rightarrow> None
      | Some v \<Rightarrow> let x = (if neg then - v else v) in
          if - (2 ^ 63) \<le> x \<and> x < 2 ^ 63 then Some x else None)"

text \<open>Durations are nanoseconds.\<close>

definition Millisecond :: int where "Millisecond = 1000000"
definition Second :: int where "Second = 1000000000"

lemma atoi_range: "atoi s = Some x \<Longrightarrow> - (2 ^ 63) \<le> x \<and> x < 2 ^ 63"
  by (auto simp: atoi_def Let_def split: option.splits prod.splits if_splits list.splits)

end
