(* ===== verification/Uffd_Handler.thy ===== *)
theory Uffd_Handler
  imports Mem_Resolver Go_Env
begin

text \<open>
  The userfaultfd page-fault handler (\<^verbatim>\<open>src/agent/internal/uffd\<close>): \<^verbatim>\<open>proto.go\<close> (regions),
  \<^verbatim>\<open>faultretry.go\<close> (retry with backoff) and \<^verbatim>\<open>handler_linux.go\<close> (handoff, fault loop, one fault), on top
  of the page resolver of \<open>Mem_Resolver\<close>.

  The kernel and Firecracker are the environment: what \<open>poll\<close>, \<open>read\<close> and \<open>recvmsg\<close> return, the
  outcome of \<open>UFFDIO_COPY\<close> (\<open>ucopy\<close>), the clock, the random source and the context are arguments.
  \<open>uh_guest\<close> records the pages that \<open>UFFDIO_COPY\<close> installed. The fault loop runs the jobs of one read
  before the next poll: one schedule of its workers; the interleavings of the resolver underneath
  are those of \<open>ms_flight\<close>.
\<close>

section \<open>Regions (proto.go)\<close>

record GuestRegionUffdMapping =
  BaseHostVirtAddr :: u64
  Size :: u64
  Offset :: u64
  PageSize :: u64

definition region_pageSize :: "GuestRegionUffdMapping \<Rightarrow> u64" where
  "region_pageSize m = (if PageSize m = 0 then 4096 else PageSize m)"

definition region_contains :: "GuestRegionUffdMapping \<Rightarrow> u64 \<Rightarrow> bool" where
  "region_contains m addr \<longleftrightarrow> addr \<ge> BaseHostVirtAddr m \<and> addr < BaseHostVirtAddr m + Size m"

definition region_fileOffset :: "GuestRegionUffdMapping \<Rightarrow> u64 \<Rightarrow> int" where
  "region_fileOffset m addr = sint (Offset m + (addr - BaseHostVirtAddr m))"

fun findMapping :: "GuestRegionUffdMapping list \<Rightarrow> u64 \<Rightarrow> GuestRegionUffdMapping option" where
  "findMapping [] addr = None"
| "findMapping (m # ms) addr = (if region_contains m addr then Some m else findMapping ms addr)"

section \<open>Retry (faultretry.go)\<close>

definition envDuration :: "environ \<Rightarrow> string \<Rightarrow> int \<Rightarrow> int" where
  "envDuration env key def =
     (let v = env key in
      if v \<noteq> [] then
        (case atoi v of
           Some secs \<Rightarrow> if secs \<ge> 0 then i64 (secs * Second) else def
         | None \<Rightarrow> def)
      else def)"

definition faultRetryBudget :: "environ \<Rightarrow> int" where
  "faultRetryBudget env = envDuration env ''PANDASTACK_MEMSTREAM_FAULT_RETRY_SEC'' (120 * Second)"

definition faultRetryBase :: int where "faultRetryBase = 200 * Millisecond"
definition faultRetryMax :: int where "faultRetryMax = 5 * Second"

text \<open>\<open>rand k\<close> is \<open>rand.Int63n(k)\<close>. The shift is on \<open>int64\<close>, so it wraps.\<close>

definition faultBackoff :: "(int \<Rightarrow> int) \<Rightarrow> nat \<Rightarrow> int" where
  "faultBackoff rand n =
     (let d = i64 (faultRetryBase * 2 ^ n) in
      rand ((if d > faultRetryMax \<or> d \<le> 0 then faultRetryMax else d) + 1))"

text \<open>
  What attempt \<open>n\<close> of the retry loop meets: the context's error at the top of the loop, the two clock
  readings, the random source, and whether the context is done before a wait of the given length is
  over.
\<close>

record tick =
  tk_ctx :: "string option"
  tk_now :: int
  tk_stamp :: int
  tk_rand :: "int \<Rightarrow> int"
  tk_done :: "int \<Rightarrow> string option"

datatype 'e retry_error = CtxErr string | ResolveErr 'e

text \<open>
  \<open>resolve n\<close> is the call of \<open>resolve\<close> number \<open>n\<close>. The loop has no bound of its own, so it is a partial
  function: \<open>None\<close> is a loop that never returns.
\<close>

partial_function (option) retry_loop ::
  "(nat \<Rightarrow> tick) \<Rightarrow> (nat \<Rightarrow> 's \<Rightarrow> 'e call \<times> 's) \<Rightarrow> ('s \<Rightarrow> 's) \<Rightarrow> (int \<Rightarrow> 's \<Rightarrow> 's) \<Rightarrow> int \<Rightarrow> nat \<Rightarrow> 'e \<Rightarrow> 's
    \<Rightarrow> ('e retry_error call \<times> 's) option" where
  "retry_loop env resolve onRetry clk deadline attempt err s =
     (let t = env attempt in
      case tk_ctx t of
        Some e \<Rightarrow> Some (Done (Some (CtxErr e)), s)
      | None \<Rightarrow>
          if tk_now t > deadline then Some (Done (Some (ResolveErr err)), s)
          else
            let s1 = clk (tk_stamp t) (onRetry s);
                wait = faultBackoff (tk_rand t) attempt
            in case tk_done t wait of
                 Some e \<Rightarrow> Some (Done (Some (CtxErr e)), s1)
               | None \<Rightarrow>
                   (case resolve (Suc attempt) s1 of
                      (Done None, s2) \<Rightarrow> Some (Done None, s2)
                    | (Done (Some e), s2) \<Rightarrow> retry_loop env resolve onRetry clk deadline (Suc attempt) e s2
                    | (Blocked, s2) \<Rightarrow> Some (Blocked, s2)
                    | (Panics, s2) \<Rightarrow> Some (Panics, s2)))"

definition resolveWithRetry ::
  "(nat \<Rightarrow> tick) \<Rightarrow> int \<Rightarrow> int \<Rightarrow> (nat \<Rightarrow> 's \<Rightarrow> 'e call \<times> 's) \<Rightarrow> ('s \<Rightarrow> 's) \<Rightarrow> (int \<Rightarrow> 's \<Rightarrow> 's) \<Rightarrow> 's
    \<Rightarrow> ('e retry_error call \<times> 's) option" where
  "resolveWithRetry env now0 budget resolve onRetry clk s =
     (case resolve 0 s of
        (Done None, s1) \<Rightarrow> Some (Done None, s1)
      | (Done (Some e), s1) \<Rightarrow> retry_loop env resolve onRetry clk (now0 + budget) 0 e s1
      | (Blocked, s1) \<Rightarrow> Some (Blocked, s1)
      | (Panics, s1) \<Rightarrow> Some (Panics, s1))"

declare retry_loop.simps [code]


section \<open>The handler (handler_linux.go)\<close>

text \<open>\<open>uh_listening\<close> says that \<open>ln\<close> is set; \<open>uh_closed\<close> is the state of \<open>closeOne\<close>.\<close>

record uffd_Handler =
  uh_resolver :: ms_Resolver
  uh_workers :: int
  uh_listening :: bool
  uh_uffd :: int
  uh_cancelR :: int
  uh_cancelW :: int
  uh_faults :: int
  uh_copied :: int
  uh_retries :: int
  uh_lastProgress :: int
  uh_closed :: bool
  uh_guest :: "(u64 \<times> byte list) list"

datatype uffd_error =
    OutsideRegions u64
  | ResolveOff int "ms_rerror retry_error"
  | CopyFailed u64 int
  | ListenError string
  | PipeError string
  | NotListening
  | AcceptError string
  | RawConn string
  | RawConnRead string
  | RecvmsgError string
  | ParseControl string
  | NoFd
  | ParseRights string
  | DecodeMappings nat string
  | EmptyMappings
  | NonblockError string
  | LoopCtx string
  | PollError string
  | ReadEvents string

definition uffd_New :: "ms_Resolver \<Rightarrow> uffd_Handler" where
  "uffd_New r = \<lparr>uh_resolver = r, uh_workers = 0, uh_listening = False, uh_uffd = - 1, uh_cancelR = - 1,
     uh_cancelW = - 1, uh_faults = 0, uh_copied = 0, uh_retries = 0, uh_lastProgress = 0,
     uh_closed = False, uh_guest = []\<rparr>"

text \<open>\<open>listen\<close> and \<open>pipe\<close> are the outcomes of \<open>ListenUnix\<close> and \<open>Pipe\<close>.\<close>

definition uffd_Listen ::
  "string option \<Rightarrow> string + int \<times> int \<Rightarrow> uffd_Handler \<Rightarrow> uffd_error option \<times> uffd_Handler" where
  "uffd_Listen listen pipe h =
     (case listen of
        Some e \<Rightarrow> (Some (ListenError e), h)
      | None \<Rightarrow>
          (case pipe of
             Inl e \<Rightarrow> (Some (PipeError e), h)
           | Inr (p0, p1) \<Rightarrow> (None, h\<lparr>uh_listening := True, uh_cancelR := p0, uh_cancelW := p1\<rparr>)))"

text \<open>
  The world of one fault: the retry loop's ticks, the time at which the deadline is computed, what each
  attempt's fetch and cache read meet, the progress stamp, and the outcome of the copy.
\<close>

record fault_world =
  fw_ticks :: "nat \<Rightarrow> tick"
  fw_start :: int
  fw_fetch :: "nat \<Rightarrow> fetch_env"
  fw_rd :: "nat \<Rightarrow> string option"
  fw_stamp :: int
  fw_copy :: "int option"

definition EEXIST :: int where "EEXIST = 17"

text \<open>\<open>uffdCopy\<close>: the kernel installs the page, or reports an errno.\<close>

definition uffdCopy :: "int option \<Rightarrow> u64 \<Rightarrow> byte list \<Rightarrow> uffd_Handler \<Rightarrow> int option \<times> uffd_Handler" where
  "uffdCopy outcome dst page h =
     (case outcome of
        Some e \<Rightarrow> (Some e, h)
      | None \<Rightarrow> (None, h\<lparr>uh_guest := uh_guest h @ [(dst, page)]\<rparr>))"

definition resolve_attempt ::
  "fault_world \<Rightarrow> int \<Rightarrow> nat \<Rightarrow> uffd_Handler \<times> byte list \<Rightarrow> ms_rerror call \<times> uffd_Handler \<times> byte list" where
  "resolve_attempt w fileOff n = (\<lambda>(h, page).
     let (c, page', r) = ms_ResolvePage (fw_fetch w n) (fw_rd w n) (uh_resolver h) fileOff page
     in (c, h\<lparr>uh_resolver := r\<rparr>, page'))"

definition count_retry :: "uffd_Handler \<times> byte list \<Rightarrow> uffd_Handler \<times> byte list" where
  "count_retry = (\<lambda>(h, page). (h\<lparr>uh_retries := uh_retries h + 1\<rparr>, page))"

definition stamp_progress :: "int \<Rightarrow> uffd_Handler \<times> byte list \<Rightarrow> uffd_Handler \<times> byte list" where
  "stamp_progress t = (\<lambda>(h, page). (h\<lparr>uh_lastProgress := t\<rparr>, page))"

text \<open>
  \<open>servePage\<close> returns its error, the worker's buffer as it leaves it, and the new state. The page is a
  prefix of the buffer, so slicing past the buffer's end panics.
\<close>

definition servePage ::
  "int \<Rightarrow> fault_world \<Rightarrow> GuestRegionUffdMapping list \<Rightarrow> u64 \<Rightarrow> byte list \<Rightarrow> uffd_Handler
    \<Rightarrow> (uffd_error call \<times> byte list \<times> uffd_Handler) option" where
  "servePage budget w mappings addr buf h =
     (case findMapping mappings addr of
        None \<Rightarrow> Some (Done (Some (OutsideRegions addr)), buf, h)
      | Some m \<Rightarrow>
          (let ps = region_pageSize m; pageStart = addr AND NOT (ps - 1) in
           if uint ps > int (length buf) then Some (Panics, buf, h)
           else
             let fileOff = region_fileOffset m pageStart in
             map_option (\<lambda>(res, h1, page).
               let buf1 = page @ drop (unat ps) buf in
               case res of
                 Blocked \<Rightarrow> (Blocked, buf1, h1)
               | Panics \<Rightarrow> (Panics, buf1, h1)
               | Done (Some e) \<Rightarrow> (Done (Some (ResolveOff fileOff e)), buf1, h1)
               | Done None \<Rightarrow>
                   (let h2 = h1\<lparr>uh_lastProgress := fw_stamp w\<rparr> in
                    case uffdCopy (fw_copy w) pageStart page h2 of
                      (Some e, h3) \<Rightarrow>
                        if e = EEXIST then (Done None, buf1, h3)
                        else (Done (Some (CopyFailed pageStart e)), buf1, h3)
                    | (None, h3) \<Rightarrow> (Done None, buf1, h3\<lparr>uh_copied := uh_copied h3 + 1\<rparr>)))
               (resolveWithRetry (fw_ticks w) (fw_start w) budget (resolve_attempt w fileOff)
                  count_retry stamp_progress (h, take (unat ps) buf))))"

text \<open>The jobs of one \<open>read\<close>: 32-byte messages, the event in byte 0, the address at offset 16.\<close>

definition msgSize :: nat where "msgSize = 32"
definition uffdEventPagefault :: byte where "uffdEventPagefault = 0x12"

function fault_addrs :: "byte list \<Rightarrow> u64 list" where
  "fault_addrs ev =
     (if length ev < msgSize then []
      else (if ev ! 0 = uffdEventPagefault then [get64 (drop 16 ev)] else []) @ fault_addrs (drop msgSize ev))"
  by pat_completeness auto
termination by (relation "measure length") (auto simp: msgSize_def)

declare fault_addrs.simps [simp del]

definition maxPage :: "GuestRegionUffdMapping list \<Rightarrow> u64" where
  "maxPage mappings =
     foldl (\<lambda>mx m. if region_pageSize m > mx then region_pageSize m else mx) (word_of_int ms_PageSize) mappings"

text \<open>
  One round of the loop: the context's error, the outcome of \<open>poll\<close>, the bytes or the error of \<open>read\<close>,
  the world of each fault of that read, and the fault at which the context is found done while
  the dispatcher hands out jobs.
\<close>

datatype poll_result = PollEINTR | PollFails string | PollCancelled | PollIdle | PollReady

datatype read_result = ReadAgain | ReadFails string | ReadBytes "byte list"

record round =
  rd_ctx :: "string option"
  rd_poll :: poll_result
  rd_read :: read_result
  rd_worlds :: "nat \<Rightarrow> fault_world"
  rd_full :: "(nat \<times> string) option"

text \<open>A job that fails sets \<open>fatal\<close> once; the other jobs of the read are still served.\<close>

fun serve_jobs ::
  "int \<Rightarrow> GuestRegionUffdMapping list \<Rightarrow> (nat \<Rightarrow> fault_world) \<Rightarrow> nat \<Rightarrow> u64 list \<Rightarrow> byte list \<Rightarrow> uffd_error option
    \<Rightarrow> uffd_Handler \<Rightarrow> (bool \<times> byte list \<times> uffd_error option \<times> uffd_Handler) option" where
  "serve_jobs budget ms ws k [] page fatal h = Some (True, page, fatal, h)"
| "serve_jobs budget ms ws k (a # as) page fatal h =
     (case servePage budget (ws k) ms a page (h\<lparr>uh_faults := uh_faults h + 1\<rparr>) of
        Some (Done e, page1, h1) \<Rightarrow>
          serve_jobs budget ms ws (Suc k) as page1 (case fatal of None \<Rightarrow> e | Some f \<Rightarrow> Some f) h1
      | Some (_, page1, h1) \<Rightarrow> Some (False, page1, fatal, h1)
      | None \<Rightarrow> None)"

text \<open>\<open>Polling\<close> is a loop still running when the given rounds are used up.\<close>

datatype loop_end = Polling | Returned_nil | Returned_err uffd_error | Crashed

fun fault_rounds ::
  "int \<Rightarrow> GuestRegionUffdMapping list \<Rightarrow> round list \<Rightarrow> byte list \<Rightarrow> uffd_error option \<Rightarrow> uffd_Handler
    \<Rightarrow> (loop_end \<times> uffd_Handler) option" where
  "fault_rounds budget ms [] page fatal h = Some (Polling, h)"
| "fault_rounds budget ms (r # rs) page fatal h =
     (case rd_ctx r of
        Some e \<Rightarrow> Some (Returned_err (LoopCtx e), h)
      | None \<Rightarrow>
          (case fatal of
             Some e \<Rightarrow> Some (Returned_err e, h)
           | None \<Rightarrow>
               (case rd_poll r of
                  PollEINTR \<Rightarrow> fault_rounds budget ms rs page fatal h
                | PollFails e \<Rightarrow> Some (Returned_err (PollError e), h)
                | PollCancelled \<Rightarrow> Some (Returned_nil, h)
                | PollIdle \<Rightarrow> fault_rounds budget ms rs page fatal h
                | PollReady \<Rightarrow>
                    (case rd_read r of
                       ReadAgain \<Rightarrow> fault_rounds budget ms rs page fatal h
                     | ReadFails e \<Rightarrow> Some (Returned_err (ReadEvents e), h)
                     | ReadBytes ev \<Rightarrow>
                         (let addrs = fault_addrs ev;
                              jobs = (case rd_full r of None \<Rightarrow> addrs | Some (k, e) \<Rightarrow> take k addrs) in
                          case serve_jobs budget ms (rd_worlds r) 0 jobs page fatal h of
                            None \<Rightarrow> None
                          | Some (False, page1, fatal1, h1) \<Rightarrow> Some (Crashed, h1)
                          | Some (True, page1, fatal1, h1) \<Rightarrow>
                              (case rd_full r of
                                 Some (k, e) \<Rightarrow>
                                   if k < length addrs
                                   then Some (Returned_err (LoopCtx e), h1\<lparr>uh_faults := uh_faults h1 + 1\<rparr>)
                                   else fault_rounds budget ms rs page1 fatal1 h1
                               | None \<Rightarrow> fault_rounds budget ms rs page1 fatal1 h1))))))"

definition faultLoop ::
  "int \<Rightarrow> int \<Rightarrow> GuestRegionUffdMapping list \<Rightarrow> round list \<Rightarrow> uffd_Handler \<Rightarrow> (loop_end \<times> uffd_Handler) option" where
  "faultLoop budget now mappings rounds h =
     fault_rounds budget mappings rounds (zeros (unat (maxPage mappings))) None (h\<lparr>uh_lastProgress := now\<rparr>)"


subsection \<open>Handoff, teardown and statistics\<close>

text \<open>
  What the handoff connection delivers: errors of the raw connection and of \<open>recvmsg\<close>, the number of
  bytes, the control messages with the descriptors each carries, and the decoded JSON body.
\<close>

record handoff =
  ho_raw :: "string option"
  ho_read :: "string option"
  ho_recv :: "string option"
  ho_bytes :: nat
  ho_scms :: "string + (string + int list) list"
  ho_json :: "string + GuestRegionUffdMapping list"

text \<open>Besides its result \<open>recvHandoff\<close> reports the descriptors it closed.\<close>

definition recvHandoff ::
  "handoff \<Rightarrow> (uffd_error + int \<times> GuestRegionUffdMapping list) \<times> int list" where
  "recvHandoff c =
     (case ho_raw c of
        Some e \<Rightarrow> (Inl (RawConn e), [])
      | None \<Rightarrow> (case ho_read c of
        Some e \<Rightarrow> (Inl (RawConnRead e), [])
      | None \<Rightarrow> (case ho_recv c of
        Some e \<Rightarrow> (Inl (RecvmsgError e), [])
      | None \<Rightarrow> (case ho_scms c of
        Inl e \<Rightarrow> (Inl (ParseControl e), [])
      | Inr [] \<Rightarrow> (Inl NoFd, [])
      | Inr (scm # _) \<Rightarrow> (case scm of
        Inl e \<Rightarrow> (Inl (ParseRights e), [])
      | Inr [] \<Rightarrow> (Inl (ParseRights []), [])
      | Inr (fd # extra) \<Rightarrow> (case ho_json c of
        Inl e \<Rightarrow> (Inl (DecodeMappings (ho_bytes c) e), extra @ [fd])
      | Inr mappings \<Rightarrow>
          if mappings = [] then (Inl EmptyMappings, extra @ [fd])
          else (Inr (fd, mappings), extra)))))))"

text \<open>
  \<open>Serve\<close> also reports the descriptors closed when it returns: \<open>faultLoop\<close> closes the userfaultfd on
  its way out.
\<close>

definition uffd_Serve ::
  "int \<Rightarrow> int \<Rightarrow> string option \<Rightarrow> handoff \<Rightarrow> string option \<Rightarrow> round list \<Rightarrow> uffd_Handler
    \<Rightarrow> (loop_end \<times> int list \<times> uffd_Handler) option" where
  "uffd_Serve budget now accept c nonblock rounds h =
     (if \<not> uh_listening h then Some (Returned_err NotListening, [], h)
      else case accept of
        Some e \<Rightarrow> Some (Returned_err (AcceptError e), [], h)
      | None \<Rightarrow>
          (case recvHandoff c of
             (Inl e, closed) \<Rightarrow> Some (Returned_err e, closed, h)
           | (Inr (fd, mappings), closed) \<Rightarrow>
               (let h1 = h\<lparr>uh_uffd := fd\<rparr> in
                case nonblock of
                  Some e \<Rightarrow> Some (Returned_err (NonblockError e), closed, h1)
                | None \<Rightarrow>
                    map_option (\<lambda>(res, h2).
                      (res, if res = Polling \<or> fd < 0 then closed else closed @ [fd], h2))
                      (faultLoop budget now mappings rounds h1))))"

definition uffd_StalledFor :: "int \<Rightarrow> int \<Rightarrow> uffd_Handler \<Rightarrow> bool" where
  "uffd_StalledFor now d h \<longleftrightarrow> uh_lastProgress h \<noteq> 0 \<and> now - uh_lastProgress h > d"

record uffd_stats =
  us_Faults :: int
  us_Copied :: int
  us_Fetches :: int
  us_ZeroFill :: int

definition uffd_Stats :: "uffd_Handler \<Rightarrow> uffd_stats" where
  "uffd_Stats h = \<lparr>us_Faults = uh_faults h, us_Copied = uh_copied h,
     us_Fetches = st_fetches (rs_store (uh_resolver h)), us_ZeroFill = rs_zeroFill (uh_resolver h)\<rparr>"

datatype close_op = WriteCancel int | CloseListener | CloseFd int

definition uffd_Close :: "uffd_Handler \<Rightarrow> close_op list \<times> uffd_Handler" where
  "uffd_Close h =
     ((if \<not> uh_closed h \<and> uh_cancelW h \<ge> 0 then [WriteCancel (uh_cancelW h)] else [])
      @ (if uh_listening h then [CloseListener] else [])
      @ (if uh_cancelR h \<ge> 0 then [CloseFd (uh_cancelR h)] else [])
      @ (if uh_cancelW h \<ge> 0 then [CloseFd (uh_cancelW h)] else []),
      h\<lparr>uh_closed := True, uh_cancelR := - 1, uh_cancelW := - 1\<rparr>)"

section \<open>Backoff and retry\<close>

text \<open>A wrapped shift of the backoff is a multiple of \<open>2 ^ 33\<close>, so it never looks like a short wait.\<close>

lemma i64_dvd:
  assumes "k \<le> 63" and "2 ^ k dvd x"
  shows "2 ^ k dvd i64 x"
proof -
  have p: "(2 :: int) ^ k dvd 2 ^ 63" "(2 :: int) ^ k dvd 2 ^ 64"
    by (rule le_imp_power_dvd, use assms(1) in simp)+
  have "(2 :: int) ^ k dvd (x + 2 ^ 63) mod 2 ^ 64"
    using p assms(2) by (intro dvd_mod dvd_add)
  then show ?thesis using p unfolding i64_def by (intro dvd_diff)
qed

lemma backoff_shift_wraps:
  assumes "24 \<le> n"
  shows "i64 (faultRetryBase * 2 ^ n) \<le> 0 \<or> i64 (faultRetryBase * 2 ^ n) > faultRetryMax"
proof -
  have "faultRetryBase * 2 ^ n = 2 ^ 33 * (390625 * 2 ^ (n - 24))"
    using assms power_add [of "2 :: int" 24 "n - 24"] by (simp add: faultRetryBase_def Millisecond_def)
  then have "(2 :: int) ^ 33 dvd i64 (faultRetryBase * 2 ^ n)" by (intro i64_dvd) simp_all
  then show ?thesis
    using zdvd_imp_le [of "2 ^ 33" "i64 (faultRetryBase * 2 ^ n)"]
    by (fastforce simp: faultRetryMax_def Second_def)
qed

text \<open>
  for every attempt number, however large, the backoff drawn is uniform below
  \<open>min (200 ms * 2 ^ n) 5 s\<close>: the wrap-around of the 64-bit shift never turns a late attempt into
  a short or negative wait.
\<close>

lemma faultBackoff_capped:
  "faultBackoff rand n = rand (min (faultRetryBase * 2 ^ n) faultRetryMax + 1)"
proof (cases "n < 24")
  case True
  have "(2 :: int) ^ n \<le> 2 ^ 24" using True by (intro power_increasing) simp_all
  then have "i64 (faultRetryBase * 2 ^ n) = faultRetryBase * 2 ^ n"
    using order_trans [of "- (2 ^ 63)" 0 "faultRetryBase * 2 ^ n"]
    by (intro i64_id) (simp_all add: faultRetryBase_def Millisecond_def)
  moreover have "0 < faultRetryBase * 2 ^ n" by (simp add: faultRetryBase_def Millisecond_def)
  ultimately show ?thesis by (simp add: faultBackoff_def min_def)
next
  case False
  have "(2 :: int) ^ 24 \<le> 2 ^ n" using False by (intro power_increasing) simp_all
  then have "faultRetryBase * 2 ^ n \<ge> faultRetryMax"
    by (simp add: faultRetryBase_def faultRetryMax_def Millisecond_def Second_def)
  then show ?thesis using backoff_shift_wraps [of n] False by (auto simp: faultBackoff_def min_def)
qed


text \<open>
  The loop returns once the clock has passed the deadline at some attempt, and keeps what every call
  of \<open>resolve\<close> and every callback keeps.
\<close>

lemma retry_loop_returns:
  assumes res: "\<And>j s. I s \<Longrightarrow> \<exists>e s'. resolve j s = (Done e, s') \<and> I s' \<and> (e = None \<longrightarrow> Q s')"
    and cb: "\<And>s. I s \<Longrightarrow> I (onRetry s)" "\<And>t s. I s \<Longrightarrow> I (clk t s)"
    and late: "deadline < tk_now (env k)" and I: "I s" and le: "n \<le> k"
  shows "\<exists>r s'. retry_loop env resolve onRetry clk deadline n err s = Some (Done r, s') \<and> I s' \<and> (r = None \<longrightarrow> Q s')"
  using I le
proof (induction "k - n" arbitrary: n err s rule: less_induct)
  case less
  let ?t = "env n" and ?s = "clk (tk_stamp (env n)) (onRetry s)"
  have s1: "I ?s" using less.prems cb by simp
  show ?case
  proof (cases "tk_ctx ?t = None \<and> \<not> deadline < tk_now ?t \<and> tk_done ?t (faultBackoff (tk_rand ?t) n) = None")
    case False
    then show ?thesis using less.prems s1
      by (subst retry_loop.simps) (auto simp: Let_def split: option.splits)
  next
    case True
    obtain e s2 where e: "resolve (Suc n) ?s = (Done e, s2)" "I s2" "e = None \<longrightarrow> Q s2"
      using res [OF s1] by blast
    show ?thesis
    proof (cases e)
      case None
      then show ?thesis using True e by (subst retry_loop.simps) (auto simp: Let_def)
    next
      case (Some x)
      have "n < k" using True late less.prems(2) by (cases "n = k") auto
      then have "\<exists>r s'. retry_loop env resolve onRetry clk deadline (Suc n) x s2 = Some (Done r, s') \<and> I s' \<and> (r = None \<longrightarrow> Q s')"
        using e(2) by (intro less.hyps) auto
      then show ?thesis using True e Some by (subst retry_loop.simps) (auto simp: Let_def)
    qed
  qed
qed

lemma resolveWithRetry_returns:
  assumes res: "\<And>j s. I s \<Longrightarrow> \<exists>e s'. resolve j s = (Done e, s') \<and> I s' \<and> (e = None \<longrightarrow> Q s')"
    and cb: "\<And>s. I s \<Longrightarrow> I (onRetry s)" "\<And>t s. I s \<Longrightarrow> I (clk t s)"
    and late: "now0 + budget < tk_now (env k)" and I: "I s"
  shows "\<exists>r s'. resolveWithRetry env now0 budget resolve onRetry clk s = Some (Done r, s') \<and> I s' \<and> (r = None \<longrightarrow> Q s')"
proof -
  obtain e s1 where e: "resolve 0 s = (Done e, s1)" "I s1" "e = None \<longrightarrow> Q s1" using res [OF I] by blast
  show ?thesis
  proof (cases e)
    case None
    then show ?thesis using e by (simp add: resolveWithRetry_def)
  next
    case (Some x)
    then show ?thesis
      using e retry_loop_returns [of I resolve Q onRetry clk "now0 + budget" env k s1 0 x, OF res cb late]
      by (simp add: resolveWithRetry_def)
  qed
qed

text \<open>An attempt that succeeds before the deadline passes and before the context is done ends the loop.\<close>

lemma retry_loop_recovers:
  assumes calm: "\<And>j. n \<le> j \<Longrightarrow> j \<le> k \<Longrightarrow> tk_ctx (env j) = None \<and> tk_now (env j) \<le> deadline \<and> (\<forall>t. tk_done (env j) t = None)"
    and tot: "\<And>j s. \<exists>e s'. resolve j s = (Done e, s')"
    and ok: "\<And>s. fst (resolve (Suc k) s) = Done None" and le: "n \<le> k"
  shows "\<exists>s'. retry_loop env resolve onRetry clk deadline n err s = Some (Done None, s')"
  using calm le
proof (induction "k - n" arbitrary: n err s rule: less_induct)
  case less
  let ?s = "clk (tk_stamp (env n)) (onRetry s)"
  have c: "tk_ctx (env n) = None" "\<not> deadline < tk_now (env n)" "\<And>t. tk_done (env n) t = None"
    using less.prems(1) [of n] less.prems(2) by auto
  obtain e s2 where e: "resolve (Suc n) ?s = (Done e, s2)" using tot by blast
  show ?case
  proof (cases e)
    case None
    then show ?thesis using c e by (subst retry_loop.simps) (auto simp: Let_def)
  next
    case (Some x)
    then have "n < k" using e ok [of ?s] less.prems(2) by (cases "n = k") auto
    then have "\<exists>s'. retry_loop env resolve onRetry clk deadline (Suc n) x s2 = Some (Done None, s')"
      using less.prems(1) by (intro less.hyps) auto
    then show ?thesis using c e Some by (subst retry_loop.simps) (auto simp: Let_def)
  qed
qed

text \<open>
  C32: \<open>resolveWithRetry\<close> always returns, provided each resolve call returns and the clock passes the
  deadline at some attempt. When the context stays alive and the outage ends at an attempt that starts before the
  deadline, it returns success, so an outage shorter than the budget never kills the guest.
\<close>

theorem resolveWithRetry_terminates:
  assumes "\<forall>j s. \<exists>e s'. resolve j s = (Done e, s')" and "\<exists>k. now0 + budget < tk_now (env k)"
  shows "\<exists>r s'. resolveWithRetry env now0 budget resolve onRetry clk s = Some (Done r, s') \<and>
    (\<forall>k. (\<forall>j \<le> k. tk_ctx (env j) = None \<and> tk_now (env j) \<le> now0 + budget \<and> (\<forall>t. tk_done (env j) t = None))
       \<and> (\<forall>s. fst (resolve (Suc k) s) = Done None) \<longrightarrow> r = None)"
proof -
  obtain k where k: "now0 + budget < tk_now (env k)" using assms(2) by blast
  obtain r s' where r: "resolveWithRetry env now0 budget resolve onRetry clk s = Some (Done r, s')"
    using resolveWithRetry_returns [of "\<lambda>_. True" resolve "\<lambda>_. True" onRetry clk now0 budget env k s] assms(1) k
    by auto
  have "r = None" if calm: "\<forall>j \<le> k. tk_ctx (env j) = None \<and> tk_now (env j) \<le> now0 + budget \<and> (\<forall>t. tk_done (env j) t = None)"
    and ok: "\<forall>s. fst (resolve (Suc k) s) = Done None" for k
  proof -
    obtain e s1 where e: "resolve 0 s = (Done e, s1)" using assms(1) by blast
    have "\<exists>s'. retry_loop env resolve onRetry clk (now0 + budget) 0 (the e) s1 = Some (Done None, s')"
      by (rule retry_loop_recovers [where k = k]) (use assms(1) calm ok in auto)
    then show ?thesis using r e by (cases e) (auto simp: resolveWithRetry_def)
  qed
  then show ?thesis using r by blast
qed

text \<open>A clock with a reading per second, and a backend that is down for the first three calls.\<close>

definition demo_tick :: "nat \<Rightarrow> tick" where
  "demo_tick n = \<lparr>tk_ctx = None, tk_now = int n * Second, tk_stamp = int n * Second, tk_rand = (\<lambda>k. k - 1),
     tk_done = (\<lambda>_. None)\<rparr>"

definition demo_outage :: "nat \<Rightarrow> nat \<Rightarrow> string call \<times> nat" where
  "demo_outage j s = (Done (if j < 3 then Some ''unreachable'' else None), Suc s)"

theorem resolveWithRetry_terminates_witness:
  "\<exists>s'. resolveWithRetry demo_tick 0 (120 * Second) demo_outage (\<lambda>s. s) (\<lambda>t s. s) 0 = Some (Done None, s')"
proof -
  have "\<exists>k. 0 + 120 * Second < tk_now (demo_tick k)"
    by (rule exI [of _ 121]) (simp add: demo_tick_def Second_def)
  moreover have "\<forall>j s. \<exists>e s'. demo_outage j s = (Done e, s')" by (simp add: demo_outage_def)
  ultimately obtain r s' where
    r: "resolveWithRetry demo_tick 0 (120 * Second) demo_outage (\<lambda>s. s) (\<lambda>t s. s) 0 = Some (Done r, s')"
    "\<forall>k. (\<forall>j \<le> k. tk_ctx (demo_tick j) = None \<and> tk_now (demo_tick j) \<le> 0 + 120 * Second \<and> (\<forall>t. tk_done (demo_tick j) t = None))
       \<and> (\<forall>s. fst (demo_outage (Suc k) s) = Done None) \<longrightarrow> r = None"
    using resolveWithRetry_terminates [of demo_outage 0 "120 * Second" demo_tick "\<lambda>s. s" "\<lambda>t s. s" 0] by blast
  have "r = None" by (rule r(2) [rule_format, of 2]) (simp_all add: demo_tick_def demo_outage_def Second_def)
  then show ?thesis using r(1) by blast
qed


section \<open>Serving a fault\<close>

text \<open>
  A region as Firecracker hands it over for the memory file \<open>img\<close> cut into chunks of \<open>cs\<close> bytes: the
  page size is a power of two, divides the chunk size and aligns the region, the region ends
  below the top of the address space, and its file range is inside the image.
\<close>

definition region_ok :: "byte list \<Rightarrow> u32 \<Rightarrow> GuestRegionUffdMapping \<Rightarrow> bool" where
  "region_ok img cs m \<longleftrightarrow>
     (\<exists>k < 64. uint (region_pageSize m) = 2 ^ k)
     \<and> uint (region_pageSize m) dvd uint (BaseHostVirtAddr m)
     \<and> uint (region_pageSize m) dvd uint (Size m)
     \<and> uint (region_pageSize m) dvd uint (Offset m)
     \<and> uint (region_pageSize m) dvd uint cs
     \<and> uint (BaseHostVirtAddr m) + uint (Size m) < 2 ^ 64
     \<and> uint (Offset m) + uint (Size m) \<le> int (length img)
     \<and> int (length img) + uint (region_pageSize m) < 2 ^ 63"

lemma uint_align_down:
  assumes "uint (ps :: u64) = 2 ^ k" and "k < 64"
  shows "uint (addr AND NOT (ps - 1)) = uint addr - uint addr mod uint ps"
proof -
  have ps: "ps = 2 ^ k" using assms(1) word_of_int_uint [of ps] by (simp del: word_of_int_uint)
  have "addr AND NOT (ps - 1) = addr AND NOT (addr AND (ps - 1))"
    by (rule bit_word_eqI) (auto simp: bit_simps)
  also have "\<dots> = addr - take_bit k addr"
    using disjunctive_diff [of "take_bit k addr" addr] ps
    by (simp add: take_bit_eq_mask mask_eq_exp_minus_1 bit_simps)
  finally have eq: "addr AND NOT (ps - 1) = addr - take_bit k addr" .
  have t: "uint (take_bit k addr) = uint addr mod uint ps"
    unfolding unsigned_take_bit_eq assms(1) by (rule take_bit_eq_mod)
  moreover have "uint addr mod uint ps \<le> uint addr" by (simp add: zmod_le_nonneg_dividend)
  ultimately show ?thesis unfolding eq by (simp add: uint_sub_if')
qed

lemma align_in_region:
  fixes a b s p :: int
  assumes "0 < p" and "p dvd b" and "p dvd s" and "b \<le> a" and "a < b + s"
  shows "b \<le> a - a mod p" and "a - a mod p + p \<le> b + s" and "p dvd (a - a mod p) - b"
proof -
  obtain i where i: "b = p * i" using assms(2) by (rule dvdE)
  obtain j where j: "s = p * j" using assms(3) by (rule dvdE)
  note bj = i j
  have a: "a - a mod p = p * (a div p)" by (simp add: minus_mod_eq_mult_div)
  have "i \<le> a div p" using assms(1,4) bj by (simp add: int_le_div_iff mult.commute)
  moreover have "a div p < i + j"
  proof -
    have "a < (i + j) * p" using assms(5) bj by (simp add: algebra_simps)
    then have "\<not> i + j \<le> a div p" using assms(1) int_le_div_iff [of p "i + j" a] by simp
    then show ?thesis by simp
  qed
  ultimately show "b \<le> a - a mod p" and "a - a mod p + p \<le> b + s"
    using assms(1) mult_left_mono [of i "a div p" p] mult_left_mono [of "a div p + 1" "i + j" p]
    unfolding a bj by (simp_all add: algebra_simps)
  show "p dvd (a - a mod p) - b" unfolding a bj by (simp add: right_diff_distrib [symmetric])
qed

text \<open>The page of a faulting address: inside the region, around the address, inside one chunk.\<close>

lemma region_page:
  fixes m addr
  defines "ps \<equiv> region_pageSize m" and "p \<equiv> addr AND NOT (region_pageSize m - 1)"
  assumes ok: "region_ok img cs m" and c: "region_contains m addr"
  shows "uint (BaseHostVirtAddr m) \<le> uint p" and "uint p \<le> uint addr" and "uint addr < uint p + uint ps"
    and "uint p + uint ps \<le> uint (BaseHostVirtAddr m) + uint (Size m)"
    and "region_fileOffset m p = uint (Offset m) + (uint p - uint (BaseHostVirtAddr m))"
    and "region_fileOffset m p + uint ps \<le> int (length img)"
    and "uint ps dvd region_fileOffset m p" and "0 < uint ps" and "uint ps dvd uint cs"
    and "int (length img) + uint ps < 2 ^ 63"
proof -
  obtain k where k: "k < 64" "uint ps = 2 ^ k" using ok by (auto simp: region_ok_def ps_def)
  let ?b = "uint (BaseHostVirtAddr m)" and ?s = "uint (Size m)" and ?o = "uint (Offset m)"
  have d: "uint ps dvd ?b" "uint ps dvd ?s" "uint ps dvd ?o" "uint ps dvd uint cs" "?b + ?s < 2 ^ 64"
    "?o + ?s \<le> int (length img)" "int (length img) + uint ps < 2 ^ 63"
    using ok by (simp_all add: region_ok_def ps_def)
  show pos: "0 < uint ps" using k by simp
  have ba: "?b \<le> uint addr" "uint addr < ?b + ?s"
    using c d(5) by (simp_all add: region_contains_def word_le_def word_less_def uint_add_lem [THEN iffD1])
  have p: "uint p = uint addr - uint addr mod uint ps"
    unfolding p_def ps_def [symmetric] by (rule uint_align_down [OF k(2,1)])
  note al = align_in_region [OF pos d(1,2) ba, folded p]
  show "?b \<le> uint p" and "uint p + uint ps \<le> ?b + ?s" using al by simp_all
  show "uint p \<le> uint addr" and "uint addr < uint p + uint ps"
    using p pos by (simp_all add: pos_mod_bound)
  have "uint (p - BaseHostVirtAddr m) = uint p - ?b" using al(1) by (simp add: uint_sub_if')
  moreover have "?o + (uint p - ?b) < 2 ^ 63" using al(2) d(6,7) pos by simp
  ultimately have "uint (Offset m + (p - BaseHostVirtAddr m)) = ?o + (uint p - ?b)"
    by (simp add: uint_add_lem [THEN iffD1])
  then show off: "region_fileOffset m p = ?o + (uint p - ?b)"
    using \<open>?o + (uint p - ?b) < 2 ^ 63\<close> by (simp add: region_fileOffset_def sint_u64)
  show "region_fileOffset m p + uint ps \<le> int (length img)" using off al(2) d(6) by simp
  show "uint ps dvd region_fileOffset m p" using off al(3) d(3) by simp
  show "uint ps dvd uint cs" and "int (length img) + uint ps < 2 ^ 63" using d by simp_all
qed

text \<open>An aligned page lies inside one chunk.\<close>

lemma page_one_chunk:
  assumes g: "geom_ok cs ts" and "0 < (p :: int)" and "p dvd uint cs" and "p dvd off" and "0 \<le> off"
  shows "chunk_for_offset cs (off + p - 1) = chunk_for_offset cs off"
proof -
  obtain c where c: "uint cs = p * c" using assms(3) by (rule dvdE)
  obtain q where q: "off = p * q" using assms(4) by (rule dvdE)
  note eq = c q
  have "0 < c" using geom_okD(1) [OF g] eq assms(2) by (simp add: zero_less_mult_iff)
  have "(off + p - 1) div p = q"
    using assms(2) eq div_pos_pos_trivial [of "p - 1" p] by (simp add: add_diff_eq [symmetric] del: add_diff_eq)
  moreover have "off div p = q" using eq assms(2) by simp
  ultimately have "(off + p - 1) div (p * c) = off div (p * c)"
    using assms(2) \<open>0 < c\<close> by (simp add: zdiv_zmult2_eq)
  then show ?thesis using g assms eq(1) by (simp add: chunk_for_offset_eq)
qed


text \<open>
  The world of one fault: every attempt reads an honest source, and the clock passes the deadline at
  some attempt.
\<close>

definition world_ok :: "byte list \<Rightarrow> int \<Rightarrow> fault_world \<Rightarrow> bool" where
  "world_ok img budget w \<longleftrightarrow> (\<forall>n. source_of img (fw_fetch w n)) \<and> (\<exists>k. fw_start w + budget < tk_now (fw_ticks w k))"

text \<open>What a fault may change of the handler before its page is installed.\<close>

definition same_guest :: "uffd_Handler \<Rightarrow> uffd_Handler \<Rightarrow> bool" where
  "same_guest h h' \<longleftrightarrow> uh_guest h' = uh_guest h \<and> uh_copied h' = uh_copied h \<and> uh_faults h' = uh_faults h
     \<and> rs_h (uh_resolver h') = rs_h (uh_resolver h)"

lemma resolve_attempt_law:
  assumes ok: "\<forall>n. source_of img (fw_fetch w n)" and off: "0 \<le> off" "off + p \<le> int (length img)" "0 < p"
    and al: "p dvd off" "p dvd uint (ms_ChunkSize (rs_h (uh_resolver h0)))" "int (length img) + p < 2 ^ 63"
    and I: "ms_inv img (uh_resolver h) \<and> length page = nat p \<and> same_guest h0 h"
  shows "\<exists>e h' page'. resolve_attempt w off n (h, page) = (Done e, h', page')
    \<and> ms_inv img (uh_resolver h') \<and> length page' = nat p \<and> same_guest h0 h'
    \<and> (e = None \<longrightarrow> page' = seg (nat off) (nat p) img)
    \<and> (healthy img (fw_fetch w n) \<and> fw_rd w n = None \<longrightarrow> e = None)"
proof -
  let ?r = "uh_resolver h"
  have hd: "rs_h ?r = rs_h (uh_resolver h0)" using I by (simp add: same_guest_def)
  have "geom_ok (ms_ChunkSize (rs_h ?r)) (ms_TotalSize (rs_h ?r))"
    using I ms_describes_total(1) by (auto simp: ms_inv_def)
  then have "ms_ChunkForOffset (rs_h ?r) (min (off + int (length page)) (int (length img)) - 1)
      = ms_ChunkForOffset (rs_h ?r) off"
    using page_one_chunk off al I hd by (auto simp: ms_ChunkForOffset_def min_def)
  then obtain e dst' r' where
    r: "ms_ResolvePage (fw_fetch w n) (fw_rd w n) ?r off page = (Done e, dst', r')" "ms_inv img r'" "rs_h r' = rs_h ?r"
      "e = None \<longrightarrow> dst' = seg (nat off) (length page) img @ drop (min (length page) (length img - nat off)) page"
      "healthy img (fw_fetch w n) \<and> fw_rd w n = None \<longrightarrow> e = None"
    using ms_ResolvePage_step [of img ?r "fw_fetch w n" off page "fw_rd w n"] I ok off al(3) by auto
  have fit: "nat off + nat p \<le> length img" using off by linarith
  have "length dst' = length page"
    using ms_ResolvePage_length [OF _ _ _ _ r(1), of img] I off al(3) by auto
  moreover have "e = None \<longrightarrow> dst' = seg (nat off) (nat p) img" using r(4) I fit by auto
  ultimately show ?thesis
    using r I by (auto simp: resolve_attempt_def same_guest_def)
qed


lemma findMapping_Some:
  "findMapping ms addr = Some m \<Longrightarrow> m \<in> set ms \<and> region_contains m addr"
  by (induction ms) (auto split: if_splits)

lemma findMapping_None: "findMapping ms addr = None \<longleftrightarrow> (\<forall>m \<in> set ms. \<not> region_contains m addr)"
  by (induction ms) auto

text \<open>The page that a fault at \<open>addr\<close> in region \<open>m\<close> must receive.\<close>

definition fault_page :: "byte list \<Rightarrow> GuestRegionUffdMapping \<Rightarrow> u64 \<Rightarrow> u64 \<times> byte list" where
  "fault_page img m addr =
     (let p = addr AND NOT (region_pageSize m - 1) in
      (p, seg (unat (Offset m) + (unat p - unat (BaseHostVirtAddr m))) (unat (region_pageSize m)) img))"

lemma region_fault_page:
  assumes "region_ok img cs m" and "region_contains m addr"
  shows "fault_page img m addr = (addr AND NOT (region_pageSize m - 1),
    seg (nat (region_fileOffset m (addr AND NOT (region_pageSize m - 1)))) (nat (uint (region_pageSize m))) img)"
proof -
  have "unat (Offset m) + (unat p - unat (BaseHostVirtAddr m)) = nat (uint (Offset m) + (uint p - uint (BaseHostVirtAddr m)))"
    if "uint (BaseHostVirtAddr m) \<le> uint p" for p :: u64
    using that by (simp add: nat_add_distrib nat_diff_distrib)
  then show ?thesis
    using region_page(1,5) [OF assms] by (simp add: fault_page_def Let_def)
qed

lemma servePage_resolves:
  assumes rg: "region_ok img (ms_ChunkSize (rs_h (uh_resolver h))) m" and c: "findMapping mappings addr = Some m"
    and inv: "ms_inv img (uh_resolver h)" and w: "world_ok img budget w"
    and buf: "uint (region_pageSize m) \<le> int (length buf)"
  shows "\<exists>r h' page. resolveWithRetry (fw_ticks w) (fw_start w) budget
      (resolve_attempt w (region_fileOffset m (addr AND NOT (region_pageSize m - 1)))) count_retry stamp_progress
      (h, take (unat (region_pageSize m)) buf) = Some (Done r, h', page)
    \<and> ms_inv img (uh_resolver h') \<and> length page = unat (region_pageSize m) \<and> same_guest h h'
    \<and> (r = None \<longrightarrow> page = snd (fault_page img m addr))
    \<and> (healthy img (fw_fetch w 0) \<and> fw_rd w 0 = None \<longrightarrow> r = None)"
proof -
  let ?ps = "uint (region_pageSize m)" and ?off = "region_fileOffset m (addr AND NOT (region_pageSize m - 1))"
  let ?I = "\<lambda>(h', page). ms_inv img (uh_resolver h') \<and> length page = nat ?ps \<and> same_guest h h'"
  let ?s = "(h, take (unat (region_pageSize m)) buf)"
  have cm: "region_contains m addr" using findMapping_Some [OF c] by simp
  note pg = region_page [OF rg cm]
  obtain k where src: "\<forall>n. source_of img (fw_fetch w n)" and late: "fw_start w + budget < tk_now (fw_ticks w k)"
    using w by (auto simp: world_ok_def)
  have "0 \<le> ?off" using pg(1,5) by simp
  note law = resolve_attempt_law [where n = n for n, OF src this pg(6,8,7,9,10)]
  have "unat (region_pageSize m) \<le> length buf" using buf by (simp add: unat_eq_nat_uint nat_le_iff del: nat_uint_eq)
  then have I: "?I ?s" using inv by (auto simp: same_guest_def)
  have res: "\<exists>e s'. resolve_attempt w ?off j s = (Done e, s') \<and> ?I s' \<and> (e = None \<longrightarrow> snd s' = snd (fault_page img m addr))"
    if "?I s" for j s
  proof (cases s)
    case (Pair h1 p1)
    then show ?thesis using law [of h1 p1 j] that region_fault_page [OF rg cm] by force
  qed
  obtain r s' where r: "resolveWithRetry (fw_ticks w) (fw_start w) budget (resolve_attempt w ?off) count_retry stamp_progress ?s
      = Some (Done r, s')" "?I s'" "r = None \<longrightarrow> snd s' = snd (fault_page img m addr)"
    using resolveWithRetry_returns [of ?I "resolve_attempt w ?off" "\<lambda>s'. snd s' = snd (fault_page img m addr)"
        count_retry stamp_progress "fw_start w" budget "fw_ticks w" k ?s, OF res _ _ late I]
    by (auto simp: count_retry_def stamp_progress_def same_guest_def)
  have "r = None" if "healthy img (fw_fetch w 0)" "fw_rd w 0 = None"
  proof -
    have "\<exists>h' page'. resolve_attempt w ?off 0 ?s = (Done None, h', page')"
      using law [of h "take (unat (region_pageSize m)) buf" 0] I that by auto
    then show ?thesis using r(1) by (auto simp: resolveWithRetry_def)
  qed
  then show ?thesis using r by (cases s') auto
qed


lemma servePage_step:
  assumes rg: "\<forall>m \<in> set mappings. region_ok img (ms_ChunkSize (rs_h (uh_resolver h))) m \<and>
      uint (region_pageSize m) \<le> int (length buf)"
    and inv: "ms_inv img (uh_resolver h)" and w: "world_ok img budget w"
  obtains (outside) "findMapping mappings addr = None"
      "servePage budget w mappings addr buf h = Some (Done (Some (OutsideRegions addr)), buf, h)"
  | (inside) m r buf' h' where "findMapping mappings addr = Some m"
      "servePage budget w mappings addr buf h = Some (Done r, buf', h')" "length buf' = length buf"
      "ms_inv img (uh_resolver h')" "rs_h (uh_resolver h') = rs_h (uh_resolver h)" "uh_faults h' = uh_faults h"
      "if r = None \<and> fw_copy w = None
       then uh_guest h' = uh_guest h @ [fault_page img m addr] \<and> uh_copied h' = uh_copied h + 1
       else uh_guest h' = uh_guest h \<and> uh_copied h' = uh_copied h"
      "r = None \<Longrightarrow> fw_copy w = None \<or> fw_copy w = Some EEXIST"
      "healthy img (fw_fetch w 0) \<Longrightarrow> fw_rd w 0 = None \<Longrightarrow> fw_copy w = None \<Longrightarrow> r = None"
proof (cases "findMapping mappings addr")
  case None
  then show thesis by (intro outside) (simp_all add: servePage_def)
next
  case (Some m)
  let ?ps = "region_pageSize m" and ?p = "addr AND NOT (region_pageSize m - 1)"
  have m: "m \<in> set mappings" using findMapping_Some [OF Some] by simp
  then have ok: "region_ok img (ms_ChunkSize (rs_h (uh_resolver h))) m" "uint ?ps \<le> int (length buf)" using rg by auto
  obtain r h1 page where r: "resolveWithRetry (fw_ticks w) (fw_start w) budget (resolve_attempt w (region_fileOffset m ?p))
      count_retry stamp_progress (h, take (unat ?ps) buf) = Some (Done r, h1, page)"
      "ms_inv img (uh_resolver h1)" "length page = unat ?ps" "same_guest h h1"
      "r = None \<longrightarrow> page = snd (fault_page img m addr)" "healthy img (fw_fetch w 0) \<and> fw_rd w 0 = None \<longrightarrow> r = None"
    using servePage_resolves [OF ok(1) Some inv w ok(2)] by blast
  have le: "unat ?ps \<le> length buf" using ok(2) by (simp add: unat_eq_nat_uint nat_le_iff del: nat_uint_eq)
  have fp: "fst (fault_page img m addr) = ?p" by (simp add: fault_page_def Let_def)
  have lb: "length (page @ drop (unat ?ps) buf) = length buf" using r(3) le by simp
  show thesis
  proof (cases r)
    case (Some e)
    then show thesis
      using r ok lb \<open>findMapping mappings addr = Some m\<close>
      by (intro inside [of m "Some (ResolveOff (region_fileOffset m ?p) e)" "page @ drop (unat ?ps) buf" h1])
        (auto simp: servePage_def same_guest_def Let_def)
  next
    case None
    then have page: "(?p, page) = fault_page img m addr" using r(5) fp by (metis prod.collapse)
    show thesis
    proof (cases "fw_copy w")
      case None
      let ?h = "h1\<lparr>uh_lastProgress := fw_stamp w, uh_guest := uh_guest h1 @ [(?p, page)], uh_copied := uh_copied h1 + 1\<rparr>"
      show thesis
        using r ok lb \<open>findMapping mappings addr = Some m\<close> \<open>r = None\<close> None page
        by (intro inside [of m None "page @ drop (unat ?ps) buf" ?h])
          (simp_all add: servePage_def same_guest_def Let_def uffdCopy_def)
    next
      case (Some e)
      then show thesis
        using r ok lb \<open>findMapping mappings addr = Some m\<close> \<open>r = None\<close> page
        by (intro inside [of m "if e = EEXIST then None else Some (CopyFailed ?p e)" "page @ drop (unat ?ps) buf"
              "h1\<lparr>uh_lastProgress := fw_stamp w\<rparr>"])
          (simp_all add: servePage_def same_guest_def Let_def uffdCopy_def split: if_splits)
    qed
  qed
qed

text \<open>
  a fault is served with the right page. The faulting address is inside the page, the page inside
  its region, and what \<open>UFFDIO_COPY\<close> installs is the file range \<open>Offset + (pageStart - Base)\<close> of the
  memory image. A page that is already there counts as served; an address outside every region is an error and
  changes nothing. On a healthy backend the page is installed at the first attempt.
\<close>

lemma servePage_correct:
  assumes "\<forall>m \<in> set mappings. region_ok img (ms_ChunkSize (rs_h (uh_resolver h))) m \<and>
      uint (region_pageSize m) \<le> int (length buf)"
    and "ms_inv img (uh_resolver h)" and "world_ok img budget w"
  shows "\<exists>r buf' h'. servePage budget w mappings addr buf h = Some (Done r, buf', h') \<and> ms_inv img (uh_resolver h') \<and>
    (case findMapping mappings addr of
       None \<Rightarrow> r = Some (OutsideRegions addr) \<and> h' = h
     | Some m \<Rightarrow>
         (let (p, page) = fault_page img m addr in
          uint (BaseHostVirtAddr m) \<le> uint p \<and> uint p \<le> uint addr \<and> uint addr < uint p + uint (region_pageSize m)
          \<and> uint p + uint (region_pageSize m) \<le> uint (BaseHostVirtAddr m) + uint (Size m)
          \<and> length page = unat (region_pageSize m)
          \<and> uh_guest h' = uh_guest h @ (if r = None \<and> fw_copy w = None then [(p, page)] else [])
          \<and> (r = None \<longrightarrow> fw_copy w = None \<or> fw_copy w = Some EEXIST)
          \<and> (healthy img (fw_fetch w 0) \<and> fw_rd w 0 = None \<and> fw_copy w = None \<longrightarrow> r = None)))"
proof (cases rule: servePage_step [OF assms, of addr, case_names outside inside])
  case outside
  then show ?thesis using assms(2) by simp
next
  case (inside m r buf' h')
  have m: "m \<in> set mappings" "region_contains m addr" using findMapping_Some [OF inside(1)] by simp_all
  then have ok: "region_ok img (ms_ChunkSize (rs_h (uh_resolver h))) m" using assms(1) by simp
  note pg = region_page [OF ok m(2)]
  let ?p = "addr AND NOT (region_pageSize m - 1)"
  have fp: "fault_page img m addr = (?p, snd (fault_page img m addr))" by (simp add: fault_page_def Let_def)
  have "0 \<le> region_fileOffset m ?p" using pg(1,5) by simp
  then have "nat (region_fileOffset m ?p) + nat (uint (region_pageSize m)) \<le> length img"
    using pg(6,8) by linarith
  then have "length (snd (fault_page img m addr)) = unat (region_pageSize m)"
    by (simp add: region_fault_page [OF ok m(2)])
  then show ?thesis
    using inside pg(1-4) fp by (auto simp: Let_def split: if_splits prod.splits)
qed


section \<open>The fault loop\<close>

text \<open>The pages installed so far are the image's, each in a region of the guest.\<close>

definition guest_ok :: "byte list \<Rightarrow> GuestRegionUffdMapping list \<Rightarrow> (u64 \<times> byte list) list \<Rightarrow> bool" where
  "guest_ok img mappings =
     list_all (\<lambda>(p, page). \<exists>m \<in> set mappings. region_contains m p \<and> fault_page img m p = (p, page))"

lemma fault_page_aligned:
  assumes "region_ok img cs m" and "region_contains m addr"
  shows "region_contains m (fst (fault_page img m addr))"
    and "fault_page img m (fst (fault_page img m addr)) = fault_page img m addr"
proof -
  let ?p = "addr AND NOT (region_pageSize m - 1)"
  note pg = region_page [OF assms]
  have "uint (BaseHostVirtAddr m) + uint (Size m) < 2 ^ 64" using assms(1) by (simp add: region_ok_def)
  then show "region_contains m (fst (fault_page img m addr))"
    using pg(1,4,8) by (simp add: region_contains_def word_le_def word_less_def fault_page_def Let_def
        uint_add_lem [THEN iffD1])
  have "?p AND NOT (region_pageSize m - 1) = ?p" by (simp add: and.assoc)
  then show "fault_page img m (fst (fault_page img m addr)) = fault_page img m addr"
    by (simp add: fault_page_def Let_def)
qed

definition loop_inv :: "byte list \<Rightarrow> GuestRegionUffdMapping list \<Rightarrow> uffd_Handler \<Rightarrow> uffd_Handler \<Rightarrow> bool" where
  "loop_inv img mappings h0 h \<longleftrightarrow> ms_inv img (uh_resolver h) \<and> rs_h (uh_resolver h) = rs_h (uh_resolver h0)
     \<and> guest_ok img mappings (uh_guest h) \<and> uh_copied h - uh_copied h0 = int (length (uh_guest h)) - int (length (uh_guest h0))
     \<and> uh_copied h \<le> uh_copied h0 + (uh_faults h - uh_faults h0)"

definition regions_ok :: "byte list \<Rightarrow> uffd_Handler \<Rightarrow> GuestRegionUffdMapping list \<Rightarrow> nat \<Rightarrow> bool" where
  "regions_ok img h mappings n \<longleftrightarrow>
     (\<forall>m \<in> set mappings. region_ok img (ms_ChunkSize (rs_h (uh_resolver h))) m \<and> uint (region_pageSize m) \<le> int n)"

lemma servePage_loop_inv:
  assumes rg: "regions_ok img h0 mappings (length buf)" and li: "loop_inv img mappings h0 h" and w: "world_ok img budget w"
  shows "\<exists>r buf' h'. servePage budget w mappings addr buf (h\<lparr>uh_faults := uh_faults h + 1\<rparr>) = Some (Done r, buf', h')
    \<and> length buf' = length buf \<and> loop_inv img mappings h0 h'"
proof -
  let ?h = "h\<lparr>uh_faults := uh_faults h + 1\<rparr>"
  have pre: "\<forall>m \<in> set mappings. region_ok img (ms_ChunkSize (rs_h (uh_resolver ?h))) m \<and>
      uint (region_pageSize m) \<le> int (length buf)" "ms_inv img (uh_resolver ?h)"
    using rg li by (simp_all add: regions_ok_def loop_inv_def)
  show ?thesis
  proof (cases rule: servePage_step [OF pre w, of addr, case_names outside inside])
    case outside
    then show ?thesis using li by (auto simp: loop_inv_def)
  next
    case (inside m r buf' h')
    have m: "m \<in> set mappings" "region_contains m addr" using findMapping_Some [OF inside(1)] by simp_all
    then have al: "region_contains m (fst (fault_page img m addr))"
        "fault_page img m (fst (fault_page img m addr)) = fault_page img m addr"
      using pre(1) fault_page_aligned by blast+
    then have "guest_ok img mappings [fault_page img m addr]"
      using m(1) by (auto simp: guest_ok_def split: prod.splits)
    then have "loop_inv img mappings h0 h'"
      using li inside(4-7) by (auto simp: loop_inv_def guest_ok_def split: if_splits)
    then show ?thesis using inside(2,3) by blast
  qed
qed

lemma serve_jobs_loop_inv:
  assumes "regions_ok img h0 mappings (length buf)" and "loop_inv img mappings h0 h" and "\<forall>n. world_ok img budget (ws n)"
  shows "\<exists>buf' fatal' h'. serve_jobs budget mappings ws k as buf fatal h = Some (True, buf', fatal', h')
    \<and> length buf' = length buf \<and> loop_inv img mappings h0 h'"
  using assms
proof (induction as arbitrary: k buf fatal h)
  case Nil
  then show ?case by simp
next
  case (Cons a as)
  obtain r buf1 h1 where s: "servePage budget (ws k) mappings a buf (h\<lparr>uh_faults := uh_faults h + 1\<rparr>) = Some (Done r, buf1, h1)"
      "length buf1 = length buf" "loop_inv img mappings h0 h1"
    using servePage_loop_inv [OF Cons.prems(1,2)] Cons.prems(3) by blast
  then show ?case using Cons.IH [of buf1 h1 "Suc k" "case fatal of None \<Rightarrow> r | Some f \<Rightarrow> Some f"] Cons.prems by simp
qed

lemma fault_rounds_loop_inv:
  assumes "regions_ok img h0 mappings (length buf)" and "loop_inv img mappings h0 h"
    and "\<forall>r \<in> set rs. \<forall>n. world_ok img budget (rd_worlds r n)"
  shows "\<exists>res h'. fault_rounds budget mappings rs buf fatal h = Some (res, h') \<and> res \<noteq> Crashed \<and> loop_inv img mappings h0 h'"
  using assms
proof (induction rs arbitrary: buf fatal h)
  case Nil
  then show ?case by simp
next
  case (Cons r rs)
  have tail: "\<exists>res h'. fault_rounds budget mappings rs buf1 fatal1 h1 = Some (res, h') \<and> res \<noteq> Crashed \<and> loop_inv img mappings h0 h'"
    if "length buf1 = length buf" "loop_inv img mappings h0 h1" for buf1 fatal1 h1
    using Cons.IH [of buf1 h1 fatal1] Cons.prems that by simp
  have jobs: "\<exists>buf' fatal' h'. serve_jobs budget mappings (rd_worlds r) 0 as buf fatal h = Some (True, buf', fatal', h')
    \<and> length buf' = length buf \<and> loop_inv img mappings h0 h'" for as
    using Cons.prems by (intro serve_jobs_loop_inv) simp_all
  have bump: "loop_inv img mappings h0 (h1\<lparr>uh_faults := uh_faults h1 + 1\<rparr>)" if "loop_inv img mappings h0 h1" for h1
    using that by (simp add: loop_inv_def)
  show ?case
  proof (cases "rd_ctx r = None \<and> fatal = None \<and> rd_poll r = PollReady \<and> (\<exists>ev. rd_read r = ReadBytes ev)")
    case False
    then show ?thesis
      using tail [OF refl Cons.prems(2), of fatal] Cons.prems(2)
      by (auto split: option.splits poll_result.splits read_result.splits)
  next
    case True
    then obtain ev where ev: "rd_ctx r = None" "fatal = None" "rd_poll r = PollReady" "rd_read r = ReadBytes ev" by blast
    let ?as = "case rd_full r of None \<Rightarrow> fault_addrs ev | Some (k, e) \<Rightarrow> take k (fault_addrs ev)"
    obtain buf1 fatal1 h1 where j: "serve_jobs budget mappings (rd_worlds r) 0 ?as buf fatal h = Some (True, buf1, fatal1, h1)"
        "length buf1 = length buf" "loop_inv img mappings h0 h1"
      using jobs by blast
    then show ?thesis
      using ev tail [OF j(2,3), of fatal1] bump [OF j(3)]
      by (auto split: option.splits if_splits)
  qed
qed

lemma maxPage_ge: "m \<in> set ms \<Longrightarrow> region_pageSize m \<le> maxPage ms"
proof -
  have mono: "mx \<le> foldl (\<lambda>mx m. if region_pageSize m > mx then region_pageSize m else mx) mx ms" for mx ms
    by (induction ms arbitrary: mx) (auto intro: order_trans [OF less_imp_le])
  have "region_pageSize m \<le> foldl (\<lambda>mx m. if region_pageSize m > mx then region_pageSize m else mx) mx ms"
    if "m \<in> set ms" for mx ms
    using that by (induction ms arbitrary: mx) (force simp: not_less intro: order_trans [OF _ mono])+
  then show "m \<in> set ms \<Longrightarrow> ?thesis" by (simp add: maxPage_def)
qed


text \<open>
  C30: over any sequence of polls, short or failed reads and faults, with honest sources, the fault loop
  never crashes and never hangs on a fault, and every page it ever installs in the guest carries the bytes of the
  memory image that belong at its address. It installs at most one page per fault event.
\<close>

theorem faultLoop_installs_image:
  assumes "list_all (region_ok img (ms_ChunkSize (rs_h (uh_resolver h)))) mappings"
    and "ms_inv img (uh_resolver h)" and "guest_ok img mappings (uh_guest h)"
    and "list_all (\<lambda>r. \<forall>n. world_ok img budget (rd_worlds r n)) rounds"
  shows "\<exists>res h'. faultLoop budget now mappings rounds h = Some (res, h') \<and> res \<noteq> Crashed
    \<and> guest_ok img mappings (uh_guest h') \<and> ms_inv img (uh_resolver h')
    \<and> int (length (uh_guest h')) - int (length (uh_guest h)) = uh_copied h' - uh_copied h
    \<and> uh_copied h' - uh_copied h \<le> uh_faults h' - uh_faults h"
proof -
  let ?h = "h\<lparr>uh_lastProgress := now\<rparr>"
  have "uint (region_pageSize m) \<le> uint (maxPage mappings)" if "m \<in> set mappings" for m
    using maxPage_ge [OF that] by (simp add: word_le_def)
  then have "regions_ok img ?h mappings (length (zeros (unat (maxPage mappings))))"
    using assms(1) by (simp add: regions_ok_def list_all_iff)
  moreover have "loop_inv img mappings ?h ?h" using assms(2,3) by (simp add: loop_inv_def)
  moreover have "\<forall>r \<in> set rounds. \<forall>n. world_ok img budget (rd_worlds r n)" using assms(4) by (simp add: list_all_iff)
  ultimately show ?thesis
    using fault_rounds_loop_inv [of img ?h mappings "zeros (unat (maxPage mappings))" ?h rounds budget None]
    by (auto simp: faultLoop_def loop_inv_def)
qed

text \<open>\<open>recvHandoff\<close> leaks no descriptor: it closes every one it received and does not return.\<close>

lemma recvHandoff_fds:
  assumes "ho_scms c = Inr [Inr fds]" and "fds \<noteq> []" and "ho_raw c = None" "ho_read c = None" "ho_recv c = None"
  shows "case recvHandoff c of (Inl e, closed) \<Rightarrow> set closed = set fds \<and> length closed = length fds
    | (Inr (fd, ms), closed) \<Rightarrow> fd # closed = fds \<and> ms \<noteq> []"
  using assms by (cases fds) (auto simp: recvHandoff_def split: sum.splits)

text \<open>A second \<open>Close\<close> writes no byte and closes no descriptor again.\<close>

lemma uffd_Close_twice:
  "fst (uffd_Close (snd (uffd_Close h))) = (if uh_listening h then [CloseListener] else [])"
  by (simp add: uffd_Close_def)

text \<open>A handler with nothing to do looks stalled: only \<open>StalledFor\<close>'s caller can tell idle from wedged.\<close>

lemma uffd_StalledFor_idle:
  assumes "faultLoop budget now mappings (replicate n \<lparr>rd_ctx = None, rd_poll = PollIdle, rd_read = ReadAgain,
      rd_worlds = ws, rd_full = None\<rparr>) h = Some (Polling, h')" and "0 < now" and "now + d < t"
  shows "uffd_StalledFor t d h'"
proof -
  have "fault_rounds budget mappings (replicate n \<lparr>rd_ctx = None, rd_poll = PollIdle, rd_read = ReadAgain,
      rd_worlds = ws, rd_full = None\<rparr>) buf None h1 = Some (Polling, h1)" for buf h1
    by (induction n) auto
  then have "h' = h\<lparr>uh_lastProgress := now\<rparr>" using assms(1) by (simp add: faultLoop_def)
  then show ?thesis using assms(2,3) by (simp add: uffd_StalledFor_def)
qed

section \<open>A concrete guest\<close>

definition demo_region :: GuestRegionUffdMapping where
  "demo_region = \<lparr>BaseHostVirtAddr = 4096, Size = 4, Offset = 0, PageSize = 2\<rparr>"

definition demo_world :: fault_world where
  "demo_world = \<lparr>fw_ticks = demo_tick, fw_start = 0, fw_fetch = (\<lambda>_. file_env demo_img), fw_rd = (\<lambda>_. None),
     fw_stamp = 1, fw_copy = None\<rparr>"

lemma demo_region_ok: "region_ok demo_img (ms_ChunkSize ms_demo) demo_region"
  by (auto simp: region_ok_def demo_region_def region_pageSize_def demo_img_def ms_demo_def intro!: exI [of _ 1])

lemma demo_world_ok: "world_ok demo_img (120 * Second) demo_world"
  unfolding world_ok_def
  by (auto simp: demo_world_def demo_source demo_tick_def Second_def intro!: exI [of _ 121])

lemma demo_fault: "findMapping [demo_region] 4099 = Some demo_region" "fault_page demo_img demo_region 4099 = (4098, [7, 9])"
  by (simp add: demo_region_def region_contains_def, code_simp)

lemma servePage_correct_witness:
  "\<exists>buf h'. servePage (120 * Second) demo_world [demo_region] 4099 (zeros 2) (uffd_New ms_demo_resolver) = Some (Done None, buf, h')
    \<and> uh_guest h' = [(4098, [7, 9])]"
proof -
  let ?h = "uffd_New ms_demo_resolver"
  have "\<forall>m \<in> set [demo_region]. region_ok demo_img (ms_ChunkSize (rs_h (uh_resolver ?h))) m \<and>
      uint (region_pageSize m) \<le> int (length (zeros 2))" "ms_inv demo_img (uh_resolver ?h)"
    using demo_region_ok ms_demo_inv by (simp_all add: uffd_New_def demo_region_def region_pageSize_def)
  from servePage_correct [OF this demo_world_ok, of 4099, unfolded demo_fault]
  obtain r buf h' where s: "servePage (120 * Second) demo_world [demo_region] 4099 (zeros 2) ?h = Some (Done r, buf, h')"
    "uh_guest h' = uh_guest ?h @ (if r = None \<and> fw_copy demo_world = None then [(4098, [7, 9])] else [])"
    "healthy demo_img (fw_fetch demo_world 0) \<and> fw_rd demo_world 0 = None \<and> fw_copy demo_world = None \<longrightarrow> r = None"
    by (auto simp: demo_fault)
  moreover have "r = None" using s(3) file_env_healthy [of demo_img] by (simp add: demo_world_def)
  moreover have "fw_copy demo_world = None" "uh_guest ?h = []" by (simp_all add: demo_world_def uffd_New_def)
  ultimately show ?thesis by auto
qed

definition demo_round :: "byte list \<Rightarrow> round" where
  "demo_round ev = \<lparr>rd_ctx = None, rd_poll = PollReady, rd_read = ReadBytes ev, rd_worlds = (\<lambda>_. demo_world), rd_full = None\<rparr>"

theorem faultLoop_installs_image_witness:
  "\<exists>res h'. faultLoop (120 * Second) 1 [demo_region] [demo_round (0x12 # zeros 15 @ le64 4099 @ zeros 8)]
      (uffd_New ms_demo_resolver) = Some (res, h') \<and> guest_ok demo_img [demo_region] (uh_guest h')"
proof -
  let ?h = "uffd_New ms_demo_resolver" and ?rs = "[demo_round (0x12 # zeros 15 @ le64 4099 @ zeros 8)]"
  have "list_all (region_ok demo_img (ms_ChunkSize (rs_h (uh_resolver ?h)))) [demo_region]"
    "ms_inv demo_img (uh_resolver ?h)" "guest_ok demo_img [demo_region] (uh_guest ?h)"
    "list_all (\<lambda>r. \<forall>n. world_ok demo_img (120 * Second) (rd_worlds r n)) ?rs"
    using demo_region_ok ms_demo_inv demo_world_ok by (simp_all add: uffd_New_def guest_ok_def demo_round_def)
  from faultLoop_installs_image [OF this, of 1] show ?thesis by blast
qed

end
