(* ===== verification/Nbd_Server.thy ===== *)
theory Nbd_Server
  imports Disk_Resolver Crash_Program Go_Env
begin

text \<open>
  The userspace NBD server that exposes a streamed root disk as \<^verbatim>\<open>/dev/nbdN\<close>
  (\<^verbatim>\<open>src/agent/internal/nbdstream/server_linux.go\<close>, \<^verbatim>\<open>origin_linux.go\<close>).

  \<^item> The socket to the kernel is a list of \<open>read\<close> outcomes (data in any fragmentation, \<open>EINTR\<close>, errors) and
    a list of \<open>write\<close> outcomes. The bytes written are kept in \<open>ns_out\<close>.
  \<^item> The \<open>Backend\<close> interface is the first argument of the serve loop. What the loop relies on is the locale
    \<open>block_device\<close>, interpreted on \<open>ds_ReadAt\<close> of \<open>Disk_Resolver\<close>.
  \<^item> Ioctls and closed descriptors are recorded in \<open>ns_ops\<close>, so that leaks are visible. The polling loops of
    \<open>Start\<close> and \<open>reclaimDevice\<close> read a list of what each poll sees; running out of it is \<open>None\<close>, still polling.
\<close>

section \<open>Reading and writing the socket\<close>

datatype rd_ev = RIntr | RErr string | RData "byte list"

datatype wr_ev = WIntr | WErr string | WOk nat

text \<open>\<open>readFull need got evs\<close>: the bytes still missing, those read, and the outcomes of the coming reads.\<close>

fun readFull :: "nat \<Rightarrow> byte list \<Rightarrow> rd_ev list \<Rightarrow> string option \<times> byte list \<times> rd_ev list" where
  "readFull need got [] = (if need = 0 then (None, got, []) else (Some ''EOF'', got, []))"
| "readFull need got (ev # evs) =
     (if need = 0 then (None, got, ev # evs)
      else case ev of
        RIntr \<Rightarrow> readFull need got evs
      | RErr e \<Rightarrow> (Some e, got, evs)
      | RData bs \<Rightarrow>
          if bs = [] then (Some ''EOF'', got, evs)
          else if length bs \<le> need then readFull (need - length bs) (got @ bs) evs
          else (None, got @ take need bs, RData (drop need bs) # evs))"

text \<open>Once the given outcomes are used up the kernel takes everything. A write of \<open>m\<close> bytes takes at most \<open>b\<close>.\<close>

fun writeFull :: "byte list \<Rightarrow> wr_ev list \<Rightarrow> string option \<times> byte list \<times> wr_ev list" where
  "writeFull b [] = (None, b, [])"
| "writeFull b (ev # evs) =
     (if b = [] then (None, [], ev # evs)
      else case ev of
        WIntr \<Rightarrow> writeFull b evs
      | WErr e \<Rightarrow> (Some e, [], evs)
      | WOk m \<Rightarrow> (let (err, out, evs1) = writeFull (drop m b) evs in (err, take m b @ out, evs1)))"

fun in_bytes :: "rd_ev list \<Rightarrow> byte list" where
  "in_bytes [] = []"
| "in_bytes (RData bs # evs) = bs @ in_bytes evs"
| "in_bytes (_ # evs) = in_bytes evs"

text \<open>A stream without errors, in any fragmentation.\<close>

definition clean :: "rd_ev list \<Rightarrow> bool" where
  "clean = list_all (\<lambda>ev. case ev of RIntr \<Rightarrow> True | RErr _ \<Rightarrow> False | RData bs \<Rightarrow> bs \<noteq> [])"

lemma clean_simps [simp]:
  "clean []" "clean (RIntr # evs) = clean evs" "\<not> clean (RErr e # evs)"
  "clean (RData bs # evs) \<longleftrightarrow> bs \<noteq> [] \<and> clean evs"
  by (simp_all add: clean_def)

lemma readFull_bytes:
  "readFull need got evs = (None, b, evs') \<Longrightarrow> got @ in_bytes evs = b @ in_bytes evs' \<and> length b = length got + need"
proof (induction need got evs rule: readFull.induct)
  case (1 need got)
  then show ?case by (simp split: if_splits)
next
  case (2 need got ev evs)
  show ?case
  proof (cases "need = 0")
    case True
    then show ?thesis using 2 by simp
  next
    case False
    then show ?thesis using 2 by (cases ev) (auto split: if_splits)
  qed
qed

lemma readFull_clean:
  assumes "clean evs"
  shows "if need \<le> length (in_bytes evs)
    then \<exists>evs'. readFull need got evs = (None, got @ take need (in_bytes evs), evs')
      \<and> in_bytes evs' = drop need (in_bytes evs) \<and> clean evs'
    else \<exists>e b evs'. readFull need got evs = (Some e, b, evs')"
  using assms
proof (induction evs arbitrary: need got)
  case Nil
  then show ?case by simp
next
  case (Cons ev evs)
  show ?case
  proof (cases "need = 0")
    case False
    then show ?thesis
    proof (cases ev)
      case (RData bs)
      show ?thesis
      proof (cases "length bs \<le> need")
        case True
        then show ?thesis
          using Cons.IH [of "need - length bs" "got @ bs"] Cons.prems RData False by (auto split: if_splits)
      next
        case nle: False
        then show ?thesis using Cons.prems RData False by simp
      qed
    qed (use Cons in auto)
  qed (use Cons in simp)
qed

lemma writeFull_prefix:
  "writeFull b ws = (err, out, ws') \<Longrightarrow> (\<exists>rest. b = out @ rest) \<and> (err = None \<longrightarrow> out = b)"
proof (induction b ws arbitrary: err out ws' rule: writeFull.induct)
  case (1 b)
  then show ?case by simp
next
  case (2 b ev evs)
  show ?case
  proof (cases "b = []")
    case True
    then show ?thesis using 2 by simp
  next
    case False
    then show ?thesis
    proof (cases ev)
      case (WOk m)
      obtain e1 o1 w1 where w: "writeFull (drop m b) evs = (e1, o1, w1)" by (metis prod_cases3)
      have "(\<exists>rest. drop m b = o1 @ rest) \<and> (e1 = None \<longrightarrow> o1 = drop m b)" using 2 False WOk w by blast
      moreover have "err = e1 \<and> out = take m b @ o1" using 2(3) False WOk w by simp
      ultimately show ?thesis by (metis append.assoc append_take_drop_id)
    qed (use 2 in auto)
  qed
qed

section \<open>The wire format\<close>

definition be32 :: "u32 \<Rightarrow> byte list" where "be32 v = rev (le32 v)"
definition be64 :: "u64 \<Rightarrow> byte list" where "be64 v = rev (le64 v)"
definition getbe32 :: "byte list \<Rightarrow> u32" where "getbe32 xs = get32 (rev (take 4 xs))"
definition getbe64 :: "byte list \<Rightarrow> u64" where "getbe64 xs = get64 (rev (take 8 xs))"

lemma be_lengths [simp]: "length (be32 v) = 4" "length (be64 w) = 8"
  by (simp_all add: be32_def be64_def)

lemma be_roundtrip [simp]: "getbe32 (be32 v @ xs) = v" "getbe64 (be64 w @ xs) = w"
proof -
  have "rev (take 4 (be32 v @ xs)) = le32 v @ []" "rev (take 8 (be64 w @ xs)) = le64 w @ []"
    by (simp_all add: be32_def be64_def)
  then show "getbe32 (be32 v @ xs) = v" "getbe64 (be64 w @ xs) = w"
    unfolding getbe32_def getbe64_def by (simp_all only: get32_le32 get64_le64)
qed

definition nbdRequestMagic :: u32 where "nbdRequestMagic = 0x25609513"
definition nbdReplyMagic :: u32 where "nbdReplyMagic = 0x67446698"
definition nbdCmdRead :: u32 where "nbdCmdRead = 0"
definition nbdCmdWrite :: u32 where "nbdCmdWrite = 1"
definition nbdCmdDisc :: u32 where "nbdCmdDisc = 2"
definition nbdCmdFlush :: u32 where "nbdCmdFlush = 3"
definition nbdCmdTrim :: u32 where "nbdCmdTrim = 5"
definition nbdEPERM :: u32 where "nbdEPERM = 1"
definition nbdEIO :: u32 where "nbdEIO = 5"
definition nbdRequestLen :: nat where "nbdRequestLen = 28"
definition defaultMaxReadBytes :: int where "defaultMaxReadBytes = 4 * 2 ^ 20"
definition DefaultIOTimeout :: int where "DefaultIOTimeout = 90 * Second"

lemmas nbd_consts = nbdRequestMagic_def nbdCmdRead_def nbdCmdWrite_def nbdCmdDisc_def nbdCmdFlush_def
  nbdCmdTrim_def nbdEPERM_def nbdEIO_def

text \<open>The 16-byte reply header.\<close>

definition reply_hdr :: "byte list \<Rightarrow> u32 \<Rightarrow> byte list" where
  "reply_hdr handle err = be32 nbdReplyMagic @ be32 err @ handle"


section \<open>The server\<close>

datatype nbd_op = Disconnect int | ClearSock int | CloseFD int

record 's nbd_Server =
  ns_backend :: 's
  ns_maxRead :: int
  ns_fetchBudget :: int
  ns_devFD :: int
  ns_kSock :: int
  ns_uSock :: int
  ns_stopped :: bool
  ns_closed :: bool
  ns_reads :: int
  ns_readBytes :: int
  ns_breaker :: int
  ns_errs :: int
  ns_pending :: int
  ns_lastIO :: int
  ns_data :: "byte list"
  ns_in :: "rd_ev list"
  ns_writes :: "wr_ev list"
  ns_out :: "byte list"
  ns_ops :: "nbd_op list"

definition closeSockets :: "'s nbd_Server \<Rightarrow> 's nbd_Server" where
  "closeSockets s =
     s\<lparr>ns_ops := ns_ops s @ (if ns_kSock s \<ge> 0 then [CloseFD (ns_kSock s)] else [])
                      @ (if ns_uSock s \<ge> 0 then [CloseFD (ns_uSock s)] else []),
       ns_kSock := - 1, ns_uSock := - 1\<rparr>"

text \<open>Teardown of the device descriptor, shared by \<open>Stop\<close> and \<open>failSetup\<close>.\<close>

definition tear_down :: "'s nbd_Server \<Rightarrow> 's nbd_Server" where
  "tear_down s =
     (let d = ns_devFD s;
          s1 = (if d \<ge> 0 then s\<lparr>ns_ops := ns_ops s @ [Disconnect d, ClearSock d]\<rparr> else s);
          s2 = closeSockets s1
      in if d \<ge> 0 then s2\<lparr>ns_ops := ns_ops s2 @ [CloseFD d], ns_devFD := - 1\<rparr> else s2)"

definition nbd_Stop :: "'s nbd_Server \<Rightarrow> 's nbd_Server" where
  "nbd_Stop s = (if ns_stopped s then s else tear_down (s\<lparr>ns_stopped := True, ns_closed := True\<rparr>))"

definition reply :: "byte list \<Rightarrow> u32 \<Rightarrow> byte list \<Rightarrow> 's nbd_Server \<Rightarrow> string option \<times> 's nbd_Server" where
  "reply handle errCode payload s =
     (case writeFull (reply_hdr handle errCode) (ns_writes s) of
        (Some e, out, ws) \<Rightarrow> (Some e, s\<lparr>ns_out := ns_out s @ out, ns_writes := ws\<rparr>)
      | (None, out, ws) \<Rightarrow>
          (let s1 = s\<lparr>ns_out := ns_out s @ out, ns_writes := ws\<rparr> in
           if length payload > 0 then
             (let (err, out2, ws2) = writeFull payload ws in
              (err, s1\<lparr>ns_out := ns_out s1 @ out2, ns_writes := ws2\<rparr>))
           else (None, s1)))"

text \<open>
  The world of one request: what the backend meets, whether the fetch budget's context has expired when
  the read returns, and the clock when the reply is complete.
\<close>

record 'w request_world =
  qw_backend :: 'w
  qw_expired :: bool
  qw_now :: int

type_synonym ('w, 's, 'e) backend_read = "'w \<Rightarrow> 's \<Rightarrow> byte list \<Rightarrow> int \<Rightarrow> 'e call \<times> nat \<times> byte list \<times> 's"

text \<open>\<open>serveRead\<close>: \<open>Done None\<close> is success. The buffer is returned as the backend left it.\<close>

definition serveRead ::
  "('w, 's, 'e) backend_read \<Rightarrow> 'w request_world \<Rightarrow> byte list \<Rightarrow> int \<Rightarrow> 's nbd_Server
    \<Rightarrow> 'e option call \<times> byte list \<times> 's nbd_Server" where
  "serveRead readAt w buf off s =
     (case readAt (qw_backend w) (ns_backend s) buf off of
        (Done (Some e), n, buf1, b) \<Rightarrow>
          (Done (Some (Some e)), buf1,
           s\<lparr>ns_backend := b,
             ns_breaker := ns_breaker s + (if ns_fetchBudget s > 0 \<and> qw_expired w then 1 else 0)\<rparr>)
      | (Done None, n, buf1, b) \<Rightarrow>
          (Done (if n < length buf then Some None else None), buf1, s\<lparr>ns_backend := b\<rparr>)
      | (Blocked, n, buf1, b) \<Rightarrow> (Blocked, buf1, s\<lparr>ns_backend := b\<rparr>)
      | (Panics, n, buf1, b) \<Rightarrow> (Panics, buf1, s\<lparr>ns_backend := b\<rparr>))"

datatype verdict = Next | Exited | Wedged

definition complete :: "'w request_world \<Rightarrow> string option \<times> 's nbd_Server \<Rightarrow> verdict \<times> 's nbd_Server" where
  "complete w = (\<lambda>(writeErr, s).
     let s1 = s\<lparr>ns_lastIO := qw_now w, ns_pending := ns_pending s - 1\<rparr> in
     case writeErr of Some e \<Rightarrow> (Exited, nbd_Stop s1) | None \<Rightarrow> (Next, s1))"

text \<open>The \<open>switch\<close> on the request type; every arm replies and completes the request.\<close>

definition serve_request ::
  "('w, 's, 'e) backend_read \<Rightarrow> 'w request_world \<Rightarrow> u32 \<Rightarrow> byte list \<Rightarrow> u64 \<Rightarrow> u32 \<Rightarrow> 's nbd_Server
    \<Rightarrow> verdict \<times> 's nbd_Server" where
  "serve_request readAt w typ handle offset len s =
     (if typ = nbdCmdRead then
        (if uint len > int (length (ns_data s)) then
           complete w (reply handle nbdEIO [] (s\<lparr>ns_errs := ns_errs s + 1\<rparr>))
         else
           (case serveRead readAt w (take (unat len) (ns_data s)) (sint offset) s of
              (Done None, buf, s1) \<Rightarrow>
                complete w (reply handle 0 buf
                  (s1\<lparr>ns_data := buf @ drop (unat len) (ns_data s1), ns_reads := ns_reads s1 + 1,
                     ns_readBytes := ns_readBytes s1 + uint len\<rparr>))
            | (Done (Some e), buf, s1) \<Rightarrow>
                complete w (reply handle nbdEIO []
                  (s1\<lparr>ns_data := buf @ drop (unat len) (ns_data s1), ns_errs := ns_errs s1 + 1\<rparr>))
            | (_, buf, s1) \<Rightarrow> (Wedged, s1)))
      else if typ = nbdCmdWrite then
        (let s1 = (if uint len \<le> ns_maxRead s
                   then s\<lparr>ns_in := snd (snd (readFull (unat len) [] (ns_in s)))\<rparr> else s)
         in complete w (reply handle nbdEPERM [] s1))
      else if typ = nbdCmdFlush \<or> typ = nbdCmdTrim then complete w (reply handle 0 [] s)
      else complete w (reply handle nbdEPERM [] s))"

text \<open>One turn of the loop in \<open>serve\<close>.\<close>

definition serve_one ::
  "('w, 's, 'e) backend_read \<Rightarrow> 'w request_world \<Rightarrow> 's nbd_Server \<Rightarrow> verdict \<times> 's nbd_Server" where
  "serve_one readAt w s0 =
     (case readFull nbdRequestLen [] (ns_in s0) of
        (Some e, _, evs) \<Rightarrow> (Exited, nbd_Stop (s0\<lparr>ns_in := evs\<rparr>))
      | (None, reqBuf, evs) \<Rightarrow>
          (let s = s0\<lparr>ns_in := evs\<rparr> in
           if getbe32 reqBuf \<noteq> nbdRequestMagic then (Exited, nbd_Stop s)
           else
             let typ = getbe32 (drop 4 reqBuf) AND 0xffff;
                 handle = take 8 (drop 8 reqBuf);
                 offset = getbe64 (drop 16 reqBuf);
                 len = getbe32 (drop 24 reqBuf)
             in if typ = nbdCmdDisc then (Exited, nbd_Stop s)
                else serve_request readAt w typ handle offset len (s\<lparr>ns_pending := ns_pending s + 1\<rparr>)))"

lemma readFull_shrinks: "length (in_bytes (snd (snd (readFull need got evs)))) \<le> length (in_bytes evs)"
proof (induction evs arbitrary: need got)
  case (Cons ev evs)
  then show ?case
    by (cases ev) (auto intro: order_trans [OF Cons.IH] simp: le_diff_conv)
qed simp

lemma tear_down_in [simp]: "ns_in (tear_down s) = ns_in s"
  by (simp add: tear_down_def closeSockets_def Let_def)

lemma nbd_Stop_in [simp]: "ns_in (nbd_Stop s) = ns_in s"
  by (simp add: nbd_Stop_def)

lemma reply_in [simp]: "ns_in (snd (reply h e p s)) = ns_in s"
  by (auto simp: reply_def Let_def split: option.splits prod.splits)

lemma complete_in: "complete w r = (v, s) \<Longrightarrow> ns_in s = ns_in (snd r)"
  by (cases r) (auto simp: complete_def Let_def split: option.splits)

lemma serveRead_in: "serveRead readAt w buf off s = (c, b, s') \<Longrightarrow> ns_in s' = ns_in s"
  by (auto simp: serveRead_def split: call.splits option.splits prod.splits)

text \<open>Every turn that continues has consumed a request, so the loop ends with its input.\<close>

lemma serve_one_consumes:
  assumes "serve_one readAt w s = (Next, s')"
  shows "length (in_bytes (ns_in s')) < length (in_bytes (ns_in s))"
proof -
  obtain b evs where r: "readFull nbdRequestLen [] (ns_in s) = (None, b, evs)"
    using assms by (auto simp: serve_one_def split: option.splits prod.splits)
  have "length (in_bytes evs) < length (in_bytes (ns_in s))"
    using readFull_bytes [OF r] by (simp add: nbdRequestLen_def)
  moreover have "length (in_bytes (ns_in s')) \<le> length (in_bytes evs)"
    using assms r readFull_shrinks
    by (auto simp: serve_one_def serve_request_def Let_def split: if_splits prod.splits call.splits option.splits
        dest!: complete_in serveRead_in)
  ultimately show ?thesis by simp
qed

function serve ::
  "('w, 's, 'e) backend_read \<Rightarrow> (nat \<Rightarrow> 'w request_world) \<Rightarrow> nat \<Rightarrow> 's nbd_Server \<Rightarrow> verdict \<times> 's nbd_Server" where
  "serve readAt ws k s =
     (case serve_one readAt (ws k) s of
        (Next, s1) \<Rightarrow> serve readAt ws (Suc k) s1
      | (v, s1) \<Rightarrow> (v, s1))"
  by pat_completeness auto
termination
  by (relation "measure (\<lambda>(readAt, ws, k, s). length (in_bytes (ns_in s)))") (auto dest: serve_one_consumes [OF sym])

declare serve.simps [simp del]

text \<open>The serve goroutine allocates its read buffer and enters the loop.\<close>

definition nbd_serve ::
  "('w, 's, 'e) backend_read \<Rightarrow> (nat \<Rightarrow> 'w request_world) \<Rightarrow> 's nbd_Server \<Rightarrow> verdict \<times> 's nbd_Server" where
  "nbd_serve readAt ws s = serve readAt ws 0 (s\<lparr>ns_data := zeros (nat (ns_maxRead s))\<rparr>)"

definition nbd_StalledFor :: "int \<Rightarrow> int \<Rightarrow> 's nbd_Server \<Rightarrow> bool" where
  "nbd_StalledFor now d s \<longleftrightarrow> \<not> ns_closed s \<and> ns_pending s > 0 \<and> ns_lastIO s \<noteq> 0 \<and> now - ns_lastIO s > d"


section \<open>What a client of the device sees\<close>

text \<open>A request as the kernel writes it; only writes carry a payload.\<close>

record nbd_request =
  rq_type :: u32
  rq_handle :: "byte list"
  rq_off :: u64
  rq_len :: u32
  rq_payload :: "byte list"

definition enc_req :: "nbd_request \<Rightarrow> byte list" where
  "enc_req r = be32 nbdRequestMagic @ be32 (rq_type r) @ rq_handle r @ be64 (rq_off r) @ be32 (rq_len r) @ rq_payload r"

abbreviation rq_cmd :: "nbd_request \<Rightarrow> u32" where
  "rq_cmd r \<equiv> rq_type r AND 0xffff"

text \<open>Requests the kernel sends to a connected device, with writes no larger than the drain buffer.\<close>

definition wf_req :: "int \<Rightarrow> nbd_request \<Rightarrow> bool" where
  "wf_req mx r \<longleftrightarrow> length (rq_handle r) = 8 \<and> rq_cmd r \<noteq> nbdCmdDisc
     \<and> (if rq_cmd r = nbdCmdWrite then int (length (rq_payload r)) = uint (rq_len r) \<and> uint (rq_len r) \<le> mx
        else rq_payload r = [])
     \<and> (rq_cmd r = nbdCmdRead \<longrightarrow> rq_len r \<noteq> 0)"

text \<open>
  The reply a request may get: a read is answered with the image's bytes or \<open>EIO\<close>, and with the bytes when
  the backend is live and the range is inside the device; writes are refused; flush and trim succeed.
\<close>

definition in_device :: "byte list \<Rightarrow> nbd_request \<Rightarrow> bool" where
  "in_device img r \<longleftrightarrow> 0 \<le> sint (rq_off r) \<and> nat (sint (rq_off r)) + unat (rq_len r) \<le> length img"

definition answers :: "byte list \<Rightarrow> int \<Rightarrow> bool \<Rightarrow> nbd_request \<Rightarrow> byte list \<Rightarrow> bool" where
  "answers img mx live r out \<longleftrightarrow>
     (if rq_cmd r = nbdCmdRead then
        (let ok = reply_hdr (rq_handle r) 0 @ seg (nat (sint (rq_off r))) (unat (rq_len r)) img in
         if live \<and> in_device img r \<and> uint (rq_len r) \<le> mx then out = ok
         else out = reply_hdr (rq_handle r) nbdEIO \<or> in_device img r \<and> out = ok)
      else if rq_cmd r = nbdCmdFlush \<or> rq_cmd r = nbdCmdTrim then out = reply_hdr (rq_handle r) 0
      else out = reply_hdr (rq_handle r) nbdEPERM)"

text \<open>The contract of \<open>Backend\<close> that the server relies on, for a device whose content is \<open>img\<close>.\<close>

locale block_device =
  fixes readAt :: "('w, 's, 'e) backend_read" and good :: "'s \<Rightarrow> bool"
    and honest :: "'w \<Rightarrow> bool" and live :: "'w \<Rightarrow> bool" and img :: "byte list"
  assumes read_law: "good b \<Longrightarrow> honest w \<Longrightarrow> dst \<noteq> [] \<Longrightarrow> length dst < 2 ^ 32 \<Longrightarrow>
    \<exists>e n dst' b'. readAt w b dst off = (Done e, n, dst', b') \<and> good b' \<and> length dst' = length dst
      \<and> (e = None \<and> length dst \<le> n \<longrightarrow> 0 \<le> off \<and> nat off + length dst \<le> length img \<and> dst' = seg (nat off) (length dst) img)
      \<and> (live w \<and> 0 \<le> off \<and> nat off + length dst \<le> length img \<longrightarrow> e = None \<and> length dst \<le> n)"

lemma enc_req_fields:
  assumes "length (rq_handle r) = 8"
  shows "take nbdRequestLen (enc_req r @ rest) @ [] = be32 nbdRequestMagic @ be32 (rq_type r) @ rq_handle r @ be64 (rq_off r) @ be32 (rq_len r)"
    and "drop nbdRequestLen (enc_req r @ rest) = rq_payload r @ rest"
  using assms by (simp_all add: enc_req_def nbdRequestLen_def)

lemma req_decode:
  assumes "length (rq_handle r) = 8"
    and b: "b = be32 nbdRequestMagic @ be32 (rq_type r) @ rq_handle r @ be64 (rq_off r) @ be32 (rq_len r)"
  shows "getbe32 b = nbdRequestMagic" "getbe32 (drop 4 b) = rq_type r" "take 8 (drop 8 b) = rq_handle r"
    "getbe64 (drop 16 b) = rq_off r" "getbe32 (drop 24 b) = rq_len r"
  using assms be_roundtrip(1) [of "rq_len r" "[]"] by simp_all

definition no_werr :: "wr_ev list \<Rightarrow> bool" where
  "no_werr = list_all (\<lambda>w. case w of WErr _ \<Rightarrow> False | _ \<Rightarrow> True)"

lemma writeFull_ok: "no_werr ws \<Longrightarrow> \<exists>ws'. writeFull b ws = (None, b, ws') \<and> no_werr ws'"
proof (induction b ws rule: writeFull.induct)
  case (2 b ev evs)
  show ?case
  proof (cases "b = []")
    case False
    then show ?thesis
    proof (cases ev)
      case (WOk m)
      then obtain ws' where "writeFull (drop m b) evs = (None, drop m b, ws')" "no_werr ws'"
        using 2 False by (auto simp: no_werr_def)
      then show ?thesis using False WOk by simp
    qed (use 2 in \<open>auto simp: no_werr_def\<close>)
  qed (use 2 in simp)
qed simp

text \<open>A reply on a socket that accepts writes is sent whole, and the request is no longer pending.\<close>

lemma complete_reply:
  assumes "no_werr (ns_writes s)"
  shows "\<exists>ws. complete w (reply h e p s) = (Next, s\<lparr>ns_out := ns_out s @ reply_hdr h e @ p, ns_writes := ws,
      ns_lastIO := qw_now w, ns_pending := ns_pending s - 1\<rparr>) \<and> no_werr ws"
proof -
  obtain w1 where w1: "writeFull (reply_hdr h e) (ns_writes s) = (None, reply_hdr h e, w1)" "no_werr w1"
    using writeFull_ok assms by blast
  obtain w2 where w2: "writeFull p w1 = (None, p, w2)" "no_werr w2" using writeFull_ok w1(2) by blast
  show ?thesis using w1 w2 by (auto simp: complete_def reply_def Let_def)
qed


context block_device
begin

definition srv :: "'s nbd_Server \<Rightarrow> bool" where
  "srv s \<longleftrightarrow> good (ns_backend s) \<and> no_werr (ns_writes s) \<and> clean (ns_in s) \<and> int (length (ns_data s)) = ns_maxRead s"

text \<open>How a turn changes the server when it answers with \<open>out\<close>.\<close>

definition turn :: "'s nbd_Server \<Rightarrow> byte list \<Rightarrow> byte list \<Rightarrow> 's nbd_Server \<Rightarrow> bool" where
  "turn s out rest s' \<longleftrightarrow> srv s' \<and> in_bytes (ns_in s') = rest \<and> ns_out s' = ns_out s @ out
     \<and> ns_pending s' = ns_pending s - 1 \<and> ns_maxRead s' = ns_maxRead s"

lemma complete_turn:
  assumes "srv s"
  shows "\<exists>s'. complete w (reply h e p s) = (Next, s') \<and> turn s (reply_hdr h e @ p) (in_bytes (ns_in s)) s'"
  using complete_reply [of s w h e p] assms by (auto simp: srv_def turn_def)

lemma serve_read_turn:
  assumes s: "srv s" and w: "honest (qw_backend w)" and r: "rq_cmd r = nbdCmdRead" "rq_len r \<noteq> 0"
  shows "\<exists>s' out. serve_request readAt w nbdCmdRead (rq_handle r) (rq_off r) (rq_len r) s = (Next, s')
    \<and> turn s out (in_bytes (ns_in s)) s' \<and> answers img (ns_maxRead s) (live (qw_backend w)) r out"
proof (cases "uint (rq_len r) > int (length (ns_data s))")
  case True
  let ?s = "s\<lparr>ns_errs := ns_errs s + 1\<rparr>"
  have "srv ?s" using s by (simp add: srv_def)
  then obtain s' where "complete w (reply (rq_handle r) nbdEIO [] ?s) = (Next, s')"
      "turn ?s (reply_hdr (rq_handle r) nbdEIO) (in_bytes (ns_in s)) s'"
    using complete_turn [of ?s w "rq_handle r" nbdEIO "[]"] by auto
  moreover have "answers img (ns_maxRead s) (live (qw_backend w)) r (reply_hdr (rq_handle r) nbdEIO)"
    using True r s by (simp add: answers_def srv_def)
  ultimately show ?thesis using True by (auto simp: serve_request_def turn_def)
next
  case False
  let ?d = "take (unat (rq_len r)) (ns_data s)" and ?off = "sint (rq_off r)"
  have le: "unat (rq_len r) \<le> length (ns_data s)"
    using False by (simp add: unat_eq_nat_uint nat_le_iff del: nat_uint_eq)
  have pos: "unat (rq_len r) \<noteq> 0" using r(2) by (simp add: unat_eq_zero)
  have len1: "length ?d = unat (rq_len r)" using le by simp
  have "unat (rq_len r) < 2 ^ LENGTH(32)" by (rule unsigned_less)
  then have len3: "length ?d < 2 ^ 32" using len1 by simp
  have "?d \<noteq> []" using pos len1 by force
  note len = len1 this len3
  obtain e n dst' b where b: "readAt (qw_backend w) (ns_backend s) ?d ?off = (Done e, n, dst', b)" "good b"
      "length dst' = unat (rq_len r)"
      "e = None \<and> length ?d \<le> n \<longrightarrow> 0 \<le> ?off \<and> nat ?off + length ?d \<le> length img \<and> dst' = seg (nat ?off) (length ?d) img"
      "live (qw_backend w) \<and> 0 \<le> ?off \<and> nat ?off + length ?d \<le> length img \<longrightarrow> e = None \<and> length ?d \<le> n"
    using read_law [OF _ w len(2,3), of "ns_backend s" ?off] s len(1) unfolding srv_def by metis
  note b' = b(4,5) [unfolded len(1)]
  define upd where "upd s1 = s1\<lparr>ns_backend := b, ns_data := dst' @ drop (unat (rq_len r)) (ns_data s1)\<rparr>" for s1 :: "'s nbd_Server"
  have srv: "srv (upd s)" using s b(2,3) le by (simp add: srv_def upd_def)
  show ?thesis
  proof (cases "e = None \<and> unat (rq_len r) \<le> n")
    case True
    let ?s = "upd s\<lparr>ns_reads := ns_reads s + 1, ns_readBytes := ns_readBytes s + uint (rq_len r)\<rparr>"
    have "srv ?s" using srv by (simp add: srv_def)
    then obtain s' where s': "complete w (reply (rq_handle r) 0 dst' ?s) = (Next, s')"
        "turn ?s (reply_hdr (rq_handle r) 0 @ dst') (in_bytes (ns_in s)) s'"
      using complete_turn [of ?s w "rq_handle r" 0 dst'] by (auto simp: upd_def)
    have "serve_request readAt w nbdCmdRead (rq_handle r) (rq_off r) (rq_len r) s = complete w (reply (rq_handle r) 0 dst' ?s)"
      using True False b(1) len(1) by (simp add: serve_request_def serveRead_def upd_def)
    moreover have "answers img (ns_maxRead s) (live (qw_backend w)) r (reply_hdr (rq_handle r) 0 @ dst')"
      using True r b'(1) by (auto simp: answers_def in_device_def)
    ultimately show ?thesis using s' by (auto simp: turn_def upd_def)
  next
    case bad: False
    define s1 where "s1 = (if e = None then s else s\<lparr>ns_breaker := ns_breaker s + (if ns_fetchBudget s > 0 \<and> qw_expired w then 1 else 0)\<rparr>)"
    let ?s = "upd s1\<lparr>ns_errs := ns_errs s + 1\<rparr>"
    have f: "ns_in s1 = ns_in s" "ns_out s1 = ns_out s" "ns_pending s1 = ns_pending s" "ns_maxRead s1 = ns_maxRead s"
      by (simp_all add: s1_def)
    have "srv ?s" using srv by (simp add: srv_def upd_def s1_def)
    then obtain s' where s': "complete w (reply (rq_handle r) nbdEIO [] ?s) = (Next, s')"
        "turn ?s (reply_hdr (rq_handle r) nbdEIO) (in_bytes (ns_in s)) s'"
      using complete_turn [of ?s w "rq_handle r" nbdEIO "[]"] f by (auto simp: upd_def)
    have "serve_request readAt w nbdCmdRead (rq_handle r) (rq_off r) (rq_len r) s = complete w (reply (rq_handle r) nbdEIO [] ?s)"
      using bad False b(1) len(1) by (cases e; cases s) (simp_all add: serve_request_def serveRead_def upd_def s1_def)
    moreover have "answers img (ns_maxRead s) (live (qw_backend w)) r (reply_hdr (rq_handle r) nbdEIO)"
      using bad r b'(2) by (auto simp: answers_def in_device_def)
    ultimately show ?thesis using s' f by (auto simp: turn_def upd_def)
  qed
qed

end


context block_device
begin

lemma serve_request_turn:
  assumes s: "srv s" and w: "honest (qw_backend w)" and r: "wf_req (ns_maxRead s) r"
    and in_s: "in_bytes (ns_in s) = rq_payload r @ rest"
  shows "\<exists>s' out. serve_request readAt w (rq_cmd r) (rq_handle r) (rq_off r) (rq_len r) s = (Next, s')
    \<and> turn s out rest s' \<and> answers img (ns_maxRead s) (live (qw_backend w)) r out"
proof (cases "rq_cmd r = nbdCmdRead")
  case True
  then show ?thesis using serve_read_turn [OF s w True] r in_s by (auto simp: wf_req_def nbd_consts)
next
  case notread: False
  show ?thesis
  proof (cases "rq_cmd r = nbdCmdWrite")
    case True
    have pl: "int (length (rq_payload r)) = uint (rq_len r)" "uint (rq_len r) \<le> ns_maxRead s"
      using r True by (simp_all add: wf_req_def)
    then have len: "length (rq_payload r) = unat (rq_len r)" by (metis nat_int nat_uint_eq)
    obtain evs where evs: "readFull (unat (rq_len r)) [] (ns_in s) = (None, take (unat (rq_len r)) (in_bytes (ns_in s)), evs)"
        "in_bytes evs = rest" "clean evs"
      using readFull_clean [of "ns_in s" "unat (rq_len r)" "[]"] s in_s len by (auto simp: srv_def split: if_splits)
    let ?s = "s\<lparr>ns_in := evs\<rparr>"
    have "srv ?s" using s evs(3) by (simp add: srv_def)
    then show ?thesis
      using complete_turn [of ?s w "rq_handle r" nbdEPERM "[]"] evs True notread pl(2)
      by (auto simp: serve_request_def turn_def answers_def nbd_consts)
  next
    case False
    have "rq_payload r = []" using r False by (simp add: wf_req_def)
    then show ?thesis
      using complete_turn [OF s, of w "rq_handle r" 0 "[]"] complete_turn [OF s, of w "rq_handle r" nbdEPERM "[]"]
        False notread in_s by (auto simp: serve_request_def turn_def answers_def)
  qed
qed

lemma serve_one_turn:
  assumes s: "srv s" and w: "honest (qw_backend w)" and r: "wf_req (ns_maxRead s) r"
    and in_s: "in_bytes (ns_in s) = enc_req r @ rest"
  shows "\<exists>s' out. serve_one readAt w s = (Next, s') \<and> turn (s\<lparr>ns_pending := ns_pending s + 1\<rparr>) out rest s'
    \<and> answers img (ns_maxRead s) (live (qw_backend w)) r out"
proof -
  have h: "length (rq_handle r) = 8" "rq_cmd r \<noteq> nbdCmdDisc" using r by (simp_all add: wf_req_def)
  note f = enc_req_fields [OF h(1), of rest]
  have "nbdRequestLen \<le> length (in_bytes (ns_in s))" using h(1) in_s by (simp add: enc_req_def nbdRequestLen_def)
  then obtain evs where evs: "readFull nbdRequestLen [] (ns_in s) = (None, take nbdRequestLen (in_bytes (ns_in s)), evs)"
      "in_bytes evs = rq_payload r @ rest" "clean evs"
    using readFull_clean [of "ns_in s" nbdRequestLen "[]"] s in_s f(2) by (auto simp: srv_def split: if_splits)
  let ?b = "take nbdRequestLen (in_bytes (ns_in s))" and ?s = "s\<lparr>ns_in := evs, ns_pending := ns_pending s + 1\<rparr>"
  have b: "?b = be32 nbdRequestMagic @ be32 (rq_type r) @ rq_handle r @ be64 (rq_off r) @ be32 (rq_len r)"
    using f(1) in_s by simp
  note d = req_decode [OF h(1) b]
  have "serve_one readAt w s = serve_request readAt w (rq_cmd r) (rq_handle r) (rq_off r) (rq_len r) ?s"
    unfolding serve_one_def evs(1) by (simp add: d h(2))
  moreover have "srv ?s" using s evs(3) by (simp add: srv_def)
  ultimately show ?thesis
    using serve_request_turn [of ?s w r rest] w r evs(2) by (auto simp: turn_def)
qed

lemma serve_answers:
  assumes "srv s" and "\<forall>k. honest (qw_backend (ws k))" and "list_all (wf_req (ns_maxRead s)) reqs"
    and "in_bytes (ns_in s) = concat (map enc_req reqs)"
  shows "\<exists>s' outs. serve readAt ws k s = (Exited, s') \<and> ns_out s' = ns_out s @ concat outs \<and> length outs = length reqs
    \<and> (\<forall>i < length reqs. answers img (ns_maxRead s) (live (qw_backend (ws (k + i)))) (reqs ! i) (outs ! i))
    \<and> ns_pending s' = ns_pending s \<and> good (ns_backend s') \<and> ns_stopped s'"
  using assms
proof (induction reqs arbitrary: s k)
  case Nil
  obtain e b evs where "readFull nbdRequestLen [] (ns_in s) = (Some e, b, evs)"
    using readFull_clean [of "ns_in s" nbdRequestLen "[]"] Nil by (auto simp: srv_def nbdRequestLen_def)
  then have "serve readAt ws k s = (Exited, nbd_Stop (s\<lparr>ns_in := evs\<rparr>))"
    by (simp add: serve.simps serve_one_def)
  then show ?case
    using Nil(1) by (auto simp: nbd_Stop_def tear_down_def closeSockets_def Let_def srv_def)
next
  case (Cons r reqs)
  obtain s1 out where s1: "serve_one readAt (ws k) s = (Next, s1)"
      "turn (s\<lparr>ns_pending := ns_pending s + 1\<rparr>) out (concat (map enc_req reqs)) s1"
      "answers img (ns_maxRead s) (live (qw_backend (ws k))) r out"
    using serve_one_turn [of s "ws k" r "concat (map enc_req reqs)"] Cons.prems by auto
  then have t: "srv s1" "ns_out s1 = ns_out s @ out" "ns_pending s1 = ns_pending s" "ns_maxRead s1 = ns_maxRead s"
      "in_bytes (ns_in s1) = concat (map enc_req reqs)"
    by (simp_all add: turn_def)
  obtain s' outs where o: "serve readAt ws (Suc k) s1 = (Exited, s')" "ns_out s' = ns_out s1 @ concat outs"
      "length outs = length reqs"
      "\<forall>i < length reqs. answers img (ns_maxRead s1) (live (qw_backend (ws (Suc k + i)))) (reqs ! i) (outs ! i)"
      "ns_pending s' = ns_pending s1" "good (ns_backend s')" "ns_stopped s'"
    using Cons.IH [of s1 "Suc k"] t Cons.prems(2,3) by auto
  have "\<forall>i < length (r # reqs). answers img (ns_maxRead s) (live (qw_backend (ws (k + i)))) ((r # reqs) ! i) ((out # outs) ! i)"
    using o(4) s1(3) t(4) by (auto simp: less_Suc_eq_0_disj)
  moreover have "serve readAt ws k s = (Exited, s')" using s1(1) o(1) by (simp add: serve.simps [of _ _ k])
  ultimately show ?case using o t by (intro exI [of _ s'] exI [of _ "out # outs"]) simp
qed

end

section \<open>The device over the disk resolver\<close>

text \<open>
  \<open>*diskstream.Resolver\<close> as a \<open>Backend\<close>: on success the count is that of \<open>cache.ReadAt\<close> on the range
  clamped at the end of the image.
\<close>

record disk_world =
  dw_env :: "int \<Rightarrow> fetch_env"
  dw_rd :: "string option"

definition ds_backend :: "(byte list \<Rightarrow> byte list) \<Rightarrow> (disk_world, ds_Resolver, ds_rerror) backend_read" where
  "ds_backend sha w r dst off =
     (let (c, dst', r') = ds_ReadAt sha (dw_env w) (dw_rd w) r dst off in
      (c, case c of Done None \<Rightarrow> nat (min (int (length dst)) (sint (ds_TotalSize (dr_h r)) - off)) | _ \<Rightarrow> 0, dst', r'))"

definition disk_honest :: "byte list \<Rightarrow> disk_world \<Rightarrow> bool" where
  "disk_honest img w \<longleftrightarrow> (\<forall>i. source_of img (dw_env w i))"

definition disk_live :: "byte list \<Rightarrow> disk_world \<Rightarrow> bool" where
  "disk_live img w \<longleftrightarrow> (\<forall>i. healthy img (dw_env w i)) \<and> dw_rd w = None"

definition disk_good :: "(byte list \<Rightarrow> byte list) \<Rightarrow> byte list \<Rightarrow> ds_Resolver \<Rightarrow> bool" where
  "disk_good sha img r \<longleftrightarrow> ds_inv sha img r \<and> int (length img) + 2 ^ 32 < 2 ^ 63"


lemma ds_backend_law:
  assumes g: "disk_good sha img b" and w: "disk_honest img w" and dst: "dst \<noteq> []" "length dst < 2 ^ 32"
  shows "\<exists>e n dst' b'. ds_backend sha w b dst off = (Done e, n, dst', b') \<and> disk_good sha img b' \<and> length dst' = length dst
      \<and> (e = None \<and> length dst \<le> n \<longrightarrow> 0 \<le> off \<and> nat off + length dst \<le> length img \<and> dst' = seg (nat off) (length dst) img)
      \<and> (disk_live img w \<and> 0 \<le> off \<and> nat off + length dst \<le> length img \<longrightarrow> e = None \<and> length dst \<le> n)"
proof -
  have inv: "ds_inv sha img b" and small: "int (length img) + 2 ^ 32 < 2 ^ 63" using g by (simp_all add: disk_good_def)
  have total: "sint (ds_TotalSize (dr_h b)) = int (length img)"
    using inv ds_describes_facts(4) by (auto simp: ds_inv_def)
  show ?thesis
  proof (cases "0 \<le> off \<and> off < int (length img)")
    case False
    then have "ds_backend sha w b dst off = (Done (Some (DOffsetOutOfRange off (int (length img)))), 0, dst, b\<lparr>dr_reads := dr_reads b + 1\<rparr>)"
      using total by (auto simp: ds_backend_def ds_ReadAt_def)
    moreover have "disk_good sha img (b\<lparr>dr_reads := dr_reads b + 1\<rparr>)" using g by (simp add: disk_good_def ds_inv_def)
    moreover have "0 < length dst" using dst(1) by simp
    then have "\<not> (0 \<le> off \<and> nat off + length dst \<le> length img)" using False by linarith
    ultimately show ?thesis by auto
  next
    case True
    have "int (length dst) < 2 ^ 32" using dst(2) by simp
    then have "int (length img) + int (length dst) < 2 ^ 63" using small by linarith
    then obtain e dst' r' where r: "ds_ReadAt sha (dw_env w) (dw_rd w) b dst off = (Done e, dst', r')" "ds_inv sha img r'"
        "length dst' = length dst"
        "e = None \<longrightarrow> dst' = seg (nat off) (length dst) img @ zeros (length dst - (length img - nat off))"
        "(\<forall>i. healthy img (dw_env w i)) \<and> dw_rd w = None \<longrightarrow> e = None"
      using ds_ReadAt_step [OF inv _ dst(1), of "dw_env w" off "dw_rd w"] w True by (auto simp: disk_honest_def)
    define n where "n = nat (min (int (length dst)) (int (length img) - off))"
    have "ds_backend sha w b dst off = (Done e, if e = None then n else 0, dst', r')"
      using r(1) total by (cases e) (simp_all add: ds_backend_def n_def)
    moreover have fit: "length dst \<le> n \<longleftrightarrow> nat off + length dst \<le> length img" using True unfolding n_def by linarith
    moreover have "dst' = seg (nat off) (length dst) img" if "e = None" "length dst \<le> n"
    proof -
      have "length dst - (length img - nat off) = 0" using that(2) fit by linarith
      then show ?thesis using r(4) that(1) by (simp add: zeros_def)
    qed
    moreover have "disk_good sha img r'" using r(2) small by (simp add: disk_good_def)
    ultimately show ?thesis using r(3,5) True by (auto simp: disk_live_def)
  qed
qed

interpretation nbd_disk: block_device "ds_backend sha" "disk_good sha img" "disk_honest img" "disk_live img" img
  for sha img
  by unfold_locales (rule ds_backend_law)

text \<open>
  C31: what the kernel sees of the streamed disk. However the request stream is fragmented, the serve loop
  answers every request exactly once, in order and with the request's handle. A read is answered with
  the image's bytes or \<open>EIO\<close>, always with the bytes when the source is healthy and the range is inside the
  device; a write is refused and its payload drained; flush and trim succeed. No request is left pending, the loop ends when the
  socket closes, and the device is then torn down.
\<close>

theorem nbd_serve_refines:
  assumes "disk_good sha img (ns_backend s)" and "no_werr (ns_writes s)" and "clean (ns_in s)" and "0 \<le> ns_maxRead s"
    and "list_all (wf_req (ns_maxRead s)) reqs" and "in_bytes (ns_in s) = concat (map enc_req reqs)"
    and "\<forall>k. disk_honest img (qw_backend (ws k))"
  shows "\<exists>s' outs. nbd_serve (ds_backend sha) ws s = (Exited, s') \<and> ns_out s' = ns_out s @ concat outs
    \<and> length outs = length reqs
    \<and> (\<forall>i < length reqs. answers img (ns_maxRead s) (disk_live img (qw_backend (ws i))) (reqs ! i) (outs ! i))
    \<and> ns_pending s' = ns_pending s \<and> ns_stopped s'"
proof -
  let ?s = "s\<lparr>ns_data := zeros (nat (ns_maxRead s))\<rparr>"
  have "nbd_disk.srv sha img ?s" using assms(1-4) by (simp add: nbd_disk.srv_def)
  then show ?thesis
    using nbd_disk.serve_answers [of sha img ?s ws reqs 0] assms(5-7) by (auto simp: nbd_serve_def)
qed


definition demo_nbd :: "rd_ev list \<Rightarrow> ds_Resolver nbd_Server" where
  "demo_nbd evs = \<lparr>ns_backend = ds_demo_resolver, ns_maxRead = 4, ns_fetchBudget = 0, ns_devFD = 7, ns_kSock = 8, ns_uSock = 9,
     ns_stopped = False, ns_closed = False, ns_reads = 0, ns_readBytes = 0, ns_breaker = 0, ns_errs = 0, ns_pending = 0,
     ns_lastIO = 0, ns_data = [], ns_in = evs, ns_writes = [WOk 3, WIntr], ns_out = [], ns_ops = []\<rparr>"

definition demo_reqs :: "nbd_request list" where
  "demo_reqs = [\<lparr>rq_type = 0, rq_handle = [1, 2, 3, 4, 5, 6, 7, 8], rq_off = 1, rq_len = 3, rq_payload = []\<rparr>,
     \<lparr>rq_type = 1, rq_handle = [9, 2, 3, 4, 5, 6, 7, 8], rq_off = 0, rq_len = 2, rq_payload = [6, 6]\<rparr>]"

text \<open>A read and a write, the stream cut in the middle of a header, served over the demo disk.\<close>

theorem nbd_serve_refines_witness:
  "\<exists>s'. nbd_serve (ds_backend demo_sha) (\<lambda>_. \<lparr>qw_backend = \<lparr>dw_env = \<lambda>_. file_env demo_img, dw_rd = None\<rparr>, qw_expired = False, qw_now = 1\<rparr>)
      (demo_nbd [RData (take 10 (concat (map enc_req demo_reqs))), RIntr, RData (drop 10 (concat (map enc_req demo_reqs)))])
      = (Exited, s')
    \<and> ns_out s' = reply_hdr [1, 2, 3, 4, 5, 6, 7, 8] 0 @ [0, 7, 9] @ reply_hdr [9, 2, 3, 4, 5, 6, 7, 8] nbdEPERM"
proof -
  let ?bs = "concat (map enc_req demo_reqs)"
  let ?s = "demo_nbd [RData (take 10 ?bs), RIntr, RData (drop 10 ?bs)]"
  let ?w = "\<lambda>_ :: nat. \<lparr>qw_backend = \<lparr>dw_env = \<lambda>_. file_env demo_img, dw_rd = None\<rparr>, qw_expired = False, qw_now = 1\<rparr>"
  have lb: "length ?bs = 58" by (simp add: demo_reqs_def enc_req_def)
  have "clean [RData (take k b), RIntr, RData (drop k b)]" if "0 < k" "k < length b" for k and b :: "byte list"
    using that by auto
  from this [of 10 ?bs] have "clean (ns_in ?s)" unfolding lb by (simp add: demo_nbd_def)
  moreover have "list_all (wf_req (ns_maxRead ?s)) demo_reqs"
    by (simp add: demo_reqs_def demo_nbd_def wf_req_def nbd_consts)
  moreover have "disk_good demo_sha demo_img (ns_backend ?s)" "no_werr (ns_writes ?s)" "0 \<le> ns_maxRead ?s"
    "in_bytes (ns_in ?s) = ?bs"
    using ds_demo_inv by (simp_all add: demo_nbd_def disk_good_def demo_img_def no_werr_def)
  moreover have "\<forall>k. disk_honest demo_img (qw_backend (?w k))" by (simp add: disk_honest_def file_env_source)
  ultimately obtain s' outs where o: "nbd_serve (ds_backend demo_sha) ?w ?s = (Exited, s')" "ns_out s' = ns_out ?s @ concat outs"
      "length outs = length demo_reqs"
      "\<forall>i < length demo_reqs. answers demo_img (ns_maxRead ?s) (disk_live demo_img (qw_backend (?w i))) (demo_reqs ! i) (outs ! i)"
    using nbd_serve_refines [of demo_sha demo_img ?s demo_reqs ?w] by blast
  have live: "disk_live demo_img (qw_backend (?w i))" for i by (simp add: disk_live_def file_env_healthy)
  have "length demo_reqs = 2" "ns_maxRead ?s = 4" by (simp_all add: demo_reqs_def demo_nbd_def)
  then have "answers demo_img 4 True (demo_reqs ! 0) (outs ! 0)" "answers demo_img 4 True (demo_reqs ! 1) (outs ! 1)"
    using o(4) [rule_format, of 0] o(4) [rule_format, of 1] live by simp_all
  then have "outs ! 0 = reply_hdr [1, 2, 3, 4, 5, 6, 7, 8] 0 @ [0, 7, 9]" "outs ! 1 = reply_hdr [9, 2, 3, 4, 5, 6, 7, 8] nbdEPERM"
    by (simp_all add: answers_def demo_reqs_def nbd_consts in_device_def demo_img_def seg_def)
  moreover have "outs = [outs ! 0, outs ! 1]" using o(3) by (simp add: demo_reqs_def list_eq_iff_nth_eq less_Suc_eq nth_Cons')
  ultimately have "concat outs = reply_hdr [1, 2, 3, 4, 5, 6, 7, 8] 0 @ [0, 7, 9] @ reply_hdr [9, 2, 3, 4, 5, 6, 7, 8] nbdEPERM"
    by (metis append.assoc append_Nil2 concat.simps(1,2))
  then show ?thesis using o(1,2) by (simp add: demo_nbd_def)
qed

end
