(* ===== verification/Nbd_Origin.thy ===== *)
theory Nbd_Origin
  imports Nbd_Server
begin

text \<open>
  Bringing a streamed root device up and down: \<open>Start\<close>, \<open>reclaimDevice\<close> and \<open>failSetup\<close> of
  \<^verbatim>\<open>nbdstream/server_linux.go\<close>, and the device pool and \<open>OpenOrigin\<close>/\<open>Close\<close> of \<^verbatim>\<open>nbdstream/origin_linux.go\<close>.

  The kernel is the environment: results of ioctls, what sysfs shows at each poll, and whether each deadline has
  passed are lists of observations. A loop that has used up its observations is still polling (\<open>None\<close>).
\<close>

section \<open>Start\<close>

record nbd_config =
  nc_device :: string
  nc_blockSize :: int
  nc_ioTimeout :: int
  nc_fetchBudget :: int
  nc_maxRead :: int

datatype errno = EBUSY | Errno int

datatype bring_error = SysErr errno | DoItExited | SizeStuck int int

datatype nbd_error =
    NilBackend | EmptyDevice | BadSize int
  | ReclaimError | SocketpairError string | OpenError string | SetupError string bring_error

definition with_defaults :: "nbd_config \<Rightarrow> nbd_config" where
  "with_defaults c =
     c\<lparr>nc_blockSize := if nc_blockSize c \<le> 0 then 512 else nc_blockSize c,
       nc_ioTimeout := if nc_ioTimeout c \<le> 0 then DefaultIOTimeout else nc_ioTimeout c,
       nc_maxRead := if nc_maxRead c \<le> 0 then defaultMaxReadBytes else nc_maxRead c\<rparr>"

text \<open>One turn of \<open>reclaimDevice\<close>: the throwaway descriptor, whether the device is still held, and the clock.\<close>

record reclaim_poll =
  rp_fd :: "int option"
  rp_connected :: bool
  rp_late :: bool

fun reclaim_loop :: "reclaim_poll list \<Rightarrow> (nbd_error option \<times> nbd_op list) option" where
  "reclaim_loop [] = None"
| "reclaim_loop (p # ps) =
     (let ops = (case rp_fd p of Some fd \<Rightarrow> [Disconnect fd, ClearSock fd, CloseFD fd] | None \<Rightarrow> []) in
      if \<not> rp_connected p then Some (None, ops)
      else if rp_late p then Some (Some ReclaimError, ops)
      else map_option (\<lambda>(e, ops'). (e, ops @ ops')) (reclaim_loop ps))"

definition reclaimDevice :: "bool \<Rightarrow> reclaim_poll list \<Rightarrow> (nbd_error option \<times> nbd_op list) option" where
  "reclaimDevice connected ps = (if \<not> connected then Some (None, []) else reclaim_loop ps)"

text \<open>\<open>sectorsOf\<close>, with the content of the sysfs file or \<open>None\<close> when it cannot be read.\<close>

definition sectorsOf :: "string option \<Rightarrow> int" where
  "sectorsOf content =
     (case content of None \<Rightarrow> - 1 | Some b \<Rightarrow> (case atoi (trim_space b) of None \<Rightarrow> - 1 | Some n \<Rightarrow> n))"

text \<open>
  One poll of the wait for the transmission phase: what \<open>NBD_DO_IT\<close> has returned, if it has, the sysfs
  size, and whether the deadline has passed.
\<close>

record live_poll =
  lp_doit :: "errno option option"
  lp_size :: "string option"
  lp_late :: bool

fun live_wait :: "int \<Rightarrow> live_poll list \<Rightarrow> bring_error option option" where
  "live_wait want [] = None"
| "live_wait want (p # ps) =
     (case lp_doit p of
        Some r \<Rightarrow> Some (Some (case r of None \<Rightarrow> DoItExited | Some e \<Rightarrow> SysErr e))
      | None \<Rightarrow>
          if sectorsOf (lp_size p) = want then Some None
          else if lp_late p then Some (Some (SizeStuck (sectorsOf (lp_size p)) want))
          else live_wait want ps)"

text \<open>One bring-up attempt: the ioctls, the live polls, and whether the bring-up budget lasts at each check.\<close>

record bringup =
  bu_blk :: "errno option"
  bu_size :: "errno option"
  bu_flags :: "errno option"
  bu_sock :: "errno option"
  bu_sockEarly :: bool
  bu_polls :: "live_poll list"
  bu_doitEarly :: bool

definition failSetup :: "'s nbd_Server \<Rightarrow> 's nbd_Server" where
  "failSetup s = tear_down (s\<lparr>ns_closed := True\<rparr>)"

definition clear_sock :: "'s nbd_Server \<Rightarrow> 's nbd_Server" where
  "clear_sock s = s\<lparr>ns_ops := ns_ops s @ [ClearSock (ns_devFD s)]\<rparr>"

fun bring_up :: "int \<Rightarrow> bringup list \<Rightarrow> 's nbd_Server \<Rightarrow> (nbd_error option \<times> 's nbd_Server) option" where
  "bring_up want [] s = None"
| "bring_up want (a # as) s =
     (case bu_blk a of
        Some e \<Rightarrow> Some (Some (SetupError ''NBD_SET_BLKSIZE'' (SysErr e)), failSetup s)
      | None \<Rightarrow> (case bu_size a of
        Some e \<Rightarrow> Some (Some (SetupError ''NBD_SET_SIZE'' (SysErr e)), failSetup s)
      | None \<Rightarrow> (case bu_flags a of
        Some e \<Rightarrow> Some (Some (SetupError ''NBD_SET_FLAGS'' (SysErr e)), failSetup s)
      | None \<Rightarrow> (case bu_sock a of
        Some e \<Rightarrow>
          if e = EBUSY \<and> bu_sockEarly a then bring_up want as (clear_sock s)
          else Some (Some (SetupError ''NBD_SET_SOCK'' (SysErr e)), failSetup s)
      | None \<Rightarrow> (case live_wait want (bu_polls a) of
        None \<Rightarrow> None
      | Some None \<Rightarrow> Some (None, s)
      | Some (Some err) \<Rightarrow>
          let s1 = clear_sock s in
          if err = SysErr EBUSY \<and> bu_doitEarly a then bring_up want as s1
          else Some (Some (SetupError ''NBD_DO_IT'' err), failSetup s1))))))"

text \<open>What \<open>Start\<close> meets besides the bring-up attempts.\<close>

record start_env =
  se_connected :: bool
  se_reclaim :: "reclaim_poll list"
  se_sockets :: "string + int \<times> int"
  se_open :: "string + int"
  se_bringup :: "bringup list"
  se_now :: int

definition new_server :: "nbd_config \<Rightarrow> 's \<Rightarrow> int \<Rightarrow> int \<Rightarrow> rd_ev list \<Rightarrow> wr_ev list \<Rightarrow> nbd_op list \<Rightarrow> 's nbd_Server" where
  "new_server cfg backend k u evs ws ops =
     \<lparr>ns_backend = backend, ns_maxRead = nc_maxRead cfg, ns_fetchBudget = nc_fetchBudget cfg, ns_devFD = - 1,
      ns_kSock = k, ns_uSock = u, ns_stopped = False, ns_closed = False, ns_reads = 0, ns_readBytes = 0, ns_breaker = 0,
      ns_errs = 0, ns_pending = 0, ns_lastIO = 0, ns_data = [], ns_in = evs, ns_writes = ws, ns_out = [], ns_ops = ops\<rparr>"

text \<open>
  \<open>Start\<close>: an error with the operations done so far, or the live server. \<open>evs\<close> and \<open>ws\<close> are the coming reads and writes
  of the socket, which only the serve loop looks at.
\<close>

definition nbd_Start ::
  "'s option \<Rightarrow> int \<Rightarrow> nbd_config \<Rightarrow> start_env \<Rightarrow> rd_ev list \<Rightarrow> wr_ev list \<Rightarrow> (nbd_error \<times> nbd_op list + 's nbd_Server) option" where
  "nbd_Start backend devSize cfg0 env evs ws =
     (case backend of
        None \<Rightarrow> Some (Inl (NilBackend, []))
      | Some b \<Rightarrow>
          if nc_device cfg0 = [] then Some (Inl (EmptyDevice, []))
          else
            let cfg = with_defaults cfg0 in
            if devSize \<le> 0 then Some (Inl (BadSize devSize, []))
            else
              (case reclaimDevice (se_connected env) (se_reclaim env) of
                 None \<Rightarrow> None
               | Some (Some e, ops) \<Rightarrow> Some (Inl (e, ops))
               | Some (None, ops) \<Rightarrow>
                   (case se_sockets env of
                      Inl e \<Rightarrow> Some (Inl (SocketpairError e, ops))
                    | Inr (k, u) \<Rightarrow>
                        (let s = new_server cfg b k u evs ws ops in
                         case se_open env of
                           Inl e \<Rightarrow> Some (Inl (OpenError e, ns_ops (closeSockets s)))
                         | Inr fd \<Rightarrow>
                             (case bring_up (tdiv devSize 512) (se_bringup env) (s\<lparr>ns_devFD := fd\<rparr>) of
                                None \<Rightarrow> None
                              | Some (Some e, s1) \<Rightarrow> Some (Inl (e, ns_ops s1))
                              | Some (None, s1) \<Rightarrow> Some (Inr (s1\<lparr>ns_lastIO := se_now env\<rparr>)))))))"

text \<open>Whatever the kernel does, bring-up either leaves the server's descriptors as they are or tears all of them down.\<close>

definition no_close :: "nbd_op list \<Rightarrow> bool" where
  "no_close = list_all (\<lambda>op. case op of CloseFD _ \<Rightarrow> False | _ \<Rightarrow> True)"

lemma bring_up_ops:
  assumes "bring_up want as s = Some (e, s')"
  shows "\<exists>ops. no_close ops \<and> (case e of
      None \<Rightarrow> s' = s\<lparr>ns_ops := ns_ops s @ ops\<rparr>
    | Some _ \<Rightarrow> s' = failSetup (s\<lparr>ns_ops := ns_ops s @ ops\<rparr>))"
  using assms
proof (induction as arbitrary: s)
  case (Cons a as)
  have nil: ?case if "e = None \<and> s' = s \<or> e \<noteq> None \<and> s' = failSetup s"
    using that by (intro exI [of _ "[]"]) (auto simp: no_close_def)
  have one: ?case if "e \<noteq> None \<and> s' = failSetup (clear_sock s)"
    using that by (intro exI [of _ "[ClearSock (ns_devFD s)]"]) (auto simp: no_close_def clear_sock_def)
  have rec: ?case if r: "bring_up want as (clear_sock s) = Some (e, s')"
  proof -
    obtain ops where "no_close ops" "case e of
        None \<Rightarrow> s' = clear_sock s\<lparr>ns_ops := ns_ops (clear_sock s) @ ops\<rparr>
      | Some _ \<Rightarrow> s' = failSetup (clear_sock s\<lparr>ns_ops := ns_ops (clear_sock s) @ ops\<rparr>)"
      using Cons.IH [OF r] by blast
    then show ?thesis
      by (intro exI [of _ "ClearSock (ns_devFD s) # ops"]) (auto simp: no_close_def clear_sock_def split: option.splits)
  qed
  have "(e = None \<and> s' = s \<or> e \<noteq> None \<and> s' = failSetup s) \<or> (e \<noteq> None \<and> s' = failSetup (clear_sock s))
    \<or> bring_up want as (clear_sock s) = Some (e, s')"
    using Cons.prems by (auto simp: Let_def split: option.splits if_splits)
  then show ?case using nil one rec by blast
qed simp


lemma live_wait_live: "live_wait want ps = Some None \<Longrightarrow> \<exists>p \<in> set ps. sectorsOf (lp_size p) = want"
  by (induction ps) (auto split: option.splits if_splits)

lemma bring_up_live:
  "bring_up want as s = Some (None, s') \<Longrightarrow> \<exists>a \<in> set as. \<exists>p \<in> set (bu_polls a). sectorsOf (lp_size p) = want"
  by (induction as arbitrary: s) (auto simp: Let_def dest: live_wait_live split: option.splits if_splits)

text \<open>Tearing down a server with all its descriptors open.\<close>

lemma tear_down_open:
  assumes "0 \<le> ns_devFD s" "0 \<le> ns_kSock s" "0 \<le> ns_uSock s"
  shows "ns_ops (tear_down s) = ns_ops s @ [Disconnect (ns_devFD s), ClearSock (ns_devFD s),
      CloseFD (ns_kSock s), CloseFD (ns_uSock s), CloseFD (ns_devFD s)]"
  using assms by (simp add: tear_down_def closeSockets_def Let_def)

lemma nbd_Stop_twice: "nbd_Stop (nbd_Stop s) = nbd_Stop s"
  by (simp add: nbd_Stop_def tear_down_def closeSockets_def Let_def)

text \<open>
  The descriptors a list of operations closes, the polls that \<open>reclaimDevice\<close> makes, and the descriptors that \<open>Start\<close> opens when it gets past the reclaim.
\<close>

definition closes :: "nbd_op list \<Rightarrow> int list" where
  "closes = List.map_filter (\<lambda>op. case op of CloseFD fd \<Rightarrow> Some fd | _ \<Rightarrow> None)"

lemma closes_simps [simp]: "closes [] = []" "closes (Disconnect fd # ops) = closes ops" "closes (ClearSock fd # ops) = closes ops"
    "closes (CloseFD fd # ops) = fd # closes ops" "closes (xs @ ys) = closes xs @ closes ys"
  by (simp_all add: closes_def map_filter_simps List.map_filter_def)

lemma no_close_closes: "no_close ops \<Longrightarrow> closes ops = []"
proof (induction ops)
  case (Cons op ops)
  then show ?case by (cases op) (simp_all add: no_close_def)
qed simp

fun polls_made :: "reclaim_poll list \<Rightarrow> reclaim_poll list" where
  "polls_made [] = []"
| "polls_made (p # ps) = (if \<not> rp_connected p \<or> rp_late p then [p] else p # polls_made ps)"

definition reclaim_fds :: "start_env \<Rightarrow> int list" where
  "reclaim_fds env = (if se_connected env then List.map_filter rp_fd (polls_made (se_reclaim env)) else [])"

definition start_fds :: "start_env \<Rightarrow> int list" where
  "start_fds env = (case se_sockets env of Inl _ \<Rightarrow> [] | Inr (k, u) \<Rightarrow> (case se_open env of Inl _ \<Rightarrow> [k, u] | Inr fd \<Rightarrow> [k, u, fd]))"

definition reclaimed :: "start_env \<Rightarrow> bool" where
  "reclaimed env \<longleftrightarrow> se_connected env \<longrightarrow> \<not> rp_connected (last (polls_made (se_reclaim env)))"

text \<open>
  Time passes: the waits come to a poll after their deadline, and the attempts to one after the bring-up deadline.
\<close>

definition clock_runs :: "start_env \<Rightarrow> bool" where
  "clock_runs env \<longleftrightarrow> list_ex rp_late (se_reclaim env) \<and> list_all (\<lambda>a. list_ex lp_late (bu_polls a)) (se_bringup env)
     \<and> list_ex (\<lambda>a. \<not> bu_sockEarly a \<and> \<not> bu_doitEarly a) (se_bringup env)"

lemma live_wait_returns: "list_ex lp_late ps \<Longrightarrow> live_wait want ps \<noteq> None"
  by (induction ps) (auto split: option.splits)

lemma bring_up_returns:
  "list_all (\<lambda>a. list_ex lp_late (bu_polls a)) as \<Longrightarrow> list_ex (\<lambda>a. \<not> bu_sockEarly a \<and> \<not> bu_doitEarly a) as \<Longrightarrow> bring_up want as s \<noteq> None"
proof (induction as arbitrary: s)
  case (Cons a as)
  have "live_wait want (bu_polls a) \<noteq> None" using Cons.prems(1) live_wait_returns by simp
  then show ?case using Cons.IH [of "clear_sock s"] Cons.prems by (auto simp: Let_def split: option.splits)
qed simp

lemma reclaim_loop_closes:
  assumes "list_ex rp_late ps"
  shows "\<exists>e ops. reclaim_loop ps = Some (e, ops) \<and> closes ops = List.map_filter rp_fd (polls_made ps)
    \<and> (e = None \<longleftrightarrow> \<not> rp_connected (last (polls_made ps)))"
  using assms
proof (induction ps)
  case (Cons p ps)
  have ops: "closes (case rp_fd p of Some fd \<Rightarrow> [Disconnect fd, ClearSock fd, CloseFD fd] | None \<Rightarrow> []) = List.map_filter rp_fd [p]"
    by (auto simp: List.map_filter_def split: option.splits)
  show ?case
  proof (cases "\<not> rp_connected p \<or> rp_late p")
    case True
    then show ?thesis using ops by (cases "rp_connected p") (simp_all add: Let_def)
  next
    case False
    then obtain e xs where r: "reclaim_loop ps = Some (e, xs)" "closes xs = List.map_filter rp_fd (polls_made ps)"
      "e = None \<longleftrightarrow> \<not> rp_connected (last (polls_made ps))"
      using Cons by auto
    moreover have "polls_made ps \<noteq> []" using Cons.prems False by (cases ps) auto
    ultimately show ?thesis using False ops by (auto simp: Let_def List.map_filter_def)
  qed
qed simp

lemma reclaimDevice_closes:
  assumes "list_ex rp_late (se_reclaim env)"
  shows "\<exists>e ops. reclaimDevice (se_connected env) (se_reclaim env) = Some (e, ops) \<and> closes ops = reclaim_fds env \<and> (e = None \<longleftrightarrow> reclaimed env)"
  using reclaim_loop_closes [OF assms] by (auto simp: reclaimDevice_def reclaim_fds_def reclaimed_def)

text \<open>From the bring-up on.\<close>

lemma bring_up_server:
  assumes b: "bring_up want as (s0\<lparr>ns_devFD := fd\<rparr>) = Some (e, s1)" and s0: "s0 = new_server cfg b k u evs ws ops0" and fds: "0 \<le> k" "0 \<le> u" "0 \<le> fd"
  shows "\<exists>ops1. closes ops1 = [] \<and> (case e of
      None \<Rightarrow> s1 = s0\<lparr>ns_devFD := fd, ns_ops := ops0 @ ops1\<rparr>
    | Some _ \<Rightarrow> ns_ops s1 = ops0 @ ops1 @ [Disconnect fd, ClearSock fd, CloseFD k, CloseFD u, CloseFD fd])"
proof -
  let ?s = "s0\<lparr>ns_devFD := fd\<rparr>"
  obtain ops1 where o: "no_close ops1" "case e of None \<Rightarrow> s1 = ?s\<lparr>ns_ops := ns_ops ?s @ ops1\<rparr>
    | Some _ \<Rightarrow> s1 = failSetup (?s\<lparr>ns_ops := ns_ops ?s @ ops1\<rparr>)"
    using bring_up_ops [OF b] by blast
  show ?thesis
    using o no_close_closes [OF o(1)] fds tear_down_open [of "?s\<lparr>ns_ops := ops0 @ ops1, ns_closed := True\<rparr>"]
    by (intro exI [of _ ops1]) (cases e; simp add: s0 new_server_def failSetup_def)
qed

text \<open>
  C33: \<open>Start\<close> leaks no descriptor and returns. Whatever the kernel answers, once the clock has passed the deadlines of its waits \<open>Start\<close> has returned. On every error, from a
  bad argument over a device that is not released, a failed \<open>open\<close>, a refused ioctl and a device that stays at the wrong size, it has closed exactly the descriptors it opened, each once: the
  throwaway ones of the reclaim, and of the two sockets and the device those it got; and when the device was open it was disconnected and its socket cleared first. Otherwise it returns a
  live server: sysfs showed the device's size, the descriptors are open and only throwaway ones were closed. Stopping
  that server, however often, performs the same teardown exactly once. Descriptors are not negative.
\<close>

theorem nbd_Start_no_leak:
  assumes clock: "clock_runs env" and fds: "list_all (\<lambda>fd. 0 \<le> fd) (start_fds env)"
  shows "\<exists>r. nbd_Start backend devSize cfg env evs ws = Some r \<and> (case r of
      Inl (e, ops) \<Rightarrow>
        closes ops = (if backend = None \<or> nc_device cfg = [] \<or> devSize \<le> 0 then []
          else reclaim_fds env @ (if reclaimed env then start_fds env else []))
        \<and> (\<forall>k u fd. start_fds env = [k, u, fd] \<longrightarrow> backend \<noteq> None \<longrightarrow> nc_device cfg \<noteq> [] \<longrightarrow> 0 < devSize \<longrightarrow> reclaimed env \<longrightarrow>
            (\<exists>ops1. ops = ops1 @ [Disconnect fd, ClearSock fd, CloseFD k, CloseFD u, CloseFD fd]))
    | Inr s \<Rightarrow> \<exists>k u fd. start_fds env = [k, u, fd] \<and> ns_devFD s = fd \<and> ns_kSock s = k \<and> ns_uSock s = u
        \<and> closes (ns_ops s) = reclaim_fds env \<and> \<not> ns_closed s \<and> ns_pending s = 0
        \<and> (\<exists>a \<in> set (se_bringup env). \<exists>p \<in> set (bu_polls a). sectorsOf (lp_size p) = devSize div 512)
        \<and> ns_ops (nbd_Stop (nbd_Stop s)) = ns_ops s @ [Disconnect fd, ClearSock fd, CloseFD k, CloseFD u, CloseFD fd])"
proof (cases "backend = None \<or> nc_device cfg = [] \<or> devSize \<le> 0")
  case True
  then show ?thesis by (cases backend) (auto simp: nbd_Start_def Let_def)
next
  case False
  then obtain b where b: "backend = Some b" and dev: "nc_device cfg \<noteq> []" "0 < devSize" by auto
  have want: "tdiv devSize 512 = devSize div 512" using dev(2) by (simp add: tdiv_nonneg)
  obtain er ops0 where rec: "reclaimDevice (se_connected env) (se_reclaim env) = Some (er, ops0)" "closes ops0 = reclaim_fds env" "er = None \<longleftrightarrow> reclaimed env"
    using reclaimDevice_closes [of env] clock by (auto simp: clock_runs_def)
  show ?thesis
  proof (cases er)
    case (Some e)
    then show ?thesis using b dev rec by (simp add: nbd_Start_def Let_def)
  next
    case None
    note rec' = rec [unfolded None]
    show ?thesis
    proof (cases "se_sockets env")
      case (Inl e)
      then show ?thesis using b dev rec' by (simp add: nbd_Start_def Let_def start_fds_def)
    next
      case socks: (Inr ku)
      obtain k u where ku: "ku = (k, u)" by fastforce
      let ?s = "new_server (with_defaults cfg) b k u evs ws ops0"
      show ?thesis
      proof (cases "se_open env")
        case (Inl e)
        have "0 \<le> k" "0 \<le> u" using fds by (simp_all add: start_fds_def socks ku Inl)
        then show ?thesis using b dev rec' socks ku Inl by (simp add: nbd_Start_def Let_def start_fds_def closeSockets_def new_server_def)
      next
        case dv: (Inr fd)
        have sf: "start_fds env = [k, u, fd]" by (simp add: start_fds_def socks ku dv)
        have nn: "0 \<le> k" "0 \<le> u" "0 \<le> fd" using fds by (simp_all add: sf)
        obtain e s1 where bu: "bring_up (devSize div 512) (se_bringup env) (?s\<lparr>ns_devFD := fd\<rparr>) = Some (e, s1)"
          using bring_up_returns clock unfolding clock_runs_def by (metis not_None_eq surj_pair)
        obtain ops1 where o: "closes ops1 = []" "case e of None \<Rightarrow> s1 = ?s\<lparr>ns_devFD := fd, ns_ops := ops0 @ ops1\<rparr>
            | Some _ \<Rightarrow> ns_ops s1 = ops0 @ ops1 @ [Disconnect fd, ClearSock fd, CloseFD k, CloseFD u, CloseFD fd]"
          using bring_up_server [OF bu refl nn] by blast
        show ?thesis
        proof (cases e)
          case None
          let ?s2 = "?s\<lparr>ns_devFD := fd, ns_ops := ops0 @ ops1, ns_lastIO := se_now env\<rparr>"
          have r: "nbd_Start backend devSize cfg env evs ws = Some (Inr ?s2)"
            using b dev rec' socks ku dv bu o(2) None by (simp add: nbd_Start_def Let_def want)
          have "ns_ops (nbd_Stop ?s2) = ns_ops ?s2 @ [Disconnect fd, ClearSock fd, CloseFD k, CloseFD u, CloseFD fd]"
            using tear_down_open [of "?s2\<lparr>ns_stopped := True, ns_closed := True\<rparr>"] nn by (simp add: nbd_Stop_def new_server_def)
          moreover have "\<exists>a \<in> set (se_bringup env). \<exists>p \<in> set (bu_polls a). sectorsOf (lp_size p) = devSize div 512"
            using bring_up_live bu None by blast
          ultimately show ?thesis using o(1) rec'(2) sf unfolding r by (simp add: nbd_Stop_twice) (simp add: new_server_def)
        next
          case (Some x)
          then show ?thesis using b dev rec' socks ku dv bu o sf by (simp add: nbd_Start_def Let_def want)
        qed
      qed
    qed
  qed
qed

definition demo_bringup :: "errno option \<Rightarrow> live_poll list \<Rightarrow> bringup" where
  "demo_bringup sock polls = \<lparr>bu_blk = None, bu_size = None, bu_flags = None, bu_sock = sock, bu_sockEarly = True,
     bu_polls = polls, bu_doitEarly = True\<rparr>"

definition demo_start :: "string + int \<Rightarrow> bringup list \<Rightarrow> start_env" where
  "demo_start fd as = \<lparr>se_connected = True, se_reclaim = [\<lparr>rp_fd = Some 5, rp_connected = True, rp_late = False\<rparr>, \<lparr>rp_fd = Some 6, rp_connected = False, rp_late = True\<rparr>],
     se_sockets = Inr (8, 9), se_open = fd, se_bringup = as @ [\<lparr>bu_blk = Some EBUSY, bu_size = None, bu_flags = None, bu_sock = None, bu_sockEarly = False,
     bu_polls = [\<lparr>lp_doit = None, lp_size = None, lp_late = True\<rparr>], bu_doitEarly = False\<rparr>], se_now = 1\<rparr>"

definition demo_cfg :: nbd_config where
  "demo_cfg = \<lparr>nc_device = ''/dev/nbd0'', nc_blockSize = 0, nc_ioTimeout = 0, nc_fetchBudget = 0, nc_maxRead = 0\<rparr>"

text \<open>A busy first attempt, then a device of two sectors; and a device that cannot be opened.\<close>

definition demo_live :: start_env where
  "demo_live = demo_start (Inr 7) [demo_bringup (Some EBUSY) [\<lparr>lp_doit = None, lp_size = None, lp_late = True\<rparr>],
     demo_bringup None [\<lparr>lp_doit = None, lp_size = Some ''2'', lp_late = False\<rparr>, \<lparr>lp_doit = None, lp_size = None, lp_late = True\<rparr>]]"

lemma demo_start_fds: "start_fds (demo_start (Inr 7) as) = [8, 9, 7]" "start_fds (demo_start (Inl e) as) = [8, 9]" "reclaim_fds (demo_start x as) = [5, 6]"
    "reclaimed (demo_start x as)"
  by (simp_all add: demo_start_def start_fds_def reclaim_fds_def reclaimed_def List.map_filter_def)

theorem nbd_Start_no_leak_witness:
  "(\<exists>s. nbd_Start (Some ()) 1024 demo_cfg demo_live [] [] = Some (Inr s)
      \<and> closes (ns_ops s) = [5, 6] \<and> ns_ops (nbd_Stop (nbd_Stop s)) = ns_ops s @ [Disconnect 7, ClearSock 7, CloseFD 8, CloseFD 9, CloseFD 7])
   \<and> (\<exists>e ops. nbd_Start (Some ()) 1024 demo_cfg (demo_start (Inl ''ENOENT'') []) [] [] = Some (Inl (e, ops)) \<and> closes ops = [5, 6, 8, 9])"
proof
  have two: "sectorsOf (Some ''2'') = 2" by code_simp
  have ok: "clock_runs demo_live" "list_all (\<lambda>fd. 0 \<le> fd) (start_fds demo_live)" "clock_runs (demo_start (Inl ''ENOENT'') [])"
      "list_all (\<lambda>fd. 0 \<le> fd) (start_fds (demo_start (Inl ''ENOENT'') []))"
    by (simp_all add: demo_live_def demo_start_fds) (simp_all add: clock_runs_def demo_start_def demo_bringup_def)
  obtain s where s: "nbd_Start (Some ()) 1024 demo_cfg demo_live [] [] = Some (Inr s)"
    by (auto simp: nbd_Start_def demo_cfg_def demo_live_def demo_start_def demo_bringup_def reclaimDevice_def tdiv_nonneg two Let_def)
  show "\<exists>s. nbd_Start (Some ()) 1024 demo_cfg demo_live [] [] = Some (Inr s)
      \<and> closes (ns_ops s) = [5, 6] \<and> ns_ops (nbd_Stop (nbd_Stop s)) = ns_ops s @ [Disconnect 7, ClearSock 7, CloseFD 8, CloseFD 9, CloseFD 7]"
    using nbd_Start_no_leak [OF ok(1,2), of "Some ()" 1024 demo_cfg "[]" "[]"] s demo_start_fds by (auto simp: demo_live_def)
  obtain e ops where f: "nbd_Start (Some ()) 1024 demo_cfg (demo_start (Inl ''ENOENT'') []) [] [] = Some (Inl (e, ops))"
    by (auto simp: nbd_Start_def demo_cfg_def demo_start_def reclaimDevice_def Let_def)
  show "\<exists>e ops. nbd_Start (Some ()) 1024 demo_cfg (demo_start (Inl ''ENOENT'') []) [] [] = Some (Inl (e, ops)) \<and> closes ops = [5, 6, 8, 9]"
    using nbd_Start_no_leak [OF ok(3,4), of "Some ()" 1024 demo_cfg "[]" "[]"] f by (simp add: demo_start_fds demo_cfg_def)
qed


section \<open>The device pool\<close>

text \<open>
  \<open>devClaimed\<close> is a set of device names. \<open>node\<close> and \<open>held\<close> say whether \<^verbatim>\<open>/dev/nbdi\<close> exists and
  whether the kernel shows a holder of it.
\<close>

definition nbd_dev :: "nat \<Rightarrow> string" where
  "nbd_dev i = ''/dev/nbd'' @ dec i"

definition maxNBDDevices :: "environ \<Rightarrow> int" where
  "maxNBDDevices env =
     (let v = env ''PANDASTACK_NBD_MAX'' in
      if v \<noteq> [] then (case atoi v of Some n \<Rightarrow> if n > 0 then n else 64 | None \<Rightarrow> 64) else 64)"

fun alloc_scan :: "(nat \<Rightarrow> bool) \<Rightarrow> (nat \<Rightarrow> bool) \<Rightarrow> string set \<Rightarrow> nat list \<Rightarrow> (string \<times> string set) option" where
  "alloc_scan node held claimed [] = None"
| "alloc_scan node held claimed (i # is) =
     (if nbd_dev i \<in> claimed then alloc_scan node held claimed is
      else if \<not> node i then alloc_scan node held claimed is
      else if held i then alloc_scan node held claimed is
      else Some (nbd_dev i, insert (nbd_dev i) claimed))"

definition allocDevice :: "environ \<Rightarrow> (nat \<Rightarrow> bool) \<Rightarrow> (nat \<Rightarrow> bool) \<Rightarrow> string set \<Rightarrow> (string \<times> string set) option" where
  "allocDevice env node held claimed = alloc_scan node held claimed [0..<nat (maxNBDDevices env)]"

definition releaseDevice :: "string \<Rightarrow> string set \<Rightarrow> string set" where
  "releaseDevice dev claimed = (if dev = [] then claimed else claimed - {dev})"

lemma alloc_scan_spec:
  "alloc_scan node held claimed is =
     (case filter (\<lambda>i. nbd_dev i \<notin> claimed \<and> node i \<and> \<not> held i) is of
        [] \<Rightarrow> None | i # _ \<Rightarrow> Some (nbd_dev i, insert (nbd_dev i) claimed))"
  by (induction "is") auto

lemma nbd_dev_inj: "nbd_dev i = nbd_dev j \<longleftrightarrow> i = j"
  by (simp add: nbd_dev_def dec_inj)

section \<open>OpenOrigin\<close>

record DiskRef =
  df_bucket :: string
  df_object :: string
  df_size :: int
  df_chunkSize :: u32
  df_generation :: string

text \<open>
  \<open>oc_cap\<close> is \<open>Some f\<close> when the cap multiplier is positive, with \<open>f\<close> the product with the working set, which the
  source computes in floating point. \<open>oc_rate\<close> says that the egress rate is limited.
\<close>

record origin_config =
  oc_cacheRoot :: string
  oc_ioTimeout :: int
  oc_fetchBudget :: int
  oc_rate :: bool
  oc_cap :: "(int \<Rightarrow> int) option"

datatype origin_error =
    NoSidecar string | NoHeader string | SizeDrift int int
  | OriginResolver ds_rerror | NoFreeDevice | StartFailed string nbd_error

text \<open>The egress caps: hard, soft, and whether the governor wraps the source.\<close>

definition egress_caps :: "origin_config \<Rightarrow> ds_Header \<Rightarrow> int \<times> int \<times> bool" where
  "egress_caps cfg h =
     (let workingSet = i64 (ds_PresentChunks h * uint (ds_ChunkSize h));
          hard = (case oc_cap cfg of Some f \<Rightarrow> if workingSet > 0 then f workingSet else 0 | None \<Rightarrow> 0);
          soft = (case oc_cap cfg of Some f \<Rightarrow> if workingSet > 0 then tdiv (i64 (hard * 8)) 10 else 0 | None \<Rightarrow> 0)
      in (hard, soft, oc_rate cfg \<or> hard > 0))"

text \<open>
  What \<open>OpenOrigin\<close> meets: the two sidecar files, whether the shared cache could be acquired, the device cache file,
  the device nodes, the start-up and the prefetch file.
\<close>

record origin_env =
  oe_environ :: environ
  oe_ref :: "string + DiskRef"
  oe_header :: "string + ds_Header"
  oe_shared :: bool
  oe_cacheFile :: "string + byte list"
  oe_trunc :: "string option"
  oe_node :: "nat \<Rightarrow> bool"
  oe_held :: "nat \<Rightarrow> bool"
  oe_start :: start_env
  oe_in :: "rd_ev list"
  oe_writes :: "wr_ev list"

datatype chunk_src = SharedSrc | DirectSrc bool

record Origin =
  or_Device :: string
  or_server :: "ds_Resolver nbd_Server"
  or_src :: chunk_src

text \<open>Closing a source or a resolver is recorded: a resolver owns its source.\<close>

datatype origin_op = CloseSource | CloseResolver

definition origin_size :: "ds_Resolver \<Rightarrow> int" where
  "origin_size r = sint (ds_TotalSize (dr_h r))"

definition OpenOrigin ::
  "origin_config \<Rightarrow> origin_env \<Rightarrow> string set \<Rightarrow> ((origin_error + Origin) \<times> origin_op list \<times> string set) option" where
  "OpenOrigin cfg env claimed =
     (case oe_ref env of
        Inl e \<Rightarrow> Some (Inl (NoSidecar e), [], claimed)
      | Inr ref \<Rightarrow> (case oe_header env of
        Inl e \<Rightarrow> Some (Inl (NoHeader e), [], claimed)
      | Inr h \<Rightarrow>
          if df_size ref > 0 \<and> ds_TotalSize h \<noteq> word_of_int (df_size ref)
          then Some (Inl (SizeDrift (uint (ds_TotalSize h)) (df_size ref)), [], claimed)
          else
            let (hard, soft, gov) = egress_caps cfg h;
                src = (if oc_cacheRoot cfg \<noteq> [] \<and> oe_shared env then SharedSrc else DirectSrc gov)
            in case ds_NewResolver (Some h) (oe_cacheFile env) (oe_trunc env) of
                 Inl e \<Rightarrow> Some (Inl (OriginResolver e), [CloseSource], claimed)
               | Inr resolver \<Rightarrow>
                   (case allocDevice (oe_environ env) (oe_node env) (oe_held env) claimed of
                      None \<Rightarrow> Some (Inl NoFreeDevice, [CloseResolver], claimed)
                    | Some (dev, claimed1) \<Rightarrow>
                        (case nbd_Start (Some resolver) (origin_size resolver)
                                \<lparr>nc_device = dev, nc_blockSize = 0, nc_ioTimeout = oc_ioTimeout cfg,
                                 nc_fetchBudget = oc_fetchBudget cfg, nc_maxRead = 0\<rparr>
                                (oe_start env) (oe_in env) (oe_writes env) of
                           None \<Rightarrow> None
                         | Some (Inl (e, ops)) \<Rightarrow> Some (Inl (StartFailed dev e), [CloseResolver], releaseDevice dev claimed1)
                         | Some (Inr srv) \<Rightarrow>
                             Some (Inr \<lparr>or_Device = dev, or_server = srv, or_src = src\<rparr>, [], claimed1)))))"

definition origin_Close :: "Origin \<Rightarrow> string set \<Rightarrow> Origin \<times> origin_op list \<times> string set" where
  "origin_Close orig claimed =
     (orig\<lparr>or_server := nbd_Stop (or_server orig)\<rparr>, [CloseResolver], releaseDevice (or_Device orig) claimed)"


text \<open>A resolver opened on a device cache left by the same image, or on a fresh one, meets the invariant.\<close>

lemma ds_NewResolver_good:
  assumes "ds_NewResolver (Some h) (Inr f) trunc = Inr r" and d: "ds_describes sha h img"
    and sp: "sparse_ok (ds_ChunkSize h) (ds_TotalSize h) (ds_present h) (truncate_to f (length img))"
    and small: "int (length img) + 2 ^ 32 < 2 ^ 63"
  shows "disk_good sha img r"
proof -
  note t = ds_describes_facts [OF d]
  have sz: "nat (sint (ds_TotalSize h)) = length img" using t(4) by simp
  have r: "dr_h r = h" "dr_fl r = flight_init (nat (ds_NumChunks h))" "st_file (dr_store r) = truncate_to f (length img)"
    using assms(1) sz by (auto split: if_splits option.splits simp: ds_NewResolver_def)
  have "int (length (fl_done (flight_init (nat (ds_NumChunks h)) :: ds_rerror flight))) = num_chunks (ds_ChunkSize h) (ds_TotalSize h)"
    using num_chunks_nonneg [OF t(2)] by (simp add: flight_init_def ds_NumChunks_def)
  moreover have "\<not> fl_done (flight_init (nat (ds_NumChunks h)) :: ds_rerror flight) ! nat i"
    if "valid_chunk (ds_ChunkSize h) (ds_TotalSize h) i" for i
    using that by (simp add: flight_init_def ds_NumChunks_def valid_chunk_def nat_less_eq_zless)
  ultimately have "store_inv (ds_ChunkSize h) (ds_TotalSize h) (ds_present h) img (truncate_to f (length img))
      (fl_done (flight_init (nat (ds_NumChunks h)) :: ds_rerror flight))"
    using sp unfolding store_inv_def by blast
  then show ?thesis using r d small by (simp add: disk_good_def ds_inv_def flight_init_def)
qed

lemma allocDevice_Some:
  assumes "allocDevice env node held claimed = Some (dev, claimed')"
  shows "\<exists>i < nat (maxNBDDevices env). dev = nbd_dev i \<and> nbd_dev i \<notin> claimed \<and> node i \<and> \<not> held i
    \<and> (\<forall>j < i. nbd_dev j \<in> claimed \<or> \<not> node j \<or> held j) \<and> claimed' = insert dev claimed"
proof -
  let ?P = "\<lambda>i. nbd_dev i \<notin> claimed \<and> node i \<and> \<not> held i" and ?n = "nat (maxNBDDevices env)"
  obtain i xs where f: "filter ?P [0..<?n] = i # xs" "dev = nbd_dev i" "claimed' = insert dev claimed"
    using assms by (auto simp: allocDevice_def alloc_scan_spec split: list.splits)
  obtain us vs where uv: "[0..<?n] = us @ i # vs" "\<forall>u \<in> set us. \<not> ?P u" "?P i"
    using filter_eq_ConsD [OF f(1)] by blast
  have "length us < ?n" using arg_cong [OF uv(1), of length] by simp
  moreover have "us = [0..<length us]" "i = length us"
    using uv(1) by (metis append_eq_conv_conj le_add1 length_append length_upt minus_nat.diff_0 take_upt add_0)
      (metis uv(1) \<open>length us < ?n\<close> nth_append_length nth_upt add_0)
  ultimately show ?thesis using uv f by (metis atLeast0LessThan lessThan_iff set_upt)
qed

lemma nbd_Start_backend:
  assumes "nbd_Start (Some b) devSize cfg env evs ws = Some (Inr s)"
  shows "ns_backend s = b"
proof -
  obtain k u ops fd s1 where "bring_up (tdiv devSize 512) (se_bringup env)
      ((new_server (with_defaults cfg) b k u evs ws ops)\<lparr>ns_devFD := fd\<rparr>) = Some (None, s1)" "s = s1\<lparr>ns_lastIO := se_now env\<rparr>"
    using assms by (auto simp: nbd_Start_def Let_def split: if_splits option.splits prod.splits sum.splits)
  then show ?thesis using bring_up_ops by (fastforce simp: new_server_def)
qed

text \<open>
  \<open>OpenOrigin\<close> claims the first device that exists, is not claimed and has no holder; on every error it
  leaves the pool as it was, and \<open>Close\<close> gives the device back. When the header describes the image and the
  device cache holds nothing in the chunks it elides, the server it starts is one over that image, so it
  answers the kernel as specified.
\<close>

lemma OpenOrigin_spec:
  assumes "OpenOrigin cfg env claimed = Some (res, ops, claimed')"
  shows "case res of
      Inl e \<Rightarrow> claimed' = claimed
    | Inr og \<Rightarrow>
        (\<exists>i < nat (maxNBDDevices (oe_environ env)). or_Device og = nbd_dev i \<and> nbd_dev i \<notin> claimed
           \<and> oe_node env i \<and> \<not> oe_held env i \<and> (\<forall>j < i. nbd_dev j \<in> claimed \<or> \<not> oe_node env j \<or> oe_held env j))
        \<and> claimed' = insert (or_Device og) claimed \<and> snd (snd (origin_Close og claimed')) = claimed
        \<and> (\<forall>sha img h f. oe_header env = Inr h \<and> oe_cacheFile env = Inr f \<and> ds_describes sha h img
             \<and> sparse_ok (ds_ChunkSize h) (ds_TotalSize h) (ds_present h) (truncate_to f (length img))
             \<and> int (length img) + 2 ^ 32 < 2 ^ 63 \<longrightarrow> disk_good sha img (ns_backend (or_server og)))"
proof (cases res)
  case (Inl e)
  have "releaseDevice dev (insert dev claimed) = claimed" if "dev \<notin> claimed" "dev \<noteq> []" for dev
    using that by (simp add: releaseDevice_def)
  then have rel: "releaseDevice dev cl = claimed"
    if "allocDevice (oe_environ env) (oe_node env) (oe_held env) claimed = Some (dev, cl)" for dev cl
    using allocDevice_Some [OF that] by (auto simp: nbd_dev_def)
  show ?thesis using assms Inl rel
    by (auto simp: OpenOrigin_def Let_def split: sum.splits if_splits option.splits prod.splits)
next
  case (Inr og)
  obtain h r dev cl srv where o: "oe_header env = Inr h" "ds_NewResolver (Some h) (oe_cacheFile env) (oe_trunc env) = Inr r"
      "allocDevice (oe_environ env) (oe_node env) (oe_held env) claimed = Some (dev, cl)"
      "nbd_Start (Some r) (origin_size r) \<lparr>nc_device = dev, nc_blockSize = 0, nc_ioTimeout = oc_ioTimeout cfg,
         nc_fetchBudget = oc_fetchBudget cfg, nc_maxRead = 0\<rparr> (oe_start env) (oe_in env) (oe_writes env) = Some (Inr srv)"
      "or_Device og = dev" "or_server og = srv" "claimed' = cl"
    using assms Inr by (auto simp: OpenOrigin_def Let_def split: sum.splits if_splits option.splits prod.splits)
  have b: "ns_backend srv = r" using nbd_Start_backend [OF o(4)] .
  have "disk_good sha img (ns_backend srv)"
    if "oe_cacheFile env = Inr f" "ds_describes sha h img" "int (length img) + 2 ^ 32 < 2 ^ 63"
      "sparse_ok (ds_ChunkSize h) (ds_TotalSize h) (ds_present h) (truncate_to f (length img))" for sha img f
    using ds_NewResolver_good [of h f _ r sha img] o(2) that unfolding b by simp
  then show ?thesis
    using Inr o allocDevice_Some [OF o(3)] by (auto simp: origin_Close_def releaseDevice_def nbd_dev_def)
qed


text \<open>Device 0 is held by another process and device 1 is claimed: the demo disk comes up on device 2.\<close>

definition demo_origin_env :: origin_env where
  "demo_origin_env = \<lparr>oe_environ = (\<lambda>_. ''3''), oe_ref = Inr \<lparr>df_bucket = ''b'', df_object = ''o'', df_size = 5, df_chunkSize = 2, df_generation = []\<rparr>,
     oe_header = Inr ds_demo, oe_shared = False, oe_cacheFile = Inr [], oe_trunc = None, oe_node = (\<lambda>_. True), oe_held = (\<lambda>i. i = 0),
     oe_start = demo_start (Inr 7) [demo_bringup None [\<lparr>lp_doit = None, lp_size = Some ''0'', lp_late = False\<rparr>]], oe_in = [], oe_writes = []\<rparr>"

definition demo_origin_config :: origin_config where
  "demo_origin_config = \<lparr>oc_cacheRoot = [], oc_ioTimeout = 0, oc_fetchBudget = 0, oc_rate = False, oc_cap = Some (\<lambda>w. 2 * w)\<rparr>"

lemma OpenOrigin_spec_witness:
  "\<exists>og. OpenOrigin demo_origin_config demo_origin_env {nbd_dev 1} = Some (Inr og, [], {nbd_dev 1, nbd_dev 2})
    \<and> disk_good demo_sha demo_img (ns_backend (or_server og)) \<and> snd (snd (origin_Close og {nbd_dev 1, nbd_dev 2})) = {nbd_dev 1}"
proof -
  have three: "atoi ''3'' = Some 3" and zero: "sectorsOf (Some ''0'') = 0" by code_simp+
  have al: "allocDevice (\<lambda>_. ''3'') (\<lambda>_. True) (\<lambda>i. i = 0) {nbd_dev 1} = Some (nbd_dev 2, {nbd_dev 1, nbd_dev 2})"
    by (simp add: allocDevice_def maxNBDDevices_def three nbd_dev_inj numeral_3_eq_3 upt_rec insert_commute numeral_2_eq_2)
  obtain r where r: "ds_NewResolver (Some ds_demo) (Inr []) None = Inr r" "dr_h r = ds_demo"
    by (auto simp: ds_NewResolver_def ds_demo_def)
  then have "origin_size r = 5" by (simp add: origin_size_def ds_demo_def)
  moreover have "ds_TotalSize ds_demo = 5" by (simp add: ds_demo_def)
  ultimately obtain og where og: "OpenOrigin demo_origin_config demo_origin_env {nbd_dev 1} = Some (Inr og, [], {nbd_dev 1, nbd_dev 2})"
    using al r zero
    by (auto simp: OpenOrigin_def demo_origin_env_def demo_origin_config_def nbd_Start_def demo_start_def demo_bringup_def
        reclaimDevice_def tdiv_nonneg nbd_dev_def egress_caps_def Let_def)
  have sp: "sparse_ok (ds_ChunkSize ds_demo) (ds_TotalSize ds_demo) (ds_present ds_demo) (truncate_to [] (length demo_img))"
    using sparse_ok_zeros ds_describes_facts(2,3) [OF ds_demo_describes] by (metis truncate_to_Nil)
  have facts: "oe_header demo_origin_env = Inr ds_demo" "oe_cacheFile demo_origin_env = Inr []"
      "int (length demo_img) + 2 ^ 32 < 2 ^ 63"
    by (simp_all add: demo_origin_env_def demo_img_def)
  note spec = OpenOrigin_spec [OF og, unfolded sum.case]
  have "disk_good demo_sha demo_img (ns_backend (or_server og))" using spec sp ds_demo_describes facts by blast
  moreover have "snd (snd (origin_Close og {nbd_dev 1, nbd_dev 2})) = {nbd_dev 1}" using spec by blast
  ultimately show ?thesis using og by blast
qed

end
