(* ===== verification/Go_Float.thy ===== *)
theory Go_Float
  imports Complex_Main Go_Env Crash_Program
begin

text \<open>
  Floating point. A double is the rational it denotes. Every arithmetic operation of the sources is followed by
  \<open>fl\<close>, the rounding to the nearest double, which is an argument of the definitions: results hold for every
  rounding unless a hypothesis says otherwise. The sources convert only values far inside the
  range of a double, so infinities and NaN do not arise. \<open>strconv.ParseFloat\<close> is an argument too.
\<close>

text \<open>Conversion of a double to an integer truncates towards zero.\<close>

definition trunc :: "rat \<Rightarrow> int" where
  "trunc x = (if x < 0 then \<lceil>x\<rceil> else \<lfloor>x\<rfloor>)"

lemma trunc_of_int [simp]: "trunc (of_int n) = n"
  by (simp add: trunc_def)

text \<open>\<open>strconv.ParseInt(s, 10, 64)\<close> with its error ignored: 0 on bad syntax, the nearest bound when out of range.\<close>

definition parse_int64 :: "string \<Rightarrow> int" where
  "parse_int64 s =
     (let (neg, ds) = (case s of [] \<Rightarrow> (False, [])
                       | c # cs \<Rightarrow> if c = CHR ''-'' then (True, cs)
                                   else if c = CHR ''+'' then (False, cs) else (False, s)) in
      if ds = [] then 0
      else case digits_val 0 ds of
        None \<Rightarrow> 0
      | Some v \<Rightarrow> if neg then max (- v) (- (2 ^ 63)) else min v (2 ^ 63 - 1))"

end
