(* ===== verification/Scheduler.thy ===== *)
theory Scheduler
  imports Go_Float "HOL-Library.Multiset"
begin

text \<open>
  The placement scheduler of the control plane (\<^verbatim>\<open>src/api/internal/scheduler/scheduler.go\<close>): the cached
  agent list, in-flight reservations, scoring, \<open>Pick\<close>, and the lease cache.

  \<^item> The database is the environment: each query's outcome is an argument. Times and durations are nanoseconds, and
    each reading of the clock is an argument.
  \<^item> Scores are IEEE doubles. Every floating-point operation is followed by \<open>fl\<close>, the rounding to a
    double, which stays a parameter: the results hold for any rounding.
  \<^item> \<open>sort.Slice\<close> is not stable; its result is a parameter \<open>srt\<close>, of which \<open>sort_slice\<close> says what the library
    documents.
\<close>

section \<open>Data\<close>

definition streamBoost :: rat where "streamBoost = 5"
definition reservationTTL :: int where "reservationTTL = 15 * Second"
definition defaultReservedCPU :: int where "defaultReservedCPU = 8"
definition volumeOversubFactor :: rat where "volumeOversubFactor = 3"
definition volumeFreeReserveBytes :: int where "volumeFreeReserveBytes = 20 * 2 ^ 30"
definition PoolStateful :: string where "PoolStateful = ''stateful''"
definition PoolEphemeral :: string where "PoolEphemeral = ''ephemeral''"

record Capacity =
  CPUTotal :: int
  CPUUsed :: int
  MemoryMB :: int
  MemoryUsed :: int
  Sandboxes :: int
  LoadAverage :: rat
  StreamRestoreEnabled :: bool
  VolumeProvisionedBytes :: int
  VolumesFSSizeBytes :: int
  VolumesFSFreeBytes :: int
  cap_Pool :: string

record Agent =
  ag_ID :: string
  ag_Endpoint :: string
  ag_Region :: string
  ag_Zone :: string
  ag_Version :: string
  ag_Status :: string
  ag_Capacity :: Capacity
  ag_LastHeartbeat :: int

record Request =
  req_CPU :: int
  req_MemoryMB :: int
  req_Region :: string
  req_DiskBytes :: int
  req_RequirePool :: string

record reservation =
  rv_cpu :: int
  rv_memMB :: int
  rv_disk :: int
  rv_at :: int

text \<open>A nil cache is \<open>None\<close>. A missing key of \<open>reservations\<close> reads as the empty slice.\<close>

record scheduler =
  sc_cache :: "Agent list option"
  sc_cachedAt :: int
  sc_cacheTTL :: int
  sc_reservations :: "string \<Rightarrow> reservation list"
  sc_leases :: "string \<rightharpoonup> Agent \<times> int"
  sc_leaseTTL :: int

datatype sched_error = ListError string | NoAgents | EmptySandboxID | LeaseError string

definition sched_New :: "int \<Rightarrow> scheduler" where
  "sched_New cacheTTL = \<lparr>sc_cache = None, sc_cachedAt = - (2 ^ 62), sc_cacheTTL = cacheTTL, sc_reservations = (\<lambda>_. []),
     sc_leases = Map.empty, sc_leaseTTL = 300 * Second\<rparr>"

definition agentPool :: "Agent \<Rightarrow> string" where
  "agentPool a = (let p = trim_space (cap_Pool (ag_Capacity a)) in if p \<noteq> [] then p else PoolStateful)"

definition volumeHeadroomBytes :: "(rat \<Rightarrow> rat) \<Rightarrow> Capacity \<Rightarrow> int option" where
  "volumeHeadroomBytes fl c =
     (if VolumesFSSizeBytes c \<le> 0 then None
      else
        let budget = i64 (i64 (trunc (fl (volumeOversubFactor * fl (of_int (VolumesFSSizeBytes c))))) - VolumeProvisionedBytes c);
            reserve = i64 (VolumesFSFreeBytes c - volumeFreeReserveBytes)
        in if reserve < budget then Some reserve else Some budget)"

section \<open>Reservations\<close>

definition pruneReservationsLocked :: "int \<Rightarrow> scheduler \<Rightarrow> scheduler" where
  "pruneReservationsLocked now s =
     s\<lparr>sc_reservations := (\<lambda>id. filter (\<lambda>r. now - rv_at r < reservationTTL) (sc_reservations s id))\<rparr>"

fun sum_reserved :: "reservation list \<Rightarrow> int \<times> int \<times> int \<Rightarrow> int \<times> int \<times> int" where
  "sum_reserved [] acc = acc"
| "sum_reserved (r # rs) (cpu, mem, disk) =
     sum_reserved rs (i64 (cpu + rv_cpu r), i64 (mem + rv_memMB r), i64 (disk + rv_disk r))"

definition reservedLocked :: "scheduler \<Rightarrow> string \<Rightarrow> int \<times> int \<times> int" where
  "reservedLocked s agentID = sum_reserved (sc_reservations s agentID) (0, 0, 0)"

definition reserveLocked :: "string \<Rightarrow> Request \<Rightarrow> int \<Rightarrow> scheduler \<Rightarrow> scheduler" where
  "reserveLocked agentID req now s =
     (let cpu = (if req_CPU req \<le> 0 then defaultReservedCPU else req_CPU req) in
      s\<lparr>sc_reservations := (sc_reservations s)(agentID := sc_reservations s agentID @
          [\<lparr>rv_cpu = cpu, rv_memMB = req_MemoryMB req, rv_disk = req_DiskBytes req, rv_at = now\<rparr>])\<rparr>)"

section \<open>List\<close>

text \<open>\<open>query\<close> is the outcome of the query and of scanning its rows; a query with no rows leaves a nil slice.\<close>

definition sched_List :: "string + Agent list \<Rightarrow> int \<Rightarrow> scheduler \<Rightarrow> (sched_error + Agent list) \<times> scheduler" where
  "sched_List query now s =
     (case (if sc_cacheTTL s > 0 \<and> now - sc_cachedAt s < sc_cacheTTL s then sc_cache s else None) of
        Some agents \<Rightarrow> (Inr agents, s)
      | None \<Rightarrow>
          (case query of
             Inl e \<Rightarrow> (Inl (ListError e), s)
           | Inr out \<Rightarrow>
               if sc_cacheTTL s > 0
               then (Inr out, s\<lparr>sc_cache := (if out = [] then None else Some out), sc_cachedAt := now\<rparr>)
               else (Inr out, s)))"

section \<open>Pick\<close>

text \<open>\<open>over\<close> is the CPU overcommit factor when CPU admission is enabled.\<close>

definition wantPool :: "Request \<Rightarrow> string" where
  "wantPool req = (if req_DiskBytes req > 0 then PoolStateful else req_RequirePool req)"

text \<open>The body of the candidate loop: \<open>None\<close> is \<open>continue\<close>, \<open>Some score\<close> appends the agent.\<close>

definition score_agent :: "(rat \<Rightarrow> rat) \<Rightarrow> rat option \<Rightarrow> Request \<Rightarrow> scheduler \<Rightarrow> Agent \<Rightarrow> rat option" where
  "score_agent fl over req s a =
     (let c = ag_Capacity a in
      if ag_Status a \<noteq> ''active'' then None
      else if req_Region req \<noteq> [] \<and> ag_Region a \<noteq> [] \<and> req_Region req \<noteq> ag_Region a then None
      else if wantPool req \<noteq> [] \<and> agentPool a \<noteq> wantPool req then None
      else
        let (resCPU, resMem, resDisk) = reservedLocked s (ag_ID a);
            freeCPU = i64 (i64 (CPUTotal c - CPUUsed c) - resCPU);
            freeMem = i64 (i64 (MemoryMB c - MemoryUsed c) - resMem)
        in
        if (case over of
              None \<Rightarrow> False
            | Some f \<Rightarrow>
                let schedulableCPU = i64 (i64 (trunc (fl (fl (of_int (CPUTotal c)) * f)) - CPUUsed c) - resCPU)
                in req_CPU req > 0 \<and> schedulableCPU < req_CPU req) then None
        else if req_MemoryMB req > 0 \<and> freeMem < req_MemoryMB req then None
        else if req_DiskBytes req > 0 then
          (let cpuTerm = fl (fl (of_int freeCPU) * fl (1 / 100)) in
           case volumeHeadroomBytes fl c of
             None \<Rightarrow> Some (fl (0 + cpuTerm))
           | Some hr0 \<Rightarrow>
               (let hr = i64 (hr0 - resDisk) in
                if hr < req_DiskBytes req then None
                else Some (fl (fl (fl (of_int hr) / 2 ^ 30) + cpuTerm))))
        else
          (let base = fl (fl (fl (of_int freeCPU) * fl (3 / 5)) + fl (fl (fl (of_int freeMem) / 1024) * fl (3 / 10))) in
           Some (if StreamRestoreEnabled c then fl (base + streamBoost) else base)))"

fun candidates :: "(Agent \<Rightarrow> rat option) \<Rightarrow> Agent list \<Rightarrow> (Agent \<times> rat) list" where
  "candidates score [] = []"
| "candidates score (a # as) =
     (case score a of None \<Rightarrow> candidates score as | Some x \<Rightarrow> (a, x) # candidates score as)"

definition sched_Pick ::
  "((Agent \<times> rat) list \<Rightarrow> (Agent \<times> rat) list) \<Rightarrow> (rat \<Rightarrow> rat) \<Rightarrow> rat option \<Rightarrow> string + Agent list \<Rightarrow> int \<Rightarrow> int \<Rightarrow> Request \<Rightarrow> scheduler
    \<Rightarrow> (sched_error + Agent) \<times> scheduler" where
  "sched_Pick srt fl over query listNow now req s0 =
     (case sched_List query listNow s0 of
        (Inl e, s1) \<Rightarrow> (Inl e, s1)
      | (Inr agents, s1) \<Rightarrow>
          (let s = pruneReservationsLocked now s1;
               cs = candidates (score_agent fl over req s) agents
           in case srt cs of
                [] \<Rightarrow> (Inl NoAgents, s)
              | (a, _) # _ \<Rightarrow> (Inr a, reserveLocked (ag_ID a) req now s)))"

section \<open>Leases\<close>

definition rememberLeaseWithTTL :: "string \<Rightarrow> Agent \<Rightarrow> int \<Rightarrow> int \<Rightarrow> scheduler \<Rightarrow> scheduler" where
  "rememberLeaseWithTTL sandboxID a ttl now s =
     (if sandboxID = [] then s else s\<lparr>sc_leases := (sc_leases s)(sandboxID \<mapsto> (a, now + ttl))\<rparr>)"

definition RememberLease :: "string \<Rightarrow> Agent \<Rightarrow> int \<Rightarrow> scheduler \<Rightarrow> scheduler" where
  "RememberLease sandboxID a now s = rememberLeaseWithTTL sandboxID a (sc_leaseTTL s) now s"

definition RememberLeasePersistent :: "string \<Rightarrow> Agent \<Rightarrow> int \<Rightarrow> scheduler \<Rightarrow> scheduler" where
  "RememberLeasePersistent sandboxID a now s = rememberLeaseWithTTL sandboxID a (3600 * Second) now s"

definition ForgetLease :: "string \<Rightarrow> scheduler \<Rightarrow> scheduler" where
  "ForgetLease sandboxID s = (if sandboxID = [] then s else s\<lparr>sc_leases := (sc_leases s)(sandboxID := None)\<rparr>)"

text \<open>\<open>row\<close> is the outcome of the database query, \<open>Inr None\<close> when there is no live lease.\<close>

definition LookupLease :: "string + Agent option \<Rightarrow> int \<Rightarrow> string \<Rightarrow> scheduler \<Rightarrow> sched_error + Agent option" where
  "LookupLease row now sandboxID s =
     (if sandboxID = [] then Inl EmptySandboxID
      else case sc_leases s sandboxID of
        Some (a, expiresAt) \<Rightarrow>
          if now < expiresAt then Inr (Some a) else (case row of Inl e \<Rightarrow> Inl (LeaseError e) | Inr r \<Rightarrow> Inr r)
      | None \<Rightarrow> (case row of Inl e \<Rightarrow> Inl (LeaseError e) | Inr r \<Rightarrow> Inr r))"

lemma LookupLease_local:
  assumes "sid \<noteq> []"
  shows "LookupLease row now sid (RememberLease sid a t s)
      = (if now < t + sc_leaseTTL s then Inr (Some a) else case row of Inl e \<Rightarrow> Inl (LeaseError e) | Inr r \<Rightarrow> Inr r)"
    and "other \<noteq> sid \<Longrightarrow> LookupLease row now other (RememberLease sid a t s) = LookupLease row now other s"
    and "LookupLease row now sid (ForgetLease sid s) = (case row of Inl e \<Rightarrow> Inl (LeaseError e) | Inr r \<Rightarrow> Inr r)"
  using assms by (simp_all add: LookupLease_def RememberLease_def rememberLeaseWithTTL_def ForgetLease_def)


section \<open>Correctness of Pick\<close>

text \<open>What \<open>sort.Slice\<close> promises for the scheduler's comparison: a permutation, highest score first.\<close>

definition sort_slice :: "((Agent \<times> rat) list \<Rightarrow> (Agent \<times> rat) list) \<Rightarrow> bool" where
  "sort_slice srt \<longleftrightarrow> (\<forall>cs. mset (srt cs) = mset cs \<and> sorted_wrt (\<lambda>x y. snd x \<ge> snd y) (srt cs))"

lemma set_candidates: "(a, x) \<in> set (candidates score as) \<longleftrightarrow> a \<in> set as \<and> score a = Some x"
  by (induction as) (auto split: option.splits)

lemma candidates_Nil: "candidates score as = [] \<longleftrightarrow> (\<forall>a \<in> set as. score a = None)"
  by (induction as) (auto split: option.splits)

lemma sort_slice_hd:
  assumes "sort_slice srt" and "srt cs = (a, x) # rest"
  shows "(a, x) \<in> set cs" and "(b, y) \<in> set cs \<Longrightarrow> y \<le> x"
proof -
  have m: "mset (srt cs) = mset cs" and s: "sorted_wrt (\<lambda>x y. snd x \<ge> snd y) (srt cs)"
    using assms(1) by (simp_all add: sort_slice_def)
  have set: "set (srt cs) = set cs" using m by (metis set_mset_mset)
  show "(a, x) \<in> set cs" using set assms(2) by auto
  show "(b, y) \<in> set cs \<Longrightarrow> y \<le> x" using set s assms(2) by fastforce
qed

lemma sort_slice_Nil: "sort_slice srt \<Longrightarrow> srt cs = [] \<longleftrightarrow> cs = []"
  by (metis mset_zero_iff sort_slice_def)

text \<open>
  \<open>Pick\<close> returns one of the listed agents that passed every filter, and no agent that passed has a
  higher score; it answers \<open>ErrNoAgents\<close> exactly when none passes. A volume only ever lands in the
  stateful pool. The placement is reserved on the chosen agent, and the other agents only lose expired reservations.
\<close>

lemma sched_Pick_spec:
  assumes "sort_slice srt" and "sched_List query listNow s0 = (Inr agents, s1)"
  shows "let s = pruneReservationsLocked now s1 in
    case sched_Pick srt fl over query listNow now req s0 of
      (Inr a, s') \<Rightarrow> a \<in> set agents
        \<and> (\<exists>x. score_agent fl over req s a = Some x
             \<and> list_all (\<lambda>b. case score_agent fl over req s b of Some y \<Rightarrow> y \<le> x | None \<Rightarrow> True) agents)
        \<and> ag_Status a = ''active'' \<and> (req_DiskBytes req > 0 \<longrightarrow> agentPool a = PoolStateful)
        \<and> sc_reservations s' (ag_ID a) = filter (\<lambda>r. now - rv_at r < reservationTTL) (sc_reservations s1 (ag_ID a))
            @ [\<lparr>rv_cpu = (if req_CPU req \<le> 0 then 8 else req_CPU req), rv_memMB = req_MemoryMB req,
                rv_disk = req_DiskBytes req, rv_at = now\<rparr>]
        \<and> (\<forall>i. i \<noteq> ag_ID a \<longrightarrow> sc_reservations s' i = filter (\<lambda>r. now - rv_at r < reservationTTL) (sc_reservations s1 i))
    | (Inl e, s') \<Rightarrow> e = NoAgents \<and> list_all (\<lambda>b. score_agent fl over req s b = None) agents"
proof -
  define s where "s = pruneReservationsLocked now s1"
  let ?cs = "candidates (score_agent fl over req s) agents"
  show ?thesis
  proof (cases "srt ?cs")
    case Nil
    then have "?cs = []" using sort_slice_Nil [OF assms(1)] by blast
    then show ?thesis
      using assms(2) Nil by (auto simp: sched_Pick_def Let_def s_def list_all_iff candidates_Nil)
  next
    case (Cons ax rest)
    obtain a x where ax: "ax = (a, x)" by fastforce
    have a: "a \<in> set agents" "score_agent fl over req s a = Some x"
      using sort_slice_hd(1) [OF assms(1) Cons [unfolded ax]] by (simp_all add: set_candidates)
    have best: "list_all (\<lambda>b. case score_agent fl over req s b of Some y \<Rightarrow> y \<le> x | None \<Rightarrow> True) agents"
      using sort_slice_hd(2) [OF assms(1) Cons [unfolded ax]] by (auto simp: list_all_iff set_candidates split: option.splits)
    have act: "ag_Status a = ''active''" "req_DiskBytes req > 0 \<longrightarrow> agentPool a = PoolStateful"
      using a(2) by (auto simp: score_agent_def Let_def wantPool_def PoolStateful_def split: if_splits)
    have p: "sched_Pick srt fl over query listNow now req s0 = (Inr a, reserveLocked (ag_ID a) req now s)"
      using assms(2) Cons ax by (simp add: sched_Pick_def Let_def s_def)
    show ?thesis
      using a best act unfolding p
      by (auto simp: Let_def s_def [symmetric]) (auto simp: s_def pruneReservationsLocked_def reserveLocked_def defaultReservedCPU_def Let_def)
  qed
qed


section \<open>Bursts\<close>

definition mem_sum :: "reservation list \<Rightarrow> int" where
  "mem_sum rs = sum_list (map rv_memMB rs)"

lemma mem_sum_nonneg: "\<forall>r \<in> set rs. 0 \<le> rv_memMB r \<Longrightarrow> 0 \<le> mem_sum rs"
  by (induction rs) (auto simp: mem_sum_def)

text \<open>Without overflow the memory component of the total is the sum.\<close>

lemma sum_reserved_mem:
  assumes "\<forall>r \<in> set rs. 0 \<le> rv_memMB r" and "0 \<le> mem" and "mem + mem_sum rs < 2 ^ 63"
  shows "fst (snd (sum_reserved rs (cpu, mem, disk))) = mem + mem_sum rs"
  using assms
proof (induction rs arbitrary: cpu mem disk)
  case Nil
  then show ?case by (simp add: mem_sum_def)
next
  case (Cons r rs)
  have "0 \<le> mem_sum rs" using Cons.prems(1) by (intro mem_sum_nonneg) simp
  then have "i64 (mem + rv_memMB r) = mem + rv_memMB r"
    using Cons.prems by (intro i64_id) (simp_all add: mem_sum_def)
  then show ?case
    using Cons.IH [of "mem + rv_memMB r"] Cons.prems by (simp add: mem_sum_def algebra_simps)
qed

definition agents_ok :: "Agent list \<Rightarrow> bool" where
  "agents_ok agents \<longleftrightarrow> distinct (map ag_ID agents)
     \<and> list_all (\<lambda>a. 0 \<le> MemoryUsed (ag_Capacity a) \<and> MemoryUsed (ag_Capacity a) \<le> MemoryMB (ag_Capacity a)
                      \<and> MemoryMB (ag_Capacity a) < 2 ^ 63) agents"

definition free_mem :: "Agent \<Rightarrow> int" where
  "free_mem a = MemoryMB (ag_Capacity a) - MemoryUsed (ag_Capacity a)"

text \<open>The outstanding reservations of every listed agent fit in its free memory.\<close>

definition promises_ok :: "Agent list \<Rightarrow> scheduler \<Rightarrow> bool" where
  "promises_ok agents s \<longleftrightarrow> (\<forall>i. \<forall>r \<in> set (sc_reservations s i). 0 \<le> rv_memMB r)
     \<and> (\<forall>a \<in> set agents. mem_sum (sc_reservations s (ag_ID a)) \<le> free_mem a)"

lemma score_agent_fits:
  assumes ok: "agents_ok agents" "promises_ok agents s" and a: "a \<in> set agents" and req: "0 \<le> req_MemoryMB req"
    and sc: "score_agent fl over req s a = Some x"
  shows "mem_sum (sc_reservations s (ag_ID a)) + req_MemoryMB req \<le> free_mem a"
proof -
  let ?c = "ag_Capacity a" and ?rs = "sc_reservations s (ag_ID a)"
  have c: "0 \<le> MemoryUsed ?c" "MemoryUsed ?c \<le> MemoryMB ?c" "MemoryMB ?c < 2 ^ 63"
    using ok(1) a by (auto simp: agents_ok_def list_all_iff)
  have r: "\<forall>r \<in> set ?rs. 0 \<le> rv_memMB r" "mem_sum ?rs \<le> free_mem a" using ok(2) a by (auto simp: promises_ok_def)
  have nn: "0 \<le> mem_sum ?rs" using r(1) by (rule mem_sum_nonneg)
  have m: "fst (snd (reservedLocked s (ag_ID a))) = mem_sum ?rs"
    using sum_reserved_mem [of ?rs 0 0 0] r c by (simp add: reservedLocked_def free_mem_def)
  have w: "i64 (MemoryMB ?c - MemoryUsed ?c) = free_mem a" "i64 (free_mem a - mem_sum ?rs) = free_mem a - mem_sum ?rs"
    using c r(2) nn by (auto intro!: i64_id simp: free_mem_def)
  have "\<not> (req_MemoryMB req > 0 \<and> i64 (i64 (MemoryMB ?c - MemoryUsed ?c) - fst (snd (reservedLocked s (ag_ID a)))) < req_MemoryMB req)"
    using sc by (auto simp: score_agent_def Let_def split: if_splits prod.splits)
  then show ?thesis using w r(2) req unfolding m w by linarith
qed

lemma prune_promises:
  assumes "promises_ok agents s"
  shows "promises_ok agents (pruneReservationsLocked now s)"
proof -
  have "mem_sum (filter P rs) \<le> mem_sum rs" if "\<forall>r \<in> set rs. 0 \<le> rv_memMB r" for P rs
    using that by (induction rs) (auto simp: mem_sum_def)
  then show ?thesis using assms by (fastforce simp: promises_ok_def pruneReservationsLocked_def intro: order_trans)
qed

lemma reserve_promises:
  assumes "agents_ok agents" and "promises_ok agents s" and "a \<in> set agents" and "0 \<le> req_MemoryMB req"
    and "mem_sum (sc_reservations s (ag_ID a)) + req_MemoryMB req \<le> free_mem a"
  shows "promises_ok agents (reserveLocked (ag_ID a) req now s)"
proof -
  have "b = a" if "b \<in> set agents" "ag_ID b = ag_ID a" for b
    using assms(1,3) that by (auto simp: agents_ok_def distinct_map dest: inj_onD)
  then show ?thesis
    using assms by (auto simp: promises_ok_def reserveLocked_def Let_def mem_sum_def)
qed

text \<open>
  A burst: each placement with its clock readings, over a database that reports the same capacities
  throughout. \<open>granted\<close> is the memory handed out on one agent.
\<close>

record placement =
  pl_listNow :: int
  pl_now :: int
  pl_req :: Request

fun burst ::
  "((Agent \<times> rat) list \<Rightarrow> (Agent \<times> rat) list) \<Rightarrow> (rat \<Rightarrow> rat) \<Rightarrow> rat option \<Rightarrow> Agent list \<Rightarrow> placement list \<Rightarrow> scheduler
    \<Rightarrow> (Request \<times> (sched_error + Agent)) list" where
  "burst srt fl over agents [] s = []"
| "burst srt fl over agents (p # ps) s =
     (let (res, s') = sched_Pick srt fl over (Inr agents) (pl_listNow p) (pl_now p) (pl_req p) s
      in (pl_req p, res) # burst srt fl over agents ps s')"

definition granted :: "Agent \<Rightarrow> (Request \<times> (sched_error + Agent)) list \<Rightarrow> int" where
  "granted a rs = sum_list (map (\<lambda>(req, res). case res of Inr b \<Rightarrow> if ag_ID b = ag_ID a then req_MemoryMB req else 0 | Inl _ \<Rightarrow> 0) rs)"

lemma sched_List_same:
  assumes "sc_cache s = None \<or> sc_cache s = Some agents"
  shows "\<exists>s1. sched_List (Inr agents) now s = (Inr agents, s1) \<and> sc_reservations s1 = sc_reservations s
    \<and> (sc_cache s1 = None \<or> sc_cache s1 = Some agents)"
  using assms by (auto simp: sched_List_def)

lemma burst_bound:
  assumes ok: "agents_ok agents" and srt: "sort_slice srt" and a: "a \<in> set agents"
    and t: "\<forall>p \<in> set ps. pl_now p < t0 + reservationTTL \<and> t0 \<le> pl_now p \<and> 0 \<le> req_MemoryMB (pl_req p)"
    and p: "promises_ok agents s" and c: "sc_cache s = None \<or> sc_cache s = Some agents"
    and r: "\<forall>i. \<forall>r \<in> set (sc_reservations s i). t0 \<le> rv_at r"
  shows "mem_sum (sc_reservations s (ag_ID a)) + granted a (burst srt fl over agents ps s) \<le> free_mem a"
  using t p c r
proof (induction ps arbitrary: s)
  case Nil
  then show ?case using a by (simp add: granted_def promises_ok_def)
next
  case (Cons p ps)
  let ?req = "pl_req p" and ?now = "pl_now p"
  obtain s1 where s1: "sched_List (Inr agents) (pl_listNow p) s = (Inr agents, s1)" "sc_reservations s1 = sc_reservations s"
      "sc_cache s1 = None \<or> sc_cache s1 = Some agents"
    using sched_List_same [OF Cons.prems(3)] by blast
  define s2 where "s2 = pruneReservationsLocked ?now s1"
  have same: "sc_reservations s2 = sc_reservations s"
  proof
    fix i
    have "?now - rv_at x < reservationTTL" if "x \<in> set (sc_reservations s i)" for x
      using Cons.prems(1,4) that by fastforce
    then show "sc_reservations s2 i = sc_reservations s i" by (simp add: s2_def pruneReservationsLocked_def s1(2))
  qed
  have p2: "promises_ok agents s2" using Cons.prems(2) same by (simp add: promises_ok_def)
  have c2: "sc_cache s2 = None \<or> sc_cache s2 = Some agents" using s1(3) by (simp add: s2_def pruneReservationsLocked_def)
  let ?cs = "candidates (score_agent fl over ?req s2) agents"
  show ?case
  proof (cases "srt ?cs")
    case Nil
    then have "burst srt fl over agents (p # ps) s = (?req, Inl NoAgents) # burst srt fl over agents ps s2"
      using s1(1) by (simp add: sched_Pick_def s2_def Let_def)
    then show ?thesis
      using Cons.IH [of s2] Cons.prems(1,4) p2 c2 same by (simp add: granted_def)
  next
    case srtd: (Cons bx rest)
    obtain b x where bx: "bx = (b, x)" by fastforce
    have b: "b \<in> set agents" "score_agent fl over ?req s2 b = Some x"
      using sort_slice_hd(1) [OF srt srtd [unfolded bx]] by (simp_all add: set_candidates)
    define s3 where "s3 = reserveLocked (ag_ID b) ?req ?now s2"
    have run: "burst srt fl over agents (p # ps) s = (?req, Inr b) # burst srt fl over agents ps s3"
      using s1(1) srtd bx by (simp add: sched_Pick_def s2_def s3_def Let_def)
    have req: "0 \<le> req_MemoryMB ?req" using Cons.prems(1) by simp
    have p3: "promises_ok agents s3"
      unfolding s3_def by (rule reserve_promises [OF ok p2 b(1) req score_agent_fits [OF ok p2 b(1) req b(2)]])
    have "t0 \<le> ?now" using Cons.prems(1) by simp
    then have r3: "\<forall>i. \<forall>r \<in> set (sc_reservations s3 i). t0 \<le> rv_at r"
      using Cons.prems(4) same by (auto simp: s3_def reserveLocked_def Let_def)
    have c3: "sc_cache s3 = None \<or> sc_cache s3 = Some agents" using c2 by (simp add: s3_def reserveLocked_def Let_def)
    have "mem_sum (sc_reservations s3 (ag_ID a)) = mem_sum (sc_reservations s (ag_ID a))
        + (if ag_ID b = ag_ID a then req_MemoryMB ?req else 0)"
      using same by (auto simp: s3_def reserveLocked_def Let_def mem_sum_def)
    then show ?thesis
      using Cons.IH [OF _ p3 c3 r3] Cons.prems(1) unfolding run by (simp add: granted_def)
  qed
qed


text \<open>
  C11: a burst never oversells memory. For placements that all fall within one reservation lifetime (15 s) and are
  served from the same reported capacities, whatever their order, their sizes and the scores, the memory granted on an
  agent stays within what it reported free, although every \<open>Pick\<close> reads the same stale capacities. The lifetime is
  needed: the agent list may be served longer than that (\<open>Pick_oversells_after_reservation_ttl\<close>).
\<close>

theorem burst_never_oversells:
  assumes "agents_ok agents" and "sort_slice srt" and "a \<in> set agents"
    and "list_all (\<lambda>p. t0 \<le> pl_now p \<and> pl_now p < t0 + reservationTTL \<and> 0 \<le> req_MemoryMB (pl_req p)) ps"
  shows "MemoryUsed (ag_Capacity a) + granted a (burst srt fl over agents ps (sched_New ttl)) \<le> MemoryMB (ag_Capacity a)"
proof -
  have "promises_ok agents (sched_New ttl)"
    using assms(1) by (auto simp: promises_ok_def sched_New_def mem_sum_def free_mem_def agents_ok_def list_all_iff)
  moreover have "\<forall>p \<in> set ps. pl_now p < t0 + reservationTTL \<and> t0 \<le> pl_now p \<and> 0 \<le> req_MemoryMB (pl_req p)"
    using assms(4) by (auto simp: list_all_iff)
  ultimately have "mem_sum (sc_reservations (sched_New ttl) (ag_ID a)) + granted a (burst srt fl over agents ps (sched_New ttl)) \<le> free_mem a"
    using assms(1-3) by (intro burst_bound) (auto simp: sched_New_def)
  then show ?thesis by (simp add: sched_New_def mem_sum_def free_mem_def)
qed

section \<open>A concrete fleet\<close>

definition demo_capacity :: Capacity where
  "demo_capacity = \<lparr>CPUTotal = 8, CPUUsed = 0, MemoryMB = 4096, MemoryUsed = 0, Sandboxes = 0, LoadAverage = 0,
     StreamRestoreEnabled = False, VolumeProvisionedBytes = 0, VolumesFSSizeBytes = 0, VolumesFSFreeBytes = 0, cap_Pool = []\<rparr>"

definition demo_agent :: "string \<Rightarrow> Agent" where
  "demo_agent i = \<lparr>ag_ID = i, ag_Endpoint = [], ag_Region = [], ag_Zone = [], ag_Version = [], ag_Status = ''active'',
     ag_Capacity = demo_capacity, ag_LastHeartbeat = 0\<rparr>"

definition demo_create :: "int \<Rightarrow> placement" where
  "demo_create t = \<lparr>pl_listNow = t, pl_now = t,
     pl_req = \<lparr>req_CPU = 0, req_MemoryMB = 3072, req_Region = [], req_DiskBytes = 0, req_RequirePool = []\<rparr>\<rparr>"

definition by_score :: "(Agent \<times> rat) list \<Rightarrow> (Agent \<times> rat) list" where
  "by_score cs = rev (sort_key snd cs)"

lemma by_score_ok: "sort_slice by_score"
proof -
  have "sorted_wrt (\<lambda>x y. snd y \<le> snd x) (rev xs)" if "sorted (map snd xs)" for xs :: "(Agent \<times> rat) list"
    using that by (simp add: sorted_wrt_rev sorted_map)
  then show ?thesis by (simp add: sort_slice_def by_score_def)
qed

lemmas sched_eval = sched_Pick_def sched_List_def sched_New_def pruneReservationsLocked_def reserveLocked_def
  reservedLocked_def score_agent_def demo_create_def demo_agent_def demo_capacity_def wantPool_def by_score_def
  reservationTTL_def Second_def i64_def Let_def

text \<open>Two creates of 3 GiB in one second go to the two 4 GiB agents; the third is refused.\<close>

theorem burst_never_oversells_witness:
  "map snd (burst by_score (\<lambda>x. x) None [demo_agent ''a'', demo_agent ''b''] [demo_create 0, demo_create 1, demo_create 2] (sched_New (30 * Second)))
      = [Inr (demo_agent ''b''), Inr (demo_agent ''a''), Inl NoAgents]
    \<and> MemoryUsed (ag_Capacity (demo_agent ''a'')) + granted (demo_agent ''a'')
        (burst by_score (\<lambda>x. x) None [demo_agent ''a'', demo_agent ''b''] [demo_create 0, demo_create 1, demo_create 2] (sched_New (30 * Second)))
      \<le> MemoryMB (ag_Capacity (demo_agent ''a''))"
proof
  show "map snd (burst by_score (\<lambda>x. x) None [demo_agent ''a'', demo_agent ''b''] [demo_create 0, demo_create 1, demo_create 2] (sched_New (30 * Second)))
      = [Inr (demo_agent ''b''), Inr (demo_agent ''a''), Inl NoAgents]"
    by (simp add: sched_eval)
  show "MemoryUsed (ag_Capacity (demo_agent ''a'')) + granted (demo_agent ''a'')
        (burst by_score (\<lambda>x. x) None [demo_agent ''a'', demo_agent ''b''] [demo_create 0, demo_create 1, demo_create 2] (sched_New (30 * Second)))
      \<le> MemoryMB (ag_Capacity (demo_agent ''a''))"
    by (rule burst_never_oversells [OF _ by_score_ok, where ?t0.0 = 0])
      (simp_all add: agents_ok_def demo_agent_def demo_capacity_def demo_create_def reservationTTL_def Second_def)
qed

lemma sched_Pick_spec_witness:
  "\<exists>a s'. sched_Pick by_score (\<lambda>x. x) None (Inr [demo_agent ''a'', demo_agent ''b'']) 0 0 (pl_req (demo_create 0)) (sched_New 0) = (Inr a, s')
    \<and> length (sc_reservations s' (ag_ID a)) = 1"
proof -
  let ?q = "Inr [demo_agent ''a'', demo_agent ''b''] :: string + Agent list"
  have l: "sched_List ?q 0 (sched_New 0) = (Inr [demo_agent ''a'', demo_agent ''b''], sched_New 0)"
    by (simp add: sched_List_def sched_New_def)
  obtain a s' where p: "sched_Pick by_score (\<lambda>x. x) None ?q 0 0 (pl_req (demo_create 0)) (sched_New 0) = (Inr a, s')"
    by (auto simp: sched_eval)
  from sched_Pick_spec [OF by_score_ok l, of 0 "\<lambda>x. x" None "pl_req (demo_create 0)"]
  have "length (sc_reservations s' (ag_ID a)) = 1" unfolding p by (simp add: sched_New_def Let_def)
  then show ?thesis using p by blast
qed

text \<open>
  beyond one reservation lifetime the promise breaks. With the list cache of 30 seconds that the API configures, a create
  at second 0 and one at second 15 are both placed on an agent that has room for one: the reservation
  has expired, and the cached capacities still predate the first placement although the database already reports it.
\<close>

lemma Pick_oversells_after_reservation_ttl:
  "let idle = demo_agent ''a''; busy = idle\<lparr>ag_Capacity := demo_capacity\<lparr>MemoryUsed := 3072\<rparr>\<rparr>;
       req = pl_req (demo_create 0); t = 15 * Second;
       (first, s1) = sched_Pick by_score (\<lambda>x. x) None (Inr [idle]) 0 0 req (sched_New (30 * Second));
       (second, s2) = sched_Pick by_score (\<lambda>x. x) None (Inr [busy]) t t req s1
   in first = Inr idle \<and> second = Inr idle
     \<and> MemoryUsed (ag_Capacity busy) + req_MemoryMB req > MemoryMB (ag_Capacity busy)
     \<and> fst (sched_Pick by_score (\<lambda>x. x) None (Inr [busy]) t t req (sched_New (30 * Second))) = Inl NoAgents"
  by (simp add: sched_eval)

end
