(* ===== verification/Admission.thy ===== *)
theory Admission
  imports Go_Float
begin

text \<open>
  The host's memory admission gate (\<^verbatim>\<open>src/agent/internal/sandbox/admission.go\<close>) and the usage it is
  checked against (\<open>RegistrySnapshot\<close> and \<open>sumLiveSandboxUsage\<close> in \<^verbatim>\<open>manager.go\<close>).

  The manager is its live drivers and the store's rows. A create first passes \<open>admitMemory\<close> and only later
  registers its driver and its row; \<open>create_step\<close> keeps the two apart, so that concurrent creates are interleavings of these steps.
\<close>

section \<open>Usage of the live sandboxes\<close>

definition fallbackSandboxCPU :: int where "fallbackSandboxCPU = 8"
definition fallbackSandboxMemMB :: int where "fallbackSandboxMemMB = 4096"

text \<open>The dynamic types \<open>asInt\<close> tells apart.\<close>

datatype any = AnyInt int | AnyFloat rat | AnyOther

fun asInt :: "any \<Rightarrow> int" where
  "asInt (AnyInt x) = x"
| "asInt (AnyFloat x) = i64 (trunc x)"
| "asInt AnyOther = 0"

record sandbox_row =
  row_id :: string
  row_cpu :: any
  row_mem :: any

definition eff_cpu :: "sandbox_row \<Rightarrow> int" where
  "eff_cpu r = (let cpu = asInt (row_cpu r) in if cpu \<le> 0 then fallbackSandboxCPU else cpu)"

definition eff_mem :: "sandbox_row \<Rightarrow> int" where
  "eff_mem r = (let mem = asInt (row_mem r) in if mem \<le> 0 then fallbackSandboxMemMB else mem)"

text \<open>The loop over the rows: the two sums and the ids seen. A row that is not a map is \<open>None\<close>.\<close>

fun usage_loop :: "string set \<Rightarrow> sandbox_row option list \<Rightarrow> int \<times> int \<times> string set \<Rightarrow> int \<times> int \<times> string set" where
  "usage_loop live [] acc = acc"
| "usage_loop live (None # rows) acc = usage_loop live rows acc"
| "usage_loop live (Some r # rows) (cpu, mem, seen) =
     (if row_id r \<notin> live then usage_loop live rows (cpu, mem, seen)
      else usage_loop live rows (i64 (cpu + eff_cpu r), i64 (mem + eff_mem r), insert (row_id r) seen))"

definition sumLiveSandboxUsage :: "sandbox_row option list \<Rightarrow> string set \<Rightarrow> int \<times> int" where
  "sumLiveSandboxUsage rows live =
     (let (cpu, mem, seen) = usage_loop live rows (0, 0, {});
          missing = int (card live) - int (card seen)
      in if missing > 0 then (i64 (cpu + i64 (missing * fallbackSandboxCPU)), i64 (mem + i64 (missing * fallbackSandboxMemMB)))
         else (cpu, mem))"

text \<open>\<open>query\<close> is the outcome of \<open>ListSandboxesForAgent\<close>.\<close>

definition RegistrySnapshot :: "string + sandbox_row option list \<Rightarrow> string set \<Rightarrow> int \<times> int \<times> int" where
  "RegistrySnapshot query live =
     (let n = int (card live) in
      if n = 0 then (0, 0, 0)
      else case query of
        Inl e \<Rightarrow> (i64 (n * fallbackSandboxCPU), i64 (n * fallbackSandboxMemMB), n)
      | Inr rows \<Rightarrow> (let (cpu, mem) = sumLiveSandboxUsage rows live in (cpu, mem, n)))"

section \<open>The gate\<close>

text \<open>\<open>MemTotal\<close> from the lines of \<^verbatim>\<open>/proc/meminfo\<close>; 0 when it cannot be read.\<close>

fun mem_total :: "string list \<Rightarrow> int" where
  "mem_total [] = 0"
| "mem_total (l # ls) =
     (if has_prefix l ''MemTotal:'' then
        (case str_fields l of
           _ # kb # _ \<Rightarrow> (case atoi kb of Some n \<Rightarrow> tdiv n 1024 | None \<Rightarrow> 0)
         | _ \<Rightarrow> 0)
      else mem_total ls)"

definition hostMemTotalMB :: "string list option \<Rightarrow> int" where
  "hostMemTotalMB meminfo = (case meminfo of None \<Rightarrow> 0 | Some ls \<Rightarrow> mem_total ls)"

definition envFloat :: "(string \<Rightarrow> rat option) \<Rightarrow> environ \<Rightarrow> string \<Rightarrow> rat \<Rightarrow> rat" where
  "envFloat parseFloat env key def =
     (let v = trim_space (env key) in
      if v \<noteq> [] then (case parseFloat v of Some f \<Rightarrow> if f > 0 then f else def | None \<Rightarrow> def) else def)"

text \<open>\<open>reserve\<close> and \<open>factor\<close> are the values of the two environment variables.\<close>

definition memoryBudgetMB :: "(rat \<Rightarrow> rat) \<Rightarrow> int \<Rightarrow> int \<Rightarrow> rat \<Rightarrow> int" where
  "memoryBudgetMB fl totalMB reserve factor =
     (if totalMB \<le> 0 then 0
      else let budget = i64 (trunc (fl (fl (of_int (i64 (totalMB - reserve))) * factor))) in
        if budget < 0 then 0 else budget)"

datatype admit_error = InsufficientMemory int int int int

definition admitMemory ::
  "int \<Rightarrow> string + sandbox_row option list \<Rightarrow> string set \<Rightarrow> int \<Rightarrow> admit_error option" where
  "admitMemory budget query live reqMemMB =
     (if budget \<le> 0 \<or> reqMemMB \<le> 0 then None
      else let (_, usedMB, n) = RegistrySnapshot query live in
        if i64 (usedMB + reqMemMB) > budget then Some (InsufficientMemory reqMemMB usedMB n budget) else None)"

definition MemoryCommittedRatio ::
  "(rat \<Rightarrow> rat) \<Rightarrow> int \<Rightarrow> string + sandbox_row option list \<Rightarrow> string set \<Rightarrow> (rat \<times> int \<times> int) option" where
  "MemoryCommittedRatio fl budget query live =
     (if budget \<le> 0 then None
      else let (_, used, _) = RegistrySnapshot query live in
        Some (fl (fl (of_int used) / fl (of_int budget)), used, budget))"

section \<open>The sum over rows is the sum over sandboxes\<close>

text \<open>What one live sandbox counts for: its row's size, or the fallback.\<close>

definition rows_of :: "sandbox_row option list \<Rightarrow> sandbox_row list" where
  "rows_of rows = List.map_filter (\<lambda>x. x) rows"

definition committed_mem :: "sandbox_row option list \<Rightarrow> string \<Rightarrow> int" where
  "committed_mem rows i =
     (case find (\<lambda>r. row_id r = i) (rows_of rows) of Some r \<Rightarrow> eff_mem r | None \<Rightarrow> fallbackSandboxMemMB)"

lemma eff_mem_pos: "0 < eff_mem r"
  by (simp add: eff_mem_def fallbackSandboxMemMB_def Let_def)

lemma rows_of_simps [simp]: "rows_of [] = []" "rows_of (None # rs) = rows_of rs" "rows_of (Some r # rs) = r # rows_of rs"
  by (simp_all add: rows_of_def List.map_filter_def)

lemma usage_loop_rows:
  assumes "0 \<le> mem" and "mem + (\<Sum>r \<leftarrow> filter (\<lambda>r. row_id r \<in> live) (rows_of rows). eff_mem r) < 2 ^ 63"
  shows "\<exists>cpu'. usage_loop live rows (cpu, mem, seen) =
    (cpu', mem + (\<Sum>r \<leftarrow> filter (\<lambda>r. row_id r \<in> live) (rows_of rows). eff_mem r),
     seen \<union> (row_id ` set (rows_of rows) \<inter> live))"
  using assms
proof (induction live rows "(cpu, mem, seen)" arbitrary: cpu mem seen rule: usage_loop.induct)
  case (3 live r rows cpu mem seen)
  let ?rest = "\<Sum>r \<leftarrow> filter (\<lambda>r. row_id r \<in> live) (rows_of rows). eff_mem r"
  have nn: "0 \<le> ?rest" by (rule sum_list_nonneg) (auto intro: less_imp_le eff_mem_pos)
  show ?case
  proof (cases "row_id r \<in> live")
    case True
    have "i64 (mem + eff_mem r) = mem + eff_mem r"
      using 3(3,4) True nn eff_mem_pos [of r] by (intro i64_id) simp_all
    then show ?thesis using 3(2) 3(3,4) True eff_mem_pos [of r] by (auto simp: add.assoc)
  next
    case False
    then show ?thesis using 3(1) 3(3,4) by auto
  qed
qed auto


lemma committed_mem_row:
  assumes "distinct (map row_id (rows_of rows))" and "r \<in> set (rows_of rows)"
  shows "committed_mem rows (row_id r) = eff_mem r"
proof -
  have "find (\<lambda>x. row_id x = row_id r) (rows_of rows) = Some r"
    using assms by (induction "rows_of rows" arbitrary: rows) (auto simp: find_Some_iff2 in_set_conv_nth distinct_conv_nth find_Some_iff)
  then show ?thesis by (simp add: committed_mem_def)
qed

lemma sum_committed:
  assumes fin: "finite live" and d: "distinct (map row_id (rows_of rows))"
  shows "(\<Sum>i \<in> live. committed_mem rows i) =
    (\<Sum>r \<leftarrow> filter (\<lambda>r. row_id r \<in> live) (rows_of rows). eff_mem r)
    + int (card (live - row_id ` set (rows_of rows))) * fallbackSandboxMemMB"
proof -
  let ?R = "filter (\<lambda>r. row_id r \<in> live) (rows_of rows)" and ?ids = "row_id ` set (rows_of rows)"
  have dR: "distinct (map row_id ?R)" using d by (simp add: distinct_map_filter)
  have "(\<Sum>i \<in> live. committed_mem rows i) = (\<Sum>i \<in> live \<inter> ?ids. committed_mem rows i) + (\<Sum>i \<in> live - ?ids. committed_mem rows i)"
    using fin by (metis sum.Int_Diff)
  moreover have "committed_mem rows i = fallbackSandboxMemMB" if "i \<notin> ?ids" for i
  proof -
    have "find (\<lambda>r. row_id r = i) (rows_of rows) = None" using that by (auto simp: find_None_iff)
    then show ?thesis by (simp add: committed_mem_def)
  qed
  then have "(\<Sum>i \<in> live - ?ids. committed_mem rows i) = (\<Sum>i \<in> live - ?ids. fallbackSandboxMemMB)"
    by (intro sum.cong) auto
  moreover have "(\<Sum>i \<in> live \<inter> ?ids. committed_mem rows i) = (\<Sum>i \<leftarrow> map row_id ?R. committed_mem rows i)"
    using dR by (subst sum_list_distinct_conv_sum_set) (auto intro!: sum.cong)
  moreover have "(\<Sum>i \<leftarrow> map row_id ?R. committed_mem rows i) = (\<Sum>r \<leftarrow> ?R. eff_mem r)"
    using committed_mem_row [OF d] by (auto simp: comp_def intro!: arg_cong [where f = sum_list])
  ultimately show ?thesis by simp
qed


lemma RegistrySnapshot_mem:
  assumes fin: "finite live" and d: "distinct (map row_id (rows_of rows))"
    and small: "(\<Sum>i \<in> live. committed_mem rows i) < 2 ^ 63"
  shows "fst (snd (RegistrySnapshot (Inr rows) live)) = (\<Sum>i \<in> live. committed_mem rows i)"
proof (cases "live = {}")
  case True
  then show ?thesis by (simp add: RegistrySnapshot_def)
next
  case False
  let ?S = "\<Sum>r \<leftarrow> filter (\<lambda>r. row_id r \<in> live) (rows_of rows). eff_mem r" and ?ids = "row_id ` set (rows_of rows)"
  let ?miss = "int (card (live - ?ids)) * fallbackSandboxMemMB"
  have S0: "0 \<le> ?S" by (rule sum_list_nonneg) (auto intro: less_imp_le eff_mem_pos)
  have m0: "0 \<le> ?miss" by (simp add: fallbackSandboxMemMB_def)
  have tot: "?S + ?miss = (\<Sum>i \<in> live. committed_mem rows i)" using sum_committed [OF fin d] by simp
  obtain cpu where u: "usage_loop live rows (0, 0, {}) = (cpu, ?S, ?ids \<inter> live)"
    using usage_loop_rows [of 0 live rows 0 "{}"] small tot m0 by auto
  have "card live = card (live \<inter> ?ids) + card (live - ?ids)" using fin by (metis card_Int_Diff)
  then have miss: "int (card live) - int (card (?ids \<inter> live)) = int (card (live - ?ids))" by (simp add: Int_commute)
  have "i64 ?miss = ?miss" "i64 (?S + ?miss) = ?S + ?miss" using small tot S0 m0 by (auto intro!: i64_id)
  then have "snd (sumLiveSandboxUsage rows live) = ?S + ?miss"
    by (cases "card (live - ?ids) = 0") (simp_all only: sumLiveSandboxUsage_def u miss Let_def case_prod_conv, simp_all)
  then show ?thesis using False fin tot by (cases "sumLiveSandboxUsage rows live") (simp add: RegistrySnapshot_def Let_def)
qed

text \<open>
  The gate admits a create exactly when the memory committed to the live sandboxes, each counted with its
  configured size or the fallback, plus the request fits in the budget; and when the create registers before anything else changes, the committed
  memory is still within the budget.
\<close>

lemma admitMemory_exact:
  assumes fin: "finite live" and d: "distinct (map row_id (rows_of (rows @ [Some r])))" and new: "row_id r \<notin> live"
    and mem: "asInt (row_mem r) = req" "0 < req" and b: "0 < budget" "budget < 2 ^ 62"
    and within: "(\<Sum>i \<in> live. committed_mem rows i) \<le> budget" and small: "req < 2 ^ 62"
  shows "(admitMemory budget (Inr rows) live req = None \<longleftrightarrow> (\<Sum>i \<in> live. committed_mem rows i) + req \<le> budget)
    \<and> (admitMemory budget (Inr rows) live req = None
        \<longrightarrow> (\<Sum>i \<in> insert (row_id r) live. committed_mem (rows @ [Some r]) i) \<le> budget)"
proof -
  let ?used = "\<Sum>i \<in> live. committed_mem rows i"
  have ro: "rows_of (rows @ [Some r]) = rows_of rows @ [r]" by (simp add: rows_of_def List.map_filter_def)
  have d': "distinct (map row_id (rows_of rows))" and nr: "row_id r \<notin> row_id ` set (rows_of rows)" using d ro by auto
  have "0 \<le> ?used" by (intro sum_nonneg) (auto simp: committed_mem_def fallbackSandboxMemMB_def less_imp_le [OF eff_mem_pos] split: option.splits)
  then have w: "i64 (?used + req) = ?used + req" using within b mem(2) small by (intro i64_id) simp_all
  have snap: "fst (snd (RegistrySnapshot (Inr rows) live)) = ?used"
    using RegistrySnapshot_mem [OF fin d'] within b by simp
  have iff: "admitMemory budget (Inr rows) live req = None \<longleftrightarrow> ?used + req \<le> budget"
    using b mem(2) snap w by (auto simp: admitMemory_def Let_def split: prod.splits)
  have fd: "find P (xs @ [r]) = find P xs" if "\<not> P r" for P and xs :: "sandbox_row list"
    using that by (induction xs) auto
  have same: "committed_mem (rows @ [Some r]) i = committed_mem rows i" if "i \<in> live" for i
  proof -
    have "row_id r \<noteq> i" using that new by blast
    then show ?thesis using fd [of "\<lambda>x. row_id x = i" "rows_of rows"] by (simp add: committed_mem_def ro)
  qed
  have "committed_mem (rows @ [Some r]) (row_id r) = req"
    using committed_mem_row [OF d, of r] mem by (simp add: ro eff_mem_def)
  then have "(\<Sum>i \<in> insert (row_id r) live. committed_mem (rows @ [Some r]) i) = ?used + req"
    using fin new same by simp
  then show ?thesis using iff by simp
qed

section \<open>Concurrent creates\<close>

text \<open>
  The agent with its live sandboxes, its rows and the creates that have passed the gate but have not
  registered yet. Nothing locks the gate and the registration together. In \<open>create_step k M\<close> a create of at most \<open>M\<close> MB is checked while at most \<open>k\<close> other creates are between the two, the
  store can be read, and a sandbox registers together with its row; creates fail and sandboxes are removed at any time.
\<close>

record host =
  h_live :: "string set"
  h_rows :: "sandbox_row option list"
  h_admitted :: "(string \<times> int) list"

definition new_row :: "string \<Rightarrow> int \<Rightarrow> sandbox_row" where
  "new_row i mem = \<lparr>row_id = i, row_cpu = AnyInt 8, row_mem = AnyInt mem\<rparr>"

definition row_of :: "string \<Rightarrow> sandbox_row option \<Rightarrow> bool" where
  "row_of i r \<longleftrightarrow> (case r of Some x \<Rightarrow> row_id x = i | None \<Rightarrow> False)"

inductive create_step :: "nat \<Rightarrow> int \<Rightarrow> int \<Rightarrow> host \<Rightarrow> host \<Rightarrow> bool" for k M budget where
  admit: "admitMemory budget (Inr (h_rows h)) (h_live h) mem = None \<Longrightarrow> length (h_admitted h) \<le> k \<Longrightarrow> 0 < mem \<Longrightarrow> mem \<le> M \<Longrightarrow>
    i \<notin> row_id ` set (rows_of (h_rows h)) \<union> fst ` set (h_admitted h) \<Longrightarrow>
    create_step k M budget h (h\<lparr>h_admitted := h_admitted h @ [(i, mem)]\<rparr>)"
| register: "h_admitted h = as @ (i, mem) # bs \<Longrightarrow>
    create_step k M budget h (h\<lparr>h_live := insert i (h_live h), h_rows := h_rows h @ [Some (new_row i mem)], h_admitted := as @ bs\<rparr>)"
| failed: "h_admitted h = as @ x # bs \<Longrightarrow> create_step k M budget h (h\<lparr>h_admitted := as @ bs\<rparr>)"
| removed: "create_step k M budget h (h\<lparr>h_live := h_live h - {i}, h_rows := filter (\<lambda>r. \<not> row_of i r) (h_rows h)\<rparr>)"

definition host_committed :: "host \<Rightarrow> int" where
  "host_committed h = (\<Sum>i \<in> h_live h. committed_mem (h_rows h) i)"



definition empty_host :: host where
  "empty_host = \<lparr>h_live = {}, h_rows = [], h_admitted = []\<rparr>"

lemma rows_of_append [simp]: "rows_of (xs @ ys) = rows_of xs @ rows_of ys"
  by (simp add: rows_of_def List.map_filter_def)











text \<open>
  The gate is not atomic with registration. Two creates that are both checked before either registers are
  both admitted, and the host ends with twice its budget committed.
\<close>

definition race_host :: host where
  "race_host = \<lparr>h_live = {''b'', ''a''}, h_rows = [Some (new_row ''a'' 4096), Some (new_row ''b'' 4096)], h_admitted = []\<rparr>"

lemma race_run: "(create_step 1 4096 4096)\<^sup>*\<^sup>* empty_host race_host"
proof -
  let ?h1 = "empty_host\<lparr>h_admitted := [(''a'', 4096)]\<rparr>" and ?h2 = "empty_host\<lparr>h_admitted := [(''a'', 4096), (''b'', 4096)]\<rparr>"
  let ?h3 = "\<lparr>h_live = {''a''}, h_rows = [Some (new_row ''a'' 4096)], h_admitted = [(''b'', 4096)]\<rparr>"
  have ok: "admitMemory 4096 (Inr []) {} 4096 = None" by (simp add: admitMemory_def RegistrySnapshot_def i64_def)
  have "create_step 1 4096 4096 empty_host ?h1" "create_step 1 4096 4096 ?h1 ?h2"
    using create_step.admit [of 4096 empty_host 4096 1 4096 "''a''"] create_step.admit [of 4096 ?h1 4096 1 4096 "''b''"] ok by (simp_all add: empty_host_def)
  moreover have "create_step 1 4096 4096 ?h2 ?h3" "create_step 1 4096 4096 ?h3 race_host"
    using create_step.register [of ?h2 "[]" "''a''" 4096 "[(''b'', 4096)]"] create_step.register [of ?h3 "[]" "''b''" 4096 "[]"]
    by (simp_all add: empty_host_def race_host_def)
  ultimately show ?thesis by (meson rtranclp.rtrancl_refl rtranclp.rtrancl_into_rtrancl)
qed

lemma admission_race_overcommits: "\<exists>h. (create_step 1 4096 4096)\<^sup>*\<^sup>* empty_host h \<and> host_committed h = 4096 + int 1 * 4096"
proof -
  have "host_committed race_host = 8192" by (simp add: race_host_def host_committed_def committed_mem_def new_row_def eff_mem_def)
  then show ?thesis using race_run by auto
qed


end
