(* ===== verification/Pressure.thy ===== *)
theory Pressure
  imports Go_Float "HOL-Library.Multiset"
begin

text \<open>
  The memory-pressure ladder of the agent (\<^verbatim>\<open>src/agent/internal/sandbox/pressure.go\<close>, with
  \<open>workloadClass\<close> of \<^verbatim>\<open>workload.go\<close>): classification of host signals, hysteresis, the inventory of running
  VMs, and one tick of the controller.

  A tick returns the actions it takes, in order: each write to \<open>memory.high\<close> with its outcome, and the reclaim and
  freeze goroutines it starts; \<open>freeze_done\<close> is the effect of such a goroutine when it ends. Zero times and
  missing map entries are \<open>None\<close>. \<open>sort.Slice\<close> is the parameter \<open>srt\<close>.
\<close>

section \<open>Thresholds and levels\<close>

definition freezeFailCooldown :: int where "freezeFailCooldown = 900 * Second"

datatype pressureLevel = levelOK | levelElevated | levelCritical

fun level_rank :: "pressureLevel \<Rightarrow> nat" where
  "level_rank levelOK = 0"
| "level_rank levelElevated = 1"
| "level_rank levelCritical = 2"

lemma level_rank_inj: "level_rank a = level_rank b \<longleftrightarrow> a = b"
  by (cases a; cases b) simp_all

instantiation pressureLevel :: linorder
begin

definition less_eq_pressureLevel :: "pressureLevel \<Rightarrow> pressureLevel \<Rightarrow> bool" where
  "less_eq_pressureLevel a b \<longleftrightarrow> level_rank a \<le> level_rank b"

definition less_pressureLevel :: "pressureLevel \<Rightarrow> pressureLevel \<Rightarrow> bool" where
  "less_pressureLevel a b \<longleftrightarrow> level_rank a < level_rank b"

instance
  by standard (auto simp: less_eq_pressureLevel_def less_pressureLevel_def level_rank_inj)

end

lemmas level_order = less_eq_pressureLevel_def less_pressureLevel_def




definition pressureLadderEnabled :: "environ \<Rightarrow> bool" where
  "pressureLadderEnabled env \<longleftrightarrow> env ''PANDASTACK_PRESSURE_LADDER'' \<noteq> ''0''"

definition reclaimEnabled :: "environ \<Rightarrow> bool" where
  "reclaimEnabled env \<longleftrightarrow> env ''PANDASTACK_RECLAIM'' \<noteq> ''0''"





section \<open>Host signals\<close>






section \<open>Virtual machines\<close>

record pressureVM =
  vm_id :: string
  vm_class :: string
  vm_cpuRate :: rat
  vm_lastAct :: "int option"
  vm_current :: int
  vm_squeezed :: bool


definition coldnessLess :: "pressureVM \<Rightarrow> pressureVM \<Rightarrow> bool" where
  "coldnessLess a b \<longleftrightarrow>
     (if vm_cpuRate a \<noteq> vm_cpuRate b then vm_cpuRate a < vm_cpuRate b
      else case (vm_lastAct a, vm_lastAct b) of
        (Some x, Some y) \<Rightarrow> x < y | (None, Some y) \<Rightarrow> True | (_, None) \<Rightarrow> False)"




record pressureState =
  ps_prevUsec :: "string \<rightharpoonup> int"
  ps_prevTickAt :: "int option"
  ps_lastFreeze :: "int option"
  ps_level :: pressureLevel
  ps_fallStreak :: int
  ps_squeezeBasis :: "string \<rightharpoonup> int"
  ps_cooldown :: "string \<rightharpoonup> int"
  ps_squeezedAt :: "string \<rightharpoonup> int"
  ps_lastReclaim :: "string \<rightharpoonup> int"
  ps_freezing :: "string set"



section \<open>Inventory\<close>

text \<open>A store row with what the agent reads for it: ownership, the cgroup files and the activity clock.\<close>

record inv_row =
  ir_id :: string
  ir_owned :: bool
  ir_running :: bool
  ir_template :: string
  ir_md :: "(string \<rightharpoonup> string) option"
  ir_usec :: "int option"
  ir_lastAct :: "int option"
  ir_current :: int
  ir_high :: string
  ir_created :: "int option"





section \<open>One tick\<close>









text \<open>The end of a freeze or reclaim goroutine: a failed hibernation parks the victim.\<close>

definition freeze_done :: "string \<Rightarrow> bool \<Rightarrow> int \<Rightarrow> pressureState \<Rightarrow> pressureState" where
  "freeze_done i failed now st =
     st\<lparr>ps_freezing := ps_freezing st - {i},
        ps_cooldown := (if failed then (ps_cooldown st)(i \<mapsto> now + freezeFailCooldown) else ps_cooldown st)\<rparr>"




section \<open>What a tick may do\<close>

text \<open>The row of a running VM of a tenant on this host; ids are the key of the table.\<close>

definition row_ids :: "inv_row option list \<Rightarrow> string list" where
  "row_ids rows = map ir_id (List.map_filter (\<lambda>x. x) rows)"

















section \<open>The inventory shows the rows\<close>




lemma row_ids_simps [simp]: "row_ids [] = []" "row_ids (None # rows) = row_ids rows" "row_ids (Some r # rows) = ir_id r # row_ids rows"
  by (simp_all add: row_ids_def List.map_filter_def)

lemma row_ids_mem: "Some r \<in> set rows \<Longrightarrow> ir_id r \<in> set (row_ids rows)"
  by (induction rows) (auto simp: row_ids_def List.map_filter_def split: option.splits)






section \<open>The rungs obey the rules\<close>
















end
