(* ===== verification/Archive_Names.thy ===== *)
theory Archive_Names
  imports Go_Float "HOL-Library.List_Lexorder" "HOL-Library.Char_ord" "HOL-Library.Product_Lexorder"
begin

text \<open>
  The object names of a database archive: base backups, WAL segments and partial WAL uploads. The parsers of the
  control plane (\<^verbatim>\<open>src/api/cmd/api/db_archive.go\<close>, \<^verbatim>\<open>db_fencing.go\<close>) and of the agent
  (\<^verbatim>\<open>src/agent/internal/sandbox/wal_relay.go\<close>, \<^verbatim>\<open>db_restore.go\<close>), the gap count of the
  health scrub, and the choice of partial uploads on both sides: which ones the janitor deletes and which one the relay
  serves.
\<close>

section \<open>Strings\<close>

text \<open>\<open>strings.Index\<close>.\<close>

fun str_index :: "string \<Rightarrow> string \<Rightarrow> nat option" where
  "str_index [] sub = (if sub = [] then Some 0 else None)"
| "str_index (c # cs) sub = (if has_prefix (c # cs) sub then Some 0 else map_option Suc (str_index cs sub))"

definition str_contains :: "string \<Rightarrow> string \<Rightarrow> bool" where
  "str_contains s sub \<longleftrightarrow> str_index s sub \<noteq> None"

definition is_digit :: "char \<Rightarrow> bool" where
  "is_digit c \<longleftrightarrow> digit_val c \<noteq> None"

definition lastPathSeg :: "string \<Rightarrow> string" where
  "lastPathSeg u = rev (takeWhile (\<lambda>c. c \<noteq> CHR ''/'') (rev u))"

section \<open>Base backups\<close>

text \<open>The stamp \<open>\d{8}T\d{6}Z\<close>.\<close>

definition is_stamp :: "string \<Rightarrow> bool" where
  "is_stamp s \<longleftrightarrow> length s = 16 \<and> list_all is_digit (take 8 s) \<and> s ! 8 = CHR ''T''
     \<and> list_all is_digit (take 6 (drop 9 s)) \<and> s ! 15 = CHR ''Z''"

text \<open>\<open>base-(\d{8}T\d{6}Z)(?:-g(\d+))?\.tar\.gz\<close> on a whole string: the stamp and the generation digits.\<close>

definition base_match :: "string \<Rightarrow> (string \<times> string) option" where
  "base_match s =
     (if has_prefix s ''base-'' \<and> is_stamp (take 16 (drop 5 s)) then
        (let st = take 16 (drop 5 s); r = drop 21 s in
         if r = ''.tar.gz'' then Some (st, [])
         else if has_prefix r ''-g'' then
           (let ds = takeWhile is_digit (drop 2 r) in
            if ds \<noteq> [] \<and> dropWhile is_digit (drop 2 r) = ''.tar.gz'' then Some (st, ds) else None)
         else None)
      else None)"

text \<open>\<open>baseNameRe\<close> is anchored at the end only: the leftmost suffix that matches.\<close>

fun baseNameRe :: "string \<Rightarrow> (string \<times> string) option" where
  "baseNameRe [] = None"
| "baseNameRe (c # cs) = (case base_match (c # cs) of Some m \<Rightarrow> Some m | None \<Rightarrow> baseNameRe cs)"

text \<open>\<open>time.Parse\<close> of the stamp: civil date and time, in nanoseconds since 1970.\<close>

definition leap :: "int \<Rightarrow> bool" where
  "leap y \<longleftrightarrow> 4 dvd y \<and> (\<not> 100 dvd y \<or> 400 dvd y)"

definition days_in_month :: "int \<Rightarrow> int \<Rightarrow> int" where
  "days_in_month y m = (if m = 2 then (if leap y then 29 else 28) else if m \<in> {4, 6, 9, 11} then 30 else 31)"

definition days_before_year :: "int \<Rightarrow> int" where
  "days_before_year y = 365 * y + (y + 3) div 4 - (y + 99) div 100 + (y + 399) div 400"

definition epoch_days :: "int \<Rightarrow> int \<Rightarrow> int \<Rightarrow> int" where
  "epoch_days y m d =
     days_before_year y - days_before_year 1970 + (\<Sum>k \<leftarrow> [1..<nat m]. days_in_month y (int k)) + (d - 1)"

definition num_at :: "nat \<Rightarrow> nat \<Rightarrow> string \<Rightarrow> int" where
  "num_at i n s = (case digits_val 0 (take n (drop i s)) of Some v \<Rightarrow> v | None \<Rightarrow> 0)"

definition parse_stamp :: "string \<Rightarrow> int option" where
  "parse_stamp s =
     (let y = num_at 0 4 s; mo = num_at 4 2 s; d = num_at 6 2 s; h = num_at 9 2 s; mi = num_at 11 2 s; sec = num_at 13 2 s in
      if is_stamp s \<and> 1 \<le> mo \<and> mo \<le> 12 \<and> 1 \<le> d \<and> d \<le> days_in_month y mo \<and> h < 24 \<and> mi < 60 \<and> sec < 60
      then Some ((epoch_days y mo d * 86400 + h * 3600 + mi * 60 + sec) * Second) else None)"

definition parseBaseTimestamp :: "string \<Rightarrow> int option" where
  "parseBaseTimestamp nameOrURL = (case baseNameRe nameOrURL of None \<Rightarrow> None | Some (st, _) \<Rightarrow> parse_stamp st)"

definition parseBaseGeneration :: "string \<Rightarrow> int" where
  "parseBaseGeneration nameOrURL =
     (case baseNameRe nameOrURL of
        None \<Rightarrow> 0
      | Some (_, g) \<Rightarrow> if g = [] then 0 else (case atoi g of Some n \<Rightarrow> n | None \<Rightarrow> 0))"

section \<open>WAL segments\<close>

definition hex_val :: "char \<Rightarrow> int option" where
  "hex_val c = (let n = of_char c :: int in
     if 48 \<le> n \<and> n \<le> 57 then Some (n - 48) else if 65 \<le> n \<and> n \<le> 70 then Some (n - 55) else None)"

definition isFullWALSegment :: "string \<Rightarrow> bool" where
  "isFullWALSegment name =
     (let n = trim_space name in length n = 24 \<and> list_all (\<lambda>c. hex_val c \<noteq> None) n)"

definition hex_num :: "string \<Rightarrow> int" where
  "hex_num s = foldl (\<lambda>v c. 16 * v + (case hex_val c of Some d \<Rightarrow> d | None \<Rightarrow> 0)) 0 s"

text \<open>Timeline, log and segment of the names that are full segments.\<close>

definition wal_ids :: "string list \<Rightarrow> (int \<times> int \<times> int) list" where
  "wal_ids names =
     map (\<lambda>n. (hex_num (take 8 n), hex_num (take 8 (drop 8 n)), hex_num (take 8 (drop 16 n))))
       (filter isFullWALSegment (map trim_space names))"

definition segsPerLog :: int where "segsPerLog = 256"

definition seg_pos :: "int \<times> int \<Rightarrow> int" where
  "seg_pos ls = fst ls * segsPerLog + snd ls"

text \<open>The loop over the sorted segments; the unsigned difference read as an \<open>int\<close> is the signed one.\<close>

fun sum_gaps :: "(int \<times> int) list \<Rightarrow> int" where
  "sum_gaps (a # b # xs) =
     (let prev = seg_pos a; cur = seg_pos b in
      (if cur = prev then 0 else if cur \<noteq> prev + 1 then cur - prev - 1 else 0) + sum_gaps (b # xs))"
| "sum_gaps _ = 0"

definition top_segs :: "string list \<Rightarrow> (int \<times> int) list" where
  "top_segs names =
     (let ids = wal_ids names; maxTLI = fold (\<lambda>(t, _) m. if t > m then t else m) ids 0 in
      map snd (filter (\<lambda>(t, _). t = maxTLI) ids))"

definition countWALGaps :: "string list \<Rightarrow> int \<times> int" where
  "countWALGaps names =
     (if wal_ids names = [] then (0, 0)
      else let segs = sort (top_segs names) in (sum_gaps segs, int (length segs)))"

section \<open>Partial uploads\<close>

text \<open>The relay's parser: a bad offset or generation makes the name no partial upload.\<close>

definition partial_off :: "string \<Rightarrow> string \<Rightarrow> int \<Rightarrow> (string \<times> int \<times> int) option" where
  "partial_off sg rest gen =
     (case atoi rest of None \<Rightarrow> None | Some off \<Rightarrow> if off \<le> 0 then None else Some (sg, off, gen))"

definition parsePartialName :: "string \<Rightarrow> (string \<times> int \<times> int) option" where
  "parsePartialName n =
     (case str_index n ''.partial-'' of
        None \<Rightarrow> None
      | Some i \<Rightarrow>
          if i = 0 then None
          else (let sg = take i n; rest = drop (i + 9) n in
                case str_index rest ''-g'' of
                  None \<Rightarrow> partial_off sg rest 0
                | Some j \<Rightarrow> (case atoi (drop (j + 2) rest) of
                               None \<Rightarrow> None
                             | Some g \<Rightarrow> partial_off sg (take j rest) g)))"

fun best_loop :: "string \<Rightarrow> string list \<Rightarrow> string \<times> int \<times> int \<Rightarrow> string \<times> int \<times> int" where
  "best_loop sg [] acc = acc"
| "best_loop sg (n # ns) (best, bestOff, bestGen) =
     (case parsePartialName n of
        None \<Rightarrow> best_loop sg ns (best, bestOff, bestGen)
      | Some (s, off, gen) \<Rightarrow>
          if s \<noteq> sg then best_loop sg ns (best, bestOff, bestGen)
          else if gen > bestGen \<or> gen = bestGen \<and> off > bestOff then best_loop sg ns (n, off, gen)
          else best_loop sg ns (best, bestOff, bestGen))"

definition bestPartial :: "string list \<Rightarrow> string \<Rightarrow> string" where
  "bestPartial names sg = fst (best_loop sg names ([], -1, -1))"

text \<open>The janitor's parser: a generation that does not parse counts with the value \<open>ParseInt\<close> returns beside its error.\<close>

record pinfo =
  pi_name :: string
  pi_off :: int
  pi_gen :: int

definition has_partial_mark :: "string \<Rightarrow> bool" where
  "has_partial_mark n \<longleftrightarrow> (case str_index n ''.partial-'' of Some i \<Rightarrow> i > 0 | None \<Rightarrow> False)"

definition janitor_parse :: "string \<Rightarrow> (string \<times> pinfo) option" where
  "janitor_parse n =
     (case str_index n ''.partial-'' of
        None \<Rightarrow> None
      | Some i \<Rightarrow>
          if i = 0 then None
          else (let sg = take i n; rest = drop (i + 9) n;
                    (gen, rest') = (case str_index rest ''-g'' of
                                      None \<Rightarrow> (0, rest)
                                    | Some j \<Rightarrow> (parse_int64 (drop (j + 2) rest), take j rest))
                in case atoi rest' of
                     None \<Rightarrow> None
                   | Some off \<Rightarrow> if off \<le> 0 then None else Some (sg, \<lparr>pi_name = n, pi_off = off, pi_gen = gen\<rparr>)))"

definition partials_of :: "string list \<Rightarrow> string \<Rightarrow> pinfo list" where
  "partials_of names sg = map snd (filter (\<lambda>(s, _). s = sg) (List.map_filter janitor_parse names))"

definition full_seg :: "string list \<Rightarrow> string \<Rightarrow> bool" where
  "full_seg names n \<longleftrightarrow> n \<in> set names \<and> \<not> has_partial_mark n \<and> length n = 24"

fun best_index :: "pinfo list \<Rightarrow> nat \<Rightarrow> nat \<Rightarrow> pinfo \<Rightarrow> nat" where
  "best_index [] i best b = best"
| "best_index (p # ps) i best b =
     (if pi_gen p > pi_gen b \<or> pi_gen p = pi_gen b \<and> pi_off p > pi_off b
      then best_index ps (Suc i) i p else best_index ps (Suc i) best b)"

definition seg_dels :: "string list \<Rightarrow> string \<Rightarrow> string list" where
  "seg_dels names sg =
     (case partials_of names sg of
        [] \<Rightarrow> []
      | p # ps \<Rightarrow>
          if full_seg names sg then map pi_name (p # ps)
          else (let best = best_index ps 1 0 p in
                map (\<lambda>i. pi_name ((p # ps) ! i)) (filter (\<lambda>i. i \<noteq> best) [0..<length (p # ps)])))"

definition selectPartialsToDelete :: "string list \<Rightarrow> string list" where
  "selectPartialsToDelete names =
     sort (concat (map (seg_dels names) (remdups (map fst (List.map_filter janitor_parse names)))))"

section \<open>The janitor keeps what the relay serves\<close>

lemma atoi_parse_int64: "atoi s = Some x \<Longrightarrow> parse_int64 s = x"
  by (auto simp: atoi_def parse_int64_def Let_def split: option.splits prod.splits if_splits list.splits)

text \<open>The names of the uploader: a partial upload has an offset and a generation that parse.\<close>

definition partial_wf :: "string \<Rightarrow> bool" where
  "partial_wf n \<longleftrightarrow> has_partial_mark n \<longrightarrow> (case parsePartialName n of Some (s, off, g) \<Rightarrow> 0 \<le> g | None \<Rightarrow> False)"

lemma janitor_parse_name: "janitor_parse n = Some (s, p) \<Longrightarrow> pi_name p = n"
  by (auto simp: janitor_parse_def Let_def split: option.splits if_splits prod.splits)

lemma janitor_parse_mark: "janitor_parse n = Some sp \<Longrightarrow> has_partial_mark n"
  by (auto simp: janitor_parse_def has_partial_mark_def split: option.splits if_splits)

lemma janitor_parse_relay:
  assumes "parsePartialName n = Some (s, off, g)"
  shows "janitor_parse n = Some (s, \<lparr>pi_name = n, pi_off = off, pi_gen = g\<rparr>)"
  using assms atoi_parse_int64
  by (auto simp: parsePartialName_def janitor_parse_def partial_off_def Let_def split: option.splits if_splits)

lemma parsePartialName_mark: "parsePartialName n = Some x \<Longrightarrow> has_partial_mark n"
  by (auto simp: parsePartialName_def has_partial_mark_def split: option.splits if_splits)

lemma janitor_parse_wf:
  assumes "partial_wf n"
  shows "janitor_parse n = map_option (\<lambda>(s, off, g). (s, \<lparr>pi_name = n, pi_off = off, pi_gen = g\<rparr>)) (parsePartialName n)"
proof (cases "parsePartialName n")
  case None
  then have "\<not> has_partial_mark n" using assms by (auto simp: partial_wf_def)
  then have "janitor_parse n = None" using janitor_parse_mark by (cases "janitor_parse n") auto
  then show ?thesis using None by simp
next
  case (Some x)
  then show ?thesis using janitor_parse_relay [of n "fst x" "fst (snd x)" "snd (snd x)"] by (auto split: prod.splits)
qed

lemma parse_nonneg:
  "partial_wf n \<Longrightarrow> parsePartialName n = Some (s, off, g) \<Longrightarrow> 0 \<le> g \<and> 0 < off"
  using parsePartialName_mark [of n "(s, off, g)"]
  by (auto simp: partial_wf_def parsePartialName_def partial_off_def Let_def split: option.splits if_splits)

text \<open>The first best of a list.\<close>

definition better :: "pinfo \<Rightarrow> pinfo \<Rightarrow> bool" where
  "better p b \<longleftrightarrow> pi_gen p > pi_gen b \<or> pi_gen p = pi_gen b \<and> pi_off p > pi_off b"

fun pick :: "pinfo \<Rightarrow> pinfo list \<Rightarrow> pinfo" where
  "pick b [] = b"
| "pick b (p # ps) = (if better p b then pick p ps else pick b ps)"

lemma pick_in: "pick b ps \<in> set (b # ps)"
  by (induction ps arbitrary: b) auto

lemma best_index_pick:
  assumes "i < length qs" "qs ! i = b" "drop (length qs - length ps) qs = ps" "length ps \<le> length qs"
  shows "best_index ps (length qs - length ps) i b < length qs \<and> qs ! best_index ps (length qs - length ps) i b = pick b ps"
  using assms
proof (induction ps arbitrary: i b)
  case (Cons p ps)
  let ?k = "length qs - length (p # ps)"
  have k: "?k < length qs" "Suc ?k = length qs - length ps" using Cons.prems(4) by auto
  then have "drop ?k qs = qs ! ?k # drop (length qs - length ps) qs" using Cons_nth_drop_Suc [OF k(1)] by simp
  then have p: "qs ! ?k = p" "drop (length qs - length ps) qs = ps" using Cons.prems(3) by auto
  show ?case
  proof (cases "better p b")
    case True
    then show ?thesis using Cons.IH [of ?k p] k p Cons.prems(4) by (simp add: better_def)
  next
    case False
    then show ?thesis using Cons.IH [of i b] k p Cons.prems by (auto simp: better_def)
  qed
qed simp

lemma best_index_pick0: "best_index ps 1 0 p < length (p # ps) \<and> (p # ps) ! best_index ps 1 0 p = pick p ps"
  using best_index_pick [of 0 "p # ps" p ps] by simp

definition best_of :: "string list \<Rightarrow> string \<Rightarrow> pinfo option" where
  "best_of names sg = (case partials_of names sg of [] \<Rightarrow> None | p # ps \<Rightarrow> Some (pick p ps))"

lemma partials_of_simps [simp]:
  "partials_of [] sg = []"
  "partials_of (n # ns) sg =
     (case janitor_parse n of Some (s, p) \<Rightarrow> if s = sg then p # partials_of ns sg else partials_of ns sg | None \<Rightarrow> partials_of ns sg)"
  by (auto simp: partials_of_def map_filter_simps split: option.splits)

lemma best_loop_pick:
  assumes "\<forall>n \<in> set ns. partial_wf n" and "b = \<lparr>pi_name = n0, pi_off = off0, pi_gen = g0\<rparr>"
  shows "fst (best_loop sg ns (n0, off0, g0)) = pi_name (pick b (partials_of ns sg))"
  using assms
proof (induction ns arbitrary: b n0 off0 g0)
  case (Cons n ns)
  show ?case
  proof (cases "parsePartialName n")
    case None
    then show ?thesis using Cons by (simp add: janitor_parse_wf)
  next
    case (Some x)
    obtain s off g where x: "x = (s, off, g)" by (cases x)
    show ?thesis
    proof (cases "s = sg \<and> (g > g0 \<or> g = g0 \<and> off > off0)")
      case True
      then show ?thesis using Cons Some x by (simp add: janitor_parse_wf better_def)
    next
      case False
      then show ?thesis using Cons Some x by (auto simp: janitor_parse_wf better_def)
    qed
  qed
qed simp

lemma partials_of_in:
  "p \<in> set (partials_of names sg) \<longleftrightarrow> (\<exists>n \<in> set names. janitor_parse n = Some (sg, p))"
  by (induction names) (auto split: option.splits)

lemma bestPartial_best_of:
  assumes "\<forall>n \<in> set names. partial_wf n"
  shows "bestPartial names sg = (case best_of names sg of None \<Rightarrow> [] | Some p \<Rightarrow> pi_name p)"
proof (cases "partials_of names sg")
  case Nil
  then show ?thesis using best_loop_pick [OF assms refl, of sg "[]" "- 1" "- 1"]
    by (simp add: bestPartial_def best_of_def)
next
  case (Cons p ps)
  then obtain n where n: "n \<in> set names" "janitor_parse n = Some (sg, p)"
    using partials_of_in [of p names sg] by auto
  then obtain off g where p: "p = \<lparr>pi_name = n, pi_off = off, pi_gen = g\<rparr>" "parsePartialName n = Some (sg, off, g)"
    using janitor_parse_wf [of n] assms by auto
  then have "better p \<lparr>pi_name = [], pi_off = - 1, pi_gen = - 1\<rparr>"
    using parse_nonneg [of n sg off g] assms n(1) by (simp add: better_def)
  then show ?thesis using Cons best_loop_pick [OF assms refl, of sg "[]" "- 1" "- 1"]
    by (simp add: bestPartial_def best_of_def)
qed

text \<open>What is deleted: every partial upload of a segment that is archived in full, and all but the best of the others.\<close>

lemma partials_of_names: "map pi_name (partials_of names sg) = filter (\<lambda>n. \<exists>p. janitor_parse n = Some (sg, p)) names"
  by (induction names) (auto split: option.splits dest: janitor_parse_name)

lemma nth_image_except:
  "distinct qs \<Longrightarrow> b < length qs \<Longrightarrow> (!) qs ` {i. i < length qs \<and> i \<noteq> b} = set qs - {qs ! b}"
  by (auto simp: in_set_conv_nth nth_eq_iff_index_eq)

lemma seg_dels_set:
  assumes "distinct names"
  shows "set (seg_dels names sg) =
    {n \<in> set names. \<exists>p. janitor_parse n = Some (sg, p) \<and> (full_seg names sg \<or> best_of names sg \<noteq> Some p)}"
proof (cases "partials_of names sg")
  case Nil
  then show ?thesis using partials_of_in [of _ names sg] by (auto simp: seg_dels_def)
next
  case (Cons p ps)
  have dist: "distinct (map pi_name (p # ps))" using assms by (simp flip: Cons add: partials_of_names)
  have names: "pi_name ` {q \<in> set (p # ps). P q} = {n \<in> set names. \<exists>q. janitor_parse n = Some (sg, q) \<and> P q}" for P
    using janitor_parse_name by (force simp flip: Cons simp: partials_of_in)
  show ?thesis
  proof (cases "full_seg names sg")
    case True
    then have "set (seg_dels names sg) = pi_name ` {q \<in> set (p # ps). True}" using Cons by (auto simp: seg_dels_def)
    then show ?thesis using True by (simp only: names) simp
  next
    case False
    let ?b = "best_index ps 1 0 p"
    have "distinct (p # ps)" using dist distinct_map by blast
    from nth_image_except [OF this, of ?b]
    have "(!) (p # ps) ` {i. i < length (p # ps) \<and> i \<noteq> ?b} = {q \<in> set (p # ps). q \<noteq> pick p ps}"
      using best_index_pick0 [of ps p] by (simp only: set_diff_eq) simp
    moreover have "set (seg_dels names sg) = pi_name ` ((!) (p # ps) ` {i. i < length (p # ps) \<and> i \<noteq> ?b})"
    proof -
      have "{i. i < length (p # ps) \<and> i \<noteq> ?b} = set (filter (\<lambda>i. i \<noteq> ?b) [0..<length (p # ps)])" by auto
      then show ?thesis using False Cons by (simp add: seg_dels_def Let_def image_image del: upt_Suc)
    qed
    ultimately have "set (seg_dels names sg) = pi_name ` {q \<in> set (p # ps). q \<noteq> pick p ps}" by (simp only:)
    then show ?thesis using names [of "\<lambda>q. q \<noteq> pick p ps"] False Cons by (auto simp: best_of_def)
  qed
qed

lemma deleted_iff:
  assumes "distinct names"
  shows "n \<in> set (selectPartialsToDelete names) \<longleftrightarrow>
    n \<in> set names \<and> (\<exists>sg p. janitor_parse n = Some (sg, p) \<and> (full_seg names sg \<or> best_of names sg \<noteq> Some p))"
proof -
  have segs: "set (map fst (List.map_filter janitor_parse names)) = {sg. \<exists>n \<in> set names. \<exists>p. janitor_parse n = Some (sg, p)}"
    by (force simp: List.map_filter_def)
  show ?thesis
    unfolding selectPartialsToDelete_def set_sort set_concat set_map set_remdups image_image [symmetric]
    using segs seg_dels_set [OF assms] by auto
qed

lemma partials_of_filter:
  "partials_of (filter P names) sg = filter (\<lambda>p. P (pi_name p)) (partials_of names sg)"
  by (induction names) (auto split: option.splits dest: janitor_parse_name)

lemma distinct_single: "distinct xs \<Longrightarrow> x \<in> set xs \<Longrightarrow> filter (\<lambda>y. y = x) xs = [x]"
  by (induction xs) (auto simp: filter_empty_conv)

lemma best_of_kept:
  assumes "distinct names" and "\<not> full_seg names sg"
  shows "best_of (filter (\<lambda>n. n \<notin> set (selectPartialsToDelete names)) names) sg = best_of names sg"
proof (cases "partials_of names sg")
  case Nil
  then show ?thesis by (simp add: best_of_def partials_of_filter)
next
  case (Cons p ps)
  have dist: "distinct (p # ps)" using assms(1) distinct_map [of pi_name "p # ps"]
    by (simp flip: Cons add: partials_of_names)
  have "pi_name q \<notin> set (selectPartialsToDelete names) \<longleftrightarrow> q = pick p ps" if q: "q \<in> set (p # ps)" for q
  proof -
    have "q \<in> set (partials_of names sg)" using q Cons by simp
    then obtain n where n: "n \<in> set names" "janitor_parse n = Some (sg, q)" by (auto simp: partials_of_in)
    then have "pi_name q = n" by (simp add: janitor_parse_name)
    then show ?thesis using n assms(2) Cons by (auto simp: deleted_iff [OF assms(1)] best_of_def)
  qed
  then have "filter (\<lambda>q. pi_name q \<notin> set (selectPartialsToDelete names)) (p # ps) = filter (\<lambda>q. q = pick p ps) (p # ps)"
    by (intro filter_cong) auto
  also have "\<dots> = [pick p ps]" using distinct_single [OF dist pick_in] .
  finally show ?thesis using Cons by (simp only: best_of_def partials_of_filter) simp
qed

text \<open>
  An object that a recovery can do without: a partial upload of a segment that is archived in full, or of which another partial upload, not chosen for deletion, has a higher
  generation, or the same and no smaller offset.
\<close>

definition superseded :: "string list \<Rightarrow> string \<Rightarrow> bool" where
  "superseded names n \<longleftrightarrow> (\<exists>sg p. janitor_parse n = Some (sg, p)
     \<and> (sg \<in> set names \<or> (\<exists>n' \<in> set names - set (selectPartialsToDelete names). n' \<noteq> n
          \<and> (\<exists>q. janitor_parse n' = Some (sg, q) \<and> (pi_gen p < pi_gen q \<or> pi_gen p = pi_gen q \<and> pi_off p \<le> pi_off q)))))"

lemma pick_not_better: "q \<in> set (b # ps) \<Longrightarrow> \<not> better q (pick b ps)"
proof (induction ps arbitrary: b q)
  case (Cons p ps)
  show ?case
  proof (cases "better p b")
    case True
    then have "\<not> better b (pick p ps)" using Cons.IH [of p p] by (auto simp: better_def)
    then show ?thesis using Cons.IH [of q p] Cons.prems True by auto
  next
    case False
    then have "\<not> better p (pick b ps)" using Cons.IH [of b b] by (auto simp: better_def)
    then show ?thesis using Cons.IH [of q b] Cons.prems False by auto
  qed
qed (simp add: better_def)

lemma deleted_superseded:
  assumes "distinct names" and "n \<in> set (selectPartialsToDelete names)"
  shows "superseded names n"
proof -
  obtain sg p where n: "n \<in> set names" "janitor_parse n = Some (sg, p)" "full_seg names sg \<or> best_of names sg \<noteq> Some p"
    using assms(2) deleted_iff [OF assms(1)] by blast
  show ?thesis
  proof (cases "full_seg names sg")
    case True
    then show ?thesis using n(2) by (auto simp: superseded_def full_seg_def)
  next
    case False
    have p: "p \<in> set (partials_of names sg)" using n by (auto simp: partials_of_in)
    then obtain b bs where bs: "partials_of names sg = b # bs" by (cases "partials_of names sg") auto
    define q where "q = pick b bs"
    have q: "q \<in> set (partials_of names sg)" "best_of names sg = Some q" "\<not> better p q"
      using pick_in [of b bs] pick_not_better [of p b bs] p by (simp_all add: bs q_def best_of_def)
    then obtain n' where n': "n' \<in> set names" "janitor_parse n' = Some (sg, q)" by (auto simp: partials_of_in)
    have "n' \<notin> set (selectPartialsToDelete names)" using n'(2) False q(2) deleted_iff [OF assms(1)] by auto
    moreover have "n' \<noteq> n" using n(2,3) n'(2) q(2) False by auto
    moreover have "pi_gen p < pi_gen q \<or> pi_gen p = pi_gen q \<and> pi_off p \<le> pi_off q" using q(3) by (auto simp: better_def)
    ultimately show ?thesis using n(2) n' unfolding superseded_def by blast
  qed
qed

text \<open>The object the relay serves for a segment out of the archive \<open>names\<close>: the segment, else its best partial upload.\<close>

definition served :: "string list \<Rightarrow> string \<Rightarrow> string" where
  "served names sg = (if sg \<in> set names then sg else bestPartial names sg)"

text \<open>
  C27: For an archive listing with distinct names whose partial uploads have names as the uploader writes them (offset and generation parse), the janitor's housekeeping of
  partial WAL uploads does not change what a recovery reads: after deleting the objects \<open>selectPartialsToDelete\<close> picks, the relay serves for every
  WAL segment exactly the object it served before. The two sides, written separately, agree on
  the precedence of such names; only partial uploads are deleted. With another name in the listing this can fail (\<open>janitor_deletes_served_partial\<close>).
\<close>

theorem janitor_keeps_served:
  assumes "distinct names" and "\<forall>n \<in> set names. partial_wf n" and "\<not> has_partial_mark sg" and "length sg = 24"
  shows "served (filter (\<lambda>n. n \<notin> set (selectPartialsToDelete names)) names) sg = served names sg
    \<and> (\<forall>n \<in> set (selectPartialsToDelete names). has_partial_mark n)"
proof -
  let ?kept = "filter (\<lambda>n. n \<notin> set (selectPartialsToDelete names)) names"
  have marks: "has_partial_mark n" if "n \<in> set (selectPartialsToDelete names)" for n
    using that janitor_parse_mark by (auto simp: deleted_iff [OF assms(1)])
  then have full: "sg \<in> set ?kept \<longleftrightarrow> sg \<in> set names" using assms(3) by auto
  have "bestPartial ?kept sg = bestPartial names sg" if "sg \<notin> set names"
    using best_of_kept [OF assms(1), of sg] that assms(2) by (simp add: bestPartial_best_of full_seg_def)
  then show ?thesis using full marks by (simp add: served_def)
qed

definition demo_seg :: string where "demo_seg = ''000000010000000000000001''"

definition demo_partials :: "string list" where
  "demo_partials = [demo_seg @ ''.partial-300-g1'', demo_seg @ ''.partial-100-g2'', demo_seg @ ''.partial-900-g1'']"

theorem janitor_keeps_served_witness:
  "served (filter (\<lambda>n. n \<notin> set (selectPartialsToDelete demo_partials)) demo_partials) demo_seg = demo_seg @ ''.partial-100-g2''
    \<and> length (selectPartialsToDelete demo_partials) = 2"
proof -
  have "distinct demo_partials" "\<forall>n \<in> set demo_partials. partial_wf n" "\<not> has_partial_mark demo_seg" "length demo_seg = 24"
    by code_simp+
  from janitor_keeps_served [OF this]
  have "served (filter (\<lambda>n. n \<notin> set (selectPartialsToDelete demo_partials)) demo_partials) demo_seg = served demo_partials demo_seg" by blast
  moreover have "served demo_partials demo_seg = demo_seg @ ''.partial-100-g2''" "length (selectPartialsToDelete demo_partials) = 2"
    by code_simp+
  ultimately show ?thesis by simp
qed

text \<open>
  The agreement needs well-formed names. The janitor reads a generation that does not parse as 0 and still counts the upload, the relay
  ignores it: with such a name in the archive the janitor deletes the only partial upload the relay
  can serve, and the recovery loses the tail of the log.
\<close>

lemma janitor_deletes_served_partial:
  "\<exists>names sg. distinct names \<and> served names sg \<noteq> []
    \<and> served (filter (\<lambda>n. n \<notin> set (selectPartialsToDelete names)) names) sg = []"
proof -
  let ?names = "[demo_seg @ ''.partial-100'', demo_seg @ ''.partial-200-gx'']"
  have "distinct ?names" "served ?names demo_seg \<noteq> []"
    "served (filter (\<lambda>n. n \<notin> set (selectPartialsToDelete ?names)) ?names) demo_seg = []" by code_simp+
  then show ?thesis by blast
qed

section \<open>Gaps\<close>

lemma fold_max: "fold (\<lambda>(t, _) m. if t > m then t else m) ids m = Max (insert m (fst ` set ids))" for m :: int
proof (induction ids arbitrary: m)
  case (Cons x ids)
  have "Max (insert (max (fst x) m) (fst ` set ids)) = Max (insert m (insert (fst x) (fst ` set ids)))"
    by (cases "ids = []") (simp_all add: max.commute max.left_commute Max_insert)
  then show ?case using Cons.IH [of "if fst x > m then fst x else m"] by (simp add: case_prod_beta max_def split: if_splits)
qed simp

lemma hex_num_nonneg: "0 \<le> hex_num s"
proof -
  have "0 \<le> v \<Longrightarrow> 0 \<le> foldl (\<lambda>v c. 16 * v + (case hex_val c of Some d \<Rightarrow> d | None \<Rightarrow> 0)) v s" for v :: int
  proof (induction s arbitrary: v)
    case (Cons c s)
    have "(0 :: int) \<le> (case hex_val c of Some d \<Rightarrow> d | None \<Rightarrow> 0)"
      by (auto simp: hex_val_def Let_def split: option.splits if_splits)
    then show ?case using Cons by simp
  qed simp
  then show ?thesis by (simp add: hex_num_def)
qed

text \<open>The positions archived on the highest timeline.\<close>

definition live_positions :: "string list \<Rightarrow> int set" where
  "live_positions names =
     {l * 256 + s | t l s. (t, l, s) \<in> set (wal_ids names) \<and> (\<forall>(t', _) \<in> set (wal_ids names). t' \<le> t)}"

lemma wal_ids_nonneg: "(t, l, s) \<in> set (wal_ids names) \<Longrightarrow> 0 \<le> t \<and> 0 \<le> l \<and> 0 \<le> s"
  by (auto simp: wal_ids_def hex_num_nonneg)

lemma top_segs_set:
  "set (top_segs names) = {(l, s) | t l s. (t, l, s) \<in> set (wal_ids names) \<and> (\<forall>(t', _) \<in> set (wal_ids names). t' \<le> t)}"
proof (cases "wal_ids names = []")
  case False
  let ?T = "fst ` set (wal_ids names)"
  have "\<forall>t \<in> ?T. 0 \<le> t" using wal_ids_nonneg by fastforce
  moreover have "Max ?T \<in> ?T" using False by (intro Max_in) auto
  ultimately have "0 \<le> Max ?T" by blast
  then have mx: "Max (insert 0 ?T) = Max ?T" using False by (simp add: Max_insert max_def)
  have "t = Max ?T \<longleftrightarrow> (\<forall>(t', _) \<in> set (wal_ids names). t' \<le> t)" if "(t, l, s) \<in> set (wal_ids names)" for t l s
  proof
    show "t = Max ?T \<Longrightarrow> \<forall>(t', _) \<in> set (wal_ids names). t' \<le> t" by (auto intro!: Max_ge rev_image_eqI)
    assume "\<forall>(t', _) \<in> set (wal_ids names). t' \<le> t"
    then show "t = Max ?T" using that by (intro Max_eqI [symmetric]) (auto intro: rev_image_eqI)
  qed
  then have eq: "(t, l, s) \<in> set (wal_ids names) \<and> t = Max ?T \<longleftrightarrow>
      (t, l, s) \<in> set (wal_ids names) \<and> (\<forall>(t', _) \<in> set (wal_ids names). t' \<le> t)" for t l s by blast
  have "set (top_segs names) = {(l, s) | t l s. (t, l, s) \<in> set (wal_ids names) \<and> t = Max ?T}"
    unfolding top_segs_def Let_def fold_max mx by (force simp: image_iff)
  then show ?thesis by (simp only: eq)
qed (simp add: top_segs_def)

lemma live_positions_top: "live_positions names = seg_pos ` set (top_segs names)"
  by (auto simp: live_positions_def top_segs_set seg_pos_def segsPerLog_def image_iff) blast+

lemma sum_gaps_sorted:
  assumes "sorted (map seg_pos xs)" and "xs \<noteq> []"
  shows "sum_gaps xs = seg_pos (last xs) - seg_pos (hd xs) + 1 - int (card (seg_pos ` set xs))"
  using assms
proof (induction xs rule: sum_gaps.induct)
  case (1 a b xs)
  have IH: "sum_gaps (b # xs) = seg_pos (last (b # xs)) - seg_pos b + 1 - int (card (seg_pos ` set (b # xs)))"
    using 1 by simp
  have le: "seg_pos a \<le> seg_pos b" "\<forall>x \<in> set (b # xs). seg_pos b \<le> seg_pos x" using 1(2) by auto
  show ?case
  proof (cases "seg_pos a = seg_pos b")
    case True
    then show ?thesis using IH by (simp add: insert_absorb Let_def)
  next
    case False
    then have "seg_pos a \<notin> seg_pos ` set (b # xs)" using le by fastforce
    then have "card (seg_pos ` set (a # b # xs)) = Suc (card (seg_pos ` set (b # xs)))" by simp
    then show ?thesis using IH False by (simp add: Let_def)
  qed
qed auto

lemma sorted_ends: "sorted (map f xs) \<Longrightarrow> x \<in> set xs \<Longrightarrow> f (hd xs) \<le> f x \<and> f x \<le> f (last xs)" for f :: "'a \<Rightarrow> int"
  by (induction xs) auto

text \<open>
  C28: The gap count of the health scrub is exact. For archive listings whose segment numbers are below 256, as Postgres names them,
  it is the number of positions between the first and the last segment of the highest timeline that are missing from the archive,
  however the listing is ordered and whatever duplicates and other objects it holds; it is 0 exactly when that timeline has no hole.
\<close>

theorem countWALGaps_exact:
  assumes "\<And>t l s. (t, l, s) \<in> set (wal_ids names) \<Longrightarrow> s < 256"
  shows "fst (countWALGaps names) =
    int (card {k. k \<notin> live_positions names \<and> (\<exists>a \<in> live_positions names. \<exists>b \<in> live_positions names. a \<le> k \<and> k \<le> b)})"
proof (cases "wal_ids names = []")
  case True
  then show ?thesis by (simp add: countWALGaps_def live_positions_def)
next
  case False
  let ?xs = "sort (top_segs names)"
  have fin: "finite (live_positions names)" by (simp add: live_positions_top)
  have top: "0 \<le> l \<and> 0 \<le> s \<and> s < 256" if "(l, s) \<in> set (top_segs names)" for l s
    using that assms wal_ids_nonneg by (auto simp: top_segs_set)
  obtain x where "x \<in> set (wal_ids names)" "fst x = Max (fst ` set (wal_ids names))"
    using Max_in [of "fst ` set (wal_ids names)"] False by fastforce
  then have ne: "?xs \<noteq> []"
  proof -
    assume x: "x \<in> set (wal_ids names)" "fst x = Max (fst ` set (wal_ids names))"
    have "fst y \<le> fst x" if "y \<in> set (wal_ids names)" for y
      unfolding x(2) by (rule Max_ge) (use that in simp_all)
    then have "\<forall>(t', _) \<in> set (wal_ids names). t' \<le> fst x" by force
    then have "snd x \<in> set (top_segs names)" using x(1) unfolding top_segs_set by (cases x) auto
    then show ?thesis by (metis empty_iff list.set(1) set_sort)
  qed
  have "seg_pos a \<le> seg_pos b" if "a \<le> b" "a \<in> set ?xs" "b \<in> set ?xs" for a b
    using that top [of "fst a" "snd a"] top [of "fst b" "snd b"] by (auto simp: seg_pos_def segsPerLog_def less_eq_prod_def less_le)
  then have srt: "sorted (map seg_pos ?xs)"
    unfolding sorted_map by (intro sorted_wrt_mono_rel [OF _ sorted_sort]) auto
  have P: "live_positions names = seg_pos ` set ?xs" by (simp add: live_positions_top)
  have ends: "seg_pos (hd ?xs) \<in> live_positions names" "seg_pos (last ?xs) \<in> live_positions names"
    using ne by (simp_all only: P) (auto intro!: imageI simp del: set_sort)
  have range: "live_positions names \<subseteq> {seg_pos (hd ?xs)..seg_pos (last ?xs)}"
    using sorted_ends [OF srt] by (auto simp: P simp del: set_sort)
  then have "{k. k \<notin> live_positions names \<and> (\<exists>a \<in> live_positions names. \<exists>b \<in> live_positions names. a \<le> k \<and> k \<le> b)}
      = {seg_pos (hd ?xs)..seg_pos (last ?xs)} - live_positions names"
    using ends by (auto; force)
  moreover have "int (card ({seg_pos (hd ?xs)..seg_pos (last ?xs)} - live_positions names))
      = seg_pos (last ?xs) - seg_pos (hd ?xs) + 1 - int (card (live_positions names))"
    using range ends card_mono [OF _ range] by (simp add: card_Diff_subset fin of_nat_diff) (use range ends in force)
  ultimately show ?thesis using sum_gaps_sorted [OF srt ne] False by (simp add: countWALGaps_def Let_def P)
qed

definition demo_wals :: "string list" where
  "demo_wals = [''00000002000000000000000A'', ''0000000200000000000000FF'', ''000000020000000100000001'', ''000000010000000000000005'',
     ''0000000200000000000000FF'', ''00000002.history'']"

theorem countWALGaps_exact_witness:
  "int (card {k. k \<notin> live_positions demo_wals \<and> (\<exists>a \<in> live_positions demo_wals. \<exists>b \<in> live_positions demo_wals. a \<le> k \<and> k \<le> b)}) = 245
    \<and> snd (countWALGaps demo_wals) = 4"
proof -
  have "s < 256" if "(t, l, s) \<in> set (wal_ids demo_wals)" for t l s
  proof -
    have "wal_ids demo_wals = [(2, 0, 10), (2, 0, 255), (2, 1, 1), (1, 0, 5), (2, 0, 255)]" by code_simp
    then show ?thesis using that by auto
  qed
  moreover have "countWALGaps demo_wals = (245, 4)" by code_simp
  ultimately show ?thesis using countWALGaps_exact [of demo_wals] by simp
qed

text \<open>The name the partial uploader gives decodes to what it was built from.\<close>

definition partial_name :: "string \<Rightarrow> int \<Rightarrow> string \<Rightarrow> string" where
  "partial_name sg off gen = sg @ ''.partial-'' @ dec_int off @ ''-g'' @ gen"

lemma digits_val_snoc: "digits_val a (xs @ [c]) = Option.bind (digits_val a xs) (\<lambda>v. map_option (\<lambda>d. 10 * v + d) (digit_val c))"
  by (induction xs arbitrary: a) (auto split: option.splits)

lemma digit_val_char: "d < 10 \<Longrightarrow> digit_val (char_of (48 + d)) = Some (int d)"
proof -
  assume d: "d < 10"
  have "(of_char (char_of (48 + d) :: char) :: int) = int (of_char (char_of (48 + d) :: char))"
    by (rule of_nat_of_char [symmetric])
  also have "\<dots> = 48 + int d" using d by (simp add: of_char_of)
  finally show ?thesis using d by (simp add: digit_val_def Let_def)
qed

lemma digits_val_dec: "digits_val 0 (dec n) = Some (int n)"
proof (induction n rule: dec.induct)
  case (1 n)
  show ?case
  proof (cases "n < 10")
    case True
    then show ?thesis by (subst dec.simps) (simp add: digit_val_char)
  next
    case False
    then show ?thesis using 1 by (subst dec.simps) (simp add: digits_val_snoc digit_val_char zdiv_int zmod_int)
  qed
qed

lemma atoi_dec: "n < 2 ^ 63 \<Longrightarrow> atoi (dec n) = Some (int n)"
proof -
  assume n: "n < 2 ^ 63"
  obtain c cs where c: "dec n = c # cs" by (cases "dec n") (use dec_not_Nil in auto)
  then have "c \<noteq> CHR ''-''" "c \<noteq> CHR ''+''" using dec_digits [of c n] by auto
  then show ?thesis using n digits_val_dec [of n] c by (auto simp: atoi_def)
qed

lemma str_index_first:
  assumes "c \<notin> set a"
  shows "str_index (a @ c # rest) (c # sub) = (if has_prefix rest sub then Some (length a) else map_option (\<lambda>i. Suc (length a + i)) (str_index rest (c # sub)))"
  using assms by (induction a) (auto simp: has_prefix_def option.map_comp comp_def)

lemma partial_name_roundtrip:
  assumes "CHR ''.'' \<notin> set sg" and "sg \<noteq> []" and "0 < off" "off < 2 ^ 63" and "g < 2 ^ 63"
  shows "parsePartialName (partial_name sg (int off) (dec g)) = Some (sg, int off, int g)"
proof -
  have d: "CHR ''-'' \<notin> set (dec off)" using dec_digits [of "CHR ''-''" off] by auto
  have name: "partial_name sg (int off) (dec g) = sg @ CHR ''.'' # ''partial-'' @ dec off @ CHR ''-'' # ''g'' @ dec g"
    by (simp add: partial_name_def dec_int_def)
  have i: "str_index (partial_name sg (int off) (dec g)) ''.partial-'' = Some (length sg)"
    unfolding name using str_index_first [OF assms(1)] by (simp add: has_prefix_def)
  have j: "str_index (dec off @ CHR ''-'' # CHR ''g'' # dec g) ''-g'' = Some (length (dec off))"
    using str_index_first [OF d, of "CHR ''g'' # dec g" "''g''"] by (simp add: has_prefix_def)
  have rest: "take (length sg) (partial_name sg (int off) (dec g)) = sg"
    "drop (length sg + 9) (partial_name sg (int off) (dec g)) = dec off @ CHR ''-'' # CHR ''g'' # dec g"
    by (simp_all add: name)
  have "atoi (dec off) = Some (int off)" "atoi (dec g) = Some (int g)" using assms(4,5) by (simp_all add: atoi_dec)
  then show ?thesis using assms(2,3) by (simp add: parsePartialName_def i rest j Let_def partial_off_def)
qed

text \<open>So the uploader's names are well-formed.\<close>

lemma partial_name_wf:
  "CHR ''.'' \<notin> set sg \<Longrightarrow> sg \<noteq> [] \<Longrightarrow> 0 < off \<Longrightarrow> off < 2 ^ 63 \<Longrightarrow> g < 2 ^ 63 \<Longrightarrow> partial_wf (partial_name sg (int off) (dec g))"
  by (simp add: partial_wf_def partial_name_roundtrip)

end
