(* ===== verification/Archive_Janitor.thy ===== *)
theory Archive_Janitor
  imports Archive_Names "HOL-Library.Multiset"
begin

text \<open>
  Fencing and hygiene of database archives in the control plane: the generation, lease and health tables, the circuit breaker
  (\<^verbatim>\<open>src/api/cmd/api/db_fencing.go\<close>), retention, pruning and purging (\<^verbatim>\<open>db_archive.go\<close>) and the janitor sweep
  (\<^verbatim>\<open>databases.go\<close>).

  A database handle is \<open>None\<close> for the nil handle. Every statement has an outcome: it runs, it fails without effect, or it runs
  and its answer is lost. Other replicas act between two statements, so an operation with several statements takes the
  tables each of them sees. \<open>sort.Slice\<close> is the argument \<open>srt\<close>, \<open>time.Parse\<close> of RFC 3339 is \<open>parseTime\<close>, \<open>uuid.Parse\<close> is
  \<open>uuidOk\<close>; times are nanoseconds, \<open>None\<close> the zero time.
\<close>

section \<open>Tables\<close>

record arch_lease =
  al_db :: string
  al_holder :: string
  al_purpose :: string
  al_expires :: int

record arch_row =
  ar_status :: string
  ar_created :: int
  ar_metadata :: string

record arch_db =
  ad_gens :: "string \<rightharpoonup> int \<times> string"
  ad_leases :: "arch_lease list"
  ad_health :: "string \<rightharpoonup> string \<times> string \<times> int"
  ad_rows :: "(string \<times> arch_row) list"
  ad_sweep :: "int option"

datatype query = QOk | QFail | QLost

text \<open>The effect of a statement and whether the caller sees it succeed.\<close>

definition exec :: "query \<Rightarrow> (arch_db \<Rightarrow> arch_db) \<Rightarrow> arch_db \<Rightarrow> bool \<times> arch_db" where
  "exec q f db = (case q of QOk \<Rightarrow> (True, f db) | QFail \<Rightarrow> (False, db) | QLost \<Rightarrow> (False, f db))"

section \<open>Generations\<close>

definition seedArchiveGeneration :: "query \<Rightarrow> string \<Rightarrow> arch_db option \<Rightarrow> bool \<times> arch_db option" where
  "seedArchiveGeneration q i dbo =
     (case dbo of
        None \<Rightarrow> (True, None)
      | Some db \<Rightarrow>
          (let (ok, db') = exec q (\<lambda>d. d\<lparr>ad_gens := (if ad_gens d i = None then (ad_gens d)(i \<mapsto> (1, ''create'')) else ad_gens d)\<rparr>) db
           in (ok, Some db')))"

text \<open>The upsert fails when the counter would leave \<open>BIGINT\<close>.\<close>

definition bump_row :: "string \<Rightarrow> string \<Rightarrow> arch_db \<Rightarrow> (int \<times> arch_db) option" where
  "bump_row i holder db =
     (case ad_gens db i of
        None \<Rightarrow> Some (2, db\<lparr>ad_gens := (ad_gens db)(i \<mapsto> (2, holder))\<rparr>)
      | Some (g, _) \<Rightarrow>
          if g + 1 < 2 ^ 63 then Some (g + 1, db\<lparr>ad_gens := (ad_gens db)(i \<mapsto> (g + 1, holder))\<rparr>) else None)"

definition bumpArchiveGeneration :: "query \<Rightarrow> string \<Rightarrow> string \<Rightarrow> arch_db option \<Rightarrow> int option \<times> arch_db option" where
  "bumpArchiveGeneration q i holder dbo =
     (case dbo of
        None \<Rightarrow> (Some 1, None)
      | Some db \<Rightarrow>
          (case (q, bump_row i holder db) of
             (QOk, Some (g, db')) \<Rightarrow> (Some g, Some db')
           | (QLost, Some (g, db')) \<Rightarrow> (None, Some db')
           | _ \<Rightarrow> (None, Some db)))"

text \<open>Three attempts; \<open>tries\<close> gives for each whether the context ends in the wait before it, and its outcome.\<close>

fun bump_retry :: "(bool \<times> query) list \<Rightarrow> string \<Rightarrow> string \<Rightarrow> arch_db option \<Rightarrow> int option \<times> arch_db option" where
  "bump_retry [] i holder dbo = (None, dbo)"
| "bump_retry ((cancelled, q) # tries) i holder dbo =
     (if cancelled then (None, dbo)
      else case bumpArchiveGeneration q i holder dbo of
        (Some g, dbo') \<Rightarrow> (Some g, dbo')
      | (None, dbo') \<Rightarrow> bump_retry tries i holder dbo')"

definition bumpArchiveGenerationRetry ::
  "query \<Rightarrow> bool \<times> query \<Rightarrow> bool \<times> query \<Rightarrow> string \<Rightarrow> string \<Rightarrow> arch_db option \<Rightarrow> int option \<times> arch_db option" where
  "bumpArchiveGenerationRetry q1 t2 t3 i holder dbo =
     (if dbo = None then (Some 1, None) else bump_retry [(False, q1), t2, t3] i holder dbo)"

definition currentArchiveGeneration :: "query \<Rightarrow> string \<Rightarrow> arch_db option \<Rightarrow> int \<times> bool" where
  "currentArchiveGeneration q i dbo =
     (case dbo of
        None \<Rightarrow> (0, False)
      | Some db \<Rightarrow> if q \<noteq> QOk then (0, False)
                   else case ad_gens db i of Some (g, _) \<Rightarrow> (g, True) | None \<Rightarrow> (0, False))"

section \<open>Leases\<close>

definition acquireArchiveLease ::
  "query \<Rightarrow> int \<Rightarrow> string \<Rightarrow> string \<Rightarrow> string \<Rightarrow> int \<Rightarrow> arch_db option \<Rightarrow> bool \<times> arch_db option" where
  "acquireArchiveLease q now i holder purpose ttl dbo =
     (case dbo of
        None \<Rightarrow> (True, None)
      | Some db \<Rightarrow>
          (let (ok, db') = exec q (\<lambda>d. d\<lparr>ad_leases := \<lparr>al_db = i, al_holder = holder, al_purpose = purpose, al_expires = now + ttl\<rparr> # ad_leases d\<rparr>) db
           in (ok, Some db')))"

definition releaseArchiveLease :: "query \<Rightarrow> string \<Rightarrow> string \<Rightarrow> arch_db option \<Rightarrow> arch_db option" where
  "releaseArchiveLease q i holder dbo =
     map_option (\<lambda>db. snd (exec q (\<lambda>d. d\<lparr>ad_leases := filter (\<lambda>l. \<not> (al_db l = i \<and> al_holder l = holder)) (ad_leases d)\<rparr>) db)) dbo"

definition lease_live :: "int \<Rightarrow> string \<Rightarrow> arch_db \<Rightarrow> bool" where
  "lease_live now i db \<longleftrightarrow> list_ex (\<lambda>l. al_db l = i \<and> al_expires l > now) (ad_leases db)"

definition archiveLeaseActive :: "query \<Rightarrow> int \<Rightarrow> string \<Rightarrow> arch_db option \<Rightarrow> bool" where
  "archiveLeaseActive q now i dbo =
     (case dbo of None \<Rightarrow> False | Some db \<Rightarrow> if q = QOk then lease_live now i db else True)"

definition expireArchiveLeases :: "query \<Rightarrow> int \<Rightarrow> arch_db option \<Rightarrow> arch_db option" where
  "expireArchiveLeases q now dbo =
     map_option (\<lambda>db. snd (exec q (\<lambda>d. d\<lparr>ad_leases := filter (\<lambda>l. \<not> al_expires l < now - 3600 * Second) (ad_leases d)\<rparr>) db)) dbo"

section \<open>Circuit breaker\<close>

record loopBreaker =
  lb_trip :: int
  lb_park :: int
  lb_fails :: int
  lb_parkedUntil :: "int option"
  lb_tripped :: bool

definition newLoopBreaker :: "int \<Rightarrow> int \<Rightarrow> loopBreaker" where
  "newLoopBreaker trip park = \<lparr>lb_trip = trip, lb_park = park, lb_fails = 0, lb_parkedUntil = None, lb_tripped = False\<rparr>"

definition lb_Allow :: "int \<Rightarrow> loopBreaker \<Rightarrow> bool" where
  "lb_Allow now b = (case lb_parkedUntil b of None \<Rightarrow> True | Some p \<Rightarrow> now > p)"

definition lb_Success :: "loopBreaker \<Rightarrow> loopBreaker" where
  "lb_Success b = b\<lparr>lb_fails := 0, lb_tripped := False, lb_parkedUntil := None\<rparr>"

definition lb_Fail :: "int \<Rightarrow> loopBreaker \<Rightarrow> bool \<times> loopBreaker" where
  "lb_Fail now b =
     (let b1 = b\<lparr>lb_fails := lb_fails b + 1\<rparr> in
      if lb_fails b1 \<ge> lb_trip b1 \<and> \<not> lb_tripped b1
      then (True, b1\<lparr>lb_tripped := True, lb_parkedUntil := Some (now + lb_park b1)\<rparr>)
      else if lb_tripped b1 then (False, b1\<lparr>lb_parkedUntil := Some (now + lb_park b1)\<rparr>)
      else (False, b1))"

section \<open>Retention\<close>

record backupObj =
  bo_URL :: string
  bo_Timestamp :: int
  bo_Size :: int

record walObj =
  wo_URL :: string
  wo_Mtime :: int

definition Hour :: int where "Hour = 3600 * Second"
definition defaultRetentionDays :: int where "defaultRetentionDays = 30"
definition walPruneMargin :: int where "walPruneMargin = 6 * Hour"
definition orphanPurgeGrace :: int where "orphanPurgeGrace = 7 * 24 * Hour"

definition envDaysOr :: "environ \<Rightarrow> string \<Rightarrow> int \<Rightarrow> int" where
  "envDaysOr env key def =
     (let v = trim_space (env key) in
      if v \<noteq> [] then (case atoi v of Some n \<Rightarrow> if n > 0 then n else def | None \<Rightarrow> def) else def)"

definition retentionEnabled :: "environ \<Rightarrow> bool" where
  "retentionEnabled env \<longleftrightarrow> env ''PANDASTACK_BACKUP_RETENTION'' \<noteq> ''0''"

definition janitorPurgeEnabled :: "environ \<Rightarrow> bool" where
  "janitorPurgeEnabled env \<longleftrightarrow> env ''PANDASTACK_BACKUP_JANITOR_PURGE'' \<noteq> ''0''"

fun min_ts :: "int \<Rightarrow> backupObj list \<Rightarrow> int" where
  "min_ts m [] = m"
| "min_ts m (b # bs) = min_ts (if bo_Timestamp b < m then bo_Timestamp b else m) bs"

definition oldestTS :: "backupObj list \<Rightarrow> int option" where
  "oldestTS bases = (case bases of [] \<Rightarrow> None | b # bs \<Rightarrow> Some (min_ts (bo_Timestamp b) bs))"

type_synonym slice_sort = "(backupObj \<Rightarrow> backupObj \<Rightarrow> bool) \<Rightarrow> backupObj list \<Rightarrow> backupObj list"

definition older :: "backupObj \<Rightarrow> backupObj \<Rightarrow> bool" where
  "older a b \<longleftrightarrow> bo_Timestamp a < bo_Timestamp b"

text \<open>The URLs kept: the newest base, those inside the window, and the newest one before it.\<close>

definition keep_urls :: "backupObj list \<Rightarrow> int \<Rightarrow> string list" where
  "keep_urls bs cutoff =
     bo_URL (List.last bs) # map bo_URL (filter (\<lambda>b. \<not> bo_Timestamp b < cutoff) bs)
       @ (case find (\<lambda>b. bo_Timestamp b < cutoff) (rev bs) of Some b \<Rightarrow> [bo_URL b] | None \<Rightarrow> [])"

fun anchor_loop :: "string list \<Rightarrow> backupObj list \<Rightarrow> bool \<Rightarrow> int \<Rightarrow> int" where
  "anchor_loop keep [] first anchor = anchor"
| "anchor_loop keep (b # bs) first anchor =
     (if bo_URL b \<in> set keep \<and> (first \<or> bo_Timestamp b < anchor) then anchor_loop keep bs False (bo_Timestamp b)
      else anchor_loop keep bs first anchor)"

definition selectBasesToDelete :: "slice_sort \<Rightarrow> backupObj list \<Rightarrow> int \<Rightarrow> int \<Rightarrow> backupObj list \<times> int option" where
  "selectBasesToDelete srt bases window now =
     (if length bases \<le> 1 then ([], oldestTS bases)
      else let bs = srt older bases; keep = keep_urls bs (now - window) in
        (filter (\<lambda>b. bo_URL b \<notin> set keep) bs, Some (anchor_loop keep bs True now)))"

definition selectWALToDelete :: "walObj list \<Rightarrow> int option \<Rightarrow> int \<Rightarrow> walObj list" where
  "selectWALToDelete wals anchor margin =
     (case anchor of None \<Rightarrow> [] | Some a \<Rightarrow> filter (\<lambda>w. wo_Mtime w < a - margin) wals)"

section \<open>Listings\<close>

text \<open>The output of \<open>gsutil ls\<close>, or its error text.\<close>

datatype gs_out = GsOk "string list" | GsFail string

definition isGsutilNotFound :: "string \<Rightarrow> bool" where
  "isGsutilNotFound s \<longleftrightarrow> str_contains s ''matched no objects'' \<or> str_contains s ''No URLs matched'' \<or> str_contains s ''NotFoundException''"

definition parseGsutilLongLine :: "(string \<Rightarrow> int option) \<Rightarrow> string \<Rightarrow> (int \<times> int \<times> string) option" where
  "parseGsutilLongLine parseTime line =
     (let f = str_fields line in
      if length f < 3 then None
      else let url = List.last f in
        if \<not> has_prefix url ''gs://'' \<or> (url \<noteq> [] \<and> List.last url = CHR ''/'') then None
        else case (atoi (f ! 0), parseTime (f ! 1)) of (Some sz, Some t) \<Rightarrow> Some (sz, t, url) | _ \<Rightarrow> None)"

definition base_obj :: "(string \<Rightarrow> int option) \<Rightarrow> string \<Rightarrow> backupObj option" where
  "base_obj parseTime line =
     (case parseGsutilLongLine parseTime line of
        None \<Rightarrow> None
      | Some (sz, mtime, url) \<Rightarrow>
          Some \<lparr>bo_URL = url, bo_Timestamp = (case parseBaseTimestamp url of Some ts \<Rightarrow> ts | None \<Rightarrow> mtime), bo_Size = sz\<rparr>)"

definition listBaseBackups :: "slice_sort \<Rightarrow> (string \<Rightarrow> int option) \<Rightarrow> gs_out \<Rightarrow> backupObj list option" where
  "listBaseBackups srt parseTime out =
     (case out of
        GsFail s \<Rightarrow> if isGsutilNotFound s then Some [] else None
      | GsOk ls \<Rightarrow> Some (srt (\<lambda>a b. older b a) (List.map_filter (base_obj parseTime) ls)))"

definition listWALObjects :: "(string \<Rightarrow> int option) \<Rightarrow> gs_out \<Rightarrow> walObj list option" where
  "listWALObjects parseTime out =
     (case out of
        GsFail s \<Rightarrow> if isGsutilNotFound s then Some [] else None
      | GsOk ls \<Rightarrow> Some (map (\<lambda>(sz, mtime, url). \<lparr>wo_URL = url, wo_Mtime = mtime\<rparr>) (List.map_filter (parseGsutilLongLine parseTime) ls)))"

section \<open>Health scrub\<close>

definition health_verdict :: "backupObj list \<Rightarrow> walObj list \<Rightarrow> string \<times> int" where
  "health_verdict bases wals =
     (let (gaps, segs) = countWALGaps (map (lastPathSeg \<circ> wo_URL) wals) in
      if bases = [] then (''error'', 0)
      else if gaps > 0 then (''error'', gaps)
      else let zero = int (length (filter (\<lambda>b. bo_Size b = 0) bases)) in
        if zero > 0 then (''warn'', zero) else (''ok'', 0))"

definition scrubArchiveHealth ::
  "query \<Rightarrow> int \<Rightarrow> string \<Rightarrow> backupObj list \<Rightarrow> walObj list \<Rightarrow> arch_db option \<Rightarrow> arch_db option" where
  "scrubArchiveHealth q now i bases wals dbo =
     (let (status, n) = health_verdict bases wals in
      map_option (\<lambda>db. snd (exec q (\<lambda>d. d\<lparr>ad_health := (ad_health d)(i \<mapsto> (status, dec_int n, now))\<rparr>) db)) dbo)"

definition readBackupHealth :: "query \<Rightarrow> string \<Rightarrow> arch_db option \<Rightarrow> (string \<times> string \<times> int) option" where
  "readBackupHealth q i dbo = (case dbo of Some db \<Rightarrow> if q = QOk then ad_health db i else None | None \<Rightarrow> None)"

section \<open>Readers of an archive\<close>

text \<open>\<open>recoveringFrom\<close>: a row that names the archive as its source and is being staged or replayed; created times are seconds.\<close>

definition recover_mark :: "string \<Rightarrow> string" where
  "recover_mark src = ''\"db.recover_from\":\"'' @ src @ ''\"''"

definition reads_from :: "int \<Rightarrow> string \<Rightarrow> arch_row \<Rightarrow> bool" where
  "reads_from now src r \<longleftrightarrow> str_contains (ar_metadata r) (recover_mark src)
     \<and> (ar_status r = ''creating'' \<or> ar_status r = ''running'' \<and> ar_created r > now div Second - 2700)"

definition recoveringFrom :: "(string \<Rightarrow> bool) \<Rightarrow> query \<Rightarrow> int \<Rightarrow> string \<Rightarrow> arch_db option \<Rightarrow> bool" where
  "recoveringFrom uuidOk q now src dbo =
     (case dbo of
        None \<Rightarrow> False
      | Some db \<Rightarrow> if \<not> uuidOk src then False else if q = QOk then list_ex (\<lambda>(_, r). reads_from now src r) (ad_rows db) else True)"

definition has_row :: "string \<Rightarrow> arch_db \<Rightarrow> bool" where
  "has_row i db \<longleftrightarrow> list_ex (\<lambda>(j, _). j = i) (ad_rows db)"

definition sandboxRowExists :: "query \<Rightarrow> string \<Rightarrow> arch_db option \<Rightarrow> bool" where
  "sandboxRowExists q i dbo = (case dbo of None \<Rightarrow> False | Some db \<Rightarrow> q = QOk \<and> has_row i db)"

definition archiveHasRow :: "query \<Rightarrow> string \<Rightarrow> arch_db option \<Rightarrow> bool \<times> bool" where
  "archiveHasRow q i dbo =
     (case dbo of None \<Rightarrow> (False, False) | Some db \<Rightarrow> if q = QOk then (has_row i db, True) else (False, False))"

section \<open>Pruning\<close>

record prune_in =
  pn_lease :: "query \<times> arch_db option"
  pn_reader :: "query \<times> arch_db option"
  pn_scrub :: "query \<times> arch_db option"
  pn_now :: int
  pn_base :: gs_out
  pn_wal :: gs_out
  pn_rm :: bool

text \<open>A map from names to URLs: the last object of a name counts.\<close>

definition name_url :: "walObj list \<Rightarrow> string \<Rightarrow> string option" where
  "name_url wals n = map_option wo_URL (find (\<lambda>w. lastPathSeg (wo_URL w) = n) (rev wals))"

text \<open>The URLs to remove: bases, then WAL, then superseded partial uploads.\<close>

definition prune_urls :: "slice_sort \<Rightarrow> backupObj list \<Rightarrow> walObj list \<Rightarrow> int \<Rightarrow> int \<Rightarrow> string list" where
  "prune_urls srt bases wals window now =
     (let (delBases, anchor) = selectBasesToDelete srt bases window now in
      map bo_URL delBases @ map wo_URL (selectWALToDelete wals anchor walPruneMargin)
        @ List.map_filter (name_url wals) (selectPartialsToDelete (map (lastPathSeg \<circ> wo_URL) wals)))"

definition retention_window :: "environ \<Rightarrow> int" where
  "retention_window env = i64 (i64 (envDaysOr env ''PANDASTACK_BACKUP_RETENTION_DAYS'' defaultRetentionDays * 24) * Hour)"

text \<open>The URLs given to \<open>gsutil rm\<close> and the tables after the scrub.\<close>

definition pruneArchiveToRetention ::
  "slice_sort \<Rightarrow> (string \<Rightarrow> int option) \<Rightarrow> (string \<Rightarrow> bool) \<Rightarrow> environ \<Rightarrow> prune_in \<Rightarrow> string \<Rightarrow> string list \<times> arch_db option" where
  "pruneArchiveToRetention srt parseTime uuidOk env p i =
     (let now = pn_now p; db = snd (pn_scrub p) in
      if archiveLeaseActive (fst (pn_lease p)) now i (snd (pn_lease p)) then ([], db)
      else if recoveringFrom uuidOk (fst (pn_reader p)) now i (snd (pn_reader p)) then ([], db)
      else case listBaseBackups srt parseTime (pn_base p) of
        None \<Rightarrow> ([], db)
      | Some bases \<Rightarrow>
          (let wals = (case listWALObjects parseTime (pn_wal p) of Some ws \<Rightarrow> ws | None \<Rightarrow> []);
               urls = prune_urls srt bases wals (retention_window env) now;
               scrubbed = scrubArchiveHealth (fst (pn_scrub p)) now i
                 (filter (\<lambda>b. bo_URL b \<notin> set urls) bases) (filter (\<lambda>w. wo_URL w \<notin> set urls) wals) db
           in if urls = [] then ([], scrubbed)
              else if \<not> pn_rm p then (urls, db)
              else (urls, scrubbed)))"

section \<open>Purging\<close>

text \<open>What each guard of the purge sees, in order.\<close>

record purge_in =
  pg_reader :: "query \<times> arch_db option"
  pg_lease :: "query \<times> arch_db option"
  pg_gen0 :: "query \<times> arch_db option"
  pg_row :: "query \<times> arch_db option"
  pg_gen1 :: "query \<times> arch_db option"
  pg_now :: int
  pg_base :: gs_out
  pg_wal :: gs_out

fun newest :: "int option \<Rightarrow> int list \<Rightarrow> int option" where
  "newest m [] = m"
| "newest m (t # ts) = newest (if (case m of None \<Rightarrow> True | Some x \<Rightarrow> t > x) then Some t else m) ts"

definition newestArchiveMtime :: "slice_sort \<Rightarrow> (string \<Rightarrow> int option) \<Rightarrow> gs_out \<Rightarrow> gs_out \<Rightarrow> int option" where
  "newestArchiveMtime srt parseTime base wal =
     (let m = (case listBaseBackups srt parseTime base of Some bs \<Rightarrow> newest None (map bo_Timestamp bs) | None \<Rightarrow> None)
      in case listWALObjects parseTime wal of Some ws \<Rightarrow> newest m (map wo_Mtime ws) | None \<Rightarrow> m)"

text \<open>Does the purge remove the archive?\<close>

definition purgeOrphanArchive ::
  "slice_sort \<Rightarrow> (string \<Rightarrow> int option) \<Rightarrow> (string \<Rightarrow> bool) \<Rightarrow> environ \<Rightarrow> purge_in \<Rightarrow> string \<Rightarrow> bool" where
  "purgeOrphanArchive srt parseTime uuidOk env p i =
     (if \<not> janitorPurgeEnabled env then False
      else if recoveringFrom uuidOk (fst (pg_reader p)) (pg_now p) i (snd (pg_reader p)) then False
      else if archiveLeaseActive (fst (pg_lease p)) (pg_now p) i (snd (pg_lease p)) then False
      else
        let (genBefore, _) = currentArchiveGeneration (fst (pg_gen0 p)) i (snd (pg_gen0 p)) in
        case newestArchiveMtime srt parseTime (pg_base p) (pg_wal p) of
          None \<Rightarrow> False
        | Some t \<Rightarrow>
            if pg_now p - t < orphanPurgeGrace then False
            else if sandboxRowExists (fst (pg_row p)) i (snd (pg_row p)) then False
            else let (genAfter, ok) = currentArchiveGeneration (fst (pg_gen1 p)) i (snd (pg_gen1 p)) in
              \<not> (ok \<and> genAfter \<noteq> genBefore))"

text \<open>Three attempts at the removal; the error is only logged.\<close>

definition cleanupArchive :: "environ \<Rightarrow> (nat \<Rightarrow> bool) \<Rightarrow> bool" where
  "cleanupArchive env rmOk =
     (if trim_space (env ''PANDASTACK_SNAPSHOT_BUCKET'') = [] then False else rmOk 1 \<or> rmOk 2 \<or> rmOk 3)"

section \<open>The sweep\<close>

text \<open>The fleet-wide claim.\<close>

definition claimJanitorSweep :: "query \<Rightarrow> int \<Rightarrow> int \<Rightarrow> arch_db option \<Rightarrow> bool \<times> arch_db option" where
  "claimJanitorSweep q now minInterval dbo =
     (case dbo of
        None \<Rightarrow> (True, None)
      | Some db \<Rightarrow>
          (let free = (case ad_sweep db of None \<Rightarrow> True | Some t \<Rightarrow> t < now - minInterval);
               (ok, db') = exec q (\<lambda>d. if free then d\<lparr>ad_sweep := Some now\<rparr> else d) db
           in (ok \<and> free, Some db')))"

text \<open>The id of a line \<open>gs://<bucket>/db/<id>/\<close>.\<close>

definition trim_slash :: "string \<Rightarrow> string" where
  "trim_slash s = rev (dropWhile (\<lambda>c. c = CHR ''/'') (rev (dropWhile (\<lambda>c. c = CHR ''/'') s)))"

definition sweep_id :: "string \<Rightarrow> string \<Rightarrow> string option" where
  "sweep_id bucket line =
     (let i = trim_slash (trim_prefix (trim_space line) (''gs://'' @ bucket @ ''/db/'')) in
      if i = [] \<or> CHR ''/'' \<in> set i then None else Some i)"

record sweep_in =
  sw_cancelled :: bool
  sw_hasrow :: "query \<times> arch_db option"
  sw_purge :: purge_in
  sw_prune :: prune_in

datatype janitor_act = Purged string | Removed string "string list"

fun sweep_ids ::
  "slice_sort \<Rightarrow> (string \<Rightarrow> int option) \<Rightarrow> (string \<Rightarrow> bool) \<Rightarrow> environ \<Rightarrow> (string \<Rightarrow> sweep_in) \<Rightarrow> bool \<Rightarrow> string list \<Rightarrow> janitor_act list" where
  "sweep_ids srt parseTime uuidOk env inp first [] = []"
| "sweep_ids srt parseTime uuidOk env inp first (i # is) =
     (if \<not> first \<and> sw_cancelled (inp i) then []
      else
        (case archiveHasRow (fst (sw_hasrow (inp i))) i (snd (sw_hasrow (inp i))) of
           (_, False) \<Rightarrow> []
         | (False, True) \<Rightarrow> if purgeOrphanArchive srt parseTime uuidOk env (sw_purge (inp i)) i then [Purged i] else []
         | (True, True) \<Rightarrow>
             if retentionEnabled env
             then (case fst (pruneArchiveToRetention srt parseTime uuidOk env (sw_prune (inp i)) i) of [] \<Rightarrow> [] | u # us \<Rightarrow> [Removed i (u # us)])
             else [])
        @ sweep_ids srt parseTime uuidOk env inp False is)"

definition sweepOrphanArchives ::
  "slice_sort \<Rightarrow> (string \<Rightarrow> int option) \<Rightarrow> (string \<Rightarrow> bool) \<Rightarrow> environ \<Rightarrow> (string \<Rightarrow> sweep_in) \<Rightarrow> string \<Rightarrow> int \<Rightarrow> gs_out \<Rightarrow> loopBreaker
    \<Rightarrow> janitor_act list \<times> bool \<times> loopBreaker" where
  "sweepOrphanArchives srt parseTime uuidOk env inp bucket now out b =
     (if \<not> lb_Allow now b then ([], False, b)
      else case out of
        GsFail _ \<Rightarrow> (let (tripped, b') = lb_Fail now b in ([], tripped, b'))
      | GsOk ls \<Rightarrow> (sweep_ids srt parseTime uuidOk env inp True (List.map_filter (sweep_id bucket) ls), False, lb_Success b))"

section \<open>Retention keeps the window recoverable\<close>

text \<open>What \<open>sort.Slice\<close> promises for a comparison of keys.\<close>

definition slice_sort_ok :: "slice_sort \<Rightarrow> bool" where
  "slice_sort_ok srt \<longleftrightarrow>
     (\<forall>lt xs. mset (srt lt xs) = mset xs)
     \<and> (\<forall>(key :: backupObj \<Rightarrow> int) xs. sorted_wrt (\<lambda>a b. key a \<le> key b) (srt (\<lambda>a b. key a < key b) xs))"

lemma slice_sort_set: "slice_sort_ok srt \<Longrightarrow> set (srt lt xs) = set xs"
  by (metis slice_sort_ok_def mset_eq_setD)

lemma older_sorted: "slice_sort_ok srt \<Longrightarrow> sorted_wrt (\<lambda>a b. bo_Timestamp a \<le> bo_Timestamp b) (srt older xs)"
  unfolding older_def [abs_def] by (simp add: slice_sort_ok_def)

lemma find_rev_last:
  fixes key :: "'a \<Rightarrow> int"
  assumes "sorted_wrt (\<lambda>a b. key a \<le> key b) xs" and "x \<in> set xs" and "P x"
  shows "\<exists>y. find P (rev xs) = Some y \<and> y \<in> set xs \<and> P y \<and> key x \<le> key y"
  using assms by (induction xs rule: rev_induct) (auto simp: sorted_wrt_append)

lemma keep_urls_window: "b \<in> set bs \<Longrightarrow> cutoff \<le> bo_Timestamp b \<Longrightarrow> bo_URL b \<in> set (keep_urls bs cutoff)"
  by (auto simp: keep_urls_def)

lemma keep_urls_anchor:
  assumes "sorted_wrt (\<lambda>a b. bo_Timestamp a \<le> bo_Timestamp b) bs" and "b \<in> set bs" and "bo_Timestamp b < cutoff"
  shows "\<exists>a \<in> set bs. bo_URL a \<in> set (keep_urls bs cutoff) \<and> bo_Timestamp b \<le> bo_Timestamp a \<and> bo_Timestamp a < cutoff"
proof -
  obtain y where "find (\<lambda>b. bo_Timestamp b < cutoff) (rev bs) = Some y" "y \<in> set bs" "bo_Timestamp y < cutoff" "bo_Timestamp b \<le> bo_Timestamp y"
    using find_rev_last [OF assms(1,2), of "\<lambda>b. bo_Timestamp b < cutoff"] assms(3) by auto
  then show ?thesis by (auto simp: keep_urls_def)
qed

lemma anchor_loop_le: "anchor_loop keep bs False a \<le> a"
proof (induction bs arbitrary: a)
  case (Cons b bs)
  show ?case using Cons [of a] Cons [of "bo_Timestamp b"] by auto
qed simp

lemma anchor_loop_kept:
  "b \<in> set bs \<Longrightarrow> bo_URL b \<in> set keep \<Longrightarrow> anchor_loop keep bs first a \<le> bo_Timestamp b"
proof (induction keep bs first a rule: anchor_loop.induct)
  case (2 keep c bs first a)
  show ?case
  proof (cases "b \<in> set bs")
    case True
    then show ?thesis using 2 by simp
  next
    case False
    then have "b = c" using 2(3) by simp
    moreover have "anchor_loop keep bs False (bo_Timestamp c) \<le> bo_Timestamp c" by (simp add: anchor_loop_le)
    moreover have "\<not> first \<Longrightarrow> a \<le> bo_Timestamp c \<Longrightarrow> anchor_loop keep bs first a \<le> bo_Timestamp c"
      using anchor_loop_le [of keep bs a] by simp
    ultimately show ?thesis using 2(4) by auto
  qed
qed simp

lemma min_ts_le: "min_ts m bs \<le> m \<and> (\<forall>b \<in> set bs. min_ts m bs \<le> bo_Timestamp b)"
  by (induction m bs rule: min_ts.induct) (force split: if_splits)+

text \<open>The two halves of the decision: which bases stay, and how far the log stays.\<close>

lemma selectBases_covers:
  assumes "slice_sort_ok srt" and "selectBasesToDelete srt bases window now = (del, anchor)"
    and "b \<in> set bases" and "now - window \<le> t" and "bo_Timestamp b \<le> t"
  shows "\<exists>b' \<in> set bases. bo_URL b' \<notin> bo_URL ` set del \<and> bo_Timestamp b \<le> bo_Timestamp b' \<and> bo_Timestamp b' \<le> t"
proof (cases "length bases \<le> 1")
  case True
  then show ?thesis using assms(2,3,5) by (auto simp: selectBasesToDelete_def)
next
  case False
  let ?bs = "srt older bases"
  have del: "bo_URL ` set del = bo_URL ` set ?bs - set (keep_urls ?bs (now - window))"
    using False assms(2) by (auto simp: selectBasesToDelete_def Let_def)
  have set: "set ?bs = set bases" by (rule slice_sort_set [OF assms(1)])
  show ?thesis
  proof (cases "now - window \<le> bo_Timestamp b")
    case True
    then show ?thesis using keep_urls_window [of b ?bs] assms(3,5) unfolding del by (auto simp: set)
  next
    case False
    then obtain a where "a \<in> set ?bs" "bo_URL a \<in> set (keep_urls ?bs (now - window))"
      "bo_Timestamp b \<le> bo_Timestamp a" "bo_Timestamp a < now - window"
      using keep_urls_anchor [OF older_sorted [OF assms(1)], of b bases] assms(3) set by (metis not_less)
    then show ?thesis using assms(4) unfolding del set by (intro bexI [of _ a]) auto
  qed
qed

lemma selectBases_anchor:
  assumes "slice_sort_ok srt" and "selectBasesToDelete srt bases window now = (del, anchor)"
    and "b \<in> set bases" and "bo_URL b \<notin> bo_URL ` set del"
  shows "\<exists>a. anchor = Some a \<and> a \<le> bo_Timestamp b"
proof (cases "length bases \<le> 1")
  case True
  then show ?thesis using assms(2,3) min_ts_le by (cases bases) (fastforce simp: selectBasesToDelete_def oldestTS_def)+
next
  case False
  let ?bs = "srt older bases"
  have "b \<in> set ?bs" using assms(3) slice_sort_set [OF assms(1)] by simp
  moreover from this have "bo_URL b \<in> set (keep_urls ?bs (now - window))"
    using assms(2,4) False by (auto simp: selectBasesToDelete_def Let_def)
  ultimately show ?thesis using anchor_loop_kept assms(2) False by (auto simp: selectBasesToDelete_def Let_def)
qed

lemma find_in: "find P xs = Some y \<Longrightarrow> y \<in> set xs \<and> P y"
  by (induction xs) (auto split: if_splits)

lemma prune_urls_base:
  assumes "selectBasesToDelete srt bases window now = (del, anchor)"
    and "\<And>b w. b \<in> set bases \<Longrightarrow> w \<in> set wals \<Longrightarrow> bo_URL b \<noteq> wo_URL w" and "b \<in> set bases"
  shows "bo_URL b \<in> set (prune_urls srt bases wals window now) \<longleftrightarrow> bo_URL b \<in> bo_URL ` set del"
proof -
  have "u \<in> wo_URL ` set wals" if "name_url wals n = Some u" for n u
    using that by (auto simp: name_url_def dest: find_in)
  then show ?thesis using assms
    by (auto simp: prune_urls_def selectWALToDelete_def List.map_filter_def split: option.splits) (metis option.sel image_iff)+
qed


lemma wal_url_inj:
  assumes "distinct (map (lastPathSeg \<circ> wo_URL) wals)" and "v \<in> set wals" and "w \<in> set wals" and "wo_URL v = wo_URL w"
  shows "v = w"
  using assms inj_onD [of "lastPathSeg \<circ> wo_URL" "set wals" v w] by (simp add: distinct_map)

lemma prune_urls_wal:
  assumes sel: "selectBasesToDelete srt bases window now = (del, anchor)" and sub: "set del \<subseteq> set bases"
    and disj: "\<And>b w. b \<in> set bases \<Longrightarrow> w \<in> set wals \<Longrightarrow> bo_URL b \<noteq> wo_URL w"
    and dist: "distinct (map (lastPathSeg \<circ> wo_URL) wals)"
    and w: "w \<in> set wals" "wo_URL w \<in> set (prune_urls srt bases wals window now)"
  shows "superseded (map (lastPathSeg \<circ> wo_URL) wals) (lastPathSeg (wo_URL w)) \<or> (\<exists>a. anchor = Some a \<and> wo_Mtime w < a - walPruneMargin)"
proof -
  let ?names = "map (lastPathSeg \<circ> wo_URL) wals"
  consider "wo_URL w \<in> bo_URL ` set del" | "wo_URL w \<in> wo_URL ` set (selectWALToDelete wals anchor walPruneMargin)"
    | n where "n \<in> set (selectPartialsToDelete ?names)" "name_url wals n = Some (wo_URL w)"
    using w(2) sel by (auto simp: prune_urls_def List.map_filter_def)
  then show ?thesis
  proof cases
    case 1
    then show ?thesis using disj sub w(1) by (metis image_iff subsetD)
  next
    case 2
    then obtain v where "v \<in> set wals" "wo_URL v = wo_URL w" "\<exists>a. anchor = Some a \<and> wo_Mtime v < a - walPruneMargin"
      by (auto simp: selectWALToDelete_def split: option.splits)
    then show ?thesis using wal_url_inj [OF dist _ w(1)] by blast
  next
    case 3
    obtain v where v: "v \<in> set wals" "wo_URL v = wo_URL w" "lastPathSeg (wo_URL v) = n"
      using 3(2) by (auto simp: name_url_def dest: find_in)
    have "superseded ?names n" using 3(1) by (rule deleted_superseded [OF dist])
    then show ?thesis using v by auto
  qed
qed

lemma selectBases_subset:
  assumes "slice_sort_ok srt" and "selectBasesToDelete srt bases window now = (del, anchor)"
  shows "set del \<subseteq> set bases"
proof (cases "length bases \<le> 1")
  case True
  then show ?thesis using assms(2) by (simp add: selectBasesToDelete_def)
next
  case False
  then have "set del \<subseteq> set (srt older bases)" using assms(2) by (auto simp: selectBasesToDelete_def Let_def)
  then show ?thesis by (simp only: slice_sort_set [OF assms(1)])
qed

lemma prune_run:
  assumes "fst (pruneArchiveToRetention srt parseTime uuidOk env p i) \<noteq> []" and "listBaseBackups srt parseTime (pn_base p) = Some bases"
  shows "\<not> archiveLeaseActive (fst (pn_lease p)) (pn_now p) i (snd (pn_lease p))
    \<and> \<not> recoveringFrom uuidOk (fst (pn_reader p)) (pn_now p) i (snd (pn_reader p))
    \<and> fst (pruneArchiveToRetention srt parseTime uuidOk env p i)
      = prune_urls srt bases (case listWALObjects parseTime (pn_wal p) of Some ws \<Rightarrow> ws | None \<Rightarrow> []) (retention_window env) (pn_now p)"
proof -
  let ?l = "archiveLeaseActive (fst (pn_lease p)) (pn_now p) i (snd (pn_lease p))"
  let ?r = "recoveringFrom uuidOk (fst (pn_reader p)) (pn_now p) i (snd (pn_reader p))"
  let ?u = "prune_urls srt bases (case listWALObjects parseTime (pn_wal p) of Some ws \<Rightarrow> ws | None \<Rightarrow> []) (retention_window env) (pn_now p)"
  have "\<exists>s1. pruneArchiveToRetention srt parseTime uuidOk env p i =
      (if ?l then ([], snd (pn_scrub p)) else if ?r then ([], snd (pn_scrub p))
       else if ?u = [] then ([], s1) else if \<not> pn_rm p then (?u, snd (pn_scrub p)) else (?u, s1))"
    unfolding pruneArchiveToRetention_def Let_def assms(2) option.case by (rule exI, rule refl)
  then obtain s1 where eq: "pruneArchiveToRetention srt parseTime uuidOk env p i =
      (if ?l then ([], snd (pn_scrub p)) else if ?r then ([], snd (pn_scrub p))
       else if ?u = [] then ([], s1) else if \<not> pn_rm p then (?u, snd (pn_scrub p)) else (?u, s1))" ..
  show ?thesis using assms(1) unfolding eq by (cases ?l; cases ?r; cases "?u = []"; cases "pn_rm p") simp_all
qed

text \<open>
  C23: Pruning an archive keeps recovery by time within the retention window. Whatever \<open>gsutil\<close> lists, with distinct object names: nothing is removed while a reader holds a lease or is
  recovering; for every base backup and every instant of the retention window after it, some base at least as new and not newer than the instant is kept; and for every base that is
  kept, a removed WAL object was uploaded more than six hours before that base, or is a partial upload of a segment that is archived in full or has a better partial upload that is
  not removed as superseded. The bases are compared by their stamps only: which generation a kept base belongs to is not looked at (\<open>retention_drops_current_generation\<close>).
\<close>

theorem prune_keeps_recovery:
  assumes srt: "slice_sort_ok srt" and bases: "listBaseBackups srt parseTime (pn_base p) = Some bases"
    and wals: "wals = (case listWALObjects parseTime (pn_wal p) of Some ws \<Rightarrow> ws | None \<Rightarrow> [])"
    and disj: "\<And>b w. b \<in> set bases \<Longrightarrow> w \<in> set wals \<Longrightarrow> bo_URL b \<noteq> wo_URL w"
    and dist: "distinct (map (lastPathSeg \<circ> wo_URL) wals)"
    and run: "pruneArchiveToRetention srt parseTime uuidOk env p i = (urls, db')"
  shows "(urls \<noteq> [] \<longrightarrow> \<not> archiveLeaseActive (fst (pn_lease p)) (pn_now p) i (snd (pn_lease p))
        \<and> \<not> recoveringFrom uuidOk (fst (pn_reader p)) (pn_now p) i (snd (pn_reader p)))
    \<and> (\<forall>b \<in> set bases. \<forall>t. pn_now p - retention_window env \<le> t \<longrightarrow> bo_Timestamp b \<le> t \<longrightarrow>
        (\<exists>b' \<in> set bases. bo_URL b' \<notin> set urls \<and> bo_Timestamp b \<le> bo_Timestamp b' \<and> bo_Timestamp b' \<le> t))
    \<and> (\<forall>b \<in> set bases. \<forall>w \<in> set wals. bo_URL b \<notin> set urls \<longrightarrow> wo_URL w \<in> set urls \<longrightarrow>
        superseded (map (lastPathSeg \<circ> wo_URL) wals) (lastPathSeg (wo_URL w)) \<or> wo_Mtime w < bo_Timestamp b - walPruneMargin)"
proof (cases "urls = []")
  case True
  then show ?thesis by auto
next
  case False
  obtain del anchor where sel: "selectBasesToDelete srt bases (retention_window env) (pn_now p) = (del, anchor)" by fastforce
  have guards: "\<not> archiveLeaseActive (fst (pn_lease p)) (pn_now p) i (snd (pn_lease p))"
      "\<not> recoveringFrom uuidOk (fst (pn_reader p)) (pn_now p) i (snd (pn_reader p))"
    and urls: "urls = prune_urls srt bases wals (retention_window env) (pn_now p)"
    using prune_run [OF _ bases, of uuidOk env i] run False wals by simp_all
  have base: "bo_URL b \<in> set urls \<longleftrightarrow> bo_URL b \<in> bo_URL ` set del" if "b \<in> set bases" for b
    using prune_urls_base [OF sel disj that, of wals] urls by simp
  have "\<exists>b' \<in> set bases. bo_URL b' \<notin> set urls \<and> bo_Timestamp b \<le> bo_Timestamp b' \<and> bo_Timestamp b' \<le> t"
    if "b \<in> set bases" "pn_now p - retention_window env \<le> t" "bo_Timestamp b \<le> t" for b t
    using selectBases_covers [OF srt sel that] base by blast
  moreover have "superseded (map (lastPathSeg \<circ> wo_URL) wals) (lastPathSeg (wo_URL w)) \<or> wo_Mtime w < bo_Timestamp b - walPruneMargin"
    if bw: "b \<in> set bases" "w \<in> set wals" "bo_URL b \<notin> set urls" "wo_URL w \<in> set urls" for b w
  proof -
    obtain a where "anchor = Some a" "a \<le> bo_Timestamp b"
      using selectBases_anchor [OF srt sel bw(1)] base [OF bw(1)] bw(3) by blast
    moreover have "superseded (map (lastPathSeg \<circ> wo_URL) wals) (lastPathSeg (wo_URL w)) \<or> (\<exists>a. anchor = Some a \<and> wo_Mtime w < a - walPruneMargin)"
      using prune_urls_wal [of srt bases "retention_window env" "pn_now p" del anchor wals w]
        sel selectBases_subset [OF srt sel] disj dist bw(2,4) urls by blast
    ultimately show ?thesis by auto
  qed
  ultimately show ?thesis using guards by blast
qed

section \<open>The tables under all actors\<close>

definition gen_of :: "string \<Rightarrow> arch_db \<Rightarrow> int" where
  "gen_of i db = (case ad_gens db i of None \<Rightarrow> 0 | Some (g, _) \<Rightarrow> g)"

text \<open>One statement of any replica or agent; agents insert, change and delete sandbox rows.\<close>

inductive table_step :: "arch_db \<Rightarrow> arch_db \<Rightarrow> bool" where
  seed: "seedArchiveGeneration q i (Some db) = (r, Some db') \<Longrightarrow> table_step db db'"
| bump: "bumpArchiveGeneration q i holder (Some db) = (g, Some db') \<Longrightarrow> table_step db db'"
| acquire: "acquireArchiveLease q now i holder purpose ttl (Some db) = (r, Some db') \<Longrightarrow> table_step db db'"
| release: "releaseArchiveLease q i holder (Some db) = Some db' \<Longrightarrow> table_step db db'"
| expire: "expireArchiveLeases q now (Some db) = Some db' \<Longrightarrow> table_step db db'"
| scrub: "scrubArchiveHealth q now i bases wals (Some db) = Some db' \<Longrightarrow> table_step db db'"
| claim: "claimJanitorSweep q now minInterval (Some db) = (r, Some db') \<Longrightarrow> table_step db db'"
| rows: "table_step db (db\<lparr>ad_rows := rs\<rparr>)"

lemmas table_ops = seedArchiveGeneration_def acquireArchiveLease_def releaseArchiveLease_def expireArchiveLeases_def
  scrubArchiveHealth_def claimJanitorSweep_def exec_def Let_def

lemma bump_cases:
  assumes "bumpArchiveGeneration q i holder (Some db) = (r, dbo)"
  shows "r = None \<and> dbo = Some db
    \<or> (\<exists>g db'. bump_row i holder db = Some (g, db') \<and> dbo = Some db' \<and> (r = None \<or> r = Some g))"
  using assms by (auto simp: bumpArchiveGeneration_def split: query.splits option.splits)

lemma bump_row_gens:
  assumes "bump_row i holder db = Some (g, db')"
  shows "gen_of i db' = g \<and> (0 \<le> gen_of i db \<longrightarrow> gen_of i db < g) \<and> (j \<noteq> i \<longrightarrow> gen_of j db' = gen_of j db)"
  using assms by (auto simp: bump_row_def gen_of_def split: option.splits if_splits)

lemma table_step_gens: "table_step db db' \<Longrightarrow> 0 \<le> gen_of i db \<Longrightarrow> gen_of i db \<le> gen_of i db'"
proof (induction rule: table_step.induct)
  case (bump q j holder db g db')
  then show ?case using bump_cases [OF bump(1)] bump_row_gens [of j holder db _ db' i] by (cases "i = j") force+
qed (auto simp: table_ops gen_of_def split: query.splits option.splits prod.splits if_splits)

lemma table_steps_gens: "table_step\<^sup>*\<^sup>* db db' \<Longrightarrow> 0 \<le> gen_of i db \<Longrightarrow> gen_of i db \<le> gen_of i db'"
proof (induction rule: rtranclp_induct)
  case (step y z)
  then show ?case using table_step_gens [of y z i] by simp
qed simp

text \<open>An ownership change that the caller sees gives a generation above every earlier one.\<close>

lemma bump_fresh:
  assumes "table_step\<^sup>*\<^sup>* d0 d1" and "bumpArchiveGeneration q i holder (Some d1) = (Some g, Some d2)" and "0 \<le> gen_of i d0"
  shows "gen_of i d0 < g \<and> gen_of i d2 = g"
  using bump_cases [OF assms(2)] bump_row_gens [of i holder d1 g d2 i] table_steps_gens [OF assms(1,3)] assms(3) by auto

section \<open>Purging only orphans\<close>

lemma currentArchiveGeneration_gen_of: "currentArchiveGeneration QOk i (Some db) = (gen_of i db, ad_gens db i \<noteq> None)"
  by (auto simp: currentArchiveGeneration_def gen_of_def split: option.splits)

lemma newest_ge: "newest m ts = Some t \<Longrightarrow> (\<forall>x \<in> set ts. x \<le> t) \<and> (\<forall>y. m = Some y \<longrightarrow> y \<le> t)"
  by (induction m ts rule: newest.induct) (force split: option.splits if_splits)+

lemma newest_None: "newest m ts = None \<longleftrightarrow> m = None \<and> ts = []"
  by (induction m ts rule: newest.induct) (auto split: option.splits if_splits)

lemma newestArchiveMtime_ge:
  assumes "newestArchiveMtime srt parseTime base wal = Some t"
  shows "listBaseBackups srt parseTime base = Some bases \<Longrightarrow> b \<in> set bases \<Longrightarrow> bo_Timestamp b \<le> t"
    and "listWALObjects parseTime wal = Some wals \<Longrightarrow> w \<in> set wals \<Longrightarrow> wo_Mtime w \<le> t"
    and "(\<exists>bases. listBaseBackups srt parseTime base = Some bases \<and> bases \<noteq> []) \<or> (\<exists>wals. listWALObjects parseTime wal = Some wals \<and> wals \<noteq> [])"
proof -
  define m where "m = (case listBaseBackups srt parseTime base of Some bs \<Rightarrow> newest None (map bo_Timestamp bs) | None \<Rightarrow> None)"
  have run: "(case listWALObjects parseTime wal of Some ws \<Rightarrow> newest m (map wo_Mtime ws) | None \<Rightarrow> m) = Some t"
    using assms unfolding newestArchiveMtime_def m_def Let_def .
  have m: "\<forall>y. m = Some y \<longrightarrow> y \<le> t" "\<And>wals w. listWALObjects parseTime wal = Some wals \<Longrightarrow> w \<in> set wals \<Longrightarrow> wo_Mtime w \<le> t"
    using run newest_ge [of m _ t] by (auto split: option.splits)
  then show "listWALObjects parseTime wal = Some wals \<Longrightarrow> w \<in> set wals \<Longrightarrow> wo_Mtime w \<le> t" by blast
  show "bo_Timestamp b \<le> t" if bs: "listBaseBackups srt parseTime base = Some bases" and b: "b \<in> set bases"
  proof -
    have "m \<noteq> None" using bs b by (auto simp: m_def newest_None)
    then obtain y where y: "m = Some y" by blast
    then have "bo_Timestamp b \<le> y" using newest_ge [of None "map bo_Timestamp bases" y] bs b by (simp add: m_def)
    then show ?thesis using m(1) y by auto
  qed
  show "(\<exists>bases. listBaseBackups srt parseTime base = Some bases \<and> bases \<noteq> []) \<or> (\<exists>wals. listWALObjects parseTime wal = Some wals \<and> wals \<noteq> [])"
    using assms by (auto simp: newestArchiveMtime_def newest_None split: option.splits)
qed

text \<open>
  C24: The janitor purges an archive only when the checks that were answered found an orphan. Whatever other replicas and agents do between the statements of a purge, when it goes
  through on a configured control-plane database: the reader and the lease check were answered and found no database reading the archive and no live lease (a failed query stops the
  purge); a row check that was answered found no sandbox row; generation reads that were both answered found the same archive generation at the end as at the start, so no
  ownership change happened in between; some object was listed, and every base and WAL object of each listing that succeeded is at least seven days old. The row check, the
  generation reads and one failed listing let the purge pass (\<open>purge_fails_open\<close>).
\<close>

theorem purge_only_orphans:
  assumes run: "purgeOrphanArchive srt parseTime uuidOk env p i"
    and db: "snd (pg_reader p) = Some dr" "snd (pg_lease p) = Some dl" "snd (pg_gen0 p) = Some d0" "snd (pg_row p) = Some dw" "snd (pg_gen1 p) = Some d1"
    and i: "uuidOk i" and steps: "table_step\<^sup>*\<^sup>* d0 d1" and g0: "0 \<le> gen_of i d0"
  shows "fst (pg_reader p) = QOk \<and> \<not> list_ex (\<lambda>(_, r). reads_from (pg_now p) i r) (ad_rows dr)
    \<and> fst (pg_lease p) = QOk \<and> \<not> lease_live (pg_now p) i dl
    \<and> (fst (pg_row p) = QOk \<longrightarrow> \<not> has_row i dw)
    \<and> (fst (pg_gen0 p) = QOk \<and> fst (pg_gen1 p) = QOk \<longrightarrow> gen_of i d1 = gen_of i d0)
    \<and> ((\<exists>bases. listBaseBackups srt parseTime (pg_base p) = Some bases \<and> bases \<noteq> []) \<or> (\<exists>wals. listWALObjects parseTime (pg_wal p) = Some wals \<and> wals \<noteq> []))
    \<and> (\<forall>bases b. listBaseBackups srt parseTime (pg_base p) = Some bases \<longrightarrow> b \<in> set bases \<longrightarrow> bo_Timestamp b \<le> pg_now p - orphanPurgeGrace)
    \<and> (\<forall>wals w. listWALObjects parseTime (pg_wal p) = Some wals \<longrightarrow> w \<in> set wals \<longrightarrow> wo_Mtime w \<le> pg_now p - orphanPurgeGrace)"
proof -
  obtain qr ql q0 qw q1 where q: "pg_reader p = (qr, Some dr)" "pg_lease p = (ql, Some dl)" "pg_gen0 p = (q0, Some d0)" "pg_row p = (qw, Some dw)" "pg_gen1 p = (q1, Some d1)"
    using db by (metis prod.collapse)
  obtain t where t: "newestArchiveMtime srt parseTime (pg_base p) (pg_wal p) = Some t" "orphanPurgeGrace \<le> pg_now p - t"
    and guards: "\<not> recoveringFrom uuidOk qr (pg_now p) i (Some dr)" "\<not> archiveLeaseActive ql (pg_now p) i (Some dl)" "\<not> sandboxRowExists qw i (Some dw)"
    and gen: "\<not> (snd (currentArchiveGeneration q1 i (Some d1)) \<and> fst (currentArchiveGeneration q1 i (Some d1)) \<noteq> fst (currentArchiveGeneration q0 i (Some d0)))"
    using run by (auto simp: purgeOrphanArchive_def Let_def q split_def split: option.splits if_splits)
  have "gen_of i d1 = gen_of i d0" if "q0 = QOk" "q1 = QOk"
    using gen that table_steps_gens [OF steps g0] g0 by (auto simp: currentArchiveGeneration_gen_of gen_of_def split: option.splits)
  moreover have "qr = QOk" "\<not> list_ex (\<lambda>(_, r). reads_from (pg_now p) i r) (ad_rows dr)" "ql = QOk" "\<not> lease_live (pg_now p) i dl"
      "qw = QOk \<longrightarrow> \<not> has_row i dw"
    using guards i by (auto simp: recoveringFrom_def archiveLeaseActive_def sandboxRowExists_def split: if_splits)
  ultimately show ?thesis using newestArchiveMtime_ge [OF t(1)] t(2) by (fastforce simp: q)
qed

section \<open>Instances and failures\<close>

fun slice_ins :: "(backupObj \<Rightarrow> backupObj \<Rightarrow> bool) \<Rightarrow> backupObj \<Rightarrow> backupObj list \<Rightarrow> backupObj list" where
  "slice_ins lt x [] = [x]"
| "slice_ins lt x (y # ys) = (if lt y x then y # slice_ins lt x ys else x # y # ys)"

definition slice_insort :: slice_sort where
  "slice_insort lt xs = foldr (slice_ins lt) xs []"

lemma slice_ins_mset: "mset (slice_ins lt x ys) = add_mset x (mset ys)"
  by (induction ys) auto

lemma slice_ins_sorted:
  fixes key :: "backupObj \<Rightarrow> int"
  assumes "sorted_wrt (\<lambda>a b. key a \<le> key b) ys"
  shows "sorted_wrt (\<lambda>a b. key a \<le> key b) (slice_ins (\<lambda>a b. key a < key b) x ys)"
  using assms
proof (induction ys)
  case (Cons y ys)
  have "set (slice_ins (\<lambda>a b. key a < key b) x ys) = insert x (set ys)"
    using slice_ins_mset [of "\<lambda>a b. key a < key b" x ys] by (metis mset_eq_setD list.simps(15) mset.simps(2))
  then show ?case using Cons by auto
qed simp

lemma slice_insort_ok: "slice_sort_ok slice_insort"
proof -
  have "mset (foldr (slice_ins lt) xs []) = mset xs" for lt xs by (induction xs) (simp_all add: slice_ins_mset)
  moreover have "sorted_wrt (\<lambda>a b. key a \<le> key b) (foldr (slice_ins (\<lambda>a b. key a < key b)) xs [])" for key :: "backupObj \<Rightarrow> int" and xs
    by (induction xs) (simp_all add: slice_ins_sorted)
  ultimately show ?thesis by (simp add: slice_sort_ok_def slice_insort_def)
qed

text \<open>A host where one base and one WAL object are older than the anchor; listing times are days.\<close>

definition day_time :: "string \<Rightarrow> int option" where
  "day_time s = map_option (\<lambda>d. d * 24 * Hour) (atoi s)"

definition empty_db :: arch_db where
  "empty_db = \<lparr>ad_gens = Map.empty, ad_leases = [], ad_health = Map.empty, ad_rows = [], ad_sweep = None\<rparr>"

definition demo_prune :: prune_in where
  "demo_prune = \<lparr>pn_lease = (QOk, Some empty_db), pn_reader = (QOk, Some empty_db), pn_scrub = (QOk, Some empty_db), pn_now = 60 * 24 * Hour,
     pn_base = GsOk [''9 50 gs://b/3'', ''9 1 gs://b/1'', ''9 2 gs://b/2'', ''TOTAL: 3 objects''],
     pn_wal = GsOk [''9 1 gs://w/1'', ''9 2 gs://w/2'']  , pn_rm = True\<rparr>"

theorem prune_keeps_recovery_witness:
  "fst (pruneArchiveToRetention slice_insort day_time (\<lambda>s. True) (\<lambda>k. []) demo_prune ''x'') = [''gs://b/1'', ''gs://w/1'']
    \<and> wo_Mtime \<lparr>wo_URL = ''gs://w/1'', wo_Mtime = 24 * Hour\<rparr> < bo_Timestamp \<lparr>bo_URL = ''gs://b/2'', bo_Timestamp = 2 * 24 * Hour, bo_Size = 9\<rparr> - walPruneMargin"
proof -
  let ?b = "\<lparr>bo_URL = ''gs://b/2'', bo_Timestamp = 2 * 24 * Hour, bo_Size = 9\<rparr>"
  let ?w = "\<lparr>wo_URL = ''gs://w/1'', wo_Mtime = 24 * Hour\<rparr>"
  define bases where "bases = [\<lparr>bo_URL = ''gs://b/3'', bo_Timestamp = 50 * 24 * Hour, bo_Size = 9\<rparr>, ?b, \<lparr>bo_URL = ''gs://b/1'', bo_Timestamp = 24 * Hour, bo_Size = 9\<rparr>]"
  define wals where "wals = [?w, \<lparr>wo_URL = ''gs://w/2'', wo_Mtime = 2 * 24 * Hour\<rparr>]"
  have bases: "listBaseBackups slice_insort day_time (pn_base demo_prune) = Some bases" unfolding bases_def by code_simp
  have ws: "listWALObjects day_time (pn_wal demo_prune) = Some wals" unfolding wals_def by code_simp
  have urls: "fst (pruneArchiveToRetention slice_insort day_time (\<lambda>s. True) (\<lambda>k. []) demo_prune ''x'') = [''gs://b/1'', ''gs://w/1'']" by code_simp
  have names: "map (lastPathSeg \<circ> wo_URL) wals = [''1'', ''2'']" unfolding wals_def by code_simp
  have "janitor_parse (lastPathSeg (wo_URL ?w)) = None" by code_simp
  then have mark: "\<not> superseded (map (lastPathSeg \<circ> wo_URL) wals) (lastPathSeg (wo_URL ?w))" by (simp add: superseded_def)
  have "superseded (map (lastPathSeg \<circ> wo_URL) wals) (lastPathSeg (wo_URL ?w)) \<or> wo_Mtime ?w < bo_Timestamp ?b - walPruneMargin"
  proof -
    have "distinct (map (lastPathSeg \<circ> wo_URL) wals)" by (simp add: names)
    moreover have "wals = (case listWALObjects day_time (pn_wal demo_prune) of Some ws \<Rightarrow> ws | None \<Rightarrow> [])" by (simp add: ws)
    moreover have "bo_URL b \<noteq> wo_URL w" if "b \<in> set bases" "w \<in> set wals" for b w using that by (auto simp: bases_def wals_def)
    ultimately have keep: "\<forall>b \<in> set bases. \<forall>w \<in> set wals. bo_URL b \<notin> set [''gs://b/1'', ''gs://w/1''] \<longrightarrow> wo_URL w \<in> set [''gs://b/1'', ''gs://w/1''] \<longrightarrow>
        superseded (map (lastPathSeg \<circ> wo_URL) wals) (lastPathSeg (wo_URL w)) \<or> wo_Mtime w < bo_Timestamp b - walPruneMargin"
      using prune_keeps_recovery [OF slice_insort_ok bases, of wals "\<lambda>s. True" "\<lambda>k. []" "''x''" "[''gs://b/1'', ''gs://w/1'']"] urls
      by (metis prod.collapse)
    have "?b \<in> set bases" "?w \<in> set wals" by (simp_all add: bases_def wals_def)
    from bspec [OF bspec [OF keep this(1)] this(2)] show ?thesis by simp
  qed
  then show ?thesis using urls mark by blast
qed

definition with_row :: "string \<Rightarrow> arch_db \<Rightarrow> arch_db" where
  "with_row i db = db\<lparr>ad_rows := (i, \<lparr>ar_status = ''creating'', ar_created = 0, ar_metadata = []\<rparr>) # ad_rows db\<rparr>"

definition quiet_db :: arch_db where
  "quiet_db = empty_db\<lparr>ad_gens := [''x'' \<mapsto> (1, ''create'')]\<rparr>"

text \<open>All guards see the same quiet tables; the row check and the second generation check have the given outcome.\<close>

definition demo_purge :: "query \<times> arch_db option \<Rightarrow> query \<times> arch_db option \<Rightarrow> purge_in" where
  "demo_purge row gen1 = \<lparr>pg_reader = (QOk, Some quiet_db), pg_lease = (QOk, Some quiet_db), pg_gen0 = (QOk, Some quiet_db),
     pg_row = row, pg_gen1 = gen1, pg_now = 60 * 24 * Hour, pg_base = GsOk [''9 50 gs://b/3''], pg_wal = GsOk [''9 51 gs://w/1'']\<rparr>"

theorem purge_only_orphans_witness:
  "purgeOrphanArchive slice_insort day_time (\<lambda>s. True) (\<lambda>k. []) (demo_purge (QOk, Some quiet_db) (QOk, Some quiet_db)) ''x''
    \<and> \<not> has_row ''x'' quiet_db \<and> gen_of ''x'' quiet_db = 1"
proof -
  let ?p = "demo_purge (QOk, Some quiet_db) (QOk, Some quiet_db)"
  have run: "purgeOrphanArchive slice_insort day_time (\<lambda>s. True) (\<lambda>k. []) ?p ''x''" by code_simp
  have gen: "gen_of ''x'' quiet_db = 1" by code_simp
  have "snd (pg_reader ?p) = Some quiet_db" "snd (pg_lease ?p) = Some quiet_db" "snd (pg_gen0 ?p) = Some quiet_db" "snd (pg_row ?p) = Some quiet_db"
      "snd (pg_gen1 ?p) = Some quiet_db" "fst (pg_row ?p) = QOk"
    by (simp_all add: demo_purge_def)
  with purge_only_orphans [OF run, of quiet_db quiet_db quiet_db quiet_db quiet_db] gen
  have "\<not> has_row ''x'' quiet_db" by simp
  then show ?thesis using run gen by blast
qed

text \<open>
  The last two guards of a purge fail open. A restore starts while the guards run: it bumps the archive generation and the sandbox row is back. When the
  control-plane database then stops answering, the row check reads as no row and the generation fence is
  skipped, and the purge removes the archive the restore is reading.
\<close>

lemma purge_fails_open:
  "\<exists>d1. bumpArchiveGeneration QOk ''x'' ''failover'' (Some quiet_db) = (Some 2, Some d1) \<and> has_row ''x'' (with_row ''x'' d1)
    \<and> purgeOrphanArchive slice_insort day_time (\<lambda>s. True) (\<lambda>k. [])
         (demo_purge (QFail, Some (with_row ''x'' d1)) (QFail, Some (with_row ''x'' d1))) ''x''"
proof -
  let ?d = "quiet_db\<lparr>ad_gens := [''x'' \<mapsto> (2, ''failover'')]\<rparr>"
  have "bumpArchiveGeneration QOk ''x'' ''failover'' (Some quiet_db) = (Some 2, Some ?d)"
    by (simp add: bumpArchiveGeneration_def bump_row_def quiet_db_def)
  moreover have "has_row ''x'' (with_row ''x'' ?d)" by (simp add: has_row_def with_row_def)
  moreover have "purgeOrphanArchive slice_insort day_time (\<lambda>s. True) (\<lambda>k. [])
      (demo_purge (QFail, Some (with_row ''x'' ?d)) (QFail, Some (with_row ''x'' ?d))) ''x''" by code_simp
  ultimately show ?thesis by blast
qed

text \<open>The two bases of a database: one of the current owner, and a later one of a stale host.\<close>

definition owner_base :: backupObj where
  "owner_base = \<lparr>bo_URL = ''gs://k/db/x/base/base-20260101T000000Z-g2.tar.gz'', bo_Timestamp = 1767225600 * Second, bo_Size = 9\<rparr>"

definition stale_base :: backupObj where
  "stale_base = \<lparr>bo_URL = ''gs://k/db/x/base/base-20260110T000000Z-g1.tar.gz'', bo_Timestamp = 1768003200 * Second, bo_Size = 9\<rparr>"

lemma demo_base_stamps:
  "parseBaseTimestamp (bo_URL owner_base) = Some (bo_Timestamp owner_base)" "parseBaseTimestamp (bo_URL stale_base) = Some (bo_Timestamp stale_base)"
  by code_simp+

text \<open>
  Retention looks at timestamps only, restore at generations first. When both bases of a database have left the window, the base of the current generation is
  deleted and the later base of a fenced-off host, generation 1, is the one that stays.
\<close>

lemma retention_drops_current_generation:
  "selectBasesToDelete slice_insort [owner_base, stale_base] (30 * 24 * Hour) (1780000000 * Second) = ([owner_base], Some (bo_Timestamp stale_base))
    \<and> parseBaseGeneration (bo_URL owner_base) = 2 \<and> parseBaseGeneration (bo_URL stale_base) = 1"
proof -
  have "selectBasesToDelete slice_insort [owner_base, stale_base] (30 * 24 * Hour) (1780000000 * Second) = ([owner_base], Some (bo_Timestamp stale_base))"
    "parseBaseGeneration (bo_URL owner_base) = 2" "parseBaseGeneration (bo_URL stale_base) = 1" by code_simp+
  then show ?thesis by blast
qed

text \<open>A retention of 200000 days wraps to a negative window: every base but the newest is deleted at once.\<close>

lemma retention_window_wraps:
  "retention_window (\<lambda>k. if k = ''PANDASTACK_BACKUP_RETENTION_DAYS'' then ''200000'' else []) = - 1166744073709551616"
  by code_simp

section \<open>The breaker\<close>

fun fail_run :: "int list \<Rightarrow> loopBreaker \<Rightarrow> bool list \<times> loopBreaker" where
  "fail_run [] b = ([], b)"
| "fail_run (t # ts) b = (let (a, b1) = lb_Fail t b; (as, b2) = fail_run ts b1 in (a # as, b2))"

lemma fail_run_tripped:
  assumes "fail_run ts b = (as, b')" and "lb_tripped b"
  shows "filter id as = [] \<and> lb_tripped b' \<and> lb_parkedUntil b' = (if ts = [] then lb_parkedUntil b else Some (List.last ts + lb_park b))"
  using assms
proof (induction ts arbitrary: b as)
  case (Cons t ts)
  obtain as' where "as = False # as'"
    "fail_run ts (b\<lparr>lb_fails := lb_fails b + 1, lb_parkedUntil := Some (t + lb_park b)\<rparr>) = (as', b')"
    using Cons.prems by (auto simp: lb_Fail_def Let_def split: prod.splits)
  then show ?case using Cons.IH [of "b\<lparr>lb_fails := lb_fails b + 1, lb_parkedUntil := Some (t + lb_park b)\<rparr>" as'] Cons.prems(2) by simp
qed simp

text \<open>In a row of failures the breaker raises one alarm, at the failure that reaches the limit, and from then on parks the loop until \<open>park\<close> after the last failure.\<close>

lemma fail_run_alarms:
  assumes "fail_run ts b = (as, b')" and "\<not> lb_tripped b" and "lb_fails b < lb_trip b"
  shows "if lb_fails b + int (length ts) < lb_trip b
    then filter id as = [] \<and> lb_parkedUntil b' = lb_parkedUntil b
    else length (filter id as) = 1 \<and> lb_parkedUntil b' = Some (List.last ts + lb_park b)"
  using assms
proof (induction ts arbitrary: b as)
  case (Cons t ts)
  show ?case
  proof (cases "lb_fails b + 1 < lb_trip b")
    case True
    obtain as' where "as = False # as'" "fail_run ts (b\<lparr>lb_fails := lb_fails b + 1\<rparr>) = (as', b')"
      using Cons.prems True by (auto simp: lb_Fail_def Let_def split: prod.splits)
    then show ?thesis using Cons.IH [of "b\<lparr>lb_fails := lb_fails b + 1\<rparr>" as'] Cons.prems True by (auto split: if_splits)
  next
    case False
    let ?b = "b\<lparr>lb_fails := lb_fails b + 1, lb_tripped := True, lb_parkedUntil := Some (t + lb_park b)\<rparr>"
    obtain as' where "as = True # as'" "fail_run ts ?b = (as', b')"
      using Cons.prems False by (auto simp: lb_Fail_def Let_def split: prod.splits)
    then show ?thesis using fail_run_tripped [of ts ?b as' b'] False by simp
  qed
qed auto

end
