(* ===== verification/Sandbox_Lifecycle.thy ===== *)
theory Sandbox_Lifecycle
  imports Archive_Janitor
begin

text \<open>
  The life of a sandbox on its agent (\<^verbatim>\<open>src/agent/internal/sandbox\<close>): who may judge a row and \<open>Recover\<close> at startup, delete and the death path
  (\<^verbatim>\<open>manager.go\<close>), teardown and the janitor of failed rows (\<^verbatim>\<open>teardown.go\<close>), the lifecycle store and the idle reaper (\<^verbatim>\<open>lifecycle.go\<close>,
  \<^verbatim>\<open>reaper.go\<close>), hibernate and wake.

  The state is one host together with the shared table of sandbox rows. A row statement has an outcome of type \<open>query\<close>; what the host answers to an operation
  (a directory that cannot be removed, a VM that does not start) is an argument. Rows are listed newest first and have
  distinct ids. Leases, snapshots, events and metrics are left out.
\<close>

section \<open>State\<close>

datatype volume = Sparse int | Staged string string int | Data nat

record sb_row =
  sb_id :: string
  sb_template :: string
  sb_status :: string
  sb_metadata :: "string \<rightharpoonup> string"
  sb_agent :: string
  sb_persistent :: bool
  sb_ttl :: int

record lifecycleState =
  lc_ttl :: int
  lc_persistent :: bool

datatype vm = Off | Run | Frozen

text \<open>
  \<open>h_sock\<close>: the Firecracker control socket exists; \<open>h_slot\<close>: the sandbox holds a network slot; \<open>h_disk\<close> counts the changes of the root disk, \<open>h_hiber\<close> is the hibernation
  snapshot with the count of its moment; \<open>h_life\<close>, \<open>h_active\<close>, \<open>h_tunnels\<close> and \<open>h_fails\<close> are the maps of the manager.
\<close>

record host =
  h_rows :: "sb_row list"
  h_driver :: "string \<Rightarrow> bool"
  h_vm :: "string \<Rightarrow> vm"
  h_sock :: "string \<Rightarrow> bool"
  h_slot :: "string \<Rightarrow> bool"
  h_vmdirs :: "string list"
  h_disk :: "string \<Rightarrow> nat"
  h_hiber :: "string \<rightharpoonup> nat"
  h_volume :: "string \<rightharpoonup> volume"
  h_life :: "string \<rightharpoonup> lifecycleState"
  h_active :: "string \<rightharpoonup> int"
  h_tunnels :: "string \<Rightarrow> int"
  h_fails :: "string \<Rightarrow> int"

text \<open>A statement on the table: its effect, and whether the caller sees it succeed.\<close>

definition stmt :: "query \<Rightarrow> (sb_row list \<Rightarrow> sb_row list) \<Rightarrow> host \<Rightarrow> bool \<times> host" where
  "stmt q f h = (case q of QOk \<Rightarrow> (True, h\<lparr>h_rows := f (h_rows h)\<rparr>) | QFail \<Rightarrow> (False, h) | QLost \<Rightarrow> (False, h\<lparr>h_rows := f (h_rows h)\<rparr>))"

definition upd_row :: "string \<Rightarrow> (sb_row \<Rightarrow> sb_row) \<Rightarrow> sb_row list \<Rightarrow> sb_row list" where
  "upd_row i f rs = map (\<lambda>r. if sb_id r = i then f r else r) rs"

definition get_row :: "string \<Rightarrow> sb_row list \<Rightarrow> sb_row option" where
  "get_row i rs = find (\<lambda>r. sb_id r = i) rs"

definition SetStatus :: "query \<Rightarrow> string \<Rightarrow> string \<Rightarrow> host \<Rightarrow> bool \<times> host" where
  "SetStatus q i st = stmt q (upd_row i (\<lambda>r. r\<lparr>sb_status := st\<rparr>))"

definition SetStatusIf :: "query \<Rightarrow> string \<Rightarrow> string \<Rightarrow> string \<Rightarrow> host \<Rightarrow> bool \<times> host" where
  "SetStatusIf q i s t h =
     (let (ok, h') = stmt q (map (\<lambda>r. if sb_id r = i \<and> sb_status r = s then r\<lparr>sb_status := t\<rparr> else r)) h
      in (ok \<and> list_ex (\<lambda>r. sb_id r = i \<and> sb_status r = s) (h_rows h), h'))"

definition SetSandboxAgentID :: "query \<Rightarrow> string \<Rightarrow> string \<Rightarrow> host \<Rightarrow> bool \<times> host" where
  "SetSandboxAgentID q i a = stmt q (upd_row i (\<lambda>r. r\<lparr>sb_agent := a\<rparr>))"

definition DeleteSandbox :: "query \<Rightarrow> string \<Rightarrow> host \<Rightarrow> bool \<times> host" where
  "DeleteSandbox q i = stmt q (filter (\<lambda>r. sb_id r \<noteq> i))"

text \<open>A plain insert: it fails on an id that is there.\<close>

definition InsertSandbox :: "query \<Rightarrow> sb_row \<Rightarrow> host \<Rightarrow> bool \<times> host" where
  "InsertSandbox q r h = (if get_row (sb_id r) (h_rows h) \<noteq> None then (False, h) else stmt q (\<lambda>rs. r # rs) h)"

definition GetSandbox :: "query \<Rightarrow> string \<Rightarrow> host \<Rightarrow> sb_row option" where
  "GetSandbox q i h = (if q = QOk then get_row i (h_rows h) else None)"

definition ListSandboxesForAgent :: "query \<Rightarrow> string \<Rightarrow> host \<Rightarrow> sb_row list option" where
  "ListSandboxesForAgent q me h = (if q = QOk then Some (filter (\<lambda>r. sb_agent r = me \<or> sb_agent r = []) (h_rows h)) else None)"

section \<open>Templates and kinds\<close>

definition isPGManagedTemplate :: "string \<Rightarrow> bool" where
  "isPGManagedTemplate t \<longleftrightarrow> t = ''postgres-16''"

definition isDurableTemplate :: "string \<Rightarrow> bool" where
  "isDurableTemplate t \<longleftrightarrow> t = ''postgres-16''"

definition managedKind :: "sb_row \<Rightarrow> string" where
  "managedKind r =
     (if isPGManagedTemplate (sb_template r) then ''database''
      else if sb_metadata r ''kind'' = Some ''app'' \<or> (case sb_metadata r ''app.id'' of Some v \<Rightarrow> v \<noteq> [] | None \<Rightarrow> False) then ''app''
      else [])"

section \<open>Ownership\<close>

definition hasLocalEvidence :: "host \<Rightarrow> string \<Rightarrow> bool" where
  "hasLocalEvidence h i \<longleftrightarrow> i \<in> set (h_vmdirs h) \<or> h_sock h i \<or> h_volume h i \<noteq> None"

definition ownsRow :: "string \<Rightarrow> host \<Rightarrow> sb_row \<Rightarrow> bool" where
  "ownsRow me h r \<longleftrightarrow>
     sb_id r \<noteq> [] \<and> (if sb_agent r = me then True else if sb_agent r = [] then hasLocalEvidence h (sb_id r) else False)"

section \<open>Teardown, delete and death\<close>

definition rm_vmdir :: "string \<Rightarrow> host \<Rightarrow> host" where
  "rm_vmdir i h = h\<lparr>h_vmdirs := filter (\<lambda>d. d \<noteq> i) (h_vmdirs h), h_hiber := (h_hiber h)(i := None)\<rparr>"

definition forget :: "string \<Rightarrow> host \<Rightarrow> host" where
  "forget i h = h\<lparr>h_active := (h_active h)(i := None), h_tunnels := (h_tunnels h)(i := 0), h_life := (h_life h)(i := None)\<rparr>"

text \<open>Which removals succeed.\<close>

record td_env =
  td_net :: bool
  td_dir :: bool
  td_vol :: bool

definition teardownResourcesOpts :: "td_env \<Rightarrow> bool \<Rightarrow> string \<Rightarrow> host \<Rightarrow> host" where
  "teardownResourcesOpts e keepDurable i h =
     (let h1 = h\<lparr>h_driver := (h_driver h)(i := False)\<rparr>;
          h2 = (if td_net e then h1\<lparr>h_slot := (h_slot h1)(i := False)\<rparr> else h1);
          h3 = (forget i h2)\<lparr>h_fails := (h_fails h2)(i := 0)\<rparr>;
          h4 = (if td_dir e then rm_vmdir i h3 else h3)
      in if \<not> keepDurable \<and> h_volume h4 i \<noteq> None \<and> td_vol e then h4\<lparr>h_volume := (h_volume h4)(i := None)\<rparr> else h4)"

definition teardownResources :: "td_env \<Rightarrow> string \<Rightarrow> host \<Rightarrow> host" where
  "teardownResources e = teardownResourcesOpts e False"

definition teardownResourcesKeepDurable :: "td_env \<Rightarrow> string \<Rightarrow> host \<Rightarrow> host" where
  "teardownResourcesKeepDurable e = teardownResourcesOpts e True"

datatype life_err = ErrManagedSandbox | StoreErr | NotRunning | AlreadyRunning | HostErr

text \<open>\<open>de_stop\<close>: \<open>FastStop\<close> kills the process and removes its socket; its error is only logged.\<close>

record del_env =
  de_get :: query
  de_stop :: bool
  de_row :: query
  de_td :: td_env

text \<open>\<open>delete\<close>, with its background cleanup run to the end.\<close>

definition delete :: "del_env \<Rightarrow> bool \<Rightarrow> string \<Rightarrow> host \<Rightarrow> life_err option \<times> host" where
  "delete e force i h =
     (if \<not> force \<and> (case GetSandbox (de_get e) i h of Some r \<Rightarrow> managedKind r \<noteq> [] | None \<Rightarrow> False) then (Some ErrManagedSandbox, h)
      else
        let h0 = h\<lparr>h_driver := (h_driver h)(i := False)\<rparr>;
            h1 = (if h_driver h i \<and> de_stop e then h0\<lparr>h_vm := (h_vm h0)(i := Off), h_sock := (h_sock h0)(i := False)\<rparr> else h0);
            h2 = (if td_net (de_td e) then h1\<lparr>h_slot := (h_slot h1)(i := False)\<rparr> else h1);
            h3 = forget i h2;
            (ok, h4) = DeleteSandbox (de_row e) i h3;
            h5 = (if td_dir (de_td e) then rm_vmdir i h4 else h4);
            h6 = (if h_volume h5 i \<noteq> None \<and> td_vol (de_td e) then h5\<lparr>h_volume := (h_volume h5)(i := None)\<rparr> else h5)
        in (if ok then None else Some StoreErr, h6))"

text \<open>A tick of the health monitor that finds the process dead.\<close>

definition vm_died :: "td_env \<Rightarrow> query \<Rightarrow> string \<Rightarrow> host \<Rightarrow> host" where
  "vm_died e q i h = (if h_driver h i then snd (SetStatus q i ''failed'' (teardownResourcesKeepDurable e i h)) else h)"

section \<open>Lifecycle store and reaper\<close>

text \<open>The columns of the row, when they can be read, and the durable templates decide after a restart.\<close>

definition rehydrateLifecycle :: "int \<Rightarrow> query \<Rightarrow> string \<Rightarrow> string \<Rightarrow> host \<Rightarrow> int \<times> bool" where
  "rehydrateLifecycle defaultTTL q i template h =
     (case GetSandbox q i h of
        None \<Rightarrow> (defaultTTL, isDurableTemplate template)
      | Some r \<Rightarrow> (if sb_ttl r > 0 then i64 (sb_ttl r * Second) else defaultTTL, isDurableTemplate template \<or> sb_persistent r))"

definition life_Set :: "string \<Rightarrow> int \<Rightarrow> bool \<Rightarrow> host \<Rightarrow> host" where
  "life_Set i ttl persistent h = h\<lparr>h_life := (h_life h)(i \<mapsto> \<lparr>lc_ttl = ttl, lc_persistent = persistent\<rparr>)\<rparr>"

definition MarkActivity :: "int \<Rightarrow> string \<Rightarrow> host \<Rightarrow> host" where
  "MarkActivity now i h = (if i = [] then h else h\<lparr>h_active := (h_active h)(i \<mapsto> now)\<rparr>)"

definition setLifecycleForCreate :: "int \<Rightarrow> string \<Rightarrow> int option \<Rightarrow> bool \<Rightarrow> string \<Rightarrow> host \<Rightarrow> host" where
  "setLifecycleForCreate defaultTTL i ttlSeconds persistent template =
     life_Set i (case ttlSeconds of None \<Rightarrow> defaultTTL | Some s \<Rightarrow> i64 (s * Second)) (persistent \<or> isDurableTemplate template)"

definition ensureLifecycleState :: "int \<Rightarrow> query \<Rightarrow> query \<Rightarrow> string \<Rightarrow> host \<Rightarrow> bool \<times> host" where
  "ensureLifecycleState defaultTTL q ql i h =
     (if i = [] then (False, h)
      else if h_life h i \<noteq> None then (True, h)
      else case GetSandbox q i h of
        None \<Rightarrow> (False, h)
      | Some r \<Rightarrow> (let (ttl, p) = rehydrateLifecycle defaultTTL ql i (sb_template r) h in (True, life_Set i ttl p h)))"

text \<open>The merged state is written back to the row in the background (\<open>persistLifecycleWithRetry\<close>, five attempts).\<close>

definition SetSandboxLifecycle :: "query \<Rightarrow> string \<Rightarrow> bool \<Rightarrow> int \<Rightarrow> host \<Rightarrow> int option \<times> host" where
  "SetSandboxLifecycle q i persistent ttlSeconds h =
     (let (ok, h') = stmt q (upd_row i (\<lambda>r. r\<lparr>sb_persistent := persistent, sb_ttl := ttlSeconds\<rparr>)) h
      in (if ok then Some (if get_row i (h_rows h) \<noteq> None then 1 else 0) else None, h'))"

fun persist_loop :: "query list \<Rightarrow> string \<Rightarrow> bool \<Rightarrow> int \<Rightarrow> host \<Rightarrow> bool \<times> host" where
  "persist_loop [] i p t h = (False, h)"
| "persist_loop (q # qs) i p t h =
     (case SetSandboxLifecycle q i p t h of
        (Some n, h') \<Rightarrow> if n > 0 then (True, h') else persist_loop qs i p t h'
      | (None, h') \<Rightarrow> persist_loop qs i p t h')"

definition persistLifecycleWithRetry :: "(nat \<Rightarrow> query) \<Rightarrow> string \<Rightarrow> bool \<Rightarrow> int \<Rightarrow> host \<Rightarrow> bool \<times> host" where
  "persistLifecycleWithRetry qs i p t h = persist_loop (map qs [0..<5]) i p t h"

definition UpdateLifecycle :: "int \<Rightarrow> query \<Rightarrow> query \<Rightarrow> (nat \<Rightarrow> query) \<Rightarrow> string \<Rightarrow> int option \<Rightarrow> bool option \<Rightarrow> host \<Rightarrow> bool \<times> host" where
  "UpdateLifecycle defaultTTL q ql qs i ttl persistent h =
     (case ensureLifecycleState defaultTTL q ql i h of
        (False, h1) \<Rightarrow> (False, h1)
      | (True, h1) \<Rightarrow>
          if (case ttl of Some s \<Rightarrow> s < 0 | None \<Rightarrow> False) then (False, h1)
          else
            let st = the (h_life h1 i);
                st1 = (case ttl of Some s \<Rightarrow> st\<lparr>lc_ttl := i64 (s * Second)\<rparr> | None \<Rightarrow> st);
                st2 = (case persistent of Some p \<Rightarrow> st1\<lparr>lc_persistent := p\<rparr> | None \<Rightarrow> st1);
                h2 = h1\<lparr>h_life := (h_life h1)(i \<mapsto> st2)\<rparr>
            in (True, snd (persistLifecycleWithRetry qs i (lc_persistent st2) (tdiv (lc_ttl st2) Second) h2)))"

definition lastActivityFor :: "int \<Rightarrow> string \<Rightarrow> host \<Rightarrow> int \<times> host" where
  "lastActivityFor now i h = (case h_active h i of Some t \<Rightarrow> (t, h) | None \<Rightarrow> (now, h\<lparr>h_active := (h_active h)(i \<mapsto> now)\<rparr>))"

text \<open>One entry of the list the reaper took at the start of its scan.\<close>

definition reap_one :: "del_env \<Rightarrow> int \<Rightarrow> string \<times> lifecycleState \<Rightarrow> host \<Rightarrow> host" where
  "reap_one e now p h =
     (let (i, st) = p in
      if lc_persistent st then h
      else let (t, h1) = lastActivityFor now i h in
        if now - t \<le> lc_ttl st then h1 else snd (delete e False i h1))"

fun reaper_scan :: "(string \<Rightarrow> del_env) \<Rightarrow> int \<Rightarrow> (string \<times> lifecycleState) list \<Rightarrow> host \<Rightarrow> host" where
  "reaper_scan es now [] h = h"
| "reaper_scan es now (p # ps) h = reaper_scan es now ps (reap_one (es (fst p)) now p h)"

section \<open>Recover\<close>

record rec_env =
  rv_claim :: query
  rv_life :: query
  rv_set :: query
  rv_net :: bool
  rv_rm :: bool

definition recover_life :: "int \<Rightarrow> int \<Rightarrow> rec_env \<Rightarrow> sb_row \<Rightarrow> host \<Rightarrow> host" where
  "recover_life defaultTTL now e r h =
     (let (ttl, p) = rehydrateLifecycle defaultTTL (rv_life e) (sb_id r) (sb_template r) h
      in MarkActivity now (sb_id r) (life_Set (sb_id r) ttl p h))"

text \<open>One listed row that this agent owns.\<close>

definition recover_row :: "string \<Rightarrow> int \<Rightarrow> int \<Rightarrow> rec_env \<Rightarrow> sb_row \<Rightarrow> host \<Rightarrow> host" where
  "recover_row me defaultTTL now e r h =
     (let i = sb_id r;
          h1 = (if sb_agent r = [] \<and> me \<noteq> [] then snd (SetSandboxAgentID (rv_claim e) i me h) else h);
          h2 = (if sb_status r = ''hibernated'' then recover_life defaultTTL now e r h1 else h1)
      in if sb_status r = ''creating'' then snd (SetStatusIf (rv_set e) i ''creating'' ''failed'' h2)
         else if sb_status r \<noteq> ''running'' \<and> sb_status r \<noteq> ''paused'' then h2
         else if h_hiber h2 i \<noteq> None then
           (let h3 = recover_life defaultTTL now e r (snd (SetStatus (rv_set e) i ''hibernated'' h2))
            in h3\<lparr>h_sock := (h_sock h3)(i := False)\<rparr>)
         else if \<not> h_sock h2 i then
           (let h3 = snd (SetStatus (rv_set e) i ''failed'' h2)
            in if rv_net e then h3\<lparr>h_slot := (h_slot h3)(i := False)\<rparr> else h3)
         else snd (SetStatus (rv_set e) i ''failed'' h2))"

fun recover_rows :: "string \<Rightarrow> int \<Rightarrow> int \<Rightarrow> (string \<Rightarrow> rec_env) \<Rightarrow> sb_row list \<Rightarrow> string list \<times> host \<Rightarrow> string list \<times> host" where
  "recover_rows me defaultTTL now es [] acc = acc"
| "recover_rows me defaultTTL now es (r # rs) (live, h) =
     (let owned = ownsRow me h r;
          live' = (if sb_id r \<noteq> [] \<and> (\<not> owned \<or> sb_status r \<noteq> ''failed'') then sb_id r # live else live)
      in recover_rows me defaultTTL now es rs (live', if owned then recover_row me defaultTTL now (es (sb_id r)) r h else h))"

fun gc_dirs :: "(string \<Rightarrow> rec_env) \<Rightarrow> string list \<Rightarrow> string list \<Rightarrow> host \<Rightarrow> host" where
  "gc_dirs es live [] h = h"
| "gc_dirs es live (d # ds) h =
     gc_dirs es live ds (if d \<in> set live \<or> h_sock h d \<or> \<not> rv_rm (es d) then h else rm_vmdir d h)"

text \<open>\<open>ls\<close> is the result of \<open>ListSandboxesForAgent\<close>, \<open>rd\<close> says whether the directory of VMs can be read.\<close>

definition Recover :: "string \<Rightarrow> int \<Rightarrow> int \<Rightarrow> (string \<Rightarrow> rec_env) \<Rightarrow> bool \<Rightarrow> sb_row list option \<Rightarrow> host \<Rightarrow> bool \<times> host" where
  "Recover me defaultTTL now es rd ls h =
     (case ls of
        None \<Rightarrow> (False, h)
      | Some rs \<Rightarrow>
          (let (live, h1) = recover_rows me defaultTTL now es rs ([], h)
           in (True, if rd then gc_dirs es live (h_vmdirs h1) h1 else h1)))"

section \<open>The janitor of failed rows\<close>

record sweep_env =
  sv_td :: td_env
  sv_row :: query

text \<open>One listed row: \<open>firstSeen\<close>, the host, the ids still failed and the ids reclaimed.\<close>

definition sweep_row ::
  "string \<Rightarrow> sweep_env \<Rightarrow> int \<Rightarrow> int \<Rightarrow> sb_row \<Rightarrow> (string \<rightharpoonup> int) \<times> host \<times> string list \<times> string list \<Rightarrow> (string \<rightharpoonup> int) \<times> host \<times> string list \<times> string list" where
  "sweep_row me e now grace r st =
     (let (seen, h, still, out) = st; i = sb_id r in
      if i = [] \<or> sb_status r \<noteq> ''failed'' then st
      else if \<not> ownsRow me h r then st
      else if managedKind r \<noteq> [] then st
      else case seen i of
        None \<Rightarrow> (seen(i \<mapsto> now), h, i # still, out)
      | Some first \<Rightarrow>
          if now - first < grace then (seen, h, i # still, out)
          else if h_driver h i \<or> h_sock h i then (seen, h, i # still, out)
          else (case DeleteSandbox (sv_row e) i (teardownResourcesKeepDurable (sv_td e) i h) of
                  (False, h') \<Rightarrow> (seen, h', i # still, out)
                | (True, h') \<Rightarrow> (seen(i := None), h', i # still, i # out)))"

fun sweep_rows ::
  "string \<Rightarrow> (string \<Rightarrow> sweep_env) \<Rightarrow> int \<Rightarrow> int \<Rightarrow> sb_row list \<Rightarrow> (string \<rightharpoonup> int) \<times> host \<times> string list \<times> string list \<Rightarrow> (string \<rightharpoonup> int) \<times> host \<times> string list \<times> string list" where
  "sweep_rows me es now grace [] st = st"
| "sweep_rows me es now grace (r # rs) st = sweep_rows me es now grace rs (sweep_row me (es (sb_id r)) now grace r st)"

definition janitor_sweep ::
  "string \<Rightarrow> (string \<Rightarrow> sweep_env) \<Rightarrow> int \<Rightarrow> int \<Rightarrow> sb_row list option \<Rightarrow> (string \<rightharpoonup> int) \<times> host \<Rightarrow> string list \<times> (string \<rightharpoonup> int) \<times> host" where
  "janitor_sweep me es now grace ls s =
     (case ls of
        None \<Rightarrow> ([], s)
      | Some rs \<Rightarrow>
          (let (seen, h, still, out) = sweep_rows me es now grace rs (fst s, snd s, [], [])
           in (out, \<lambda>i. if i \<in> set still then seen i else None, h)))"

section \<open>Hibernate and wake\<close>

definition idleHibernateFailCap :: int where "idleHibernateFailCap = 3"

record hib_env =
  hb_mkdir :: bool
  hb_snap :: bool
  hb_clear :: bool
  hb_rename :: bool
  hb_resume :: bool
  hb_stop :: bool
  hb_set :: query

text \<open>After a failure the VM is resumed, when that works.\<close>

definition resume_after :: "hib_env \<Rightarrow> string \<Rightarrow> host \<Rightarrow> host" where
  "resume_after e i h = h\<lparr>h_vm := (h_vm h)(i := if hb_resume e then Run else Frozen)\<rparr>"

definition Hibernate :: "hib_env \<Rightarrow> string \<Rightarrow> host \<Rightarrow> life_err option \<times> host" where
  "Hibernate e i h =
     (if \<not> h_driver h i then (Some NotRunning, h)
      else if \<not> hb_mkdir e then (Some HostErr, h)
      else if \<not> hb_snap e then (Some HostErr, resume_after e i h)
      else
        let h1 = (if hb_clear e then h\<lparr>h_hiber := (h_hiber h)(i := None)\<rparr> else h) in
        if \<not> hb_rename e then (Some HostErr, resume_after e i h1)
        else
          let h2 = h1\<lparr>h_hiber := (h_hiber h1)(i \<mapsto> h_disk h1 i), h_driver := (h_driver h1)(i := False),
                      h_vm := (h_vm h1)(i := if hb_stop e then Off else Frozen), h_sock := (h_sock h1)(i := \<not> hb_stop e)\<rparr>;
              (ok, h3) = SetStatus (hb_set e) i ''hibernated'' h2
          in (if ok then None else Some StoreErr, h3))"

text \<open>
  \<open>wk_natid\<close>: the slot is a NAT identity slot; \<open>wk_netns\<close>: its namespace exists, else \<open>wk_realloc\<close> says whether a new one is set up; \<open>wk_boot\<close>: the VM is started from the
  snapshot and its drives are attached and it is resumed; \<open>wk_ip\<close>: an address of the guest is known,
  \<open>wk_ready\<close>: the guest answers; \<open>wk_writes\<close>: how often the guest changed its disk before that was decided.
\<close>

record wake_env =
  wk_kernel :: bool
  wk_lookup :: bool
  wk_natid :: bool
  wk_netns :: bool
  wk_realloc :: bool
  wk_boot :: bool
  wk_ip :: bool
  wk_ready :: bool
  wk_writes :: nat
  wk_set :: query

definition wake_failed :: "wake_env \<Rightarrow> string \<Rightarrow> host \<Rightarrow> life_err option \<times> host" where
  "wake_failed e i h = (Some HostErr, snd (SetStatus (wk_set e) i ''failed'' h))"

definition wakeLocked :: "wake_env \<Rightarrow> int \<Rightarrow> string \<Rightarrow> host \<Rightarrow> life_err option \<times> host" where
  "wakeLocked e now i h =
     (if h_hiber h i = None \<or> \<not> wk_kernel e \<or> \<not> wk_lookup e then (Some HostErr, h)
      else if wk_natid e \<and> \<not> wk_netns e \<and> \<not> wk_realloc e then wake_failed e i h
      else if \<not> wk_boot e then wake_failed e i h
      else
        let h1 = h\<lparr>h_driver := (h_driver h)(i := True), h_vm := (h_vm h)(i := Run), h_sock := (h_sock h)(i := True),
                   h_disk := (h_disk h)(i := h_disk h i + wk_writes e)\<rparr> in
        if wk_ip e \<and> \<not> wk_ready e then
          wake_failed e i (h1\<lparr>h_driver := (h_driver h1)(i := False), h_vm := (h_vm h1)(i := Off), h_sock := (h_sock h1)(i := False)\<rparr>)
        else
          let (ok, h2) = SetStatus (wk_set e) i ''running'' (MarkActivity now i h1) in (if ok then None else Some StoreErr, h2))"

definition Wake :: "wake_env \<Rightarrow> int \<Rightarrow> string \<Rightarrow> host \<Rightarrow> life_err option \<times> host" where
  "Wake e now i h = (if h_driver h i then (Some AlreadyRunning, h) else wakeLocked e now i h)"

definition EnsureRunning :: "wake_env \<Rightarrow> int \<Rightarrow> string \<Rightarrow> host \<Rightarrow> life_err option \<times> host" where
  "EnsureRunning e now i h =
     (if i = [] \<or> h_driver h i \<or> h_hiber h i = None then (None, h) else wakeLocked e now i h)"



text \<open>At shutdown every persistent sandbox with a driver is hibernated; \<open>ids\<close> lists the drivers.\<close>

fun hibernate_all :: "(string \<Rightarrow> hib_env) \<Rightarrow> string list \<Rightarrow> host \<Rightarrow> nat \<times> host" where
  "hibernate_all es [] h = (0, h)"
| "hibernate_all es (i # is) h =
     (let (err, h1) = Hibernate (es i) i h; (n, h2) = hibernate_all es is h1 in (if err = None then Suc n else n, h2))"

definition HibernateAllPersistent :: "(string \<Rightarrow> hib_env) \<Rightarrow> string list \<Rightarrow> host \<Rightarrow> nat \<times> host" where
  "HibernateAllPersistent es ids h =
     hibernate_all es (filter (\<lambda>i. case h_life h i of Some st \<Rightarrow> lc_persistent st | None \<Rightarrow> False) ids) h"

section \<open>The idle sweeper\<close>

definition noteHibernateResult :: "int \<Rightarrow> string \<Rightarrow> bool \<Rightarrow> host \<Rightarrow> (int \<times> bool) \<times> host" where
  "noteHibernateResult now i ok h =
     (if ok then ((0, False), h\<lparr>h_fails := (h_fails h)(i := 0), h_active := (h_active h)(i \<mapsto> now)\<rparr>)
      else let fails = i64 (h_fails h i + 1) in
        if fails \<ge> idleHibernateFailCap
        then ((fails, True), h\<lparr>h_fails := (h_fails h)(i := 0), h_active := (h_active h)(i \<mapsto> now)\<rparr>)
        else ((fails, False), h\<lparr>h_fails := (h_fails h)(i := fails)\<rparr>))"

definition TunnelOpened :: "int \<Rightarrow> string \<Rightarrow> host \<Rightarrow> host" where
  "TunnelOpened now i h =
     (if i = [] then h else h\<lparr>h_tunnels := (h_tunnels h)(i := i64 (h_tunnels h i + 1)), h_active := (h_active h)(i \<mapsto> now)\<rparr>)"

definition TunnelClosed :: "int \<Rightarrow> string \<Rightarrow> host \<Rightarrow> host" where
  "TunnelClosed now i h =
     (if i = [] then h
      else h\<lparr>h_tunnels := (h_tunnels h)(i := if h_tunnels h i \<le> 1 then 0 else h_tunnels h i - 1), h_active := (h_active h)(i \<mapsto> now)\<rparr>)"

text \<open>One sandbox of one tick; \<open>fin\<close> is the time the hibernation ended.\<close>

definition idle_one :: "hib_env \<Rightarrow> int \<Rightarrow> int \<Rightarrow> int \<Rightarrow> string \<Rightarrow> host \<Rightarrow> host" where
  "idle_one e idleAfter now fin i h =
     (let (t, h1) = lastActivityFor now i h in
      if now - t < idleAfter then h1
      else if h_tunnels h1 i > 0 then h1
      else case h_life h1 i of
        None \<Rightarrow> h1
      | Some st \<Rightarrow>
          if \<not> lc_persistent st then h1
          else let (err, h2) = Hibernate e i h1 in snd (noteHibernateResult fin i (err = None) h2))"

fun idle_sweep :: "(string \<Rightarrow> hib_env) \<Rightarrow> int \<Rightarrow> int \<Rightarrow> (string \<Rightarrow> int) \<Rightarrow> string list \<Rightarrow> host \<Rightarrow> host" where
  "idle_sweep es idleAfter now fins [] h = h"
| "idle_sweep es idleAfter now fins (i # is) h = idle_sweep es idleAfter now fins is (idle_one (es i) idleAfter now (fins i) i h)"

section \<open>Automatic operations keep managed sandboxes\<close>

definition same_sandbox :: "sb_row \<Rightarrow> sb_row \<Rightarrow> bool" where
  "same_sandbox r r' \<longleftrightarrow> sb_id r' = sb_id r \<and> sb_template r' = sb_template r \<and> sb_metadata r' = sb_metadata r"

definition spares :: "host \<Rightarrow> host \<Rightarrow> bool" where
  "spares h h' \<longleftrightarrow>
     (distinct (map sb_id (h_rows h)) \<longrightarrow>
      distinct (map sb_id (h_rows h'))
      \<and> (\<forall>r \<in> set (h_rows h). managedKind r \<noteq> [] \<longrightarrow>
          (\<exists>r' \<in> set (h_rows h'). same_sandbox r r') \<and> h_volume h' (sb_id r) = h_volume h (sb_id r)))"

lemma same_sandbox_kind: "same_sandbox r r' \<Longrightarrow> managedKind r' = managedKind r"
  by (simp add: same_sandbox_def managedKind_def)

lemma same_sandbox_trans: "same_sandbox r r' \<Longrightarrow> same_sandbox r' r'' \<Longrightarrow> same_sandbox r r''"
  by (simp add: same_sandbox_def)

lemma spares_trans:
  assumes "spares h h1" and "spares h1 h2"
  shows "spares h h2"
  unfolding spares_def
proof (intro impI conjI ballI)
  assume d: "distinct (map sb_id (h_rows h))"
  then have d1: "distinct (map sb_id (h_rows h1))" using assms(1) by (simp add: spares_def)
  then show "distinct (map sb_id (h_rows h2))" using assms(2) by (simp add: spares_def)
  fix r assume r: "r \<in> set (h_rows h)" "managedKind r \<noteq> []"
  then obtain r1 where r1: "r1 \<in> set (h_rows h1)" "same_sandbox r r1" "h_volume h1 (sb_id r) = h_volume h (sb_id r)"
    using assms(1) d unfolding spares_def by blast
  then have "managedKind r1 \<noteq> []" using r(2) by (simp add: same_sandbox_kind)
  then obtain r2 where r2: "r2 \<in> set (h_rows h2)" "same_sandbox r1 r2" "h_volume h2 (sb_id r1) = h_volume h1 (sb_id r1)"
    using assms(2) d1 r1(1) unfolding spares_def by blast
  then show "\<exists>r' \<in> set (h_rows h2). same_sandbox r r'" using same_sandbox_trans [OF r1(2)] by blast
  show "h_volume h2 (sb_id r) = h_volume h (sb_id r)" using r2(3) r1 by (simp add: same_sandbox_def)
qed

text \<open>Row updates that keep the identity, everything that leaves rows and volumes alone, and the deletion of an id without a managed row.\<close>

lemma spares_map:
  assumes "\<And>r. same_sandbox r (f r)" and "h_rows h' = map f (h_rows h)" and "h_volume h' = h_volume h"
  shows "spares h h'"
proof -
  have "map sb_id (h_rows h') = map sb_id (h_rows h)" using assms(1,2) by (simp add: same_sandbox_def)
  then have "distinct (map sb_id (h_rows h')) = distinct (map sb_id (h_rows h))" by simp
  then show ?thesis using assms unfolding spares_def by (auto simp del: distinct_map)
qed

lemma spares_same: "h_rows h' = h_rows h \<Longrightarrow> h_volume h' = h_volume h \<Longrightarrow> spares h h'"
  by (rule spares_map [where f = "\<lambda>r. r"]) (simp_all add: same_sandbox_def)

lemma spares_delete:
  assumes "distinct (map sb_id (h_rows h)) \<Longrightarrow> \<forall>r \<in> set (h_rows h). sb_id r = i \<longrightarrow> managedKind r = []"
    and "h_rows h' = h_rows h \<or> h_rows h' = filter (\<lambda>r. sb_id r \<noteq> i) (h_rows h)" and "\<And>j. j \<noteq> i \<Longrightarrow> h_volume h' j = h_volume h j"
  shows "spares h h'"
  unfolding spares_def
proof (intro impI conjI ballI)
  assume d: "distinct (map sb_id (h_rows h))"
  show "distinct (map sb_id (h_rows h'))" using assms(2) d by (auto simp: distinct_map_filter)
  fix r assume r: "r \<in> set (h_rows h)" "managedKind r \<noteq> []"
  then have "sb_id r \<noteq> i" using assms(1) [OF d] by blast
  then show "\<exists>r' \<in> set (h_rows h'). same_sandbox r r'" "h_volume h' (sb_id r) = h_volume h (sb_id r)"
    using assms(2,3) r(1) by (auto simp: same_sandbox_def)
qed

lemma get_row_SomeI: "distinct (map sb_id rs) \<Longrightarrow> r \<in> set rs \<Longrightarrow> get_row (sb_id r) rs = Some r"
  by (induction rs) (auto simp: get_row_def)

lemma spares_stmt_map: "(\<And>r. same_sandbox r (f r)) \<Longrightarrow> spares h (snd (stmt q (map f) h))"
  by (cases q) (auto simp: stmt_def intro: spares_same spares_map [of f])

lemma spares_upd: "(\<And>r. same_sandbox r (f r)) \<Longrightarrow> spares h (snd (stmt q (upd_row i f) h))"
  using spares_stmt_map [of "\<lambda>r. if sb_id r = i then f r else r" h q]
  by (simp add: upd_row_def [abs_def] same_sandbox_def)

lemma spares_SetStatus: "spares h (snd (SetStatus q i st h))"
  unfolding SetStatus_def by (rule spares_upd) (simp add: same_sandbox_def)

lemma spares_SetStatusIf: "spares h (snd (SetStatusIf q i s t h))"
  unfolding SetStatusIf_def Let_def split_def snd_conv
  by (rule spares_stmt_map) (simp add: same_sandbox_def)

lemma spares_claim: "spares h (snd (SetSandboxAgentID q i a h))"
  unfolding SetSandboxAgentID_def by (rule spares_upd) (simp add: same_sandbox_def)

lemma spares_keepDurable: "spares h (teardownResourcesKeepDurable e i h)"
  by (rule spares_same) (simp_all add: teardownResourcesKeepDurable_def teardownResourcesOpts_def Let_def forget_def rm_vmdir_def)

lemma spares_vm_died: "spares h (vm_died e q i h)"
  using spares_trans [OF spares_keepDurable spares_SetStatus] spares_same [of h h] by (simp add: vm_died_def)

definition guarded :: "del_env \<Rightarrow> string \<Rightarrow> host \<Rightarrow> bool" where
  "guarded e i h \<longleftrightarrow> (case GetSandbox (de_get e) i h of Some r \<Rightarrow> managedKind r \<noteq> [] | None \<Rightarrow> False)"

lemma delete_guarded: "guarded e i h \<Longrightarrow> delete e False i h = (Some ErrManagedSandbox, h)"
  by (simp add: delete_def guarded_def)

lemma DeleteSandbox_frame:
  "h_rows (snd (DeleteSandbox q i h)) = h_rows h \<or> h_rows (snd (DeleteSandbox q i h)) = filter (\<lambda>r. sb_id r \<noteq> i) (h_rows h)"
  "h_volume (snd (DeleteSandbox q i h)) = h_volume h"
  by (cases q; simp add: DeleteSandbox_def stmt_def)+

lemma delete_rows:
  assumes "force \<or> \<not> guarded e i h"
  shows "h_rows (snd (delete e force i h)) = h_rows h \<or> h_rows (snd (delete e force i h)) = filter (\<lambda>r. sb_id r \<noteq> i) (h_rows h)"
    and "j \<noteq> i \<Longrightarrow> h_volume (snd (delete e force i h)) j = h_volume h j"
proof -
  define h3 where "h3 = forget i
    (let h0 = h\<lparr>h_driver := (h_driver h)(i := False)\<rparr>;
         h1 = (if h_driver h i \<and> de_stop e then h0\<lparr>h_vm := (h_vm h0)(i := Off), h_sock := (h_sock h0)(i := False)\<rparr> else h0)
     in if td_net (de_td e) then h1\<lparr>h_slot := (h_slot h1)(i := False)\<rparr> else h1)"
  obtain ok h4 where d: "DeleteSandbox (de_row e) i h3 = (ok, h4)" by fastforce
  have h3: "h_rows h3 = h_rows h" "h_volume h3 = h_volume h" by (simp_all add: h3_def forget_def Let_def)
  have guard: "\<not> (\<not> force \<and> (case GetSandbox (de_get e) i h of Some r \<Rightarrow> managedKind r \<noteq> [] | None \<Rightarrow> False))"
    using assms by (simp add: guarded_def)
  have eq: "snd (delete e force i h) =
      (let h5 = (if td_dir (de_td e) then rm_vmdir i h4 else h4)
       in if h_volume h5 i \<noteq> None \<and> td_vol (de_td e) then h5\<lparr>h_volume := (h_volume h5)(i := None)\<rparr> else h5)"
    unfolding delete_def if_not_P [OF guard] using d by (simp add: h3_def Let_def)
  show "h_rows (snd (delete e force i h)) = h_rows h \<or> h_rows (snd (delete e force i h)) = filter (\<lambda>r. sb_id r \<noteq> i) (h_rows h)"
    using DeleteSandbox_frame(1) [of "de_row e" i h3] unfolding eq by (simp add: d h3 Let_def rm_vmdir_def)
  show "h_volume (snd (delete e force i h)) j = h_volume h j" if "j \<noteq> i"
    using DeleteSandbox_frame(2) [of "de_row e" i h3] that unfolding eq by (simp add: d h3 Let_def rm_vmdir_def)
qed

text \<open>With the guard's read answered, an unforced delete never takes a managed sandbox.\<close>

lemma spares_delete_guarded:
  assumes "de_get e = QOk"
  shows "spares h (snd (delete e False i h))"
proof (cases "guarded e i h")
  case False
  then have "\<forall>r. get_row i (h_rows h) = Some r \<longrightarrow> managedKind r = []" using assms by (auto simp: GetSandbox_def guarded_def)
  then have "distinct (map sb_id (h_rows h)) \<Longrightarrow> \<forall>r \<in> set (h_rows h). sb_id r = i \<longrightarrow> managedKind r = []"
    using get_row_SomeI by blast
  then show ?thesis by (rule spares_delete) (use delete_rows [of False e i h] False in blast)+
qed (simp add: delete_guarded spares_same)

lemma spares_refl: "spares h h"
  by (simp add: spares_same)

lemma recover_life_frame [simp]:
  "h_rows (recover_life d now e r h) = h_rows h" "h_volume (recover_life d now e r h) = h_volume h"
  "h_sock (recover_life d now e r h) = h_sock h" "h_vmdirs (recover_life d now e r h) = h_vmdirs h" "h_hiber (recover_life d now e r h) = h_hiber h"
  by (simp_all add: recover_life_def MarkActivity_def life_Set_def split: prod.splits)

lemma spares_recover_life: "spares h h1 \<Longrightarrow> spares h (recover_life d now e r h1)"
  by (erule spares_trans) (simp add: spares_same)

lemma spares_frame: "spares h h1 \<Longrightarrow> h_rows h2 = h_rows h1 \<Longrightarrow> h_volume h2 = h_volume h1 \<Longrightarrow> spares h h2"
  by (erule spares_trans) (simp add: spares_same)

lemma spares_recover_row: "spares h (recover_row me d now e r h)"
proof -
  define h1 where "h1 = (if sb_agent r = [] \<and> me \<noteq> [] then snd (SetSandboxAgentID (rv_claim e) (sb_id r) me h) else h)"
  define h2 where "h2 = (if sb_status r = ''hibernated'' then recover_life d now e r h1 else h1)"
  have "spares h h1" by (simp add: h1_def spares_claim spares_refl)
  then have h2: "spares h h2" by (simp add: h2_def spares_recover_life)
  have st: "spares h (snd (SetStatus q i s h2))" for q i s by (rule spares_trans [OF h2 spares_SetStatus])
  have cas: "spares h (snd (SetStatusIf q i s t h2))" for q i s t by (rule spares_trans [OF h2 spares_SetStatusIf])
  have "recover_row me d now e r h =
      (if sb_status r = ''creating'' then snd (SetStatusIf (rv_set e) (sb_id r) ''creating'' ''failed'' h2)
       else if sb_status r \<noteq> ''running'' \<and> sb_status r \<noteq> ''paused'' then h2
       else if h_hiber h2 (sb_id r) \<noteq> None then
         (let h3 = recover_life d now e r (snd (SetStatus (rv_set e) (sb_id r) ''hibernated'' h2)) in h3\<lparr>h_sock := (h_sock h3)(sb_id r := False)\<rparr>)
       else if \<not> h_sock h2 (sb_id r) then
         (let h3 = snd (SetStatus (rv_set e) (sb_id r) ''failed'' h2) in if rv_net e then h3\<lparr>h_slot := (h_slot h3)(sb_id r := False)\<rparr> else h3)
       else snd (SetStatus (rv_set e) (sb_id r) ''failed'' h2))"
    unfolding recover_row_def h1_def h2_def Let_def by (rule refl)
  then show ?thesis by (auto simp: Let_def intro: h2 st cas spares_frame [OF st])
qed

lemma spares_recover_rows: "recover_rows me d now es rs (live, h) = (live', h') \<Longrightarrow> spares h h'"
proof (induction rs arbitrary: live h)
  case (Cons r rs)
  then show ?case using spares_recover_row [of h me d now "es (sb_id r)" r] spares_trans [of h _ h']
    by (simp add: Let_def split: if_splits)
qed (simp add: spares_refl)

lemma spares_gc_dirs: "spares h (gc_dirs es live ds h)"
proof (induction ds arbitrary: h)
  case (Cons d ds)
  have "spares h (rm_vmdir d h)" by (simp add: rm_vmdir_def spares_same)
  then show ?case using Cons.IH spares_trans by simp
qed (simp add: spares_refl)

lemma spares_Recover: "spares h (snd (Recover me d now es rd ls h))"
proof (cases ls)
  case (Some rs)
  obtain live h1 where r: "recover_rows me d now es rs ([], h) = (live, h1)" by fastforce
  then show ?thesis using Some spares_recover_rows [OF r] spares_trans [OF _ spares_gc_dirs] by (simp add: Recover_def)
qed (simp add: Recover_def spares_refl)

lemma sweep_row_host:
  assumes "sweep_row me e now grace r (seen, h, still, out) = (seen', h', still', out')"
  shows "h' = h \<or> managedKind r = [] \<and> h' = snd (DeleteSandbox (sv_row e) (sb_id r) (teardownResourcesKeepDurable (sv_td e) (sb_id r) h))"
  using assms by (auto simp: sweep_row_def Let_def split: if_splits option.splits prod.splits bool.splits)

text \<open>The janitor works from a listing that may be older than the table: it spares a managed sandbox as long as its kind is in the listing.\<close>

definition listed :: "sb_row list \<Rightarrow> host \<Rightarrow> bool" where
  "listed rs h \<longleftrightarrow> (\<forall>r \<in> set rs. \<forall>r' \<in> set (h_rows h). sb_id r' = sb_id r \<longrightarrow> same_sandbox r r')"

lemma spares_sweep_row:
  assumes "sweep_row me e now grace r (seen, h, still, out) = (seen', h', still', out')" and "listed [r] h"
  shows "spares h h'"
proof (cases "h' = h")
  case False
  let ?t = "teardownResourcesKeepDurable (sv_td e) (sb_id r) h"
  have h': "managedKind r = []" "h' = snd (DeleteSandbox (sv_row e) (sb_id r) ?t)"
    using sweep_row_host [OF assms(1)] False by auto
  have t: "h_rows ?t = h_rows h" "h_volume ?t = h_volume h"
    by (simp_all add: teardownResourcesKeepDurable_def teardownResourcesOpts_def Let_def forget_def rm_vmdir_def)
  have "\<forall>r' \<in> set (h_rows h). sb_id r' = sb_id r \<longrightarrow> managedKind r' = []"
    using assms(2) h'(1) same_sandbox_kind by (fastforce simp: listed_def)
  then show ?thesis
    by (intro spares_delete [of h "sb_id r"]) (use DeleteSandbox_frame [of "sv_row e" "sb_id r" ?t] in \<open>simp_all add: h'(2) t\<close>)
qed (simp add: spares_refl)

lemma sweep_row_rows:
  assumes "sweep_row me e now grace r (seen, h, still, out) = (seen', h', still', out')"
  shows "set (h_rows h') \<subseteq> set (h_rows h)"
proof -
  have "h_rows (teardownResourcesKeepDurable (sv_td e) (sb_id r) h) = h_rows h"
    by (simp add: teardownResourcesKeepDurable_def teardownResourcesOpts_def Let_def forget_def rm_vmdir_def)
  then show ?thesis using sweep_row_host [OF assms] DeleteSandbox_frame(1) [of "sv_row e" "sb_id r" "teardownResourcesKeepDurable (sv_td e) (sb_id r) h"]
    by auto
qed

lemma spares_sweep_rows:
  "sweep_rows me es now grace rs (seen, h, still, out) = (seen', h', still', out') \<Longrightarrow> listed rs h \<Longrightarrow> spares h h'"
proof (induction rs arbitrary: seen h still out)
  case (Cons r rs)
  obtain s1 h1 t1 o1 where one: "sweep_row me (es (sb_id r)) now grace r (seen, h, still, out) = (s1, h1, t1, o1)" by (metis prod_cases4)
  have "listed [r] h" using Cons.prems(2) by (simp add: listed_def)
  moreover have "listed rs h1" using Cons.prems(2) sweep_row_rows [OF one] by (auto simp: listed_def)
  ultimately show ?case using Cons.IH Cons.prems(1) spares_sweep_row [OF one] spares_trans by (simp add: one)
qed (simp add: spares_refl)

lemma spares_janitor:
  assumes "\<And>rs. ls = Some rs \<Longrightarrow> listed rs h"
  shows "spares h (snd (snd (janitor_sweep me es now grace ls (seen, h))))"
proof (cases ls)
  case (Some rs)
  obtain s h' t u where r: "sweep_rows me es now grace rs (seen, h, [], []) = (s, h', t, u)" by (metis prod_cases4)
  then show ?thesis using Some spares_sweep_rows [OF r] assms by (simp add: janitor_sweep_def)
qed (simp add: janitor_sweep_def spares_refl)

lemma spares_then_status: "h_rows h2 = h_rows h \<Longrightarrow> h_volume h2 = h_volume h \<Longrightarrow> spares h (snd (SetStatus q i s h2))"
  using spares_trans [OF spares_same spares_SetStatus] .

lemma spares_Hibernate: "spares h (snd (Hibernate e i h))"
  by (auto simp: Hibernate_def Let_def resume_after_def split_def intro: spares_same spares_then_status)

lemma spares_wakeLocked: "spares h (snd (wakeLocked e now i h))"
  by (auto simp: wakeLocked_def wake_failed_def Let_def MarkActivity_def split_def intro: spares_same spares_then_status)

lemma spares_lastActivity: "lastActivityFor now i h = (t, h1) \<Longrightarrow> spares h h1"
  by (rule spares_same) (auto simp: lastActivityFor_def split: option.splits)

lemma spares_idle_one: "spares h (idle_one e idleAfter now fin i h)"
proof -
  obtain t h1 where t: "lastActivityFor now i h = (t, h1)" by fastforce
  obtain err h2 where hb: "Hibernate e i h1 = (err, h2)" by fastforce
  have h1: "spares h h1" by (rule spares_lastActivity [OF t])
  have h2: "spares h h2" using spares_trans [OF h1 spares_Hibernate [of h1 e i]] by (simp add: hb)
  have "h_rows (snd (noteHibernateResult fin i ok h2)) = h_rows h2" "h_volume (snd (noteHibernateResult fin i ok h2)) = h_volume h2" for ok
    by (simp_all add: noteHibernateResult_def Let_def)
  then show ?thesis using h1 spares_frame [OF h2] by (auto simp: idle_one_def t hb split: option.splits)
qed

lemma spares_idle_sweep: "spares h (idle_sweep es idleAfter now fins is h)"
  by (induction "is" arbitrary: h) (auto intro: spares_refl spares_trans spares_idle_one)

lemma spares_hibernate_all: "spares h (snd (hibernate_all es is h))"
proof (induction "is" arbitrary: h)
  case (Cons i "is")
  obtain err h1 where hb: "Hibernate (es i) i h = (err, h1)" by fastforce
  show ?case using spares_trans [OF spares_Hibernate [of h "es i" i] Cons.IH] by (simp add: hb split_def Let_def)
qed (simp add: spares_refl)

lemma spares_reaper:
  assumes "\<And>i. de_get (es i) = QOk"
  shows "spares h (reaper_scan es now ps h)"
proof (induction ps arbitrary: h)
  case (Cons p ps)
  obtain i st t h1 where p: "p = (i, st)" "lastActivityFor now i h = (t, h1)" by (metis surj_pair)
  have "spares h (reap_one (es (fst p)) now p h)"
    using spares_lastActivity [OF p(2)] spares_trans [OF _ spares_delete_guarded [OF assms]]
    by (auto simp: reap_one_def p intro: spares_refl)
  then show ?case using spares_trans [OF _ Cons.IH] by simp
qed (simp add: spares_refl)

lemma spares_persist: "spares h (snd (persist_loop qs i p t h))"
proof (induction qs arbitrary: h)
  case (Cons q qs)
  obtain n h1 where s: "SetSandboxLifecycle q i p t h = (n, h1)" by fastforce
  have "h1 = snd (stmt q (upd_row i (\<lambda>r. r\<lparr>sb_persistent := p, sb_ttl := t\<rparr>)) h)" using s by (auto simp: SetSandboxLifecycle_def split_def Let_def)
  then have "spares h h1" by (simp add: spares_upd same_sandbox_def)
  then show ?case using spares_trans [OF _ Cons.IH] by (auto simp: s split: option.splits)
qed (simp add: spares_refl)

lemma spares_UpdateLifecycle: "spares h (snd (UpdateLifecycle d q ql qs i ttl p h))"
proof -
  obtain ok h1 where e: "ensureLifecycleState d q ql i h = (ok, h1)" by fastforce
  have h1: "spares h h1" using e
    by (intro spares_same) (auto simp: ensureLifecycleState_def life_Set_def split: if_splits option.splits prod.splits)
  have "spares h (snd (persistLifecycleWithRetry qs i x y (h1\<lparr>h_life := m\<rparr>)))" for x y m
    unfolding persistLifecycleWithRetry_def by (rule spares_trans [OF spares_frame [OF h1] spares_persist]) simp_all
  then show ?thesis using h1 by (auto simp: UpdateLifecycle_def e Let_def split: bool.splits)
qed

text \<open>What an agent does without being told to, and what guests do. The guard of the reaper's delete reads its row.\<close>

inductive auto_step :: "string \<Rightarrow> host \<Rightarrow> host \<Rightarrow> bool" for me where
  recover: "auto_step me h (snd (Recover me d now es rd (ListSandboxesForAgent q me h) h))"
| janitor: "(\<And>rs. ls = Some rs \<Longrightarrow> listed rs h) \<Longrightarrow> janitor_sweep me sv now grace ls (seen, h) = (out, seen', h') \<Longrightarrow> auto_step me h h'"
| died: "auto_step me h (vm_died te q i h)"
| reap: "(\<And>i. de_get (de i) = QOk) \<Longrightarrow> auto_step me h (reaper_scan de now ps h)"
| idle: "auto_step me h (idle_sweep hs idleAfter now fins is h)"
| shutdown: "auto_step me h (snd (HibernateAllPersistent hs is h))"
| wake: "auto_step me h (snd (EnsureRunning we now i h))"
| lifecycle: "auto_step me h (snd (UpdateLifecycle d q ql qs i ttl p h))"
| guest: "h_vm h i = Run \<Longrightarrow> auto_step me h (h\<lparr>h_disk := (h_disk h)(i := Suc (h_disk h i))\<rparr>)"

lemma auto_step_spares: "auto_step me h h' \<Longrightarrow> spares h h'"
proof (induction rule: auto_step.induct)
  case (janitor ls h sv now grace seen out seen' h')
  then show ?case using spares_janitor [of ls h me sv now grace seen] by simp
next
  case (wake h we now i)
  then show ?case using spares_wakeLocked [of h we now i] by (simp add: EnsureRunning_def spares_refl)
qed (simp_all add: spares_Recover spares_vm_died spares_reaper spares_idle_sweep HibernateAllPersistent_def spares_hibernate_all spares_UpdateLifecycle spares_same)

text \<open>
  C16: Nothing an agent does on its own loses a managed sandbox. Through any sequence of restarts with \<open>Recover\<close>, sweeps of the failed-row janitor, VM deaths, reaper scans,
  idle and shutdown hibernation, wakes and lifecycle updates, whatever statements and host operations fail (but the read of the guard in the reaper's delete, see
  \<open>delete_fails_open\<close>), the row of a database or app keeps existing with its
  template and metadata, and its durable volume stays untouched.
\<close>

theorem automatic_ops_keep_managed:
  assumes "(auto_step me)\<^sup>*\<^sup>* h h'" and "distinct (map sb_id (h_rows h))" and "r \<in> set (h_rows h)" and "managedKind r \<noteq> []"
  shows "(\<exists>r' \<in> set (h_rows h'). sb_id r' = sb_id r \<and> sb_template r' = sb_template r \<and> sb_metadata r' = sb_metadata r)
    \<and> h_volume h' (sb_id r) = h_volume h (sb_id r)"
proof -
  have "spares h h'"
    using assms(1) by (induction rule: rtranclp_induct) (auto intro: spares_refl spares_trans auto_step_spares)
  then show ?thesis using assms(2-4) by (auto simp: spares_def same_sandbox_def)
qed

section \<open>The grace period of the janitor\<close>

definition lists_failed :: "string \<Rightarrow> sb_row list \<Rightarrow> bool" where
  "lists_failed i rs \<longleftrightarrow> list_ex (\<lambda>r. sb_id r = i \<and> sb_status r = ''failed'' \<and> managedKind r = []) rs"

lemma teardown_driver: "\<not> h_driver h i \<Longrightarrow> h_driver (teardownResourcesKeepDurable e i h) = h_driver h"
  and teardown_sock: "h_sock (teardownResourcesKeepDurable e i h) = h_sock h"
  by (simp_all add: teardownResourcesKeepDurable_def teardownResourcesOpts_def Let_def forget_def rm_vmdir_def fun_upd_idem)

lemma DeleteSandbox_host: "h_driver (snd (DeleteSandbox q i h)) = h_driver h" "h_sock (snd (DeleteSandbox q i h)) = h_sock h"
  by (cases q; simp add: DeleteSandbox_def stmt_def)+

text \<open>What one row does: skip it, start its clock, wait, or reclaim.\<close>

lemma sweep_row_cases:
  assumes "sweep_row me e now grace r (seen, h, still, out) = (seen', h', still', out')"
  obtains (skip) "seen' = seen" "h' = h" "still' = still" "out' = out"
    | (arm) "lists_failed (sb_id r) [r]" "seen' = seen(sb_id r \<mapsto> now)" "h' = h" "still' = sb_id r # still" "out' = out"
    | (wait) "lists_failed (sb_id r) [r]" "seen' = seen" "h' = h" "still' = sb_id r # still" "out' = out"
    | (act) ok first where "lists_failed (sb_id r) [r]" "seen (sb_id r) = Some first" "grace \<le> now - first" "\<not> h_driver h (sb_id r)" "\<not> h_sock h (sb_id r)"
        "DeleteSandbox (sv_row e) (sb_id r) (teardownResourcesKeepDurable (sv_td e) (sb_id r) h) = (ok, h')"
        "seen' = (if ok then seen(sb_id r := None) else seen)" "still' = sb_id r # still" "out' = (if ok then sb_id r # out else out)"
proof (cases "sb_id r = [] \<or> sb_status r \<noteq> ''failed'' \<or> \<not> ownsRow me h r \<or> managedKind r \<noteq> []")
  case True
  then have "sweep_row me e now grace r (seen, h, still, out) = (seen, h, still, out)" by (auto simp: sweep_row_def Let_def)
  then show ?thesis using assms skip by simp
next
  case False
  then have l: "lists_failed (sb_id r) [r]" by (simp add: lists_failed_def)
  show ?thesis
  proof (cases "seen (sb_id r)")
    case None
    then show ?thesis using assms False l arm by (simp add: sweep_row_def Let_def)
  next
    case (Some first)
    obtain ok h1 where d: "DeleteSandbox (sv_row e) (sb_id r) (teardownResourcesKeepDurable (sv_td e) (sb_id r) h) = (ok, h1)" by fastforce
    show ?thesis
    proof (cases "now - first < grace \<or> h_driver h (sb_id r) \<or> h_sock h (sb_id r)")
      case True
      then have "sweep_row me e now grace r (seen, h, still, out) = (seen, h, sb_id r # still, out)" using False Some by (auto simp: sweep_row_def Let_def)
      then show ?thesis using assms l wait by simp
    next
      case go: False
      then have "h' = h1" "seen' = (if ok then seen(sb_id r := None) else seen)" "still' = sb_id r # still" "out' = (if ok then sb_id r # out else out)"
        using assms False Some d by (auto simp: sweep_row_def Let_def split: bool.splits)
      then show ?thesis using act [OF l Some] go d by simp
    qed
  qed
qed

lemma sweep_row_facts:
  assumes "sweep_row me e now grace r (seen, h, still, out) = (seen', h', still', out')"
  shows "h_driver h' = h_driver h \<and> h_sock h' = h_sock h"
    and "seen' i = Some t \<Longrightarrow> seen i = Some t \<or> t = now"
    and "i \<in> set still' \<Longrightarrow> i \<in> set still \<or> lists_failed i [r]"
    and "i \<in> set out' \<Longrightarrow> i \<in> set out \<or> lists_failed i [r] \<and> (\<exists>t. seen i = Some t \<and> grace \<le> now - t) \<and> \<not> h_driver h i \<and> \<not> h_sock h i"
proof -
  show "h_driver h' = h_driver h \<and> h_sock h' = h_sock h"
    using assms
  proof (cases rule: sweep_row_cases)
    case (act ok first)
    then show ?thesis
      using DeleteSandbox_host [of "sv_row e" "sb_id r" "teardownResourcesKeepDurable (sv_td e) (sb_id r) h"] teardown_driver teardown_sock by simp
  qed simp_all
  show "seen' i = Some t \<Longrightarrow> seen i = Some t \<or> t = now" using assms by (cases rule: sweep_row_cases) (auto split: if_splits)
  show "i \<in> set still' \<Longrightarrow> i \<in> set still \<or> lists_failed i [r]" using assms by (cases rule: sweep_row_cases) auto
  show "i \<in> set out' \<Longrightarrow> i \<in> set out \<or> lists_failed i [r] \<and> (\<exists>t. seen i = Some t \<and> grace \<le> now - t) \<and> \<not> h_driver h i \<and> \<not> h_sock h i"
    using assms by (cases rule: sweep_row_cases) (auto split: if_splits)
qed

lemma sweep_rows_facts:
  assumes "sweep_rows me es now grace rs (seen, h, still, out) = (seen', h', still', out')"
  shows "(seen' i = Some t \<longrightarrow> seen i = Some t \<or> t = now) \<and> (i \<in> set still' \<longrightarrow> i \<in> set still \<or> lists_failed i rs)
    \<and> (i \<in> set out' \<longrightarrow> i \<in> set out \<or> lists_failed i rs \<and> (\<exists>t. (seen i = Some t \<or> t = now) \<and> grace \<le> now - t) \<and> \<not> h_driver h i \<and> \<not> h_sock h i)"
  using assms
proof (induction rs arbitrary: seen h still out t)
  case (Cons r rs)
  obtain s1 h1 t1 o1 where one: "sweep_row me (es (sb_id r)) now grace r (seen, h, still, out) = (s1, h1, t1, o1)" by (metis prod_cases4)
  note f = sweep_row_facts [OF one]
  have IH: "(seen' i = Some t \<longrightarrow> s1 i = Some t \<or> t = now) \<and> (i \<in> set still' \<longrightarrow> i \<in> set t1 \<or> lists_failed i rs)
      \<and> (i \<in> set out' \<longrightarrow> i \<in> set o1 \<or> lists_failed i rs \<and> (\<exists>t. (s1 i = Some t \<or> t = now) \<and> grace \<le> now - t) \<and> \<not> h_driver h1 i \<and> \<not> h_sock h1 i)" for t
    using Cons.IH [of s1 h1 t1 o1 t] Cons.prems by (simp add: one)
  have l: "lists_failed i [r] \<or> lists_failed i rs \<Longrightarrow> lists_failed i (r # rs)" by (auto simp: lists_failed_def)
  have a: "seen' i = Some t \<longrightarrow> seen i = Some t \<or> t = now" using IH f(2) by blast
  have b: "i \<in> set still' \<longrightarrow> i \<in> set still \<or> lists_failed i (r # rs)" using IH f(3) l by blast
  have c: "i \<in> set out' \<longrightarrow> i \<in> set out \<or> lists_failed i (r # rs) \<and> (\<exists>t. (seen i = Some t \<or> t = now) \<and> grace \<le> now - t) \<and> \<not> h_driver h i \<and> \<not> h_sock h i"
    using IH f(1) f(2) f(4) l by metis
  show ?case using a b c by blast
qed simp

text \<open>A history of sweeps: their times, what the host answered, the listing, and the host each of them found.\<close>

type_synonym sweep_input = "int \<times> (string \<Rightarrow> sweep_env) \<times> sb_row list option \<times> host"

fun seen_after :: "string \<Rightarrow> int \<Rightarrow> sweep_input list \<Rightarrow> (string \<rightharpoonup> int) \<Rightarrow> (string \<rightharpoonup> int)" where
  "seen_after me grace [] seen = seen"
| "seen_after me grace ((now, es, ls, h) # xs) seen = seen_after me grace xs (fst (snd (janitor_sweep me es now grace ls (seen, h))))"

text \<open>Every sweep of a stretch that could list the rows saw the row failed and unmanaged.\<close>

definition all_failed :: "string \<Rightarrow> sweep_input list \<Rightarrow> bool" where
  "all_failed i xs \<longleftrightarrow> (\<forall>(now, es, ls, h) \<in> set xs. case ls of Some rs \<Rightarrow> lists_failed i rs | None \<Rightarrow> True)"

lemma seen_after_snoc:
  "seen_after me grace (xs @ [(now, es, ls, h)]) seen = fst (snd (janitor_sweep me es now grace ls (seen_after me grace xs seen, h)))"
  by (induction xs arbitrary: seen) auto

lemma janitor_seen:
  assumes "fst (snd (janitor_sweep me es now grace (Some rs) (seen, h))) i = Some t"
  shows "lists_failed i rs \<and> (seen i = Some t \<or> t = now)"
proof -
  obtain s h' st u where r: "sweep_rows me es now grace rs (seen, h, [], []) = (s, h', st, u)" by (metis prod_cases4)
  have "i \<in> set st" "s i = Some t" using assms by (auto simp: janitor_sweep_def r split: if_splits)
  then show ?thesis using sweep_rows_facts [OF r, of i t] by simp
qed

lemma seen_history:
  "seen_after me grace xs Map.empty i = Some t \<Longrightarrow>
    \<exists>ys es rs h zs. xs = ys @ (t, es, Some rs, h) # zs \<and> all_failed i ((t, es, Some rs, h) # zs)"
proof (induction xs arbitrary: t rule: rev_induct)
  case (snoc x xs)
  obtain now es ls h where x: "x = (now, es, ls, h)" by (metis prod_cases4)
  show ?case
  proof (cases ls)
    case None
    then have "seen_after me grace xs Map.empty i = Some t" using snoc.prems by (simp add: x seen_after_snoc janitor_sweep_def)
    then obtain ys es' rs' h' zs where "xs = ys @ (t, es', Some rs', h') # zs" "all_failed i ((t, es', Some rs', h') # zs)" using snoc.IH by blast
    then have "xs @ [x] = ys @ (t, es', Some rs', h') # (zs @ [x])" "all_failed i ((t, es', Some rs', h') # zs @ [x])"
      using None by (auto simp: all_failed_def x)
    then show ?thesis by blast
  next
    case (Some rs)
    then have l: "lists_failed i rs" "seen_after me grace xs Map.empty i = Some t \<or> t = now"
      using snoc.prems janitor_seen by (auto simp: x seen_after_snoc)
    show ?thesis
    proof (cases "seen_after me grace xs Map.empty i = Some t")
      case True
      then obtain ys es' rs' h' zs where "xs = ys @ (t, es', Some rs', h') # zs" "all_failed i ((t, es', Some rs', h') # zs)" using snoc.IH by blast
      then have "xs @ [x] = ys @ (t, es', Some rs', h') # (zs @ [x])" "all_failed i ((t, es', Some rs', h') # zs @ [x])"
        using Some l(1) by (auto simp: all_failed_def x)
      then show ?thesis by blast
    next
      case False
      then have "xs @ [x] = xs @ (t, es, Some rs, h) # []" "all_failed i [(t, es, Some rs, h)]" using l Some by (auto simp: all_failed_def x)
      then show ?thesis by blast
    qed
  qed
qed simp

text \<open>
  C18: The failed-row janitor reclaims a sandbox only after it was continuously failed for the grace period under this process. When a sweep reclaims an id, that sweep listed its
  row as failed and unmanaged and found neither a driver nor a Firecracker socket; and some earlier sweep, at least the grace period before, listed it
  so too, as did every sweep in between that could read the table. Outages of the table and the age of the row never shorten the wait.
\<close>

theorem janitor_waits_grace:
  assumes "0 < grace" and "i \<in> set (fst (janitor_sweep me es now grace ls (seen_after me grace xs Map.empty, h)))"
  shows "\<exists>rs ys t es' rs' h' zs. ls = Some rs \<and> lists_failed i rs \<and> \<not> h_driver h i \<and> \<not> h_sock h i
    \<and> xs = ys @ (t, es', Some rs', h') # zs \<and> grace \<le> now - t \<and> all_failed i ((t, es', Some rs', h') # zs)"
proof (cases ls)
  case (Some rs)
  let ?seen = "seen_after me grace xs Map.empty"
  obtain s h1 st u where r: "sweep_rows me es now grace rs (?seen, h, [], []) = (s, h1, st, u)" by (metis prod_cases4)
  then have "i \<in> set u" using assms(2) Some by (simp add: janitor_sweep_def)
  then obtain t where t: "?seen i = Some t \<or> t = now" "grace \<le> now - t" "lists_failed i rs" "\<not> h_driver h i" "\<not> h_sock h i"
    using sweep_rows_facts [OF r, of i 0] by auto
  then have "?seen i = Some t" using assms(1) by auto
  then show ?thesis using seen_history [of me grace xs i t] t Some by blast
qed (use assms(2) in \<open>simp add: janitor_sweep_def\<close>)

section \<open>Agents judge only their own rows\<close>

text \<open>Only the rows and the local evidence of \<open>i\<close> may change.\<close>

definition only :: "string \<Rightarrow> host \<Rightarrow> host \<Rightarrow> bool" where
  "only i h h' \<longleftrightarrow> (\<forall>r \<in> set (h_rows h). sb_id r \<noteq> i \<longrightarrow> r \<in> set (h_rows h')) \<and> (\<forall>j. j \<noteq> i \<longrightarrow> hasLocalEvidence h' j = hasLocalEvidence h j)"

lemma only_trans: "only i h h1 \<Longrightarrow> only i h1 h2 \<Longrightarrow> only i h h2"
  unfolding only_def by blast

lemma only_same: "h_rows h' = h_rows h \<Longrightarrow> (\<And>j. j \<noteq> i \<Longrightarrow> hasLocalEvidence h' j = hasLocalEvidence h j) \<Longrightarrow> only i h h'"
  by (simp add: only_def)

lemma only_stmt: "(\<And>r. sb_id r \<noteq> i \<Longrightarrow> r \<in> set (h_rows h) \<Longrightarrow> r \<in> set (f (h_rows h))) \<Longrightarrow> only i h (snd (stmt q f h))"
  by (cases q) (auto simp: stmt_def only_def hasLocalEvidence_def)

lemma only_SetStatus: "only i h (snd (SetStatus q i st h))"
  unfolding SetStatus_def by (rule only_stmt) (force simp: upd_row_def)

lemma only_SetStatusIf: "only i h (snd (SetStatusIf q i s t h))"
  unfolding SetStatusIf_def Let_def split_def snd_conv by (rule only_stmt) force

lemma only_claim: "only i h (snd (SetSandboxAgentID q i a h))"
  unfolding SetSandboxAgentID_def by (rule only_stmt) (force simp: upd_row_def)

lemma only_delete: "only i h (snd (DeleteSandbox q i h))"
  unfolding DeleteSandbox_def by (rule only_stmt) simp

lemma only_teardown: "only i h (teardownResourcesKeepDurable e i h)"
  by (rule only_same)
    (auto simp: teardownResourcesKeepDurable_def teardownResourcesOpts_def Let_def forget_def rm_vmdir_def hasLocalEvidence_def)

lemma SetStatus_host [simp]:
  "h_vmdirs (snd (SetStatus q i st h)) = h_vmdirs h" "h_sock (snd (SetStatus q i st h)) = h_sock h" "h_hiber (snd (SetStatus q i st h)) = h_hiber h"
  "h_vm (snd (SetStatus q i st h)) = h_vm h" "h_driver (snd (SetStatus q i st h)) = h_driver h" "h_disk (snd (SetStatus q i st h)) = h_disk h"
  "h_volume (snd (SetStatus q i st h)) = h_volume h"
  by (cases q; simp add: SetStatus_def stmt_def)+

lemma SetStatusIf_host [simp]: "h_vmdirs (snd (SetStatusIf q i s t h)) = h_vmdirs h" "h_sock (snd (SetStatusIf q i s t h)) = h_sock h"
  by (cases q; simp add: SetStatusIf_def stmt_def)+

lemma SetSandboxAgentID_host [simp]:
  "h_vmdirs (snd (SetSandboxAgentID q i a h)) = h_vmdirs h" "h_sock (snd (SetSandboxAgentID q i a h)) = h_sock h" "h_hiber (snd (SetSandboxAgentID q i a h)) = h_hiber h"
  by (cases q; simp add: SetSandboxAgentID_def stmt_def)+

text \<open>The last part of \<open>recover_row\<close>, on the claimed row with its lifecycle set.\<close>

definition recover_status :: "int \<Rightarrow> int \<Rightarrow> rec_env \<Rightarrow> sb_row \<Rightarrow> host \<Rightarrow> host" where
  "recover_status d now e r h2 =
     (if sb_status r = ''creating'' then snd (SetStatusIf (rv_set e) (sb_id r) ''creating'' ''failed'' h2)
      else if sb_status r \<noteq> ''running'' \<and> sb_status r \<noteq> ''paused'' then h2
      else if h_hiber h2 (sb_id r) \<noteq> None then
        (let h3 = recover_life d now e r (snd (SetStatus (rv_set e) (sb_id r) ''hibernated'' h2)) in h3\<lparr>h_sock := (h_sock h3)(sb_id r := False)\<rparr>)
      else if \<not> h_sock h2 (sb_id r) then
        (let h3 = snd (SetStatus (rv_set e) (sb_id r) ''failed'' h2) in if rv_net e then h3\<lparr>h_slot := (h_slot h3)(sb_id r := False)\<rparr> else h3)
      else snd (SetStatus (rv_set e) (sb_id r) ''failed'' h2))"

definition recover_claim :: "string \<Rightarrow> int \<Rightarrow> int \<Rightarrow> rec_env \<Rightarrow> sb_row \<Rightarrow> host \<Rightarrow> host" where
  "recover_claim me d now e r h =
     (let h1 = (if sb_agent r = [] \<and> me \<noteq> [] then snd (SetSandboxAgentID (rv_claim e) (sb_id r) me h) else h)
      in if sb_status r = ''hibernated'' then recover_life d now e r h1 else h1)"

lemma recover_row_split: "recover_row me d now e r h = recover_status d now e r (recover_claim me d now e r h)"
  unfolding recover_row_def recover_status_def recover_claim_def Let_def by (rule refl)

lemma only_recover_life: "only i h h1 \<Longrightarrow> only i h (recover_life d now e r h1)"
  by (erule only_trans) (simp add: only_def hasLocalEvidence_def)

lemma recover_claim_only: "only (sb_id r) h (recover_claim me d now e r h)"
  by (auto simp: recover_claim_def Let_def intro: only_recover_life only_claim only_same)

lemma recover_status_only: "only (sb_id r) h (recover_status d now e r h)"
proof -
  have sock: "only (sb_id r) h (h3\<lparr>h_sock := (h_sock h3)(sb_id r := False)\<rparr>)" if "only (sb_id r) h h3" for h3
    using that by (auto simp: only_def hasLocalEvidence_def)
  have slot: "only (sb_id r) h (h3\<lparr>h_slot := f\<rparr>)" if "only (sb_id r) h h3" for h3 f
    using that by (auto simp: only_def hasLocalEvidence_def)
  show ?thesis
    unfolding recover_status_def Let_def by (auto intro: only_SetStatusIf only_SetStatus only_same sock slot only_recover_life simp del: recover_life_frame)
qed

lemma recover_row_only: "only (sb_id r) h (recover_row me d now e r h)"
  unfolding recover_row_split by (rule only_trans [OF recover_claim_only recover_status_only])

lemma recover_row_host:
  "h_vmdirs (recover_row me d now e r h) = h_vmdirs h"
  "h_sock h j \<Longrightarrow> h_sock (recover_row me d now e r h) j \<or> j = sb_id r \<and> sb_status r \<noteq> ''failed''"
  unfolding recover_row_split by (auto simp: recover_status_def recover_claim_def Let_def)

lemma recover_rows_facts:
  assumes "recover_rows me d now es rs (live, h) = (live', h')" and "distinct (map sb_id rs)"
    and "\<forall>r \<in> set rs. hasLocalEvidence h (sb_id r) = hasLocalEvidence h0 (sb_id r)"
  shows "(\<forall>x \<in> set (h_rows h). (\<forall>r \<in> set rs. sb_id r = sb_id x \<longrightarrow> \<not> ownsRow me h0 r) \<longrightarrow> x \<in> set (h_rows h'))
    \<and> h_vmdirs h' = h_vmdirs h \<and> set live \<subseteq> set live'
    \<and> (\<forall>r \<in> set rs. sb_id r \<noteq> [] \<and> (\<not> ownsRow me h0 r \<or> sb_status r \<noteq> ''failed'') \<longrightarrow> sb_id r \<in> set live')
    \<and> (\<forall>j. h_sock h j \<longrightarrow> h_sock h' j \<or> j \<in> set live')"
  using assms
proof (induction rs arbitrary: live h)
  case (Cons r rs)
  have own: "ownsRow me h r = ownsRow me h0 r" using Cons.prems(3) by (simp add: ownsRow_def)
  define live1 where "live1 = (if sb_id r \<noteq> [] \<and> (\<not> ownsRow me h r \<or> sb_status r \<noteq> ''failed'') then sb_id r # live else live)"
  define h1 where "h1 = (if ownsRow me h r then recover_row me d now (es (sb_id r)) r h else h)"
  have run: "recover_rows me d now es rs (live1, h1) = (live', h')" using Cons.prems(1) by (simp add: live1_def h1_def Let_def)
  have onl: "only (sb_id r) h h1" by (simp add: h1_def recover_row_only only_same)
  have ev: "\<forall>x \<in> set rs. hasLocalEvidence h1 (sb_id x) = hasLocalEvidence h0 (sb_id x)"
    using onl Cons.prems(2,3) unfolding only_def by (metis (no_types, lifting) distinct.simps(2) image_eqI list.set_intros(2) list.set_map list.simps(9))
  have IH: "(\<forall>x \<in> set (h_rows h1). (\<forall>r \<in> set rs. sb_id r = sb_id x \<longrightarrow> \<not> ownsRow me h0 r) \<longrightarrow> x \<in> set (h_rows h'))"
      "h_vmdirs h' = h_vmdirs h1" "set live1 \<subseteq> set live'"
      "\<forall>r \<in> set rs. sb_id r \<noteq> [] \<and> (\<not> ownsRow me h0 r \<or> sb_status r \<noteq> ''failed'') \<longrightarrow> sb_id r \<in> set live'"
      "\<forall>j. h_sock h1 j \<longrightarrow> h_sock h' j \<or> j \<in> set live'"
    using Cons.IH [OF run _ ev] Cons.prems(2) by auto
  have keep: "x \<in> set (h_rows h1)" if "x \<in> set (h_rows h)" "\<forall>y \<in> set (r # rs). sb_id y = sb_id x \<longrightarrow> \<not> ownsRow me h0 y" for x
    using that onl own by (cases "sb_id x = sb_id r") (auto simp: only_def h1_def)
  have a: "\<forall>x \<in> set (h_rows h). (\<forall>y \<in> set (r # rs). sb_id y = sb_id x \<longrightarrow> \<not> ownsRow me h0 y) \<longrightarrow> x \<in> set (h_rows h')"
    using keep IH(1) by fastforce
  have b: "h_vmdirs h' = h_vmdirs h" using IH(2) by (simp add: h1_def recover_row_host)
  have c: "set live \<subseteq> set live'" "sb_id r \<noteq> [] \<and> (\<not> ownsRow me h0 r \<or> sb_status r \<noteq> ''failed'') \<longrightarrow> sb_id r \<in> set live'"
    using IH(3) own by (auto simp: live1_def split: if_splits)
  have s: "h_sock h1 j \<or> j \<in> set live1" if "h_sock h j" for j
    using that recover_row_host(2) [of h j me d now "es (sb_id r)" r] by (auto simp: h1_def live1_def ownsRow_def)
  have "\<forall>j. h_sock h j \<longrightarrow> h_sock h' j \<or> j \<in> set live'" using s IH(3,5) by blast
  then show ?case using a b c IH(4) by simp
qed auto

lemma gc_dirs_facts: "h_rows (gc_dirs es live ds h) = h_rows h
    \<and> (\<forall>x. x \<in> set (h_vmdirs h) \<and> (x \<in> set live \<or> h_sock h x) \<longrightarrow> x \<in> set (h_vmdirs (gc_dirs es live ds h)))"
proof (induction ds arbitrary: h)
  case (Cons d ds)
  show ?case using Cons.IH [of h] Cons.IH [of "rm_vmdir d h"] by (auto simp: rm_vmdir_def)
qed simp

lemma sweep_row_only:
  assumes "sweep_row me e now grace r (seen, h, still, out) = (seen', h', still', out')"
  shows "only (sb_id r) h h'" and "\<not> ownsRow me h r \<Longrightarrow> h' = h"
proof -
  show "only (sb_id r) h h'"
    using sweep_row_host [OF assms] only_trans [OF only_teardown only_delete] only_same [of h h] by auto
  show "\<not> ownsRow me h r \<Longrightarrow> h' = h" using assms by (auto simp: sweep_row_def Let_def split: if_splits)
qed

lemma sweep_rows_others:
  assumes "sweep_rows me es now grace rs (seen, h, still, out) = (seen', h', still', out')" and "distinct (map sb_id rs)"
    and "\<forall>r \<in> set rs. hasLocalEvidence h (sb_id r) = hasLocalEvidence h0 (sb_id r)"
    and "x \<in> set (h_rows h)" and "\<forall>r \<in> set rs. sb_id r = sb_id x \<longrightarrow> \<not> ownsRow me h0 r"
  shows "x \<in> set (h_rows h')"
  using assms
proof (induction rs arbitrary: seen h still out)
  case (Cons r rs)
  obtain s1 h1 t1 o1 where one: "sweep_row me (es (sb_id r)) now grace r (seen, h, still, out) = (s1, h1, t1, o1)" by (metis prod_cases4)
  have own: "ownsRow me h r = ownsRow me h0 r" using Cons.prems(3) by (simp add: ownsRow_def)
  have onl: "only (sb_id r) h h1" by (rule sweep_row_only(1) [OF one])
  have ev: "\<forall>y \<in> set rs. hasLocalEvidence h1 (sb_id y) = hasLocalEvidence h0 (sb_id y)"
    using onl Cons.prems(2,3) unfolding only_def by (metis (no_types, lifting) distinct.simps(2) image_eqI list.set_intros(2) list.set_map list.simps(9))
  have "x \<in> set (h_rows h1)"
    using Cons.prems(4,5) onl own sweep_row_only(2) [OF one] by (cases "sb_id x = sb_id r") (auto simp: only_def)
  then show ?case using Cons.IH [of s1 h1 t1 o1] Cons.prems ev by (simp add: one)
qed simp

text \<open>
  C17: On the table all agents share, an agent judges only its own rows. Neither \<open>Recover\<close> nor a sweep of the failed-row janitor changes or deletes a row that carries another agent's id, or
  a legacy row without an owner for which this host holds no directory, socket or volume. And the directory of a VM survives \<open>Recover\<close> whenever its Firecracker socket is
  there or a listed row that is not this agent's to judge, or not failed, names it.
\<close>

theorem judges_only_own_rows:
  assumes "distinct (map sb_id (h_rows h))" and "Recover me d now es rd (ListSandboxesForAgent q me h) h = (ok, h1)"
    and "janitor_sweep me sv now grace (ListSandboxesForAgent q me h) (seen, h) = (out, seen', h2)"
  shows "(\<forall>r \<in> set (h_rows h). \<not> ownsRow me h r \<longrightarrow> r \<in> set (h_rows h1) \<and> r \<in> set (h_rows h2))
    \<and> (\<forall>x \<in> set (h_vmdirs h). h_sock h x
          \<or> (\<exists>r \<in> set (h_rows h). sb_id r = x \<and> (sb_agent r = me \<or> sb_agent r = []) \<and> x \<noteq> [] \<and> (\<not> ownsRow me h r \<or> sb_status r \<noteq> ''failed''))
        \<longrightarrow> x \<in> set (h_vmdirs h1))"
proof (cases "q = QOk")
  case True
  define rs where "rs = filter (\<lambda>r. sb_agent r = me \<or> sb_agent r = []) (h_rows h)"
  have ls: "ListSandboxesForAgent q me h = Some rs" using True by (simp add: ListSandboxesForAgent_def rs_def)
  have dist: "distinct (map sb_id rs)" using assms(1) by (simp add: rs_def distinct_map_filter)
  have uniq: "\<forall>y \<in> set rs. sb_id y = sb_id r \<longrightarrow> \<not> ownsRow me h y" if "r \<in> set (h_rows h)" "\<not> ownsRow me h r" for r
  proof (intro ballI impI)
    fix y assume "y \<in> set rs" "sb_id y = sb_id r"
    then have "y = r" using that(1) assms(1) by (auto simp: rs_def distinct_map inj_on_def)
    then show "\<not> ownsRow me h y" using that(2) by simp
  qed
  obtain live ha where rec: "recover_rows me d now es rs ([], h) = (live, ha)" by fastforce
  note f = recover_rows_facts [OF rec dist, of h]
  have h1: "h1 = (if rd then gc_dirs es live (h_vmdirs ha) ha else ha)" using assms(2) by (simp add: Recover_def ls rec)
  obtain s hb t u where sw: "sweep_rows me sv now grace rs (seen, h, [], []) = (s, hb, t, u)" by (metis prod_cases4)
  have h2: "h2 = hb" using assms(3) by (simp add: janitor_sweep_def ls sw)
  have rows: "r \<in> set (h_rows h1)" "r \<in> set (h_rows h2)" if "r \<in> set (h_rows h)" "\<not> ownsRow me h r" for r
    using f gc_dirs_facts [of es live "h_vmdirs ha" ha] uniq [OF that] that(1) sweep_rows_others [OF sw dist, of h r] by (auto simp: h1 h2)
  have "x \<in> set (h_vmdirs h1)"
    if "x \<in> set (h_vmdirs h)" "h_sock h x \<or> (\<exists>r \<in> set (h_rows h). sb_id r = x \<and> (sb_agent r = me \<or> sb_agent r = []) \<and> x \<noteq> [] \<and> (\<not> ownsRow me h r \<or> sb_status r \<noteq> ''failed''))" for x
  proof -
    have "x \<in> set live \<or> h_sock ha x" using that(2) f by (auto simp: rs_def)
    then show ?thesis using f that(1) gc_dirs_facts [of es live "h_vmdirs ha" ha] by (auto simp: h1)
  qed
  then show ?thesis using rows by blast
next
  case False
  then show ?thesis using assms(2,3) by (simp add: ListSandboxesForAgent_def Recover_def janitor_sweep_def)
qed

section \<open>Hibernation\<close>





definition fresh :: "string \<Rightarrow> host \<Rightarrow> bool" where
  "fresh i h \<longleftrightarrow> (\<not> h_driver h i \<longrightarrow> h_hiber h i \<noteq> None \<longrightarrow> h_hiber h i = Some (h_disk h i) \<and> h_vm h i \<noteq> Run)"

lemma fresh_SetStatus [simp]: "fresh i (snd (SetStatus q j st h)) = fresh i h"
  by (simp add: fresh_def)

text \<open>An operation on another sandbox does not matter.\<close>

definition same_at :: "string \<Rightarrow> host \<Rightarrow> host \<Rightarrow> bool" where
  "same_at i h h' \<longleftrightarrow> h_driver h' i = h_driver h i \<and> h_hiber h' i = h_hiber h i \<and> h_disk h' i = h_disk h i \<and> h_vm h' i = h_vm h i"


lemma SetStatus_same_at [simp]: "same_at i h (snd (SetStatus q j st h')) = same_at i h h'"
  by (simp add: same_at_def)




lemma DeleteSandbox_same_at [simp]: "same_at i h (snd (DeleteSandbox q j h')) = same_at i h h'"
  by (cases q) (simp_all add: DeleteSandbox_def stmt_def same_at_def)













section \<open>Instances\<close>

definition demo_row :: "string \<Rightarrow> string \<Rightarrow> string \<Rightarrow> string \<Rightarrow> sb_row" where
  "demo_row i tmpl st agent = \<lparr>sb_id = i, sb_template = tmpl, sb_status = st, sb_metadata = Map.empty, sb_agent = agent, sb_persistent = False, sb_ttl = 0\<rparr>"

definition demo_host :: "sb_row list \<Rightarrow> host" where
  "demo_host rs = \<lparr>h_rows = rs, h_driver = (\<lambda>_. False), h_vm = (\<lambda>_. Off), h_sock = (\<lambda>_. False), h_slot = (\<lambda>_. False), h_vmdirs = [''s1''], h_disk = (\<lambda>_. 0),
     h_hiber = Map.empty, h_volume = [''d1'' \<mapsto> Data 7], h_life = Map.empty, h_active = Map.empty, h_tunnels = (\<lambda>_. 0), h_fails = (\<lambda>_. 0)\<rparr>"

definition up_td :: td_env where "up_td = \<lparr>td_net = True, td_dir = True, td_vol = True\<rparr>"
definition up_rec :: rec_env where "up_rec = \<lparr>rv_claim = QOk, rv_life = QOk, rv_set = QOk, rv_net = True, rv_rm = True\<rparr>"
definition up_sweep :: sweep_env where "up_sweep = \<lparr>sv_td = up_td, sv_row = QOk\<rparr>"
definition up_hib :: hib_env where
  "up_hib = \<lparr>hb_mkdir = True, hb_snap = True, hb_clear = True, hb_rename = True, hb_resume = True, hb_stop = True, hb_set = QOk\<rparr>"
definition up_wake :: wake_env where
  "up_wake = \<lparr>wk_kernel = True, wk_lookup = True, wk_natid = True, wk_netns = True, wk_realloc = True, wk_boot = True, wk_ip = True, wk_ready = True, wk_writes = 0, wk_set = QOk\<rparr>"

lemmas demo_defs = demo_row_def demo_host_def up_td_def up_rec_def up_sweep_def up_hib_def up_wake_def

text \<open>A failed database and a running sandbox whose processes are gone.\<close>

definition demo_rows :: "sb_row list" where
  "demo_rows = [demo_row ''d1'' ''postgres-16'' ''failed'' ''a1'', demo_row ''s1'' ''base'' ''running'' ''a1'', demo_row ''p1'' ''base'' ''running'' ''a2'']"

theorem automatic_ops_keep_managed_witness:
  "\<exists>r' \<in> set (h_rows (snd (Recover ''a1'' 0 0 (\<lambda>_. up_rec) True (ListSandboxesForAgent QOk ''a1'' (demo_host demo_rows)) (demo_host demo_rows)))).
     sb_id r' = ''d1'' \<and> sb_template r' = ''postgres-16''"
proof -
  have step: "(auto_step ''a1'')\<^sup>*\<^sup>* (demo_host demo_rows)
      (snd (Recover ''a1'' 0 0 (\<lambda>_. up_rec) True (ListSandboxesForAgent QOk ''a1'' (demo_host demo_rows)) (demo_host demo_rows)))"
    by (rule r_into_rtranclp) (rule auto_step.recover)
  have "distinct (map sb_id (h_rows (demo_host demo_rows)))" "demo_row ''d1'' ''postgres-16'' ''failed'' ''a1'' \<in> set (h_rows (demo_host demo_rows))"
      "managedKind (demo_row ''d1'' ''postgres-16'' ''failed'' ''a1'') \<noteq> []"
    by (simp_all add: demo_rows_def demo_defs managedKind_def isPGManagedTemplate_def)
  from automatic_ops_keep_managed [OF step this] show ?thesis by (auto simp: demo_row_def)
qed

theorem judges_only_own_rows_witness:
  "demo_row ''p1'' ''base'' ''running'' ''a2''
     \<in> set (h_rows (snd (Recover ''a1'' 0 0 (\<lambda>_. up_rec) True (ListSandboxesForAgent QOk ''a1'' (demo_host demo_rows)) (demo_host demo_rows))))"
proof -
  have d: "distinct (map sb_id (h_rows (demo_host demo_rows)))" by (simp add: demo_rows_def demo_defs)
  obtain ok h1 where r: "Recover ''a1'' 0 0 (\<lambda>_. up_rec) True (ListSandboxesForAgent QOk ''a1'' (demo_host demo_rows)) (demo_host demo_rows) = (ok, h1)" by fastforce
  obtain out seen h2 where s: "janitor_sweep ''a1'' (\<lambda>_. up_sweep) 0 1 (ListSandboxesForAgent QOk ''a1'' (demo_host demo_rows)) (Map.empty, demo_host demo_rows) = (out, seen, h2)"
    by (metis prod_cases3)
  have "demo_row ''p1'' ''base'' ''running'' ''a2'' \<in> set (h_rows (demo_host demo_rows))" "\<not> ownsRow ''a1'' (demo_host demo_rows) (demo_row ''p1'' ''base'' ''running'' ''a2'')"
    by (simp_all add: demo_rows_def demo_defs ownsRow_def)
  then have "demo_row ''p1'' ''base'' ''running'' ''a2'' \<in> set (h_rows h1)" using judges_only_own_rows [OF d r s] by blast
  then show ?thesis by (simp add: r)
qed

definition failed_host :: host where "failed_host = demo_host [demo_row ''s1'' ''base'' ''failed'' ''a1'']"

definition demo_sweeps :: "sweep_input list" where
  "demo_sweeps = [(0, \<lambda>_. up_sweep, Some (h_rows failed_host), failed_host), (5, \<lambda>_. up_sweep, None, failed_host)]"

theorem janitor_waits_grace_witness:
  "\<exists>ys t es rs h zs. demo_sweeps = ys @ (t, es, Some rs, h) # zs \<and> 10 \<le> 12 - t"
proof -
  have "''s1'' \<in> set (fst (janitor_sweep ''a1'' (\<lambda>_. up_sweep) 12 10 (Some (h_rows failed_host)) (seen_after ''a1'' 10 demo_sweeps Map.empty, failed_host)))"
    by (simp add: demo_sweeps_def failed_host_def demo_defs janitor_sweep_def sweep_row_def ownsRow_def managedKind_def isPGManagedTemplate_def
        DeleteSandbox_def stmt_def Let_def split: prod.splits)
  from janitor_waits_grace [OF _ this] show ?thesis by (simp only: zero_less_numeral) blast
qed

definition live_host :: host where
  "live_host = (demo_host [demo_row ''s1'' ''base'' ''running'' ''a1''])\<lparr>h_driver := (\<lambda>i. i = ''s1''), h_vm := (\<lambda>i. if i = ''s1'' then Run else Off), h_sock := (\<lambda>i. i = ''s1'')\<rparr>"



section \<open>Where the code fails open\<close>

text \<open>
  A wake whose guest changes its disk and then never answers keeps the old snapshot, and the retry the code asks for restores it over the newer disk.
\<close>

lemma unready_wake_restores_stale:
  "let h1 = snd (Hibernate up_hib ''s1'' live_host);
       (err, h2) = Wake (up_wake\<lparr>wk_ready := False, wk_writes := 3\<rparr>) 1 ''s1'' h1;
       (err', h3) = Wake up_wake 2 ''s1'' h2
   in err = Some HostErr \<and> h_hiber h2 ''s1'' = Some 0 \<and> h_disk h2 ''s1'' = 3 \<and> err' = None \<and> h_driver h3 ''s1''"
  by (simp add: Wake_def wakeLocked_def wake_failed_def Hibernate_def live_host_def demo_defs SetStatus_def stmt_def upd_row_def Let_def MarkActivity_def)

text \<open>
  The guard of an unforced delete is skipped when its row cannot be read: a generic delete, or the reaper's, then destroys a managed database
  with its durable volume.
\<close>

lemma delete_fails_open:
  "let h = demo_host [demo_row ''d1'' ''postgres-16'' ''running'' ''a1''];
       h' = snd (delete \<lparr>de_get = QFail, de_stop = True, de_row = QOk, de_td = up_td\<rparr> False ''d1'' h)
   in h_rows h' = [] \<and> h_volume h' ''d1'' = None"
  by (simp add: delete_def GetSandbox_def DeleteSandbox_def stmt_def forget_def rm_vmdir_def demo_defs Let_def)

text \<open>The death path writes the status by id without looking at the owner: a host that lost a database to a failover marks the new owner's row failed.\<close>

lemma death_marks_peer_row:
  "let h = (demo_host [demo_row ''d1'' ''postgres-16'' ''running'' ''a2''])\<lparr>h_driver := (\<lambda>i. i = ''d1'')\<rparr>
   in \<not> ownsRow ''a1'' h (demo_row ''d1'' ''postgres-16'' ''running'' ''a2'') \<and> map sb_status (h_rows (vm_died up_td QOk ''d1'' h)) = [''failed'']"
  by (simp add: vm_died_def SetStatus_def stmt_def upd_row_def teardownResourcesKeepDurable_def teardownResourcesOpts_def forget_def rm_vmdir_def ownsRow_def
      demo_defs Let_def)

text \<open>The process of the agent ends and takes its VMs with it.\<close>

definition agent_crash :: "host \<Rightarrow> host" where
  "agent_crash h = h\<lparr>h_driver := (\<lambda>_. False), h_vm := (\<lambda>_. Off), h_sock := (\<lambda>_. False), h_life := Map.empty, h_active := Map.empty, h_tunnels := (\<lambda>_. 0), h_fails := (\<lambda>_. 0)\<rparr>"

text \<open>
  A wake leaves its snapshot in place, and \<open>Recover\<close> takes any snapshot for the current one: after a hibernation, a wake, work of the guest and a crash, the
  row becomes hibernated and the next request restores the old memory over the newer disk.
\<close>

lemma recover_wakes_stale_snapshot:
  "let h1 = snd (Wake up_wake 1 ''s1'' (snd (Hibernate up_hib ''s1'' live_host)));
       h2 = agent_crash (h1\<lparr>h_disk := (h_disk h1)(''s1'' := Suc (h_disk h1 ''s1''))\<rparr>);
       h3 = snd (Recover ''a1'' 0 2 (\<lambda>_. up_rec) True (ListSandboxesForAgent QOk ''a1'' h2) h2)
   in map sb_status (h_rows h3) = [''hibernated''] \<and> fst (EnsureRunning up_wake 3 ''s1'' h3) = None
      \<and> h_hiber h3 ''s1'' = Some 0 \<and> h_disk h3 ''s1'' = 1"
  by (simp add: Hibernate_def Wake_def EnsureRunning_def wakeLocked_def agent_crash_def Recover_def ListSandboxesForAgent_def recover_row_def recover_life_def
      rehydrateLifecycle_def GetSandbox_def get_row_def SetStatus_def SetSandboxAgentID_def stmt_def upd_row_def MarkActivity_def life_Set_def ownsRow_def live_host_def demo_defs
      isDurableTemplate_def Let_def split_def)

end
