(* ===== verification/Wal_Relay.thy ===== *)
theory Wal_Relay
  imports Archive_Janitor
begin

text \<open>
  The WAL relay of the agent (\<^verbatim>\<open>src/agent/internal/sandbox/wal_relay.go\<close>): the pinned archive generation, recovery
  grants, ingest into the spool, the uploader, serving WAL to a recovering guest, and the schedules of base backups and partial
  uploads.

  The spool is a list of files keyed by database, kind and name (the dot-prefixed temporary files are not in it); the token of a
  database is the argument \<open>mac\<close>; \<open>gsutil\<close> answers with success or its error text.
\<close>

section \<open>State\<close>

definition walMaxBaseBytes :: int where "walMaxBaseBytes = 64 * 2 ^ 30"
definition walBaseEvery :: int where "walBaseEvery = 24 * Hour"
definition walBaseRetry :: int where "walBaseRetry = 300 * Second"
definition walSegmentBytes :: int where "walSegmentBytes = 16 * 2 ^ 20"
definition walPartialDefaultSecs :: int where "walPartialDefaultSecs = 20"

type_synonym spool_key = "string \<times> string \<times> string"

record WALRelay =
  wr_recovery :: "string \<rightharpoonup> int"
  wr_genCache :: "string \<rightharpoonup> string"
  wr_walBytes :: "string \<Rightarrow> int"
  wr_baseSize :: "string \<Rightarrow> int"
  wr_lastPartial :: "string \<Rightarrow> string"
  wr_baseFails :: "string \<Rightarrow> int"
  wr_baseParkedTo :: "string \<rightharpoonup> int"
  wr_spool :: "(spool_key \<times> byte list) list"

definition new_relay :: WALRelay where
  "new_relay = \<lparr>wr_recovery = Map.empty, wr_genCache = Map.empty, wr_walBytes = (\<lambda>_. 0), wr_baseSize = (\<lambda>_. 0),
     wr_lastPartial = (\<lambda>_. []), wr_baseFails = (\<lambda>_. 0), wr_baseParkedTo = Map.empty, wr_spool = []\<rparr>"

definition spool_put :: "spool_key \<Rightarrow> byte list \<Rightarrow> WALRelay \<Rightarrow> WALRelay" where
  "spool_put k v w = w\<lparr>wr_spool := (k, v) # filter (\<lambda>(k', _). k' \<noteq> k) (wr_spool w)\<rparr>"

definition spool_del :: "spool_key \<Rightarrow> WALRelay \<Rightarrow> WALRelay" where
  "spool_del k w = w\<lparr>wr_spool := filter (\<lambda>(k', _). k' \<noteq> k) (wr_spool w)\<rparr>"

definition spool_get :: "WALRelay \<Rightarrow> spool_key \<Rightarrow> byte list option" where
  "spool_get w k = map_of (wr_spool w) k"

text \<open>\<open>os.ReadDir\<close>: names in order.\<close>

definition spool_dir :: "WALRelay \<Rightarrow> string \<Rightarrow> string \<Rightarrow> string list" where
  "spool_dir w i kind = sort (List.map_filter (\<lambda>((j, k, n), _). if j = i \<and> k = kind then Some n else None) (wr_spool w))"

section \<open>Configuration\<close>

definition walBaseRatio :: "(string \<Rightarrow> rat option) \<Rightarrow> environ \<Rightarrow> rat" where
  "walBaseRatio parseFloat env =
     (let v = trim_space (env ''PANDASTACK_BASE_RATIO'') in
      if v \<noteq> [] then (case parseFloat v of Some f \<Rightarrow> if f > 0 then f else 1 | None \<Rightarrow> 1) else 1)"

definition walPartialInterval :: "environ \<Rightarrow> int" where
  "walPartialInterval env =
     (let v = trim_space (env ''PANDASTACK_WAL_PARTIAL_SECS'') in
      if v \<noteq> [] \<and> atoi v \<noteq> None
      then (case atoi v of Some n \<Rightarrow> if n \<le> 0 then 0 else i64 (n * Second) | None \<Rightarrow> 0)
      else walPartialDefaultSecs * Second)"

definition name_char :: "char \<Rightarrow> bool" where
  "name_char c \<longleftrightarrow> (let n = of_char c :: nat in 48 \<le> n \<and> n \<le> 57 \<or> 65 \<le> n \<and> n \<le> 90 \<or> 97 \<le> n \<and> n \<le> 122)"

text \<open>\<open>^[A-Za-z0-9][A-Za-z0-9._-]{0,127}$\<close>\<close>

definition walNameRe :: "string \<Rightarrow> bool" where
  "walNameRe s \<longleftrightarrow> (case s of [] \<Rightarrow> False
     | c # cs \<Rightarrow> name_char c \<and> length cs \<le> 127 \<and> list_all (\<lambda>d. name_char d \<or> d = CHR ''.'' \<or> d = CHR ''_'' \<or> d = CHR ''-'') cs)"

section \<open>Generations and grants\<close>

text \<open>\<open>md\<close> is the metadata of the sandbox row, \<open>None\<close> when it cannot be read.\<close>

definition row_gen :: "(string \<rightharpoonup> string) option \<Rightarrow> string" where
  "row_gen md =
     (case md of
        None \<Rightarrow> ''1''
      | Some m \<Rightarrow> (case m ''db.archive_gen'' of
                     None \<Rightarrow> ''1''
                   | Some v \<Rightarrow> if v \<noteq> [] \<and> atoi v \<noteq> None then v else ''1''))"

definition archiveGenFor :: "(string \<rightharpoonup> string) option \<Rightarrow> string \<Rightarrow> WALRelay \<Rightarrow> string \<times> WALRelay" where
  "archiveGenFor md i w =
     (case wr_genCache w i of
        Some g \<Rightarrow> (g, w)
      | None \<Rightarrow> (row_gen md, w\<lparr>wr_genCache := (wr_genCache w)(i \<mapsto> row_gen md)\<rparr>))"

definition InvalidateGen :: "string \<Rightarrow> WALRelay \<Rightarrow> WALRelay" where
  "InvalidateGen i w = w\<lparr>wr_genCache := (wr_genCache w)(i := None)\<rparr>"

definition AllowRecoverySource :: "int \<Rightarrow> string \<Rightarrow> int \<Rightarrow> WALRelay \<Rightarrow> WALRelay" where
  "AllowRecoverySource now i ttl w = w\<lparr>wr_recovery := (wr_recovery w)(i \<mapsto> now + ttl)\<rparr>"

text \<open>\<open>rows\<close>: the metadata of the rows of this agent, \<open>None\<close> when they cannot be listed.\<close>

definition recoverySourceAllowed :: "int \<Rightarrow> (string \<rightharpoonup> string) list option \<Rightarrow> string \<Rightarrow> WALRelay \<Rightarrow> bool \<times> WALRelay" where
  "recoverySourceAllowed now rows i w =
     (if (case wr_recovery w i of Some x \<Rightarrow> now < x | None \<Rightarrow> False) then (True, w)
      else let w1 = w\<lparr>wr_recovery := (wr_recovery w)(i := None)\<rparr> in
        case rows of
          None \<Rightarrow> (False, w1)
        | Some mds \<Rightarrow> if list_ex (\<lambda>m. m ''db.recover_from'' = Some i) mds then (True, AllowRecoverySource now i Hour w1) else (False, w1))"

section \<open>Ingest\<close>

definition bearer :: "string \<Rightarrow> string" where
  "bearer auth = trim_prefix auth ''Bearer ''"

record ingest_env =
  ie_vol :: bool
  ie_mkdir :: bool
  ie_open :: bool
  ie_copy :: bool
  ie_sync :: bool
  ie_close :: bool
  ie_rename :: bool

definition ingest ::
  "string \<Rightarrow> int \<Rightarrow> (string \<Rightarrow> string) \<Rightarrow> ingest_env \<Rightarrow> string \<Rightarrow> string \<Rightarrow> string \<Rightarrow> byte list \<Rightarrow> WALRelay \<Rightarrow> int \<times> WALRelay" where
  "ingest kind maxBytes mac e auth i name body w =
     (if \<not> walNameRe i \<or> \<not> walNameRe name then (400, w)
      else if bearer auth \<noteq> mac i then (401, w)
      else if \<not> ie_vol e then (404, w)
      else if \<not> ie_mkdir e then (500, w)
      else if \<not> ie_open e then (500, w)
      else if ie_copy e \<and> int (length body) \<le> maxBytes \<and> ie_sync e \<and> ie_close e \<and> ie_rename e
      then (201, spool_put (i, kind, name) body w)
      else (500, w))"

section \<open>Serving\<close>

datatype fetch_out = FetchOk "byte list" | FetchErr string

definition walNotFound :: "string \<Rightarrow> bool" where
  "walNotFound s \<longleftrightarrow> str_contains s ''No URLs matched'' \<or> str_contains s ''NotFoundException'' \<or> str_contains s ''matched no objects''"

definition streamPadded :: "byte list \<Rightarrow> byte list option" where
  "streamPadded b = (if int (length b) > walSegmentBytes then None else Some (b @ replicate (nat walSegmentBytes - length b) 0))"

text \<open>\<open>cp n\<close>: fetching object \<open>n\<close> of the archive; \<open>ls\<close>: listing the partial uploads of the segment, \<open>None\<close> on an error.\<close>

record serve_env =
  se_vol :: bool
  se_rows :: "(string \<rightharpoonup> string) list option"
  se_tmp :: bool
  se_tmp2 :: bool
  se_read :: bool
  se_cp :: "string \<Rightarrow> fetch_out"
  se_ls :: "string list option"

definition servePartialSegment :: "serve_env \<Rightarrow> WALRelay \<Rightarrow> string \<Rightarrow> string \<Rightarrow> byte list option" where
  "servePartialSegment e w i name =
     (let local = bestPartial (spool_dir w i ''wal'') name;
          fromSpool = (if local = [] then None else Option.bind (spool_get w (i, ''wal'', local)) streamPadded)
      in case fromSpool of
           Some b \<Rightarrow> Some b
         | None \<Rightarrow>
             (case se_ls e of
                None \<Rightarrow> None
              | Some ls \<Rightarrow>
                  (let best = bestPartial (map lastPathSeg (filter (\<lambda>l. l \<noteq> []) (map trim_space ls))) name in
                   if best = [] then None
                   else if \<not> se_tmp2 e then None
                   else case se_cp e best of FetchErr _ \<Rightarrow> None | FetchOk b \<Rightarrow> streamPadded b)))"

definition serveWAL ::
  "(string \<Rightarrow> string) \<Rightarrow> serve_env \<Rightarrow> int \<Rightarrow> string \<Rightarrow> string \<Rightarrow> string \<Rightarrow> WALRelay \<Rightarrow> (int \<times> byte list) \<times> WALRelay" where
  "serveWAL mac e now auth i name w =
     (if \<not> walNameRe i \<or> \<not> walNameRe name then ((400, []), w)
      else if bearer auth \<noteq> mac i then ((401, []), w)
      else
        let (allowed, w1) = (if se_vol e then (True, w) else recoverySourceAllowed now (se_rows e) i w) in
        if \<not> allowed then ((404, []), w1)
        else case spool_get w1 (i, ''wal'', name) of
          Some b \<Rightarrow> ((200, b), w1)
        | None \<Rightarrow>
            if \<not> se_tmp e then ((500, []), w1)
            else case se_cp e name of
              FetchOk b \<Rightarrow> if se_read e then ((200, b), w1) else ((500, []), w1)
            | FetchErr s \<Rightarrow>
                if walNotFound s
                then (case servePartialSegment e w1 i name of Some b \<Rightarrow> ((200, b), w1) | None \<Rightarrow> ((404, []), w1))
                else ((502, []), w1))"

section \<open>Uploader\<close>

datatype cp_out = CpOk | CpErr string

definition already_archived :: "string \<Rightarrow> bool" where
  "already_archived s \<longleftrightarrow> str_contains s ''412'' \<or> str_contains s ''Precondition'' \<or> str_contains s ''conditionNotMet''"

text \<open>
  What the uploader does with a file after \<open>gsutil cp\<close> answered \<open>c\<close>: \<open>n\<close> is the size read before the copy, \<open>rm\<close> says whether the
  removal works, its error is ignored.
\<close>

definition upload_one :: "bool \<Rightarrow> cp_out \<Rightarrow> spool_key \<Rightarrow> int \<Rightarrow> WALRelay \<Rightarrow> WALRelay" where
  "upload_one rm c key n w =
     (let w1 = (if rm then spool_del key w else w) in
      case c of
        CpErr s \<Rightarrow> if already_archived s then w1 else w
      | CpOk \<Rightarrow>
          (let (i, kind, name) = key in
           if kind = ''wal'' \<and> \<not> str_contains name ''.partial-'' then w1\<lparr>wr_walBytes := (wr_walBytes w1)(i := i64 (wr_walBytes w1 i + n))\<rparr>
           else if kind = ''base'' then w1\<lparr>wr_baseSize := (wr_baseSize w1)(i := n)\<rparr>
           else w1))"

text \<open>One sweep over the files present at its start; \<open>cps\<close> gives the outcome for each.\<close>

fun upload_sweep :: "(spool_key \<Rightarrow> bool \<times> cp_out) \<Rightarrow> (spool_key \<times> byte list) list \<Rightarrow> WALRelay \<Rightarrow> WALRelay" where
  "upload_sweep cps [] w = w"
| "upload_sweep cps ((k, b) # fs) w = upload_sweep cps fs (upload_one (fst (cps k)) (snd (cps k)) k (int (length b)) w)"

section \<open>Base backups and partial uploads\<close>

text \<open>The name of a base backup.\<close>

definition base_name :: "string \<Rightarrow> string \<Rightarrow> string" where
  "base_name stamp gen = ''base-'' @ stamp @ ''-g'' @ gen @ ''.tar.gz''"

text \<open>
  \<open>be_reach\<close>: the guest and its network allocation are found; \<open>be_stamp\<close>: the formatted time; \<open>be_post\<close>: what the guest sends through the relay under the given
  name; \<open>be_ok\<close>: the command of the guest otherwise succeeds. The guest posts what it has also when the dump fails halfway.
\<close>

record base_env =
  be_vol :: bool
  be_ready :: bool
  be_reach :: bool
  be_md :: "(string \<rightharpoonup> string) option"
  be_stamp :: string
  be_post :: "string \<Rightarrow> WALRelay \<Rightarrow> bool \<times> WALRelay"
  be_ok :: bool

definition baseBackupOne :: "base_env \<Rightarrow> string \<Rightarrow> WALRelay \<Rightarrow> bool \<times> WALRelay" where
  "baseBackupOne e i w =
     (if be_reach e
      then (let (gen, w1) = archiveGenFor (be_md e) i w; (sent, w2) = be_post e (base_name (be_stamp e) gen) w1 in (be_ok e \<and> sent, w2))
      else (False, w))"

record base_sched =
  bs_success :: "string \<rightharpoonup> int"
  bs_attempt :: "string \<rightharpoonup> int"

text \<open>One database of one tick of \<open>runBaseBackups\<close>: was a backup attempted? \<open>fin\<close> is the time it ends.\<close>

definition base_tick ::
  "(rat \<Rightarrow> rat) \<Rightarrow> rat \<Rightarrow> base_env \<Rightarrow> int \<Rightarrow> int \<Rightarrow> string \<Rightarrow> WALRelay \<times> base_sched \<Rightarrow> bool \<times> WALRelay \<times> base_sched" where
  "base_tick fl ratio e now fin i ws =
     (let (w, s) = ws in
      if \<not> be_vol e then (False, w, s)
      else if (case wr_baseParkedTo w i of Some t \<Rightarrow> now < t | None \<Rightarrow> False) then (False, w, s)
      else
        let ratioDue = (wr_baseSize w i > 0 \<and> fl (of_int (wr_walBytes w i)) \<ge> fl (ratio * fl (of_int (wr_baseSize w i))));
            timerDue = (case bs_success s i of None \<Rightarrow> True | Some t \<Rightarrow> now - t \<ge> walBaseEvery)
        in if \<not> timerDue \<and> \<not> ratioDue then (False, w, s)
           else if (case bs_attempt s i of Some t \<Rightarrow> now - t < walBaseRetry | None \<Rightarrow> False) then (False, w, s)
           else if \<not> be_ready e then (False, w, s)
           else
             let s1 = s\<lparr>bs_attempt := (bs_attempt s)(i \<mapsto> fin)\<rparr>; (ok, w0) = baseBackupOne e i w in
             if \<not> ok then
               (let fails = i64 (wr_baseFails w0 i + 1);
                    w1 = w0\<lparr>wr_baseFails := (wr_baseFails w0)(i := fails)\<rparr>
                in (True, if fails \<ge> 5 then w1\<lparr>wr_baseParkedTo := (wr_baseParkedTo w1)(i \<mapsto> fin + 24 * Hour)\<rparr> else w1, s1))
             else
               (True, w0\<lparr>wr_baseFails := (wr_baseFails w0)(i := 0), wr_baseParkedTo := (wr_baseParkedTo w0)(i := None),
                        wr_walBytes := (wr_walBytes w0)(i := 0)\<rparr>,
                s1\<lparr>bs_success := (bs_success s1)(i \<mapsto> fin)\<rparr>))"



section \<open>An acknowledged segment is never lost\<close>



text \<open>The guest sends \<open>body\<close> through the ingest handler.\<close>

definition post_file :: "string \<Rightarrow> int \<Rightarrow> (string \<Rightarrow> string) \<Rightarrow> ingest_env \<Rightarrow> string \<Rightarrow> string \<Rightarrow> byte list \<Rightarrow> string \<Rightarrow> WALRelay \<Rightarrow> bool \<times> WALRelay" where
  "post_file kind mx mac e auth i body name w = (let (r, w') = ingest kind mx mac e auth i name body w in (r = 201, w'))"






lemma map_of_filter_key: "map_of (filter (\<lambda>(k, _). P k) xs) k = (if P k then map_of xs k else None)"
  by (induction xs) auto

lemma spool_get_put: "spool_get (spool_put k v w) k' = (if k' = k then Some v else spool_get w k')"
  by (simp add: spool_get_def spool_put_def map_of_filter_key)

lemma spool_get_del: "spool_get (spool_del k w) k' = (if k' = k then None else spool_get w k')"
  by (simp add: spool_get_def spool_del_def map_of_filter_key)

lemma spool_get_upd [simp]:
  "spool_get (w\<lparr>wr_walBytes := x1\<rparr>) k = spool_get w k" "spool_get (w\<lparr>wr_baseSize := x2\<rparr>) k = spool_get w k"
  "spool_get (w\<lparr>wr_genCache := x3\<rparr>) k = spool_get w k"
  by (simp_all add: spool_get_def)

lemma upload_one_get:
  "spool_get (upload_one rm c k n w) k' =
    (if k' = k \<and> rm \<and> (case c of CpOk \<Rightarrow> True | CpErr s \<Rightarrow> already_archived s) then None else spool_get w k')"
  by (cases c; cases k) (auto simp: upload_one_def spool_get_del Let_def)
















definition good_ingest :: ingest_env where
  "good_ingest = \<lparr>ie_vol = True, ie_mkdir = True, ie_open = True, ie_copy = True, ie_sync = True, ie_close = True, ie_rename = True\<rparr>"




text \<open>
  The uploader reads any error text with the digits 412 in it as proof that the object exists. Database ids are hexadecimal, so the text of an unrelated
  failure that names the object can hold them: the only copy of the segment is then deleted.
\<close>

lemma upload_drops_unarchived:
  "already_archived (''ServiceException: 503 gs://b/db/'' @ i @ ''/wal/A1'')
    \<and> spool_get (upload_one True (CpErr (''ServiceException: 503 gs://b/db/'' @ i @ ''/wal/A1'')) (i, ''wal'', ''A1'') 1 (spool_put (i, ''wal'', ''A1'') [7] new_relay)) (i, ''wal'', ''A1'') = None"
  if i: "i = ''8f3a4121-0c5d-4e07-9b1a-6d2e5f708192''"
proof -
  have "already_archived (''ServiceException: 503 gs://b/db/'' @ i @ ''/wal/A1'')" unfolding i by code_simp
  then show ?thesis by (simp add: upload_one_get)
qed

text \<open>
  The guest pipes its dump through \<open>gzip\<close> and \<open>curl\<close>: a dump that fails halfway ends the stream like a complete one. The backup reports an error and the
  truncated base is in the spool all the same, to be archived under the newest stamp.
\<close>

lemma failed_base_is_spooled:
  assumes "be_reach be" "\<not> be_ok be" "be_post be = post_file ''base'' walMaxBaseBytes mac good_ingest auth i body"
    and "walNameRe i" "walNameRe (base_name (be_stamp be) (fst (archiveGenFor (be_md be) i w)))" "bearer auth = mac i" "int (length body) \<le> walMaxBaseBytes"
  shows "\<not> fst (baseBackupOne be i w)
    \<and> spool_get (snd (baseBackupOne be i w)) (i, ''base'', base_name (be_stamp be) (fst (archiveGenFor (be_md be) i w))) = Some body"
  using assms by (simp add: baseBackupOne_def post_file_def ingest_def good_ingest_def spool_get_put split_def Let_def)

section \<open>What a recovering guest reads\<close>

lemma parsePartialName_prefix: "parsePartialName n = Some (sg, off, g) \<Longrightarrow> has_prefix n (sg @ ''.partial-'')"
proof -
  have at: "str_index n sub = Some i \<Longrightarrow> i \<le> length n \<and> take (length sub) (drop i n) = sub" for n sub i
  proof (induction n arbitrary: i)
    case (Cons c cs)
    then show ?case by (cases "has_prefix (c # cs) sub") (auto simp: has_prefix_def)
  qed (simp add: has_prefix_def split: if_splits)
  have idx: "str_index n sub = Some i \<Longrightarrow> has_prefix n (take i n @ sub)" for n sub i
    using at [of n sub i] by (auto simp: has_prefix_def take_add min_def)
  assume "parsePartialName n = Some (sg, off, g)"
  then obtain i where "str_index n ''.partial-'' = Some i" "sg = take i n"
    by (auto simp: parsePartialName_def partial_off_def Let_def split: option.splits if_splits)
  then show ?thesis using idx by simp
qed

lemma best_loop_filter:
  assumes "\<And>n off g. n \<in> set ns \<Longrightarrow> parsePartialName n = Some (sg, off, g) \<Longrightarrow> P n"
  shows "best_loop sg (filter P ns) acc = best_loop sg ns acc"
  using assms
proof (induction sg ns acc rule: best_loop.induct)
  case (2 sg n ns best bestOff bestGen)
  then show ?case by (cases "parsePartialName n") (auto split: prod.splits)
qed simp

lemma bestPartial_filter:
  "bestPartial (filter (\<lambda>n. has_prefix n (sg @ ''.partial-'')) names) sg = bestPartial names sg"
  using best_loop_filter [of names sg "\<lambda>n. has_prefix n (sg @ ''.partial-'')"] parsePartialName_prefix by (simp add: bestPartial_def)

lemma bestPartial_in: "bestPartial names sg \<noteq> [] \<Longrightarrow> bestPartial names sg \<in> set names"
proof -
  have "fst (best_loop sg ns acc) = fst acc \<or> fst (best_loop sg ns acc) \<in> set ns" for ns acc
  proof (induction ns arbitrary: acc)
    case (Cons n ns)
    obtain b off g where acc: "acc = (b, off, g)" by (cases acc)
    have "best_loop sg (n # ns) acc = best_loop sg ns acc \<or> (\<exists>off' g'. best_loop sg (n # ns) acc = best_loop sg ns (n, off', g'))"
      by (auto simp: acc split: option.splits)
    then show ?case using Cons [of acc] Cons [of "(n, _, _)"] by fastforce
  qed simp
  from this [of names "([], -1, -1)"] show "bestPartial names sg \<noteq> [] \<Longrightarrow> bestPartial names sg \<in> set names" by (simp add: bestPartial_def)
qed

text \<open>
  A reachable archive with the objects \<open>gcs\<close>: \<open>gsutil cp\<close> copies an object or says it is missing, \<open>gsutil ls\<close> lists the partial uploads of the segment and fails when
  there is none.
\<close>

definition archive_up :: "serve_env \<Rightarrow> string \<Rightarrow> (string \<times> byte list) list \<Rightarrow> string \<Rightarrow> bool" where
  "archive_up e url gcs name \<longleftrightarrow>
     (\<forall>n. se_cp e n = (case map_of gcs n of Some b \<Rightarrow> FetchOk b | None \<Rightarrow> FetchErr ''CommandException: No URLs matched''))
     \<and> (let ps = filter (\<lambda>n. has_prefix n (name @ ''.partial-'')) (map fst gcs) in
        se_ls e = (if ps = [] then None else Some (map (\<lambda>n. url @ CHR ''/'' # n) ps)))
     \<and> se_tmp e \<and> se_tmp2 e \<and> se_read e"

lemma lastPathSeg_url: "CHR ''/'' \<notin> set n \<Longrightarrow> lastPathSeg (url @ CHR ''/'' # n) = n"
  unfolding lastPathSeg_def by (simp, subst takeWhile_append2) auto

lemma archive_up_ls:
  assumes "archive_up e url gcs name" and "\<And>n. n \<in> fst ` set gcs \<Longrightarrow> CHR ''/'' \<notin> set n \<and> trim_space (url @ CHR ''/'' # n) = url @ CHR ''/'' # n"
  shows "(case se_ls e of None \<Rightarrow> [] | Some ls \<Rightarrow> bestPartial (map lastPathSeg (filter (\<lambda>l. l \<noteq> []) (map trim_space ls))) name) = bestPartial (map fst gcs) name"
proof -
  let ?ps = "filter (\<lambda>n. has_prefix n (name @ ''.partial-'')) (map fst gcs)"
  have ps: "map trim_space (map (\<lambda>n. url @ CHR ''/'' # n) ?ps) = map (\<lambda>n. url @ CHR ''/'' # n) ?ps"
    unfolding map_map by (rule map_cong [OF refl]) (use assms(2) in auto)
  have "map lastPathSeg (filter (\<lambda>l. l \<noteq> []) (map (\<lambda>n. url @ CHR ''/'' # n) ?ps)) = ?ps"
    using assms(2) by (auto simp: filter_id_conv filter_map comp_def lastPathSeg_url intro!: map_idI)
  note urls = this
  have ls: "se_ls e = (if ?ps = [] then None else Some (map (\<lambda>n. url @ CHR ''/'' # n) ?ps))"
    using assms(1) by (simp add: archive_up_def Let_def)
  have best: "bestPartial ?ps name = bestPartial (map fst gcs) name" by (rule bestPartial_filter)
  show ?thesis
  proof (cases "?ps = []")
    case True
    then have "bestPartial (map fst gcs) name = []" using best by (simp add: bestPartial_def)
    then show ?thesis using ls True by simp
  next
    case False
    then show ?thesis by (simp only: ls if_False option.case ps urls best)
  qed
qed

text \<open>
  What recovery should read: a spooled segment, else an archived one, else the best spooled partial upload, else the best archived one, padded with zeros to a full
  segment; 404 when there is none.
\<close>

definition padded :: "byte list \<Rightarrow> byte list" where
  "padded b = b @ replicate (nat walSegmentBytes - length b) 0"

definition wal_answer :: "WALRelay \<Rightarrow> (string \<times> byte list) list \<Rightarrow> string \<Rightarrow> string \<Rightarrow> int \<times> byte list" where
  "wal_answer w gcs i name =
     (case (spool_get w (i, ''wal'', name), map_of gcs name) of
        (Some b, _) \<Rightarrow> (200, b)
      | (None, Some b) \<Rightarrow> (200, b)
      | (None, None) \<Rightarrow>
          (case (bestPartial (spool_dir w i ''wal'') name, bestPartial (map fst gcs) name) of
             ([], []) \<Rightarrow> (404, [])
           | ([], far) \<Rightarrow> (200, padded (the (map_of gcs far)))
           | (near, _) \<Rightarrow> (200, padded (the (spool_get w (i, ''wal'', near))))))"

lemma spool_dir_get: "n \<in> set (spool_dir w i kind) \<longleftrightarrow> spool_get w (i, kind, n) \<noteq> None"
proof -
  have "n \<in> set (spool_dir w i kind) \<longleftrightarrow> (i, kind, n) \<in> fst ` set (wr_spool w)"
    by (force simp: spool_dir_def List.map_filter_def split: if_splits)
  then show ?thesis by (simp add: spool_get_def map_of_eq_None_iff del: not_None_eq)
qed

lemma servePartial_near:
  assumes "bestPartial (spool_dir w i ''wal'') name = near" "near \<noteq> []" and "\<And>b. spool_get w (i, ''wal'', near) = Some b \<Longrightarrow> int (length b) \<le> walSegmentBytes"
  shows "servePartialSegment e w i name = Some (padded (the (spool_get w (i, ''wal'', near))))"
proof -
  have "near \<in> set (spool_dir w i ''wal'')" using bestPartial_in [of "spool_dir w i ''wal''" name] assms(1,2) by simp
  then obtain b where "spool_get w (i, ''wal'', near) = Some b" by (auto simp: spool_dir_get)
  then show ?thesis using assms by (simp add: servePartialSegment_def Let_def streamPadded_def padded_def)
qed

lemma servePartial_far:
  assumes near: "bestPartial (spool_dir w i ''wal'') name = []" and up: "archive_up e url gcs name"
    and names: "\<And>n. n \<in> fst ` set gcs \<Longrightarrow> CHR ''/'' \<notin> set n \<and> trim_space (url @ CHR ''/'' # n) = url @ CHR ''/'' # n"
    and sizes: "\<And>b. map_of gcs (bestPartial (map fst gcs) name) = Some b \<Longrightarrow> int (length b) \<le> walSegmentBytes"
  shows "servePartialSegment e w i name =
    (if bestPartial (map fst gcs) name = [] then None else Some (padded (the (map_of gcs (bestPartial (map fst gcs) name)))))"
proof -
  let ?far = "bestPartial (map fst gcs) name"
  have ls: "(case se_ls e of None \<Rightarrow> [] | Some ls \<Rightarrow> bestPartial (map lastPathSeg (filter (\<lambda>l. l \<noteq> []) (map trim_space ls))) name) = ?far"
    by (rule archive_up_ls [OF up names])
  show ?thesis
  proof (cases "se_ls e")
    case None
    then show ?thesis using ls near by (simp add: servePartialSegment_def)
  next
    case (Some lines)
    have best: "bestPartial (map lastPathSeg (filter (\<lambda>l. l \<noteq> []) (map trim_space lines))) name = ?far" using ls Some by simp
    have cp: "se_cp e ?far = (case map_of gcs ?far of Some b \<Rightarrow> FetchOk b | None \<Rightarrow> FetchErr ''CommandException: No URLs matched'')" "se_tmp2 e"
      using up by (simp_all add: archive_up_def)
    show ?thesis
    proof (cases "?far = []")
      case False
      then have "?far \<in> set (map fst gcs)" by (rule bestPartial_in)
      then obtain b where "map_of gcs ?far = Some b" by (metis map_of_eq_None_iff list.set_map not_None_eq)
      then show ?thesis using Some near best cp sizes False by (simp add: servePartialSegment_def streamPadded_def padded_def)
    qed (use Some near best in \<open>simp add: servePartialSegment_def\<close>)
  qed
qed

text \<open>
  C26: What a recovering guest reads. On an archive that can be reached (\<open>gsutil\<close> copies what exists, lists the partial uploads, reports what is missing; temporary files can be
  made) an authorised request for a database whose volume is here, or that has a recovery grant, is answered with the spooled segment, else the archived one, else the best
  spooled partial upload, else the best archived one, padded to a full segment, and with 404 only when spool and archive hold none of these: recovery ends exactly where the
  log ends. Partial uploads fit into a segment. A spooled partial upload goes before an archived one even of a higher generation (\<open>spooled_partial_hides_newer\<close>).
\<close>

theorem serveWAL_recovers:
  assumes auth: "walNameRe i" "walNameRe name" "bearer auth = mac i" and allowed: "se_vol e \<or> fst (recoverySourceAllowed now (se_rows e) i w)"
    and up: "archive_up e url gcs name"
    and names: "\<And>n. n \<in> fst ` set gcs \<Longrightarrow> CHR ''/'' \<notin> set n \<and> trim_space (url @ CHR ''/'' # n) = url @ CHR ''/'' # n"
    and far: "\<And>b. map_of gcs (bestPartial (map fst gcs) name) = Some b \<Longrightarrow> int (length b) \<le> walSegmentBytes"
    and near: "\<And>b. spool_get w (i, ''wal'', bestPartial (spool_dir w i ''wal'') name) = Some b \<Longrightarrow> int (length b) \<le> walSegmentBytes"
  shows "fst (serveWAL mac e now auth i name w) = wal_answer w gcs i name"
proof -
  define w1 where "w1 = (if se_vol e then w else snd (recoverySourceAllowed now (se_rows e) i w))"
  have "wr_spool w1 = wr_spool w"
    by (auto simp: w1_def recoverySourceAllowed_def AllowRecoverySource_def Let_def split: option.splits)
  then have same: "spool_get w1 k = spool_get w k" "spool_dir w1 i ''wal'' = spool_dir w i ''wal''" for k by (simp_all add: spool_get_def spool_dir_def)
  have nf: "walNotFound ''CommandException: No URLs matched''" by code_simp
  have cp: "se_cp e name = (case map_of gcs name of Some b \<Rightarrow> FetchOk b | None \<Rightarrow> FetchErr ''CommandException: No URLs matched'')" "se_tmp e" "se_read e"
    using up by (simp_all add: archive_up_def)
  have run: "fst (serveWAL mac e now auth i name w) =
      (case (spool_get w (i, ''wal'', name), map_of gcs name) of (Some b, _) \<Rightarrow> (200, b) | (None, Some b) \<Rightarrow> (200, b)
       | (None, None) \<Rightarrow> (case servePartialSegment e w1 i name of Some b \<Rightarrow> (200, b) | None \<Rightarrow> (404, [])))"
    using auth allowed cp nf same(1) [of "(i, ''wal'', name)"]
    by (cases "se_vol e") (auto simp: serveWAL_def w1_def split_def Let_def split: option.splits)
  have part: "servePartialSegment e w1 i name =
      (case (bestPartial (spool_dir w i ''wal'') name, bestPartial (map fst gcs) name) of ([], []) \<Rightarrow> None
       | ([], far) \<Rightarrow> Some (padded (the (map_of gcs far))) | (nr, _) \<Rightarrow> Some (padded (the (spool_get w (i, ''wal'', nr)))))"
  proof (cases "bestPartial (spool_dir w i ''wal'') name")
    case Nil
    then show ?thesis using servePartial_far [OF _ up names far, of w1 i] by (simp add: same split: list.splits)
  next
    case (Cons c cs)
    then show ?thesis using servePartial_near [of w1 i name "c # cs" e] near by (simp add: same)
  qed
  show ?thesis unfolding run part wal_answer_def by (simp split: option.splits list.splits)
qed

definition demo_archive :: "(string \<times> byte list) list" where
  "demo_archive = [(''A1.partial-1-g1'', [7]), (''A1.partial-2-g1'', [7, 8])]"

definition demo_serve :: "string list option \<Rightarrow> serve_env" where
  "demo_serve ls = \<lparr>se_vol = True, se_rows = None, se_tmp = True, se_tmp2 = True, se_read = True,
     se_cp = (\<lambda>n. case map_of demo_archive n of Some b \<Rightarrow> FetchOk b | None \<Rightarrow> FetchErr ''CommandException: No URLs matched''),
     se_ls = ls\<rparr>"

definition demo_listing :: "string list" where
  "demo_listing = map (\<lambda>n. ''gs://b'' @ CHR ''/'' # n) (map fst demo_archive)"

theorem serveWAL_recovers_witness:
  "fst (serveWAL (\<lambda>i. ''t'') (demo_serve (Some demo_listing)) 0 ''Bearer t'' ''d1'' ''A1'' new_relay) = (200, [7, 8] @ replicate (nat walSegmentBytes - 2) 0)"
proof -
  have ok: "walNameRe ''d1''" "walNameRe ''A1''" "bearer ''Bearer t'' = ''t''" by code_simp+
  have ps: "filter (\<lambda>n. has_prefix n (''A1'' @ ''.partial-'')) (map fst demo_archive) = map fst demo_archive" by code_simp
  have up: "archive_up (demo_serve (Some demo_listing)) ''gs://b'' demo_archive ''A1''"
    unfolding archive_up_def ps demo_serve_def demo_listing_def by (simp add: Let_def demo_archive_def)
  have names: "CHR ''/'' \<notin> set n \<and> trim_space (''gs://b'' @ CHR ''/'' # n) = ''gs://b'' @ CHR ''/'' # n" if "n \<in> fst ` set demo_archive" for n
    using that by (auto simp: demo_archive_def trim_space_def is_space_def)
  have best: "bestPartial (map fst demo_archive) ''A1'' = ''A1.partial-2-g1''" "bestPartial (spool_dir new_relay ''d1'' ''wal'') ''A1'' = []" by code_simp+
  have far: "int (length b) \<le> walSegmentBytes" if "map_of demo_archive (bestPartial (map fst demo_archive) ''A1'') = Some b" for b
    using that unfolding best by (simp add: demo_archive_def walSegmentBytes_def) auto
  have near: "int (length b) \<le> walSegmentBytes" if "spool_get new_relay (''d1'', ''wal'', bestPartial (spool_dir new_relay ''d1'' ''wal'') ''A1'') = Some b" for b
    using that by (simp add: spool_get_def new_relay_def)
  have vol: "se_vol (demo_serve (Some demo_listing)) \<or> fst (recoverySourceAllowed 0 (se_rows (demo_serve (Some demo_listing))) ''d1'' new_relay)"
    by (simp add: demo_serve_def)
  have "wal_answer new_relay demo_archive ''d1'' ''A1'' = (200, [7, 8] @ replicate (nat walSegmentBytes - 2) 0)"
    unfolding wal_answer_def best by (simp add: demo_archive_def padded_def spool_get_def new_relay_def numeral_2_eq_2)
  then show ?thesis
    using serveWAL_recovers [where mac = "\<lambda>i. ''t''" and now = 0, OF ok vol up names far near] by simp
qed

text \<open>
  The relay looks for a partial upload in its spool first and does not compare it with the archive: a partial upload left in the spool by a former epoch is served although
  the archive has one of the current generation.
\<close>

lemma spooled_partial_hides_newer:
  "let w = spool_put (''d1'', ''wal'', ''A1.partial-1-g0'') [7] new_relay in
   bestPartial [''A1.partial-1-g0'', ''A1.partial-2-g1''] ''A1'' = ''A1.partial-2-g1''
   \<and> servePartialSegment (demo_serve (Some demo_listing)) w ''d1'' ''A1'' = Some (padded [7])"
proof -
  have "bestPartial [''A1.partial-1-g0'', ''A1.partial-2-g1''] ''A1'' = ''A1.partial-2-g1''" by code_simp
  moreover have "bestPartial (spool_dir (spool_put (''d1'', ''wal'', ''A1.partial-1-g0'') [7] new_relay) ''d1'' ''wal'') ''A1'' = ''A1.partial-1-g0''" by code_simp
  ultimately show ?thesis
    using servePartial_near [of "spool_put (''d1'', ''wal'', ''A1.partial-1-g0'') [7] new_relay" "''d1''" "''A1''" _ "demo_serve (Some demo_listing)"]
    by (simp add: Let_def spool_get_put walSegmentBytes_def)
qed

text \<open>
  A listing of the partial uploads that fails for any reason is answered with 404, which a guest reads as the end of the archive: here the same archive,
  with the listing failing, ends the recovery without the flushed tail of the log.
\<close>

lemma serveWAL_flaky_listing_ends_recovery:
  "fst (serveWAL (\<lambda>i. ''t'') (demo_serve None) 0 ''Bearer t'' ''d1'' ''A1'' new_relay) = (404, [])"
  by code_simp

text \<open>A generation read while the row cannot be read pins 1 for the rest of the epoch, whatever the row says later.\<close>

lemma archiveGenFor_pins_on_error:
  "wr_genCache w i = None \<Longrightarrow> fst (archiveGenFor md i (snd (archiveGenFor None i w))) = ''1''"
  by (simp add: archiveGenFor_def row_gen_def)

text \<open>A base backup is attempted only for a ready database that is not parked, and not within the retry interval of the last attempt.\<close>

lemma base_tick_attempt:
  assumes "base_tick fl ratio e now fin i (w, s) = (True, ws)"
  shows "be_vol e \<and> be_ready e \<and> (\<forall>t. wr_baseParkedTo w i = Some t \<longrightarrow> t \<le> now) \<and> (\<forall>t. bs_attempt s i = Some t \<longrightarrow> walBaseRetry \<le> now - t)"
  using assms by (auto simp: base_tick_def Let_def split: if_splits option.splits)

end
