(* ===== verification/Db_Restore.thy ===== *)
theory Db_Restore
  imports Sandbox_Lifecycle Wal_Relay
begin

text \<open>
  Restoring a managed database on an agent (\<^verbatim>\<open>src/agent/internal/sandbox/db_restore.go\<close>): the choice of the base backup, the staging of a volume, the boot of the restored
  database by \<open>Create\<close> (\<^verbatim>\<open>manager.go\<close>, for the request a restore makes) and \<open>RestoreDatabase\<close> itself.

  The state is the host of \<open>Sandbox_Lifecycle\<close> with the WAL relay and the credentials waiting for the next boot. \<open>sort.Slice\<close> on base backups is the argument \<open>srt\<close>;
  the outcomes of commands are arguments. A restore replays the database's own archive, so the clone form of \<open>restore_command\<close> is left out.
\<close>

section \<open>Base candidates\<close>

record base_cand =
  bc_url :: string
  bc_gen :: int
  bc_ts :: int

type_synonym cand_sort = "(base_cand \<Rightarrow> base_cand \<Rightarrow> bool) \<Rightarrow> base_cand list \<Rightarrow> base_cand list"

datatype restore_err = BadId | RunningHere | NotManaged | NoDriver | NoRelay | NoBucket | ListErr | NoBases | BackupErr | NoUsable | StageErr | BootErr

text \<open>One line of the listing; \<open>agentBaseNameRe\<close> matches the whole name.\<close>

definition cand_of :: "string \<Rightarrow> base_cand option" where
  "cand_of line =
     (let l = trim_space line in
      case base_match (lastPathSeg l) of
        None \<Rightarrow> None
      | Some (st, g) \<Rightarrow>
          (case parse_stamp st of
             None \<Rightarrow> None
           | Some ts \<Rightarrow> Some \<lparr>bc_url = l, bc_gen = (if g \<noteq> [] then parse_int64 g else 0), bc_ts = ts\<rparr>))"

definition cand_before :: "base_cand \<Rightarrow> base_cand \<Rightarrow> bool" where
  "cand_before a b \<longleftrightarrow> (if bc_gen a \<noteq> bc_gen b then bc_gen a > bc_gen b else bc_ts a > bc_ts b)"

definition resolveBaseCandidates :: "cand_sort \<Rightarrow> environ \<Rightarrow> gs_out \<Rightarrow> restore_err + string list" where
  "resolveBaseCandidates srt genv out =
     (if trim_space (genv ''PANDASTACK_SNAPSHOT_BUCKET'') = [] then Inl NoBucket
      else case out of
        GsFail _ \<Rightarrow> Inl ListErr
      | GsOk ls \<Rightarrow>
          (let bases = List.map_filter cand_of ls in
           if bases = [] then Inl NoBases else Inr (map bc_url (srt cand_before bases))))"

definition resolveBaseForTarget :: "cand_sort \<Rightarrow> environ \<Rightarrow> gs_out \<Rightarrow> restore_err + string" where
  "resolveBaseForTarget srt genv out = map_sum (\<lambda>e. e) hd (resolveBaseCandidates srt genv out)"

section \<open>Staging a volume\<close>

definition recovery_line :: "string \<Rightarrow> bool" where
  "recovery_line l \<longleftrightarrow>
     (let t = trim_space l in
      t = ''# PandaStack failover recovery'' \<or> has_prefix t ''restore_command'' \<or> has_prefix t ''recovery_target_timeline''
      \<or> has_prefix t ''recovery_target_time'' \<or> has_prefix t ''recovery_target_action'')"

definition stripPandaStackRecoveryConf :: "string \<Rightarrow> string" where
  "stripPandaStackRecoveryConf conf = join [CHR 0x0A] (filter (\<lambda>l. \<not> recovery_line l) (split_on (CHR 0x0A) conf))"

definition restore_lines :: "string list" where
  "restore_lines = [''# PandaStack failover recovery'',
     ''restore_command = '' @ [CHR 0x27] @ ''/usr/local/bin/pandastack-wal-restore %f %p'' @ [CHR 0x27],
     ''recovery_target_timeline = '' @ [CHR 0x27] @ ''latest'' @ [CHR 0x27]]"

definition dbRestoreWALRestoreConf :: string where
  "dbRestoreWALRestoreConf = concat (map (\<lambda>l. CHR 0x0A # l) restore_lines) @ [CHR 0x0A]"

text \<open>
  \<open>bd_get\<close> downloads a candidate and gives its size, \<open>bd_gzip\<close> is its integrity check, \<open>bd_conf\<close> the \<^verbatim>\<open>postgresql.conf\<close> in it; the other fields say whether a step succeeds.
\<close>

record build_env =
  bd_ls :: gs_out
  bd_dir :: bool
  bd_get :: "string \<Rightarrow> int option"
  bd_gzip :: "string \<Rightarrow> bool"
  bd_image :: bool
  bd_mount :: bool
  bd_extract :: bool
  bd_signal :: bool
  bd_conf :: "string \<Rightarrow> string option"
  bd_write :: bool
  bd_umount :: bool
  bd_rename :: bool

definition usable :: "build_env \<Rightarrow> string \<Rightarrow> bool" where
  "usable e c \<longleftrightarrow> bd_get e c \<noteq> None \<and> bd_gzip e c"

fun pick_base :: "build_env \<Rightarrow> string list \<Rightarrow> string option" where
  "pick_base e [] = None"
| "pick_base e (c # cs) = (if usable e c then Some c else pick_base e cs)"

definition pgDataPlaceholderGB :: int where "pgDataPlaceholderGB = 5"

definition volume_size :: "int \<Rightarrow> int" where
  "volume_size n = (let s = pgDataPlaceholderGB * 2 ^ 30; want = i64 (i64 (n * 4) + 2 ^ 30) in if want > s then want else s)"

text \<open>The staged image is renamed into place as the last step: an error leaves the volume as it was.\<close>

definition buildDBVolumeFromSource :: "cand_sort \<Rightarrow> environ \<Rightarrow> build_env \<Rightarrow> string \<Rightarrow> host \<Rightarrow> restore_err option \<times> host" where
  "buildDBVolumeFromSource srt genv e i h =
     (case resolveBaseCandidates srt genv (bd_ls e) of
        Inl err \<Rightarrow> (Some err, h)
      | Inr cands \<Rightarrow>
          if \<not> bd_dir e then (Some StageErr, h)
          else case pick_base e cands of
            None \<Rightarrow> (Some NoUsable, h)
          | Some c \<Rightarrow>
              if \<not> bd_image e \<or> \<not> bd_mount e \<or> \<not> bd_extract e \<or> \<not> bd_signal e then (Some StageErr, h)
              else case bd_conf e c of
                None \<Rightarrow> (Some StageErr, h)
              | Some conf \<Rightarrow>
                  if \<not> bd_write e \<or> \<not> bd_umount e \<or> \<not> bd_rename e then (Some StageErr, h)
                  else (None, h\<lparr>h_volume := (h_volume h)(i \<mapsto>
                          Staged c (stripPandaStackRecoveryConf conf @ dbRestoreWALRestoreConf) (volume_size (the (bd_get e c))))\<rparr>))"

section \<open>Booting the database\<close>

definition ensureDBVolume :: "bool \<Rightarrow> string \<Rightarrow> host \<Rightarrow> bool \<times> host" where
  "ensureDBVolume mk i h =
     (if h_volume h i \<noteq> None then (True, h)
      else if mk then (True, h\<lparr>h_volume := (h_volume h)(i \<mapsto> Sparse (pgDataPlaceholderGB * 2 ^ 30))\<rparr>)
      else (False, h))"

text \<open>The ways \<open>Create\<close> brings a VM up; only the NAT identity restore and the cold boot attach the durable volume.\<close>

datatype boot = NatidBoot | SnapBoot | ColdBoot

record create_env =
  cv_pull :: bool
  cv_admit :: bool
  cv_natid :: bool
  cv_ready1 :: bool
  cv_ready2 :: bool
  cv_alloc :: bool
  cv_insert :: query
  cv_mkdir :: bool
  cv_ident :: bool
  cv_natalloc :: bool
  cv_realloc :: bool
  cv_mkvol :: bool
  cv_natboot :: bool
  cv_snapboot :: bool
  cv_disk :: bool
  cv_coldboot :: bool
  cv_rmvol :: bool
  cv_row :: query
  cv_del :: query
  cv_net :: bool

definition free_net :: "bool \<Rightarrow> string \<Rightarrow> host \<Rightarrow> host" where
  "free_net ok i h = (if ok then h\<lparr>h_slot := (h_slot h)(i := False)\<rparr> else h)"

definition take_net :: "string \<Rightarrow> host \<Rightarrow> host" where
  "take_net i h = h\<lparr>h_slot := (h_slot h)(i := True)\<rparr>"

definition vm_up :: "string \<Rightarrow> host \<Rightarrow> host" where
  "vm_up i h = h\<lparr>h_driver := (h_driver h)(i := True), h_vm := (h_vm h)(i := Run), h_sock := (h_sock h)(i := True)\<rparr>"

text \<open>\<open>UpdateSandbox\<close> rewrites the row when it exists.\<close>

definition UpdateSandbox :: "query \<Rightarrow> sb_row \<Rightarrow> host \<Rightarrow> bool \<times> host" where
  "UpdateSandbox q r = stmt q (upd_row (sb_id r) (\<lambda>old. old\<lparr>sb_template := sb_template r, sb_status := sb_status r, sb_metadata := sb_metadata r\<rparr>))"

text \<open>The deferred cleanup of every error after the admission gate.\<close>

definition create_failed :: "create_env \<Rightarrow> string \<Rightarrow> host \<Rightarrow> boot option \<times> host" where
  "create_failed e i h = (None, rm_vmdir i (snd (DeleteSandbox (cv_del e) i (free_net (cv_net e) i h))))"

definition create_cold :: "create_env \<Rightarrow> sb_row \<Rightarrow> host \<Rightarrow> boot option \<times> host" where
  "create_cold e r h =
     (let i = sb_id r in
      if \<not> cv_disk e then create_failed e i h
      else case ensureDBVolume (cv_mkvol e) i h of
        (False, h1) \<Rightarrow> create_failed e i h1
      | (True, h1) \<Rightarrow>
          if \<not> cv_coldboot e then
            (let h2 = snd (UpdateSandbox (cv_row e) (r\<lparr>sb_status := ''failed''\<rparr>) h1)
             in create_failed e i (if cv_rmvol e then h2\<lparr>h_volume := (h_volume h2)(i := None)\<rparr> else h2))
          else (Some ColdBoot, snd (UpdateSandbox (cv_row e) (r\<lparr>sb_status := ''running''\<rparr>) (vm_up i h1))))"

definition create_snap :: "create_env \<Rightarrow> sb_row \<Rightarrow> host \<Rightarrow> boot option \<times> host" where
  "create_snap e r h =
     (if cv_snapboot e then (Some SnapBoot, snd (UpdateSandbox (cv_row e) (r\<lparr>sb_status := ''running''\<rparr>) (vm_up (sb_id r) h)))
      else create_cold e r h)"

definition create_natid :: "create_env \<Rightarrow> sb_row \<Rightarrow> host \<Rightarrow> boot option \<times> host" where
  "create_natid e r h =
     (let i = sb_id r; h0 = free_net (cv_net e) i h in
      if \<not> cv_ident e \<or> \<not> cv_natalloc e then (if cv_realloc e then create_snap e r (take_net i h0) else create_failed e i h0)
      else case ensureDBVolume (cv_mkvol e) i (take_net i h0) of
        (False, h1) \<Rightarrow> create_failed e i (free_net (cv_net e) i h1)
      | (True, h1) \<Rightarrow>
          if cv_natboot e then (Some NatidBoot, snd (InsertSandbox (cv_row e) (r\<lparr>sb_status := ''running''\<rparr>) (vm_up i h1)))
          else (let h2 = free_net (cv_net e) i h1 in create_snap e r (if cv_realloc e then take_net i h2 else h2)))"

text \<open>The first steps of \<open>Create\<close>: on the fast path the row is only inserted once the VM is up.\<close>

definition create_row :: "create_env \<Rightarrow> sb_row \<Rightarrow> host \<Rightarrow> bool \<times> host" where
  "create_row e r h =
     (if cv_natid e \<and> cv_ready1 e then (True, h)
      else if \<not> cv_alloc e then (False, h)
      else let (ins, h') = InsertSandbox (cv_insert e) r (take_net (sb_id r) h) in (ins, if ins then h' else free_net (cv_net e) (sb_id r) h'))"

definition create_vm :: "create_env \<Rightarrow> sb_row \<Rightarrow> bool \<times> host \<Rightarrow> boot option \<times> host" where
  "create_vm e r p =
     (let (ok, h1) = p in
      if \<not> ok \<or> \<not> cv_mkdir e then create_failed e (sb_id r) h1
      else let h2 = h1\<lparr>h_vmdirs := sb_id r # h_vmdirs h1\<rparr> in
        if cv_ready2 e then (if cv_natid e then create_natid e r h2 else create_snap e r h2) else create_cold e r h2)"

definition db_row :: "string \<Rightarrow> string \<Rightarrow> string \<Rightarrow> string \<Rightarrow> (string \<rightharpoonup> string) \<Rightarrow> sb_row" where
  "db_row me i template st md = \<lparr>sb_id = i, sb_template = template, sb_status = st, sb_metadata = md, sb_agent = me, sb_persistent = False, sb_ttl = 0\<rparr>"

text \<open>\<open>Create\<close> for a pinned id of a managed template, without volumes or a snapshot of its own.\<close>

definition create_db :: "int \<Rightarrow> string \<Rightarrow> create_env \<Rightarrow> string \<Rightarrow> string \<Rightarrow> (string \<rightharpoonup> string) \<Rightarrow> host \<Rightarrow> boot option \<times> host" where
  "create_db defaultTTL me e i template md h =
     (if \<not> cv_pull e \<or> \<not> cv_admit e then (None, h)
      else let r = db_row me i template ''creating'' md in
        case create_vm e r (create_row e r h) of
          (None, h3) \<Rightarrow> (None, h3)
        | (Some b, h3) \<Rightarrow> (Some b, setLifecycleForCreate defaultTTL i None True template h3))"

section \<open>RestoreDatabase\<close>

record db_state =
  ds_host :: host
  ds_relay :: "WALRelay option"
  ds_creds :: "string \<rightharpoonup> string \<times> string"

record restore_env =
  rs_get :: query
  rs_ls :: gs_out
  rs_backup :: base_env
  rs_td :: td_env
  rs_rm :: bool
  rs_build :: build_env
  rs_mark :: query
  rs_del :: query
  rs_create :: create_env
  rs_ins :: query

definition setPendingPGCreds :: "string \<Rightarrow> (string \<times> string) option \<Rightarrow> db_state \<Rightarrow> db_state" where
  "setPendingPGCreds i c s =
     (case c of Some (pw, tok) \<Rightarrow> if pw = [] \<or> tok = [] then s else s\<lparr>ds_creds := (ds_creds s)(i \<mapsto> (pw, tok))\<rparr> | None \<Rightarrow> s)"

definition takePendingPGCreds :: "string \<Rightarrow> db_state \<Rightarrow> (string \<times> string) option \<times> db_state" where
  "takePendingPGCreds i s = (ds_creds s i, s\<lparr>ds_creds := (ds_creds s)(i := None)\<rparr>)"

text \<open>The template and the workspace are filled in from the row; clone-era keys are dropped.\<close>

definition backfill :: "query \<Rightarrow> string \<Rightarrow> string \<Rightarrow> (string \<rightharpoonup> string) option \<Rightarrow> host \<Rightarrow> string \<times> (string \<rightharpoonup> string) option" where
  "backfill q i template md h =
     (let needT = (template = []); needW = (case md of None \<Rightarrow> True | Some m \<Rightarrow> m ''workspace'' = None \<or> m ''workspace'' = Some []);
          row = (if needT \<or> needW then GetSandbox q i h else None);
          t1 = (case row of Some r \<Rightarrow> if needT \<and> isPGManagedTemplate (sb_template r) then sb_template r else template | None \<Rightarrow> template);
          m1 = (case row of
                  Some r \<Rightarrow> (case sb_metadata r ''workspace'' of
                               Some w \<Rightarrow> if needW \<and> w \<noteq> [] then Some ((case md of None \<Rightarrow> Map.empty | Some m \<Rightarrow> m)(''workspace'' \<mapsto> w)) else md
                             | None \<Rightarrow> md)
                | None \<Rightarrow> md)
      in (if t1 = [] then ''postgres-16'' else t1, map_option (\<lambda>m. m(''db.recover_from'' := None, ''db.recovery_target_time'' := None)) m1))"

text \<open>The volume before the boot: rebuilt in place after a safety backup, reused, or built.\<close>

definition restore_volume ::
  "cand_sort \<Rightarrow> environ \<Rightarrow> restore_env \<Rightarrow> bool \<Rightarrow> string \<Rightarrow> db_state \<Rightarrow> restore_err option \<times> db_state" where
  "restore_volume srt genv e inPlace i s =
     (let h = ds_host s in
      if inPlace then
        (if \<not> h_driver h i then (Some NoDriver, s)
         else case ds_relay s of
           None \<Rightarrow> (Some NoRelay, s)
         | Some w \<Rightarrow>
             (case resolveBaseForTarget srt genv (rs_ls e) of
                Inl err \<Rightarrow> (Some err, s)
              | Inr _ \<Rightarrow>
                  (case baseBackupOne (rs_backup e) i w of
                     (False, w1) \<Rightarrow> (Some BackupErr, s\<lparr>ds_relay := Some w1\<rparr>)
                   | (True, w1) \<Rightarrow>
                       (let h1 = teardownResourcesOpts (rs_td e) False i h;
                            h2 = (if rs_rm e then h1\<lparr>h_volume := (h_volume h1)(i := None)\<rparr> else h1)
                        in case buildDBVolumeFromSource srt genv (rs_build e) i h2 of
                             (Some err, h3) \<Rightarrow> (Some err, s\<lparr>ds_host := snd (SetStatus (rs_mark e) i ''failed'' h3), ds_relay := Some w1\<rparr>)
                           | (None, h3) \<Rightarrow> (None, s\<lparr>ds_host := h3, ds_relay := Some w1\<rparr>)))))
      else if h_volume h i \<noteq> None then (None, s)
      else case buildDBVolumeFromSource srt genv (rs_build e) i h of (err, h1) \<Rightarrow> (err, s\<lparr>ds_host := h1\<rparr>))"

text \<open>From the old row to the booted database or a failed row.\<close>

definition restore_boot ::
  "int \<Rightarrow> string \<Rightarrow> restore_env \<Rightarrow> (string \<times> string) option \<Rightarrow> string \<Rightarrow> string \<Rightarrow> (string \<rightharpoonup> string) option \<Rightarrow> db_state \<Rightarrow> (restore_err + boot) \<times> db_state" where
  "restore_boot defaultTTL me e creds i template md s =
     (let s1 = setPendingPGCreds i creds s;
          h1 = snd (DeleteSandbox (rs_del e) i (ds_host s1));
          meta = (case md of None \<Rightarrow> Map.empty | Some m \<Rightarrow> m);
          s2 = s1\<lparr>ds_host := h1, ds_relay := map_option (InvalidateGen i) (ds_relay s1)\<rparr>
      in case create_db defaultTTL me (rs_create e) i template meta h1 of
           (Some b, h2) \<Rightarrow> (Inr b, s2\<lparr>ds_host := h2\<rparr>)
         | (None, h2) \<Rightarrow>
             (let s3 = (if creds \<noteq> None then snd (takePendingPGCreds i s2) else s2)
              in (Inl BootErr, s3\<lparr>ds_host := snd (InsertSandbox (rs_ins e) (db_row me i template ''failed'' meta) h2)\<rparr>)))"

definition RestoreDatabase ::
  "(string \<Rightarrow> bool) \<Rightarrow> cand_sort \<Rightarrow> environ \<Rightarrow> int \<Rightarrow> string \<Rightarrow> restore_env \<Rightarrow> bool \<Rightarrow> (string \<times> string) option \<Rightarrow> string \<Rightarrow> string \<Rightarrow> (string \<rightharpoonup> string) option
    \<Rightarrow> db_state \<Rightarrow> (restore_err + boot) \<times> db_state" where
  "RestoreDatabase uuidOk srt genv defaultTTL me e inPlace creds i template md s =
     (if \<not> uuidOk i then (Inl BadId, s)
      else if \<not> inPlace \<and> h_driver (ds_host s) i then (Inl RunningHere, s)
      else
        let (t, m) = backfill (rs_get e) i template md (ds_host s) in
        if \<not> isPGManagedTemplate t then (Inl NotManaged, s)
        else case restore_volume srt genv e inPlace i s of
          (Some err, s1) \<Rightarrow> (Inl err, s1)
        | (None, s1) \<Rightarrow> restore_boot defaultTTL me e creds i t m s1)"

section \<open>The staged volume\<close>

text \<open>What \<open>sort.Slice\<close> promises.\<close>

definition cand_sort_ok :: "cand_sort \<Rightarrow> bool" where
  "cand_sort_ok srt \<longleftrightarrow> (\<forall>xs. mset (srt cand_before xs) = mset xs \<and> sorted_wrt (\<lambda>a b. \<not> cand_before b a) (srt cand_before xs))"

lemma split_on_not_Nil: "split_on c xs \<noteq> []"
  by (induction xs) (auto split: list.splits)

lemma split_on_append: "split_on c (xs @ c # ys) = split_on c xs @ split_on c ys"
  by (induction xs) (auto simp: split_on_not_Nil split: list.splits)

lemma split_on_free: "c \<notin> set xs \<Longrightarrow> split_on c xs = [xs]"
  by (induction xs) auto

lemma split_on_parts: "l \<in> set (split_on c xs) \<Longrightarrow> c \<notin> set l"
  by (induction xs arbitrary: l) (auto split: list.splits if_splits)

lemma split_on_join: "ls \<noteq> [] \<Longrightarrow> (\<And>l. l \<in> set ls \<Longrightarrow> c \<notin> set l) \<Longrightarrow> split_on c (join [c] ls) = ls"
proof (induction "[c]" ls rule: join.induct)
  case (3 x y zs)
  then show ?case using split_on_append [of c x "join [c] (y # zs)"] by (simp add: split_on_free)
qed (simp_all add: split_on_free)

text \<open>Every line of the configuration that is not a recovery line is kept, and no recovery line is left.\<close>

lemma strip_lines:
  "filter (\<lambda>l. l \<noteq> []) (split_on (CHR 0x0A) (stripPandaStackRecoveryConf conf))
     = filter (\<lambda>l. l \<noteq> [] \<and> \<not> recovery_line l) (split_on (CHR 0x0A) conf)"
proof -
  let ?k = "filter (\<lambda>l. \<not> recovery_line l) (split_on (CHR 0x0A) conf)"
  show ?thesis
  proof (cases "?k = []")
    case True
    then have "filter (\<lambda>l. l \<noteq> [] \<and> \<not> recovery_line l) (split_on (CHR 0x0A) conf) = []" by (auto simp: filter_empty_conv)
    then show ?thesis using True by (simp add: stripPandaStackRecoveryConf_def)
  next
    case False
    have "split_on (CHR 0x0A) (join [CHR 0x0A] ?k) = ?k" by (rule split_on_join [OF False]) (auto dest: split_on_parts)
    then show ?thesis by (simp add: stripPandaStackRecoveryConf_def) (rule filter_cong, auto)
  qed
qed

lemma restore_conf_split: "split_on (CHR 0x0A) (s @ dbRestoreWALRestoreConf) = split_on (CHR 0x0A) s @ restore_lines @ [[]]"
proof -
  obtain a b c where l: "restore_lines = [a, b, c]" "CHR 0x0A \<notin> set a" "CHR 0x0A \<notin> set b" "CHR 0x0A \<notin> set c"
    by (simp add: restore_lines_def)
  have "s @ dbRestoreWALRestoreConf = s @ CHR 0x0A # (a @ CHR 0x0A # (b @ CHR 0x0A # (c @ CHR 0x0A # [])))"
    by (simp add: dbRestoreWALRestoreConf_def l(1))
  then show ?thesis by (simp only: split_on_append split_on_free [OF l(2)] split_on_free [OF l(3)] split_on_free [OF l(4)] l(1) split_on.simps(1)) simp
qed

lemma recovery_line_fresh: "\<forall>l \<in> set restore_lines. recovery_line l"
  unfolding list_all_iff [symmetric] by code_simp

lemma recovery_line_Nil: "\<not> recovery_line []"
  by code_simp

text \<open>The recovery lines of the staged configuration are the new ones, the other lines are those of the backup.\<close>

lemma staged_conf:
  "filter recovery_line (split_on (CHR 0x0A) (stripPandaStackRecoveryConf conf @ dbRestoreWALRestoreConf)) = restore_lines"
  "filter (\<lambda>l. l \<noteq> [] \<and> \<not> recovery_line l) (split_on (CHR 0x0A) (stripPandaStackRecoveryConf conf @ dbRestoreWALRestoreConf))
     = filter (\<lambda>l. l \<noteq> [] \<and> \<not> recovery_line l) (split_on (CHR 0x0A) conf)"
proof -
  let ?s = "split_on (CHR 0x0A) (stripPandaStackRecoveryConf conf)"
  have clean: "filter recovery_line ?s = []"
  proof -
    have "filter recovery_line ?s = filter recovery_line (filter (\<lambda>l. l \<noteq> []) ?s)"
      unfolding filter_filter by (rule filter_cong) (auto simp: recovery_line_Nil)
    then show ?thesis unfolding strip_lines by (simp add: filter_empty_conv)
  qed
  have "filter recovery_line restore_lines = restore_lines" using recovery_line_fresh by (simp add: filter_id_conv)
  then show "filter recovery_line (split_on (CHR 0x0A) (stripPandaStackRecoveryConf conf @ dbRestoreWALRestoreConf)) = restore_lines"
    unfolding restore_conf_split by (simp add: clean recovery_line_Nil)
  have "filter (\<lambda>l. l \<noteq> [] \<and> \<not> recovery_line l) restore_lines = []" using recovery_line_fresh by (simp add: filter_empty_conv)
  moreover have "filter (\<lambda>l. l \<noteq> [] \<and> \<not> recovery_line l) ?s = filter (\<lambda>l. l \<noteq> []) ?s"
    using clean by (intro filter_cong) (auto simp: filter_empty_conv)
  ultimately show "filter (\<lambda>l. l \<noteq> [] \<and> \<not> recovery_line l) (split_on (CHR 0x0A) (stripPandaStackRecoveryConf conf @ dbRestoreWALRestoreConf))
     = filter (\<lambda>l. l \<noteq> [] \<and> \<not> recovery_line l) (split_on (CHR 0x0A) conf)"
    unfolding restore_conf_split by (simp add: strip_lines)
qed

lemma pick_base_sorted:
  assumes "sorted_wrt R cs" and "pick_base e (map f cs) = Some c"
  shows "\<exists>b \<in> set cs. f b = c \<and> usable e c \<and> (\<forall>b' \<in> set cs. usable e (f b') \<longrightarrow> b' = b \<or> R b b')"
  using assms by (induction cs) (auto split: if_splits)

lemma pick_base_None: "pick_base e cs = None \<longleftrightarrow> (\<forall>c \<in> set cs. \<not> usable e c)"
  by (induction cs) auto

text \<open>
  The configuration a restored database starts with, against the one of the backup: one line that sets \<open>restore_command\<close>, one that begins with
  \<open>recovery_target_time\<close> and it sets the timeline, no recovery action, one marker line, and all other lines of the backup in their order.
\<close>

definition sets :: "string \<Rightarrow> string \<Rightarrow> bool" where
  "sets p l \<longleftrightarrow> has_prefix (trim_space l) p"

definition marker :: string where
  "marker = ''# PandaStack failover recovery''"

definition other_line :: "string \<Rightarrow> bool" where
  "other_line l \<longleftrightarrow> l \<noteq> [] \<and> trim_space l \<noteq> marker \<and> \<not> sets ''restore_command'' l \<and> \<not> sets ''recovery_target_time'' l \<and> \<not> sets ''recovery_target_action'' l"

definition recovers_cleanly :: "string \<Rightarrow> string \<Rightarrow> bool" where
  "recovers_cleanly conf out \<longleftrightarrow> (let ls = split_on (CHR 0x0A) out in
     filter (sets ''restore_command'') ls = [''restore_command = '' @ [CHR 0x27] @ ''/usr/local/bin/pandastack-wal-restore %f %p'' @ [CHR 0x27]]
     \<and> filter (sets ''recovery_target_time'') ls = [''recovery_target_timeline = '' @ [CHR 0x27] @ ''latest'' @ [CHR 0x27]]
     \<and> filter (sets ''recovery_target_action'') ls = []
     \<and> filter (\<lambda>l. trim_space l = marker) ls = [marker]
     \<and> filter other_line ls = filter other_line (split_on (CHR 0x0A) conf))"

lemma filter_weaker: "(\<And>x. P x \<Longrightarrow> Q x) \<Longrightarrow> filter P xs = filter P (filter Q xs)"
  unfolding filter_filter by (rule filter_cong) auto

lemma has_prefix_shorter: "has_prefix s (p @ q) \<Longrightarrow> has_prefix s p"
  by (simp add: has_prefix_def) (metis append_eq_conv_conj length_append min.absorb1 le_add1 take_take)

lemma staged_recovers: "recovers_cleanly conf (stripPandaStackRecoveryConf conf @ dbRestoreWALRestoreConf)"
proof -
  let ?ls = "split_on (CHR 0x0A) (stripPandaStackRecoveryConf conf @ dbRestoreWALRestoreConf)"
  have P: "filter P ?ls = filter P restore_lines" if "\<And>l. P l \<Longrightarrow> recovery_line l" for P
    using filter_weaker [of P recovery_line ?ls, OF that] by (simp add: staged_conf(1))
  have other: "other_line l \<longleftrightarrow> l \<noteq> [] \<and> \<not> recovery_line l" for l
    using has_prefix_shorter [of "trim_space l" "''recovery_target_time''" "''line''"]
    unfolding other_line_def recovery_line_def sets_def marker_def Let_def by simp blast
  have lines: "filter (sets ''restore_command'') restore_lines = [''restore_command = '' @ [CHR 0x27] @ ''/usr/local/bin/pandastack-wal-restore %f %p'' @ [CHR 0x27]]"
      "filter (sets ''recovery_target_time'') restore_lines = [''recovery_target_timeline = '' @ [CHR 0x27] @ ''latest'' @ [CHR 0x27]]"
      "filter (sets ''recovery_target_action'') restore_lines = []" "filter (\<lambda>l. trim_space l = marker) restore_lines = [marker]"
    by code_simp+
  have rec: "sets ''restore_command'' l \<Longrightarrow> recovery_line l" "sets ''recovery_target_time'' l \<Longrightarrow> recovery_line l"
      "sets ''recovery_target_action'' l \<Longrightarrow> recovery_line l" "trim_space l = marker \<Longrightarrow> recovery_line l" for l
    unfolding sets_def recovery_line_def marker_def Let_def by blast+
  have "filter other_line ?ls = filter other_line (split_on (CHR 0x0A) conf)" unfolding other by (rule staged_conf(2))
  then show ?thesis
    unfolding recovers_cleanly_def Let_def
    using P [of "sets ''restore_command''", OF rec(1)] P [of "sets ''recovery_target_time''", OF rec(2)]
      P [of "sets ''recovery_target_action''", OF rec(3)] P [of "\<lambda>l. trim_space l = marker", OF rec(4)] lines
    by (simp only: simp_thms)
qed

lemma volume_size_bounds:
  "5 * 2 ^ 30 \<le> volume_size n" "0 \<le> n \<Longrightarrow> n < 2 ^ 60 \<Longrightarrow> 4 * n + 2 ^ 30 \<le> volume_size n"
  by (auto simp: volume_size_def pgDataPlaceholderGB_def Let_def i64_id)

text \<open>
  C20: A restore stages the best usable base with clean recovery settings, or changes nothing. When the listing has some base and every host step succeeds, staging succeeds exactly when
  some listed base downloads and passes its integrity check; the base it unpacks is one that no other usable base of the listing precedes (a higher generation
  first, then a newer stamp), so a corrupt newest backup does not block recovery. The volume has at least 5 GiB, and at least four times the size of the compressed base plus 1 GiB
  while the base is smaller than \<open>2\<^sup>6\<^sup>0\<close> bytes. The configuration written sets \<open>restore_command\<close> and the timeline exactly once, sets no recovery time or action, and
  keeps every other line of the backup. On every error the volume and the rest of the host are as before.
\<close>

theorem build_stages_best_base:
  assumes srt: "cand_sort_ok srt" and run: "buildDBVolumeFromSource srt genv e i h = (r, h')"
    and ls: "bd_ls e = GsOk ls" and bases: "bases = List.map_filter cand_of ls"
  shows "(r \<noteq> None \<longrightarrow> h' = h)
    \<and> (r = None \<longrightarrow> (\<exists>b \<in> set bases. \<exists>conf out n sz. bd_conf e (bc_url b) = Some conf \<and> bd_get e (bc_url b) = Some n
          \<and> h_volume h' i = Some (Staged (bc_url b) out sz)
          \<and> usable e (bc_url b) \<and> (\<forall>b' \<in> set bases. usable e (bc_url b') \<longrightarrow> b' = b \<or> \<not> cand_before b' b)
          \<and> 5 * 2 ^ 30 \<le> sz \<and> (0 \<le> n \<and> n < 2 ^ 60 \<longrightarrow> 4 * n + 2 ^ 30 \<le> sz)
          \<and> recovers_cleanly conf out))
    \<and> (r = Some NoUsable \<longrightarrow> (\<forall>b \<in> set bases. \<not> usable e (bc_url b)))
    \<and> (trim_space (genv ''PANDASTACK_SNAPSHOT_BUCKET'') \<noteq> [] \<and> bd_dir e \<and> bd_image e \<and> bd_mount e \<and> bd_extract e \<and> bd_signal e \<and> bd_write e \<and> bd_umount e \<and> bd_rename e
        \<and> (\<forall>c. bd_conf e c \<noteq> None) \<and> (\<exists>b \<in> set bases. usable e (bc_url b)) \<longrightarrow> r = None)"
proof -
  let ?s = "srt cand_before bases"
  have s: "set ?s = set bases" "sorted_wrt (\<lambda>a b. \<not> cand_before b a) ?s"
    using srt unfolding cand_sort_ok_def by (metis set_mset_mset)+
  show ?thesis
  proof (cases "trim_space (genv ''PANDASTACK_SNAPSHOT_BUCKET'') = [] \<or> bases = []")
    case True
    then have "resolveBaseCandidates srt genv (bd_ls e) = Inl NoBucket \<or> resolveBaseCandidates srt genv (bd_ls e) = Inl NoBases"
      by (auto simp: resolveBaseCandidates_def ls bases Let_def)
    then have "r = Some NoBucket \<and> h' = h \<or> r = Some NoBases \<and> h' = h" using run by (auto simp: buildDBVolumeFromSource_def)
    then show ?thesis using True by auto
  next
    case False
    then have res: "resolveBaseCandidates srt genv (bd_ls e) = Inr (map bc_url ?s)" by (simp add: resolveBaseCandidates_def ls bases Let_def)
    show ?thesis
    proof (cases "pick_base e (map bc_url ?s)")
      case None
      then have "\<forall>b \<in> set bases. \<not> usable e (bc_url b)" using s(1) by (auto simp: pick_base_None)
      then show ?thesis using run by (auto simp: buildDBVolumeFromSource_def res None split: if_splits)
    next
      case (Some c)
      obtain b where b: "b \<in> set bases" "bc_url b = c" "usable e c" "\<forall>b' \<in> set bases. usable e (bc_url b') \<longrightarrow> b' = b \<or> \<not> cand_before b' b"
        using pick_base_sorted [OF s(2) Some] s(1) by auto
      have "r \<noteq> Some NoUsable" "r \<noteq> None \<longrightarrow> h' = h"
        using run by (auto simp: buildDBVolumeFromSource_def res Some split: if_splits option.splits)
      moreover have "\<exists>conf. bd_conf e c = Some conf \<and> h_volume h' i = Some (Staged c (stripPandaStackRecoveryConf conf @ dbRestoreWALRestoreConf) (volume_size (the (bd_get e c))))"
        if "r = None"
        using run that by (auto simp: buildDBVolumeFromSource_def res Some split: if_splits option.splits)
      ultimately have fin: "r = None \<Longrightarrow> \<exists>conf n. bd_conf e c = Some conf \<and> bd_get e c = Some n
          \<and> h_volume h' i = Some (Staged c (stripPandaStackRecoveryConf conf @ dbRestoreWALRestoreConf) (volume_size n))"
        using b(3) by (auto simp: usable_def)
      have "r = None" if "bd_dir e" "bd_image e" "bd_mount e" "bd_extract e" "bd_signal e" "bd_write e" "bd_umount e" "bd_rename e" "\<forall>c. bd_conf e c \<noteq> None"
      proof -
        from that(9) obtain conf where "bd_conf e c = Some conf" by auto
        then show ?thesis using run that(1-8) by (simp add: buildDBVolumeFromSource_def res Some)
      qed
      then show ?thesis using b fin staged_recovers volume_size_bounds \<open>r \<noteq> Some NoUsable\<close> \<open>r \<noteq> None \<longrightarrow> h' = h\<close> by blast
    qed
  qed
qed

section \<open>Nothing is destroyed that was not backed up\<close>

text \<open>All checks that stand before the teardown of an in-place restore.\<close>

definition preflight :: "cand_sort \<Rightarrow> environ \<Rightarrow> restore_env \<Rightarrow> string \<Rightarrow> db_state \<Rightarrow> bool" where
  "preflight srt genv e i s \<longleftrightarrow> h_driver (ds_host s) i \<and> (\<exists>c. resolveBaseForTarget srt genv (rs_ls e) = Inr c)
     \<and> (case ds_relay s of Some w \<Rightarrow> fst (baseBackupOne (rs_backup e) i w) | None \<Rightarrow> False)"

lemma restore_volume_host:
  "restore_volume srt genv e True i s = (r, s1) \<Longrightarrow> \<not> preflight srt genv e i s \<Longrightarrow> r \<noteq> None \<and> ds_host s1 = ds_host s"
  by (auto simp: restore_volume_def preflight_def Let_def split: if_splits option.splits sum.splits prod.splits bool.splits)

text \<open>Only the volume and the rows of \<open>i\<close> may change.\<close>

definition only_db :: "string \<Rightarrow> host \<Rightarrow> host \<Rightarrow> bool" where
  "only_db i h h' \<longleftrightarrow> (\<forall>j. j \<noteq> i \<longrightarrow> h_volume h' j = h_volume h j) \<and> (\<forall>r \<in> set (h_rows h). sb_id r \<noteq> i \<longrightarrow> r \<in> set (h_rows h'))"

lemma only_db_trans: "only_db i h h1 \<Longrightarrow> only_db i h1 h2 \<Longrightarrow> only_db i h h2"
  unfolding only_db_def by auto

lemma only_db_same: "(\<And>j. j \<noteq> i \<Longrightarrow> h_volume h' j = h_volume h j) \<Longrightarrow> h_rows h' = h_rows h \<Longrightarrow> only_db i h h'"
  by (simp add: only_db_def)

lemma only_db_stmt: "(\<And>r. sb_id r \<noteq> i \<Longrightarrow> r \<in> set (h_rows h) \<Longrightarrow> r \<in> set (f (h_rows h))) \<Longrightarrow> only_db i h (snd (stmt q f h))"
  by (cases q) (auto simp: stmt_def only_db_def)

lemma only_db_rows:
  "only_db i h (snd (DeleteSandbox q i h))" "only_db i h (snd (SetStatus q i st h))" "sb_id r = i \<Longrightarrow> only_db i h (snd (UpdateSandbox q r h))"
  "only_db i h (snd (InsertSandbox q r h))"
  unfolding DeleteSandbox_def SetStatus_def UpdateSandbox_def InsertSandbox_def
  by (auto simp: upd_row_def image_iff intro!: only_db_stmt only_db_same)

lemma only_db_host:
  "only_db i h (rm_vmdir i h)" "only_db i h (free_net ok i h)" "only_db i h (take_net i h)" "only_db i h (vm_up i h)"
  "only_db i h (teardownResourcesOpts te keep i h)" "only_db i h (snd (ensureDBVolume mk i h))"
  by (auto simp: only_db_def rm_vmdir_def free_net_def take_net_def vm_up_def teardownResourcesOpts_def forget_def ensureDBVolume_def Let_def)

lemma only_db_create_failed: "only_db i h h1 \<Longrightarrow> only_db i h (snd (create_failed e i h1))"
  unfolding create_failed_def snd_conv by (blast intro: only_db_trans only_db_host only_db_rows)

lemma only_db_cold:
  assumes "only_db (sb_id r) h h0"
  shows "only_db (sb_id r) h (snd (create_cold e r h0))"
proof -
  obtain ok h1 where v: "ensureDBVolume (cv_mkvol e) (sb_id r) h0 = (ok, h1)" by fastforce
  have h1: "only_db (sb_id r) h h1" using only_db_trans [OF assms only_db_host(6) [of "sb_id r" h0 "cv_mkvol e"]] by (simp add: v)
  have upd: "only_db (sb_id r) h (snd (UpdateSandbox q (r\<lparr>sb_status := st\<rparr>) h2))" if "only_db (sb_id r) h h2" for q st h2
    by (rule only_db_trans [OF that only_db_rows(3)]) simp
  have vol: "only_db (sb_id r) h (h2\<lparr>h_volume := (h_volume h2)(sb_id r := None)\<rparr>)" if "only_db (sb_id r) h h2" for h2
    using that by (simp add: only_db_def)
  show ?thesis
    using only_db_create_failed [OF assms] only_db_create_failed [OF h1] only_db_create_failed [OF upd [OF h1]] only_db_create_failed [OF vol [OF upd [OF h1]]]
      upd [OF only_db_trans [OF h1 only_db_host(4)]]
    by (simp add: create_cold_def v Let_def split: bool.splits)
qed

lemma only_db_snap: "only_db (sb_id r) h h0 \<Longrightarrow> only_db (sb_id r) h (snd (create_snap e r h0))"
  using only_db_cold [of r h h0 e] only_db_trans [OF only_db_trans [OF _ only_db_host(4)] only_db_rows(3)]
  by (simp add: create_snap_def)

lemma only_db_natid:
  assumes "only_db (sb_id r) h h0"
  shows "only_db (sb_id r) h (snd (create_natid e r h0))"
proof -
  define ha where "ha = free_net (cv_net e) (sb_id r) h0"
  obtain ok h1 where v: "ensureDBVolume (cv_mkvol e) (sb_id r) (take_net (sb_id r) ha) = (ok, h1)" by fastforce
  have ha: "only_db (sb_id r) h ha" unfolding ha_def by (rule only_db_trans [OF assms only_db_host(2)])
  have tk: "only_db (sb_id r) h (take_net (sb_id r) x)" if "only_db (sb_id r) h x" for x by (rule only_db_trans [OF that only_db_host(3)])
  have fr: "only_db (sb_id r) h (free_net b (sb_id r) x)" if "only_db (sb_id r) h x" for x b by (rule only_db_trans [OF that only_db_host(2)])
  have h1: "only_db (sb_id r) h h1"
    using only_db_trans [OF tk [OF ha] only_db_host(6) [of "sb_id r" "take_net (sb_id r) ha" "cv_mkvol e"]] by (simp add: v)
  have ins: "only_db (sb_id r) h (snd (InsertSandbox q x (vm_up (sb_id r) h1)))" for q x
    by (rule only_db_trans [OF only_db_trans [OF h1 only_db_host(4)] only_db_rows(4)])
  show ?thesis
    using only_db_snap [OF tk [OF ha]] only_db_create_failed [OF ha] only_db_create_failed [OF fr [OF h1]] only_db_snap [OF fr [OF h1]]
      only_db_snap [OF tk [OF fr [OF h1]]] ins
    by (simp add: create_natid_def Let_def ha_def [symmetric] v split: bool.splits)
qed

lemma sb_id_db_row [simp]: "sb_id (db_row me i template st md) = i"
  by (simp add: db_row_def)

lemma only_db_create_row: "only_db (sb_id r) h (snd (create_row e r h))"
proof -
  obtain ins h1 where p: "InsertSandbox (cv_insert e) r (take_net (sb_id r) h) = (ins, h1)" by fastforce
  have "only_db (sb_id r) h h1"
    using only_db_trans [OF only_db_host(3) only_db_rows(4) [of "sb_id r" "take_net (sb_id r) h" "cv_insert e" r]] by (simp add: p)
  then show ?thesis using only_db_trans [OF _ only_db_host(2)] by (simp add: create_row_def p only_db_same)
qed

lemma only_db_create_vm: "only_db (sb_id r) h h1 \<Longrightarrow> only_db (sb_id r) h (snd (create_vm e r (ok, h1)))"
proof -
  assume a: "only_db (sb_id r) h h1"
  then have "only_db (sb_id r) h (h1\<lparr>h_vmdirs := sb_id r # h_vmdirs h1\<rparr>)" by (simp add: only_db_def)
  then show ?thesis using only_db_create_failed [OF a] only_db_cold only_db_snap only_db_natid by (simp add: create_vm_def Let_def)
qed

lemma setLifecycle_frame [simp]:
  "h_rows (setLifecycleForCreate d i t p tm h) = h_rows h" "h_volume (setLifecycleForCreate d i t p tm h) = h_volume h"
  by (simp_all add: setLifecycleForCreate_def life_Set_def)

lemma only_db_create: "only_db i h (snd (create_db d me e i template md h))"
proof -
  let ?r = "db_row me i template ''creating'' md"
  obtain ok h1 where c: "create_row e ?r h = (ok, h1)" by fastforce
  obtain b h2 where v: "create_vm e ?r (ok, h1) = (b, h2)" by fastforce
  have "only_db i h h1" using only_db_create_row [of ?r h e] by (simp add: c)
  then have "only_db i h h2" using only_db_create_vm [of ?r h h1 e ok] by (simp add: v)
  then show ?thesis by (auto simp: create_db_def Let_def c v only_db_def split: option.splits)
qed

lemma only_db_build: "only_db i h (snd (buildDBVolumeFromSource srt genv e i h))"
  by (auto simp: buildDBVolumeFromSource_def only_db_def split: sum.splits option.splits)

lemma only_db_volume:
  assumes "restore_volume srt genv e inPlace i s = (r, s1)"
  shows "only_db i (ds_host s) (ds_host s1)"
proof -
  define h2 where "h2 = (let h1 = teardownResourcesOpts (rs_td e) False i (ds_host s) in if rs_rm e then h1\<lparr>h_volume := (h_volume h1)(i := None)\<rparr> else h1)"
  have h2: "only_db i (ds_host s) h2"
    using only_db_host(5) [of i "ds_host s" "rs_td e" False] by (simp add: h2_def Let_def only_db_def)
  obtain b2 h3 where b: "buildDBVolumeFromSource srt genv (rs_build e) i h2 = (b2, h3)" by fastforce
  have h3: "only_db i (ds_host s) h3" using only_db_trans [OF h2 only_db_build [of i h2 srt genv "rs_build e"]] by (simp add: b)
  then have st: "only_db i (ds_host s) (snd (SetStatus q i ''failed'' h3))" for q by (rule only_db_trans [OF _ only_db_rows(2)])
  have same: "only_db i (ds_host s) (ds_host s)" by (simp add: only_db_same)
  obtain b4 h4 where b': "buildDBVolumeFromSource srt genv (rs_build e) i (ds_host s) = (b4, h4)" by fastforce
  have h4: "only_db i (ds_host s) h4" using only_db_build [of i "ds_host s" srt genv "rs_build e"] by (simp add: b')
  show ?thesis
  proof (cases inPlace)
    case False
    then show ?thesis using assms same h4 by (auto simp: restore_volume_def Let_def b' split: if_splits)
  next
    case True
    then show ?thesis using assms same h3 st b
      by (auto simp: restore_volume_def Let_def h2_def split: if_splits option.splits sum.splits prod.splits bool.splits)
  qed
qed

lemma only_db_boot: "only_db i (ds_host s) (ds_host (snd (restore_boot d me e creds i template md s)))"
proof -
  have c: "ds_host (setPendingPGCreds i creds s) = ds_host s" by (simp add: setPendingPGCreds_def split: option.splits prod.splits)
  define h1 where "h1 = snd (DeleteSandbox (rs_del e) i (ds_host s))"
  define meta where "meta = (case md of None \<Rightarrow> Map.empty | Some m \<Rightarrow> m)"
  obtain b h2 where cr: "create_db d me (rs_create e) i template meta h1 = (b, h2)" by fastforce
  have "only_db i (ds_host s) h1" unfolding h1_def by (rule only_db_rows(1))
  then have h2: "only_db i (ds_host s) h2" using only_db_trans [OF _ only_db_create [of i h1 d me "rs_create e" template meta]] by (simp add: cr)
  then have "only_db i (ds_host s) (snd (InsertSandbox q r h2))" for q r by (rule only_db_trans [OF _ only_db_rows(4)])
  then show ?thesis using h2
    by (auto simp: restore_boot_def Let_def c h1_def [symmetric] meta_def [symmetric] cr split: option.splits)
qed

text \<open>
  C15: An in-place restore never destroys data it has not backed up. Whatever fails, the host is exactly as before unless the database runs on this host, its archive has a
  base to restore from, and the safety backup of the current state was taken through the relay; and no restore, in place or not, touches
  the volume or the row of another sandbox.
\<close>

theorem restore_destroys_only_backed_up:
  assumes "RestoreDatabase uuidOk srt genv d me e inPlace creds i template md s = (r, s')"
  shows "(inPlace \<longrightarrow> preflight srt genv e i s \<or> (\<exists>err. r = Inl err) \<and> ds_host s' = ds_host s)
    \<and> (\<forall>j. j \<noteq> i \<longrightarrow> h_volume (ds_host s') j = h_volume (ds_host s) j)
    \<and> (\<forall>x \<in> set (h_rows (ds_host s)). sb_id x \<noteq> i \<longrightarrow> x \<in> set (h_rows (ds_host s')))"
proof -
  obtain t m where b: "backfill (rs_get e) i template md (ds_host s) = (t, m)" by fastforce
  obtain err s1 where v: "restore_volume srt genv e inPlace i s = (err, s1)" by fastforce
  have "only_db i (ds_host s) (ds_host s')"
    using assms only_db_volume [OF v] only_db_trans [OF only_db_volume [OF v] only_db_boot [of i s1 d me e creds t m]]
    by (auto simp: RestoreDatabase_def b v only_db_same split: if_splits option.splits)
  moreover have "inPlace \<longrightarrow> preflight srt genv e i s \<or> (\<exists>err. r = Inl err) \<and> ds_host s' = ds_host s"
    using assms restore_volume_host [of srt genv e i s err s1] v
    by (auto simp: RestoreDatabase_def b split: if_splits option.splits)
  ultimately show ?thesis by (simp add: only_db_def)
qed

section \<open>The database keeps its row\<close>

definition there :: "string \<Rightarrow> host \<Rightarrow> bool" where
  "there i h \<longleftrightarrow> get_row i (h_rows h) \<noteq> None"

lemma there_iff: "there i h \<longleftrightarrow> i \<in> sb_id ` set (h_rows h)"
proof -
  have "find P xs = None \<longleftrightarrow> (\<forall>x \<in> set xs. \<not> P x)" for P and xs :: "sb_row list" by (induction xs) auto
  then show ?thesis by (auto simp: there_def get_row_def)
qed

lemma there_same: "h_rows h' = h_rows h \<Longrightarrow> there i h' = there i h"
  by (simp add: there_def)

lemma there_upd_row:
  assumes "\<And>r. sb_id (f r) = sb_id r"
  shows "there j (snd (stmt q (upd_row i f) h)) = there j h"
proof -
  have "map sb_id (upd_row i f rs) = map sb_id rs" for rs using assms by (simp add: upd_row_def)
  then have "sb_id ` set (upd_row i f rs) = sb_id ` set rs" for rs by (metis list.set_map)
  then show ?thesis by (cases q) (simp_all add: stmt_def there_iff)
qed

lemma there_upd: "there j (snd (UpdateSandbox q r h)) = there j h"
  unfolding UpdateSandbox_def by (rule there_upd_row) simp

lemma there_status: "there j (snd (SetStatus q i st h)) = there j h"
  unfolding SetStatus_def by (rule there_upd_row) simp

lemma there_insert: "q \<noteq> QFail \<Longrightarrow> there (sb_id r) (snd (InsertSandbox q r h))"
  unfolding InsertSandbox_def there_def [symmetric] by (cases q) (auto simp: stmt_def, auto simp: there_iff)

lemma there_insert_ok: "InsertSandbox q r h = (True, h') \<Longrightarrow> there (sb_id r) h'"
  by (cases q) (auto simp: InsertSandbox_def stmt_def there_iff split: if_splits)

lemma there_host: "there j (vm_up i h) = there j h" "there j (free_net b i h) = there j h" "there j (take_net i h) = there j h" "there j (snd (ensureDBVolume mk i h)) = there j h"
  by (simp_all add: there_def vm_up_def free_net_def take_net_def ensureDBVolume_def)

lemma cold_row: "create_cold e r h = (Some b, h') \<Longrightarrow> b = ColdBoot \<and> there (sb_id r) h' = there (sb_id r) h"
proof -
  assume c: "create_cold e r h = (Some b, h')"
  obtain ok h1 where v: "ensureDBVolume (cv_mkvol e) (sb_id r) h = (ok, h1)" by fastforce
  then have "there (sb_id r) h1 = there (sb_id r) h" using there_host(4) [of "sb_id r" "cv_mkvol e" "sb_id r" h] by simp
  then show ?thesis using c there_upd there_host(1)
    by (auto simp: create_cold_def v create_failed_def Let_def split: if_splits bool.splits)
qed

lemma snap_row: "create_snap e r h = (Some b, h') \<Longrightarrow> (b = SnapBoot \<or> b = ColdBoot) \<and> there (sb_id r) h' = there (sb_id r) h"
  using cold_row [of e r h b h'] there_upd there_host(1) by (auto simp: create_snap_def split: if_splits)

lemma natid_row:
  assumes "create_natid e r h = (Some b, h')" and "cv_row e \<noteq> QFail"
  shows "b = NatidBoot \<and> there (sb_id r) h' \<or> (b = SnapBoot \<or> b = ColdBoot) \<and> there (sb_id r) h' = there (sb_id r) h"
proof -
  define h0 where "h0 = free_net (cv_net e) (sb_id r) h"
  obtain ok h1 where v: "ensureDBVolume (cv_mkvol e) (sb_id r) (take_net (sb_id r) h0) = (ok, h1)" by fastforce
  have h0: "there (sb_id r) h0 = there (sb_id r) h" by (simp add: h0_def there_host)
  have h1: "there (sb_id r) h1 = there (sb_id r) h"
    using there_host(4) [of "sb_id r" "cv_mkvol e" "sb_id r" "take_net (sb_id r) h0"] by (simp add: v there_host h0)
  have ins: "there (sb_id r) (snd (InsertSandbox (cv_row e) (r\<lparr>sb_status := st\<rparr>) x))" for st x
    using there_insert [OF assms(2), of "r\<lparr>sb_status := st\<rparr>" x] by simp
  show ?thesis
  proof (cases "\<not> cv_ident e \<or> \<not> cv_natalloc e")
    case True
    then show ?thesis using assms(1) snap_row [of e r "take_net (sb_id r) h0" b h'] h0
      by (auto simp: create_natid_def Let_def h0_def [symmetric] create_failed_def there_host split: if_splits)
  next
    case False
    define h2 where "h2 = (if cv_realloc e then take_net (sb_id r) (free_net (cv_net e) (sb_id r) h1) else free_net (cv_net e) (sb_id r) h1)"
    have h2: "there (sb_id r) h2 = there (sb_id r) h" by (simp add: h2_def there_host h1)
    have "create_natid e r h = (if \<not> ok then create_failed e (sb_id r) (free_net (cv_net e) (sb_id r) h1)
        else if cv_natboot e then (Some NatidBoot, snd (InsertSandbox (cv_row e) (r\<lparr>sb_status := ''running''\<rparr>) (vm_up (sb_id r) h1))) else create_snap e r h2)"
      using False by (simp add: create_natid_def Let_def h0_def [symmetric] v h2_def)
    then show ?thesis using assms(1) ins snap_row [of e r h2 b h'] h2 by (auto simp: create_failed_def split: if_splits)
  qed
qed

lemma create_db_row:
  assumes "create_db d me e i template md h = (Some b, h')" and "cv_row e \<noteq> QFail"
  shows "there i h' \<or> (cv_natid e \<and> cv_ready1 e) \<and> (b = SnapBoot \<or> b = ColdBoot)"
proof -
  let ?r = "db_row me i template ''creating'' md"
  obtain ok h1 where c: "create_row e ?r h = (ok, h1)" by fastforce
  obtain h3 where v: "create_vm e ?r (ok, h1) = (Some b, h3)" "there i h' = there i h3"
    using assms(1) by (auto simp: create_db_def Let_def c there_def split: if_splits option.splits prod.splits)
  define h2 where "h2 = h1\<lparr>h_vmdirs := i # h_vmdirs h1\<rparr>"
  have h2: "there i h2 = there i h1" by (simp add: h2_def there_def)
  have ok: "ok" and run: "(if cv_ready2 e then if cv_natid e then create_natid e ?r h2 else create_snap e ?r h2 else create_cold e ?r h2) = (Some b, h3)"
    using v(1) by (auto simp: create_vm_def h2_def create_failed_def split: if_splits)
  have row: "b = NatidBoot \<and> there i h3 \<or> (b = SnapBoot \<or> b = ColdBoot) \<and> there i h3 = there i h2"
    using run natid_row [of e ?r h2 b h3] assms(2) snap_row [of e ?r h2 b h3] cold_row [of e ?r h2 b h3] by (auto split: if_splits)
  have "there i h1" if "\<not> (cv_natid e \<and> cv_ready1 e)"
    using c ok that there_insert_ok [of "cv_insert e" ?r "take_net i h"] by (auto simp: create_row_def Let_def split: if_splits prod.splits)
  then show ?thesis using row h2 v(2) by blast
qed

lemma build_rows: "h_rows (snd (buildDBVolumeFromSource srt genv e i h)) = h_rows h"
  by (auto simp: buildDBVolumeFromSource_def split: sum.splits option.splits)

lemma restore_volume_rows:
  assumes "restore_volume srt genv e inPlace i s = (r, s1)"
  shows "there j (ds_host s1) = there j (ds_host s)"
proof -
  define h2 where "h2 = (let h1 = teardownResourcesOpts (rs_td e) False i (ds_host s) in if rs_rm e then h1\<lparr>h_volume := (h_volume h1)(i := None)\<rparr> else h1)"
  have h2: "there j h2 = there j (ds_host s)"
    by (rule there_same) (simp add: h2_def teardownResourcesOpts_def forget_def rm_vmdir_def Let_def)
  obtain b2 h3 where b: "buildDBVolumeFromSource srt genv (rs_build e) i h2 = (b2, h3)" by fastforce
  have h3: "there j h3 = there j (ds_host s)" using there_same [OF build_rows [of srt genv "rs_build e" i h2], of j] h2 by (simp add: b)
  obtain b4 h4 where b': "buildDBVolumeFromSource srt genv (rs_build e) i (ds_host s) = (b4, h4)" by fastforce
  have h4: "there j h4 = there j (ds_host s)" using there_same [OF build_rows [of srt genv "rs_build e" i "ds_host s"], of j] by (simp add: b')
  show ?thesis
  proof (cases inPlace)
    case False
    then show ?thesis using assms h4 by (auto simp: restore_volume_def Let_def b' split: if_splits)
  next
    case True
    then show ?thesis using assms h3 there_status [of j _ i "''failed''" h3] b
      by (auto simp: restore_volume_def Let_def h2_def split: if_splits option.splits sum.splits prod.splits bool.splits)
  qed
qed

text \<open>
  C21: A restore that fails leaves the database visible. As long as the last insert reaches the table, a database that had a row has one after \<open>RestoreDatabase\<close> whatever went wrong: a
  failed row can be retried, and it keeps the archive from looking like an orphan. The only outcomes without a row are successful boots of the fast path, which inserts no row at
  the start, that fell back to another way of booting.
\<close>

theorem restore_keeps_row:
  assumes run: "RestoreDatabase uuidOk srt genv d me e inPlace creds i template md s = (r, s')"
    and row: "get_row i (h_rows (ds_host s)) \<noteq> None" and "rs_ins e \<noteq> QFail" and "cv_row (rs_create e) \<noteq> QFail"
  shows "get_row i (h_rows (ds_host s')) \<noteq> None
    \<or> cv_natid (rs_create e) \<and> cv_ready1 (rs_create e) \<and> (r = Inr SnapBoot \<or> r = Inr ColdBoot)"
proof -
  obtain t m where b: "backfill (rs_get e) i template md (ds_host s) = (t, m)" by fastforce
  obtain err s1 where v: "restore_volume srt genv e inPlace i s = (err, s1)" by fastforce
  have s1: "there i (ds_host s1)" using restore_volume_rows [OF v] row by (simp add: there_def)
  show ?thesis
  proof (cases "\<not> uuidOk i \<or> \<not> inPlace \<and> h_driver (ds_host s) i \<or> \<not> isPGManagedTemplate t \<or> err \<noteq> None")
    case True
    then have "there i (ds_host s')" using run s1 row by (auto simp: RestoreDatabase_def b v there_def split: if_splits option.splits)
    then show ?thesis by (simp add: there_def)
  next
    case False
    define h1 where "h1 = snd (DeleteSandbox (rs_del e) i (ds_host (setPendingPGCreds i creds s1)))"
    define meta where "meta = (case m of None \<Rightarrow> Map.empty | Some x \<Rightarrow> x)"
    obtain bo h2 where cr: "create_db d me (rs_create e) i t meta h1 = (bo, h2)" by fastforce
    have boot: "restore_boot d me e creds i t m s1 = (r, s')" using run False by (auto simp: RestoreDatabase_def b v split: if_splits)
    show ?thesis
    proof (cases bo)
      case None
      then have "ds_host s' = snd (InsertSandbox (rs_ins e) (db_row me i t ''failed'' meta) h2)"
        using boot cr by (auto simp: restore_boot_def Let_def h1_def [symmetric] meta_def [symmetric])
      then show ?thesis using there_insert [OF assms(3), of "db_row me i t ''failed'' meta" h2] by (simp add: there_def)
    next
      case (Some x)
      then have "ds_host s' = h2" "r = Inr x" using boot cr by (auto simp: restore_boot_def Let_def h1_def [symmetric] meta_def [symmetric])
      then show ?thesis using create_db_row [of d me "rs_create e" i t meta h1 x h2] cr Some assms(4) by (auto simp: there_def)
    qed
  qed
qed

section \<open>Instances and failures\<close>

definition cand_key :: "base_cand \<Rightarrow> int \<times> int" where
  "cand_key c = (- bc_gen c, - bc_ts c)"

definition key_sort :: cand_sort where
  "key_sort lt xs = sort_key cand_key xs"

lemma key_sort_ok: "cand_sort_ok key_sort"
proof -
  have "cand_before b a \<longleftrightarrow> cand_key b < cand_key a" for a b by (auto simp: cand_before_def cand_key_def)
  then have "(\<lambda>a b. \<not> cand_before b a) = (\<lambda>a b. cand_key a \<le> cand_key b)" by (auto simp: fun_eq_iff not_less)
  moreover have "sorted_wrt (\<lambda>a b. cand_key a \<le> cand_key b) (sort_key cand_key xs)" for xs
    using sorted_sort_key [of cand_key xs] by (simp add: sorted_wrt_map)
  ultimately show ?thesis by (simp add: cand_sort_ok_def key_sort_def)
qed

text \<open>Two bases, the one of the higher generation truncated.\<close>

definition demo_bases :: "string list" where
  "demo_bases = [''gs://b/db/d1/base/base-20240103T000000Z-g1.tar.gz'', ''gs://b/db/d1/base/base-20240102T000000Z-g2.tar.gz'']"

definition demo_build :: build_env where
  "demo_build = \<lparr>bd_ls = GsOk demo_bases, bd_dir = True, bd_get = (\<lambda>_. Some 10), bd_gzip = (\<lambda>c. c = hd demo_bases), bd_image = True, bd_mount = True, bd_extract = True,
     bd_signal = True, bd_conf = (\<lambda>_. Some ''port = 5432''), bd_write = True, bd_umount = True, bd_rename = True\<rparr>"

definition bucket_env :: environ where
  "bucket_env k = (if k = ''PANDASTACK_SNAPSHOT_BUCKET'' then ''b'' else [])"

theorem build_stages_best_base_witness: "fst (buildDBVolumeFromSource key_sort bucket_env demo_build ''d1'' (demo_host [])) = None"
proof -
  obtain r h' where run: "buildDBVolumeFromSource key_sort bucket_env demo_build ''d1'' (demo_host []) = (r, h')" by fastforce
  have ls: "bd_ls demo_build = GsOk demo_bases" by (simp add: demo_build_def)
  have "list_ex (\<lambda>b. usable demo_build (bc_url b)) (List.map_filter cand_of demo_bases)" by code_simp
  then have "\<exists>b \<in> set (List.map_filter cand_of demo_bases). usable demo_build (bc_url b)" by (auto simp: list_ex_iff)
  moreover have "trim_space (bucket_env ''PANDASTACK_SNAPSHOT_BUCKET'') \<noteq> []" by code_simp
  moreover have "bd_dir demo_build" "bd_image demo_build" "bd_mount demo_build" "bd_extract demo_build" "bd_signal demo_build" "bd_write demo_build" "bd_umount demo_build"
      "bd_rename demo_build" "\<forall>c. bd_conf demo_build c \<noteq> None"
    by (simp_all add: demo_build_def)
  ultimately have "r = None" using build_stages_best_base [OF key_sort_ok run ls refl] by blast
  then show ?thesis by (simp add: run)
qed

definition demo_create :: create_env where
  "demo_create = \<lparr>cv_pull = True, cv_admit = True, cv_natid = False, cv_ready1 = False, cv_ready2 = False, cv_alloc = True, cv_insert = QOk, cv_mkdir = True, cv_ident = True,
     cv_natalloc = True, cv_realloc = True, cv_mkvol = True, cv_natboot = False, cv_snapboot = True, cv_disk = True, cv_coldboot = False, cv_rmvol = True, cv_row = QOk, cv_del = QOk, cv_net = True\<rparr>"

definition demo_restore :: restore_env where
  "demo_restore = \<lparr>rs_get = QOk, rs_ls = GsOk demo_bases, rs_backup = \<lparr>be_vol = True, be_ready = True, be_reach = True, be_md = None, be_stamp = ''20240101T000000Z'',
       be_post = post_file ''base'' walMaxBaseBytes (\<lambda>i. ''t'') good_ingest ''Bearer t'' ''d1'' [7], be_ok = True\<rparr>, rs_td = up_td, rs_rm = True,
     rs_build = demo_build, rs_mark = QOk, rs_del = QOk, rs_create = demo_create, rs_ins = QOk\<rparr>"

definition demo_db :: db_state where
  "demo_db = \<lparr>ds_host = demo_host [demo_row ''d1'' ''postgres-16'' ''failed'' ''a2''], ds_relay = Some new_relay, ds_creds = Map.empty\<rparr>"

theorem restore_destroys_only_backed_up_witness:
  "ds_host (snd (RestoreDatabase (\<lambda>_. True) key_sort bucket_env 0 ''a1'' demo_restore True None ''d1'' [] None demo_db)) = ds_host demo_db"
proof -
  obtain r s' where run: "RestoreDatabase (\<lambda>_. True) key_sort bucket_env 0 ''a1'' demo_restore True None ''d1'' [] None demo_db = (r, s')" by fastforce
  have "\<not> preflight key_sort bucket_env demo_restore ''d1'' demo_db" by (simp add: preflight_def demo_db_def demo_host_def)
  then have "ds_host s' = ds_host demo_db" using restore_destroys_only_backed_up [OF run] by blast
  then show ?thesis by (simp add: run)
qed

theorem restore_keeps_row_witness:
  "get_row ''d1'' (h_rows (ds_host (snd (RestoreDatabase (\<lambda>_. True) key_sort bucket_env 0 ''a1'' demo_restore False None ''d1'' [] None demo_db)))) \<noteq> None"
proof -
  obtain r s' where run: "RestoreDatabase (\<lambda>_. True) key_sort bucket_env 0 ''a1'' demo_restore False None ''d1'' [] None demo_db = (r, s')" by fastforce
  have "get_row ''d1'' (h_rows (ds_host demo_db)) \<noteq> None" "rs_ins demo_restore \<noteq> QFail" "cv_row (rs_create demo_restore) \<noteq> QFail"
    by (simp_all add: demo_db_def demo_host_def demo_row_def get_row_def demo_restore_def demo_create_def)
  moreover have "\<not> cv_natid (rs_create demo_restore)" by (simp add: demo_restore_def demo_create_def)
  ultimately have "get_row ''d1'' (h_rows (ds_host s')) \<noteq> None" using restore_keeps_row [OF run] by blast
  then show ?thesis by (simp add: run)
qed

lemmas restore_defs = RestoreDatabase_def backfill_def restore_volume_def restore_boot_def create_db_def create_row_def create_vm_def create_natid_def create_snap_def create_cold_def
  create_failed_def ensureDBVolume_def UpdateSandbox_def InsertSandbox_def DeleteSandbox_def GetSandbox_def get_row_def stmt_def upd_row_def free_net_def take_net_def vm_up_def rm_vmdir_def
  setPendingPGCreds_def takePendingPGCreds_def isPGManagedTemplate_def db_row_def setLifecycleForCreate_def life_Set_def

text \<open>
  A host that still has the volume of the database reuses it; when the cold boot then fails, \<open>Create\<close> removes it, although the volume is older than the attempt and holds
  the writes since the last upload.
\<close>

lemma failed_boot_removes_reused_volume:
  "h_volume (ds_host demo_db) ''d1'' = Some (Data 7)
   \<and> h_volume (ds_host (snd (RestoreDatabase (\<lambda>_. True) key_sort bucket_env 0 ''a1'' demo_restore False None ''d1'' [] None demo_db))) ''d1'' = None"
  by (simp add: restore_defs demo_restore_def demo_create_def demo_db_def demo_host_def demo_row_def Let_def)

text \<open>
  When the NAT identity restore fails, the fall-back is the plain snapshot restore, which attaches no durable volume: the database comes up on the throwaway root disk, the case the
  code refuses elsewhere; and as the fast path has inserted no row, the running database has none.
\<close>

lemma natid_fallback_boots_without_volume:
  "let (r, s') = RestoreDatabase (\<lambda>_. True) key_sort bucket_env 0 ''a1''
         (demo_restore\<lparr>rs_create := demo_create\<lparr>cv_natid := True, cv_ready1 := True, cv_ready2 := True\<rparr>\<rparr>) False None ''d1'' [] None demo_db
   in r = Inr SnapBoot \<and> h_driver (ds_host s') ''d1'' \<and> h_rows (ds_host s') = []"
  by (simp add: restore_defs demo_restore_def demo_create_def demo_db_def demo_host_def demo_row_def Let_def)

text \<open>The teardown of an in-place restore drops the driver but does not stop the VM.\<close>

lemma teardown_leaves_vm_running: "h_vm (teardownResourcesOpts e keep i h) = h_vm h \<and> \<not> h_driver (teardownResourcesOpts e keep i h) i"
  by (simp add: teardownResourcesOpts_def forget_def rm_vmdir_def Let_def)

end
