(* ===== verification/Db_Failover.thy ===== *)
theory Db_Failover
  imports Db_Restore Scheduler
begin

text \<open>
  Failover of a managed database in the control plane (\<^verbatim>\<open>src/api/cmd/api/databases_failover.go\<close>): the checks of the handler, the choice of the target, the background run, and
  the fence between owners: archive generations across the tables of \<open>Archive_Janitor\<close>, the relays of \<open>Wal_Relay\<close> and the base selection of \<open>Db_Restore\<close>.

  The table of sandbox rows is the one of \<open>Sandbox_Lifecycle\<close>; the answers of statements, agents and \<open>gsutil\<close> are arguments.
\<close>

section \<open>The handler\<close>

definition isDBTemplate :: "string \<Rightarrow> bool" where
  "isDBTemplate t \<longleftrightarrow> t = ''postgres-16''"

definition agentHealthy :: "int \<Rightarrow> Agent option \<Rightarrow> bool" where
  "agentHealthy now a = (case a of None \<Rightarrow> False
     | Some x \<Rightarrow> ag_Status x = ''active'' \<and> ag_Endpoint x \<noteq> [] \<and> now - ag_LastHeartbeat x \<le> 30 * Second)"

fun pick_target :: "int \<Rightarrow> Agent option \<Rightarrow> Agent list \<Rightarrow> Agent option \<Rightarrow> Agent option" where
  "pick_target now current [] target = target"
| "pick_target now current (a # as) target =
     pick_target now current as
       (if ag_Status a \<noteq> ''active'' \<or> ag_Endpoint a = [] then target
        else if now - ag_LastHeartbeat a > 30 * Second then target
        else if (case current of Some c \<Rightarrow> ag_ID a = ag_ID c | None \<Rightarrow> False) then target
        else if (case target of None \<Rightarrow> True | Some t \<Rightarrow> ag_LastHeartbeat a > ag_LastHeartbeat t) then Some a
        else target)"

text \<open>\<open>agents\<close> is the list of the scheduler, \<open>None\<close> when it cannot be read.\<close>

definition pickFailoverTarget :: "int \<Rightarrow> Agent option \<Rightarrow> Agent list option \<Rightarrow> Agent option" where
  "pickFailoverTarget now current agents = (case agents of None \<Rightarrow> None | Some as \<Rightarrow> pick_target now current as None)"

definition dbArchiveExists :: "environ \<Rightarrow> gs_out \<Rightarrow> bool" where
  "dbArchiveExists env out =
     (trim_space (env ''PANDASTACK_SNAPSHOT_BUCKET'') \<noteq> [] \<and> (case out of GsOk ls \<Rightarrow> ls \<noteq> [] | GsFail _ \<Rightarrow> False))"

definition sandboxStatus :: "query \<Rightarrow> string \<Rightarrow> sb_row list \<Rightarrow> string" where
  "sandboxStatus q i rows = (case get_row i rows of Some r \<Rightarrow> if q = QOk then sb_status r else [] | None \<Rightarrow> [])"

text \<open>An error status, or the metadata and the template of the row.\<close>

definition failoverAuthorize :: "query \<Rightarrow> string \<Rightarrow> string \<Rightarrow> sb_row list \<Rightarrow> int + (string \<rightharpoonup> string) \<times> string" where
  "failoverAuthorize q workspace i rows =
     (if q \<noteq> QOk then Inl 500
      else case get_row i rows of
        None \<Rightarrow> Inl 404
      | Some r \<Rightarrow>
          if \<not> isDBTemplate (sb_template r) then Inl 404
          else
            let meta = sb_metadata r; w = (case meta ''workspace'' of Some x \<Rightarrow> x | None \<Rightarrow> []) in
            if workspace \<noteq> ''admin'' \<and> workspace \<noteq> ''default'' \<and> w \<noteq> workspace then Inl 404
            else Inr (if w = [] then meta(''workspace'' \<mapsto> workspace) else meta, sb_template r))"

record fo_env =
  fo_multi :: bool
  fo_force :: bool
  fo_auth :: query
  fo_status :: query
  fo_lease :: "string + Agent option"
  fo_agents :: "Agent list option"
  fo_ls :: gs_out
  fo_now :: int

record fo_job =
  fj_template :: string
  fj_meta :: "string \<rightharpoonup> string"
  fj_current :: "Agent option"
  fj_target :: Agent

text \<open>The handler: an error status, or 202 with the job it starts. \<open>inflight\<close> are the ids with a failover in progress.\<close>

definition failover :: "environ \<Rightarrow> fo_env \<Rightarrow> string \<Rightarrow> string \<Rightarrow> sb_row list \<Rightarrow> scheduler \<Rightarrow> string set \<Rightarrow> (int + fo_job) \<times> string set" where
  "failover env e workspace i rows s inflight =
     (if workspace = [] then (Inl 401, inflight)
      else if \<not> fo_multi e then (Inl 501, inflight)
      else case failoverAuthorize (fo_auth e) workspace i rows of
        Inl code \<Rightarrow> (Inl code, inflight)
      | Inr (meta, template) \<Rightarrow>
          if \<not> fo_force e \<and> sandboxStatus (fo_status e) i rows \<noteq> ''failed'' then (Inl 409, inflight)
          else
            let current = (case LookupLease (fo_lease e) (fo_now e) i s of Inl _ \<Rightarrow> None | Inr c \<Rightarrow> c) in
            (case pickFailoverTarget (fo_now e) current (fo_agents e) of
               None \<Rightarrow> (Inl 503, inflight)
             | Some target \<Rightarrow>
                 if \<not> dbArchiveExists env (fo_ls e) then (Inl 412, inflight)
                 else if i \<in> inflight then (Inl 409, inflight)
                 else (Inr \<lparr>fj_template = template, fj_meta = meta, fj_current = current, fj_target = target\<rparr>, insert i inflight)))"

section \<open>The background run\<close>

datatype fo_act = Drain Agent | Restore Agent string "string \<rightharpoonup> string"

text \<open>\<open>restored\<close> is the answer of the target agent; the lease of the archive is released at the end.\<close>

definition runFailover ::
  "query \<times> (bool \<times> query) \<times> (bool \<times> query) \<Rightarrow> query \<Rightarrow> query \<Rightarrow> int \<Rightarrow> bool \<Rightarrow> string \<Rightarrow> fo_job \<Rightarrow> arch_db option \<times> scheduler \<times> string set
    \<Rightarrow> fo_act list \<times> bool \<times> arch_db option \<times> scheduler \<times> string set" where
  "runFailover tries qa qr now restored i j st =
     (let (dbo, s, inflight) = st; (q1, t2, t3) = tries; holder = ''failover:'' @ ag_ID (fj_target j) in
      case bumpArchiveGenerationRetry q1 t2 t3 i holder dbo of
        (None, db1) \<Rightarrow> ([], False, db1, s, inflight - {i})
      | (Some g, db1) \<Rightarrow>
          (let meta = (fj_meta j)(''db.archive_gen'' \<mapsto> dec_int g);
               db2 = snd (acquireArchiveLease qa now i holder ''failover'' (45 * 60 * Second) db1);
               acts = (case fj_current j of Some c \<Rightarrow> [Drain c] | None \<Rightarrow> []) @ [Restore (fj_target j) (fj_template j) meta];
               db3 = releaseArchiveLease qr i holder db2
           in (acts, restored, db3, if restored then RememberLeasePersistent i (fj_target j) now s else s, inflight - {i})))"

section \<open>Preflight before action\<close>

definition eligible :: "int \<Rightarrow> Agent option \<Rightarrow> Agent \<Rightarrow> bool" where
  "eligible now current a \<longleftrightarrow> agentHealthy now (Some a) \<and> (case current of Some c \<Rightarrow> ag_ID a \<noteq> ag_ID c | None \<Rightarrow> True)"

lemma pick_target_step:
  "pick_target now current (a # as) target = pick_target now current as
     (if eligible now current a \<and> (case target of None \<Rightarrow> True | Some t \<Rightarrow> ag_LastHeartbeat a > ag_LastHeartbeat t) then Some a else target)"
  by (auto simp: eligible_def agentHealthy_def split: option.splits)

lemma pick_target_best:
  "pick_target now current as target = r \<Longrightarrow>
    (r = None \<longrightarrow> target = None \<and> (\<forall>a \<in> set as. \<not> eligible now current a))
    \<and> (\<forall>t. r = Some t \<longrightarrow> (target = Some t \<or> t \<in> set as \<and> eligible now current t)
        \<and> (\<forall>x. target = Some x \<longrightarrow> ag_LastHeartbeat x \<le> ag_LastHeartbeat t)
        \<and> (\<forall>a \<in> set as. eligible now current a \<longrightarrow> ag_LastHeartbeat a \<le> ag_LastHeartbeat t))"
proof (induction as arbitrary: target)
  case (Cons a as)
  define t1 where "t1 = (if eligible now current a \<and> (case target of None \<Rightarrow> True | Some t \<Rightarrow> ag_LastHeartbeat a > ag_LastHeartbeat t) then Some a else target)"
  have "pick_target now current as t1 = r" using Cons.prems unfolding pick_target_step t1_def .
  note IH = Cons.IH [OF this]
  show ?case
  proof (cases r)
    case None
    then show ?thesis using IH by (auto simp: t1_def split: if_splits option.splits)
  next
    case (Some t)
    then show ?thesis using IH by (cases target) (auto simp: t1_def split: if_splits)
  qed
qed auto

text \<open>
  C22: A failover touches nothing before its checks have passed. The handler starts a job only for a database row of the caller's workspace (or an administrator), that is failed or
  forced, when the listing of its archive is not empty and no failover of it is in progress. When the lease lookup answers with an owner, that owner is the host the job drains and the
  target is another one; when the lookup fails the job has no owner to drain or to avoid, which the code accepts. The target is healthy, and
  no eligible agent has a fresher heartbeat. Every other outcome is an error that leaves the set of running failovers as it was.
\<close>

theorem failover_preflight:
  assumes "failover env e workspace i rows s inflight = (r, inflight')"
  shows "(\<forall>code. r = Inl code \<longrightarrow> inflight' = inflight)
    \<and> (\<forall>j. r = Inr j \<longrightarrow> i \<notin> inflight \<and> inflight' = insert i inflight
        \<and> (\<exists>row. get_row i rows = Some row \<and> isDBTemplate (sb_template row) \<and> fj_template j = sb_template row
             \<and> (workspace = ''admin'' \<or> workspace = ''default'' \<or> sb_metadata row ''workspace'' = Some workspace)
             \<and> (fo_force e \<or> sb_status row = ''failed''))
        \<and> (\<exists>ls. fo_ls e = GsOk ls \<and> ls \<noteq> [])
        \<and> ag_Status (fj_target j) = ''active'' \<and> ag_Endpoint (fj_target j) \<noteq> [] \<and> fo_now e - ag_LastHeartbeat (fj_target j) \<le> 30 * Second
        \<and> (\<forall>c. LookupLease (fo_lease e) (fo_now e) i s = Inr (Some c) \<longrightarrow> fj_current j = Some c \<and> ag_ID (fj_target j) \<noteq> ag_ID c)
        \<and> (\<forall>c. fj_current j = Some c \<longrightarrow> LookupLease (fo_lease e) (fo_now e) i s = Inr (Some c))
        \<and> (\<exists>as. fo_agents e = Some as \<and> fj_target j \<in> set as \<and> eligible (fo_now e) (fj_current j) (fj_target j)
             \<and> (\<forall>a \<in> set as. eligible (fo_now e) (fj_current j) a \<longrightarrow> ag_LastHeartbeat a \<le> ag_LastHeartbeat (fj_target j))))"
proof (cases r)
  case (Inl code)
  then show ?thesis using assms
    by (auto simp: failover_def Let_def split: if_splits sum.splits prod.splits option.splits)
next
  case (Inr j)
  define current where "current = (case LookupLease (fo_lease e) (fo_now e) i s of Inl _ \<Rightarrow> None | Inr c \<Rightarrow> c)"
  obtain meta template target where auth: "workspace \<noteq> []" "failoverAuthorize (fo_auth e) workspace i rows = Inr (meta, template)"
    and st: "fo_force e \<or> sandboxStatus (fo_status e) i rows = ''failed''"
    and pick: "pickFailoverTarget (fo_now e) current (fo_agents e) = Some target"
    and arch: "dbArchiveExists env (fo_ls e)" "i \<notin> inflight" "inflight' = insert i inflight"
    and j: "j = \<lparr>fj_template = template, fj_meta = meta, fj_current = current, fj_target = target\<rparr>"
    using assms Inr by (auto simp: failover_def Let_def current_def split: if_splits sum.splits prod.splits option.splits)
  obtain row where row: "get_row i rows = Some row" "isDBTemplate (sb_template row)" "template = sb_template row"
      "workspace = ''admin'' \<or> workspace = ''default'' \<or> sb_metadata row ''workspace'' = Some workspace"
    using auth by (auto simp: failoverAuthorize_def Let_def split: if_splits option.splits)
  have "fo_force e \<or> sb_status row = ''failed''" using st row(1) by (auto simp: sandboxStatus_def split: if_splits)
  moreover obtain as where as: "fo_agents e = Some as" "pick_target (fo_now e) current as None = Some target"
    using pick by (auto simp: pickFailoverTarget_def split: option.splits)
  moreover have own: "current = Some c \<longleftrightarrow> LookupLease (fo_lease e) (fo_now e) i s = Inr (Some c)" for c
    by (simp add: current_def split: sum.splits)
  moreover have "ag_ID target \<noteq> ag_ID c" if "LookupLease (fo_lease e) (fo_now e) i s = Inr (Some c)" for c
  proof -
    have "current = Some c" using that own by simp
    then show ?thesis using pick_target_best [OF as(2)] by (simp add: eligible_def)
  qed
  moreover have "ag_Status target = ''active'' \<and> ag_Endpoint target \<noteq> [] \<and> fo_now e - ag_LastHeartbeat target \<le> 30 * Second"
    using pick_target_best [OF as(2)] by (simp add: eligible_def agentHealthy_def)
  moreover have "\<exists>ls. fo_ls e = GsOk ls \<and> ls \<noteq> []" using arch(1) by (cases "fo_ls e") (simp_all add: dbArchiveExists_def)
  ultimately show ?thesis using Inr j row arch pick_target_best [OF as(2)] as(1) by simp
qed

section \<open>The fence between owners\<close>

text \<open>The name of a base backup reads back as its stamp and generation.\<close>

lemma dec_is_digit: "c \<in> set (dec n) \<Longrightarrow> is_digit c"
proof -
  assume "c \<in> set (dec n)"
  then have n: "48 \<le> (of_char c :: nat)" "of_char c < (58 :: nat)" using dec_digits by auto
  have "(of_char c :: int) = int (of_char c)" by (rule of_nat_of_char [symmetric])
  then show ?thesis using n by (simp add: is_digit_def digit_val_def Let_def)
qed

lemma base_match_name:
  assumes "is_stamp st"
  shows "base_match (base_name st (dec n)) = Some (st, dec n)"
proof -
  have len: "length st = 16" using assms by (simp add: is_stamp_def)
  have d: "\<not> is_digit (CHR ''.'')" by code_simp
  have dr: "drop 5 (base_name st (dec n)) = st @ ''-g'' @ dec n @ ''.tar.gz''" "drop 21 (base_name st (dec n)) = ''-g'' @ dec n @ ''.tar.gz''"
    using len by (simp_all add: base_name_def)
  have tk: "takeWhile is_digit (dec n @ ''.tar.gz'') = dec n" "dropWhile is_digit (dec n @ ''.tar.gz'') = ''.tar.gz''"
    using dec_is_digit [of _ n] d by (simp_all add: takeWhile_append dropWhile_append)
  have "has_prefix (base_name st (dec n)) ''base-''" by (simp add: base_name_def has_prefix_def)
  then show ?thesis using len assms tk by (simp add: base_match_def dr has_prefix_def Let_def)
qed

lemma base_name_inj: "is_stamp a \<Longrightarrow> is_stamp b \<Longrightarrow> base_name a (dec m) = base_name b (dec n) \<Longrightarrow> m = n"
  by (metis base_match_name dec_inj option.inject prod.inject)

lemma trim_space_id:
  assumes "xs \<noteq> []" and "\<not> is_space (hd xs)" and "\<not> is_space (List.last xs)"
  shows "trim_space xs = xs"
proof -
  have "dropWhile is_space xs = xs" using assms(1,2) by (cases xs) auto
  moreover have "dropWhile is_space (rev xs) = rev xs" using assms(1,3) by (cases "rev xs") (auto simp: last_rev hd_rev)
  ultimately show ?thesis by (simp add: trim_space_def)
qed

definition base_url :: "string \<Rightarrow> string \<Rightarrow> string \<Rightarrow> string" where
  "base_url bucket i name = ''gs://'' @ bucket @ ''/db/'' @ i @ ''/base'' @ CHR ''/'' # name"

lemma cand_of_base:
  assumes "is_stamp st" and "parse_stamp st = Some t" and "n < 2 ^ 63" and "CHR ''/'' \<notin> set st"
  shows "cand_of (base_url bucket i (base_name st (dec n))) = Some \<lparr>bc_url = base_url bucket i (base_name st (dec n)), bc_gen = int n, bc_ts = t\<rparr>"
proof -
  let ?u = "base_url bucket i (base_name st (dec n))"
  have "?u = CHR ''g'' # (''s://'' @ bucket @ ''/db/'' @ i @ ''/base/base-'' @ st @ ''-g'' @ dec n @ ''.tar.g'') @ ''z''" by (simp add: base_url_def base_name_def)
  moreover have "\<not> is_space (CHR ''g'')" "\<not> is_space (CHR ''z'')" by code_simp+
  ultimately have tr: "trim_space ?u = ?u" by (intro trim_space_id) simp_all
  have "CHR ''/'' \<notin> set (dec n)" using dec_digits [of "CHR ''/''" n] by auto
  then have "CHR ''/'' \<notin> set (base_name st (dec n))" using assms(4) by (simp add: base_name_def)
  then have seg: "lastPathSeg ?u = base_name st (dec n)"
    using lastPathSeg_url [of "base_name st (dec n)" "''gs://'' @ bucket @ ''/db/'' @ i @ ''/base''"] by (simp add: base_url_def)
  have "parse_int64 (dec n) = int n" using atoi_parse_int64 [OF atoi_dec [OF assms(3)]] .
  then show ?thesis using assms(2) by (simp add: cand_of_def Let_def tr seg base_match_name [OF assms(1)])
qed

text \<open>
  One database \<open>i\<close> in the fleet: the tables, the metadata of its row, the relay of every host, the host that owns it, the hosts that have run it so far, and the base objects of its
  archive with the host that uploaded each.
\<close>

record fence =
  fn_db :: arch_db
  fn_md :: "string \<rightharpoonup> string"
  fn_relay :: "string \<Rightarrow> WALRelay"
  fn_owner :: string
  fn_hosts :: "string set"
  fn_objs :: "(string \<times> string) list"

text \<open>
  \<open>failover\<close> is a run that fenced and restored on \<open>tgt\<close>: the generation is bumped, the row carries it and the target's relay forgets its pin. The host that loses the database has pinned its
  generation (it has uploaded in its epoch). \<open>aborted\<close> is a run that could not fence. \<open>upload\<close> is a base backup of any host that has ever run the database: a host that lost it may not know and
  go on for ever; the row can be read. Other statements of any replica happen at any time, and objects are removed. No agent is restarted: the pins are in memory (\<open>unpinned_host_joins_epoch\<close>).
\<close>

inductive fence_step :: "string \<Rightarrow> fence \<Rightarrow> fence \<Rightarrow> bool" for i where
  failover: "bumpArchiveGenerationRetry q1 t2 t3 i holder (Some (fn_db f)) = (Some g, Some db') \<Longrightarrow>
    tgt = fn_owner f \<or> wr_genCache (fn_relay f (fn_owner f)) i \<noteq> None \<Longrightarrow>
    fence_step i f (f\<lparr>fn_db := db', fn_md := (fn_md f)(''db.archive_gen'' \<mapsto> dec_int g),
      fn_relay := (fn_relay f)(tgt := InvalidateGen i (fn_relay f tgt)), fn_owner := tgt, fn_hosts := insert tgt (fn_hosts f)\<rparr>)"
| aborted: "bumpArchiveGenerationRetry q1 t2 t3 i holder (Some (fn_db f)) = (None, Some db') \<Longrightarrow> fence_step i f (f\<lparr>fn_db := db'\<rparr>)"
| upload: "x \<in> fn_hosts f \<Longrightarrow> archiveGenFor (Some (fn_md f)) i (fn_relay f x) = (gen, w) \<Longrightarrow>
    is_stamp st \<Longrightarrow> parse_stamp st \<noteq> None \<Longrightarrow> CHR ''/'' \<notin> set st \<Longrightarrow>
    fence_step i f (f\<lparr>fn_relay := (fn_relay f)(x := w), fn_objs := (base_name st gen, x) # fn_objs f\<rparr>)"
| tables: "table_step (fn_db f) db' \<Longrightarrow> fence_step i f (f\<lparr>fn_db := db'\<rparr>)"
| removed: "fence_step i f (f\<lparr>fn_objs := filter P (fn_objs f)\<rparr>)"

text \<open>
  The generation of the row is \<open>n\<close>: the owner's pin has it, the pins of all other hosts are older, and so are all objects that are not the owner's.
\<close>

definition obj_ok :: "nat \<Rightarrow> string \<Rightarrow> string \<times> string \<Rightarrow> bool" where
  "obj_ok n owner p \<longleftrightarrow>
     (\<exists>st k. fst p = base_name st (dec k) \<and> is_stamp st \<and> parse_stamp st \<noteq> None \<and> CHR ''/'' \<notin> set st \<and> (k < n \<or> k = n \<and> snd p = owner))"

definition pin_ok :: "nat \<Rightarrow> bool \<Rightarrow> string option \<Rightarrow> bool" where
  "pin_ok n own pin \<longleftrightarrow> (case pin of None \<Rightarrow> own | Some g \<Rightarrow> \<exists>k. g = dec k \<and> (if own then k = n else k < n))"

definition fenced :: "string \<Rightarrow> nat \<Rightarrow> fence \<Rightarrow> bool" where
  "fenced i n f \<longleftrightarrow>
     n < 2 ^ 63 \<and> row_gen (Some (fn_md f)) = dec n \<and> 0 \<le> gen_of i (fn_db f) \<and> int n \<le> gen_of i (fn_db f)
     \<and> (\<forall>x \<in> fn_hosts f. pin_ok n (x = fn_owner f) (wr_genCache (fn_relay f x) i)) \<and> (\<forall>p \<in> set (fn_objs f). obj_ok n (fn_owner f) p)"

lemma obj_ok_later: "obj_ok n owner p \<Longrightarrow> n < m \<Longrightarrow> obj_ok m owner' p"
  unfolding obj_ok_def by (metis less_trans)

lemma pin_ok_later: "pin_ok n own (Some g) \<Longrightarrow> n < m \<Longrightarrow> pin_ok m False (Some g)"
  unfolding pin_ok_def by (auto split: if_splits intro: less_trans)

lemma bump_retry_gens:
  assumes "bump_retry ts i holder (Some db) = (r, dbo)" and "0 \<le> gen_of i db"
  shows "\<exists>db'. dbo = Some db' \<and> gen_of i db \<le> gen_of i db' \<and> 0 \<le> gen_of i db' \<and> (\<forall>g. r = Some g \<longrightarrow> gen_of i db < g \<and> gen_of i db' = g \<and> g < 2 ^ 63)"
  using assms
proof (induction ts arbitrary: db)
  case (Cons t ts)
  obtain c q where t: "t = (c, q)" by fastforce
  show ?case
  proof (cases c)
    case False
    obtain r1 d1 where b: "bumpArchiveGeneration q i holder (Some db) = (r1, d1)" by fastforce
    have range: "bump_row i holder db = Some (g, db') \<Longrightarrow> g < 2 ^ 63" for g db'
      by (auto simp: bump_row_def split: option.splits if_splits)
    have d1: "\<exists>db1. d1 = Some db1 \<and> gen_of i db \<le> gen_of i db1 \<and> (\<forall>g. r1 = Some g \<longrightarrow> gen_of i db < g \<and> gen_of i db1 = g \<and> g < 2 ^ 63)"
      using bump_cases [OF b] bump_row_gens [of i holder db _ _ i] range Cons.prems(2) by (elim disjE exE conjE) (force+)
    then obtain db1 where db1: "d1 = Some db1" "gen_of i db \<le> gen_of i db1" "\<forall>g. r1 = Some g \<longrightarrow> gen_of i db < g \<and> gen_of i db1 = g \<and> g < 2 ^ 63" by blast
    show ?thesis
    proof (cases r1)
      case None
      then have "bump_retry ts i holder (Some db1) = (r, dbo)" using Cons.prems(1) b db1(1) False by (simp add: t)
      from Cons.IH [OF this] show ?thesis using db1(2) Cons.prems(2) by force
    next
      case (Some g)
      then show ?thesis using Cons.prems b db1 False by (auto simp: t)
    qed
  qed (use Cons.prems t in auto)
qed auto

lemma row_gen_stamped: "g < 2 ^ 63 \<Longrightarrow> row_gen (Some (md(''db.archive_gen'' \<mapsto> dec g))) = dec g"
  by (simp add: row_gen_def atoi_dec)

lemma fence_failover:
  assumes inv: "fenced i n f" and b: "bumpArchiveGenerationRetry q1 t2 t3 i holder (Some (fn_db f)) = (Some g, Some db')"
    and pin: "tgt = fn_owner f \<or> wr_genCache (fn_relay f (fn_owner f)) i \<noteq> None"
  shows "fenced i (nat g) (f\<lparr>fn_db := db', fn_md := (fn_md f)(''db.archive_gen'' \<mapsto> dec_int g),
      fn_relay := (fn_relay f)(tgt := InvalidateGen i (fn_relay f tgt)), fn_owner := tgt, fn_hosts := insert tgt (fn_hosts f)\<rparr>)"
proof -
  have g: "gen_of i (fn_db f) < g" "gen_of i db' = g" "g < 2 ^ 63"
    using bump_retry_gens [of "[(False, q1), t2, t3]" i holder "fn_db f" "Some g" "Some db'"] b inv by (auto simp: bumpArchiveGenerationRetry_def fenced_def)
  then have n: "n < nat g" "int (nat g) = g" using inv by (auto simp: fenced_def)
  have gen: "dec_int g = dec (nat g)" using n by (simp add: dec_int_def)
  have lim: "nat g < 2 ^ 63" using g(3) n by (simp add: nat_less_iff)
  have tgt: "pin_ok (nat g) True (wr_genCache (InvalidateGen i (fn_relay f tgt)) i)" by (simp add: pin_ok_def InvalidateGen_def)
  have other: "pin_ok (nat g) False (wr_genCache (fn_relay f x) i)" if x: "x \<in> fn_hosts f" "x \<noteq> tgt" for x
  proof -
    have p: "pin_ok n (x = fn_owner f) (wr_genCache (fn_relay f x) i)" using inv x(1) by (simp add: fenced_def)
    then obtain h where h: "wr_genCache (fn_relay f x) i = Some h" using pin x(2) by (cases "wr_genCache (fn_relay f x) i") (auto simp: pin_ok_def)
    then show ?thesis using pin_ok_later [OF _ n(1)] p by simp
  qed
  have objs: "\<forall>p \<in> set (fn_objs f). obj_ok (nat g) tgt p" using inv obj_ok_later [OF _ n(1)] unfolding fenced_def by blast
  show ?thesis unfolding fenced_def
    using lim row_gen_stamped [OF lim, of "fn_md f"] g n tgt other objs by (auto simp: gen)
qed

lemma fence_upload:
  assumes inv: "fenced i n f" and x: "x \<in> fn_hosts f" and a: "archiveGenFor (Some (fn_md f)) i (fn_relay f x) = (gen, w)"
    and st: "is_stamp st" "parse_stamp st \<noteq> None" "CHR ''/'' \<notin> set st"
  shows "fenced i n (f\<lparr>fn_relay := (fn_relay f)(x := w), fn_objs := (base_name st gen, x) # fn_objs f\<rparr>)"
proof -
  have p: "pin_ok n (x = fn_owner f) (wr_genCache (fn_relay f x) i)" and md: "row_gen (Some (fn_md f)) = dec n" using inv x by (simp_all add: fenced_def)
  have w: "wr_genCache w i = Some gen" "pin_ok n (x = fn_owner f) (Some gen)"
    using a p md by (auto simp: archiveGenFor_def pin_ok_def split: option.splits)
  then obtain k where k: "gen = dec k" "k < n \<or> k = n \<and> x = fn_owner f" by (auto simp: pin_ok_def split: if_splits)
  have "obj_ok n (fn_owner f) (base_name st gen, x)"
    unfolding obj_ok_def using st k by (intro exI [of _ st] exI [of _ k]) simp
  moreover have "pin_ok n (y = fn_owner f) (wr_genCache (((fn_relay f)(x := w)) y) i)" if "y \<in> fn_hosts f" for y
    using inv w that by (cases "y = x") (simp_all add: fenced_def)
  ultimately show ?thesis using inv by (simp add: fenced_def)
qed

lemma fence_step_fenced:
  assumes "fence_step i f f'" and "fenced i n f"
  shows "\<exists>n'. fenced i n' f'"
  using assms
proof (induction rule: fence_step.induct)
  case (failover q1 t2 t3 holder f g db' tgt)
  then show ?case using fence_failover by blast
next
  case (aborted q1 t2 t3 holder f db')
  then have "gen_of i (fn_db f) \<le> gen_of i db'"
    using bump_retry_gens [of "[(False, q1), t2, t3]" i holder "fn_db f" None "Some db'"] by (auto simp: bumpArchiveGenerationRetry_def fenced_def)
  then show ?case using aborted(2) unfolding fenced_def by (intro exI [of _ n]) simp
next
  case (upload x f gen w st)
  then show ?case using fence_upload by blast
next
  case (tables f db')
  then have "gen_of i (fn_db f) \<le> gen_of i db'" using table_step_gens [of "fn_db f" db' i] by (simp add: fenced_def)
  then show ?case using tables(2) unfolding fenced_def by (intro exI [of _ n]) simp
next
  case (removed f P)
  then show ?case unfolding fenced_def by (intro exI [of _ n]) auto
qed

text \<open>A new database: the counter is seeded, the row has no generation yet, the owner has uploaded nothing.\<close>

definition new_fence :: "string \<Rightarrow> string \<Rightarrow> fence" where
  "new_fence i owner = \<lparr>fn_db = empty_db\<lparr>ad_gens := [i \<mapsto> (1, ''create'')]\<rparr>, fn_md = Map.empty, fn_relay = (\<lambda>_. new_relay), fn_owner = owner, fn_hosts = {owner}, fn_objs = []\<rparr>"

lemma fenced_new: "fenced i 1 (new_fence i owner)"
proof -
  have "dec 1 = ''1''" by code_simp
  then show ?thesis by (simp add: fenced_def new_fence_def row_gen_def gen_of_def pin_ok_def new_relay_def empty_db_def)
qed

text \<open>The candidates of the archive, each the object of some upload.\<close>

lemma obj_cand:
  assumes "obj_ok n owner p" and "n < 2 ^ 63"
  shows "\<exists>st k t. fst p = base_name st (dec k) \<and> is_stamp st \<and> (k < n \<or> k = n \<and> snd p = owner)
    \<and> cand_of (base_url bucket i (fst p)) = Some \<lparr>bc_url = base_url bucket i (fst p), bc_gen = int k, bc_ts = t\<rparr>"
proof -
  obtain st k t where k: "fst p = base_name st (dec k)" "is_stamp st" "parse_stamp st = Some t" "CHR ''/'' \<notin> set st" "k < n \<or> k = n \<and> snd p = owner"
    using assms(1) by (auto simp: obj_ok_def)
  then have "k < 2 ^ 63" using assms(2) by linarith
  then show ?thesis using k cand_of_base [OF k(2,3) _ k(4), of k bucket i] by (intro exI [of _ st] exI [of _ k] exI [of _ t]) simp
qed

lemma map_filter_Some: "(\<And>x. x \<in> set xs \<Longrightarrow> f x \<noteq> None) \<Longrightarrow> List.map_filter f xs = map (\<lambda>x. the (f x)) xs"
  by (induction xs) (auto simp: List.map_filter_def)

lemma base_url_inj: "base_url bucket i a = base_url bucket i b \<Longrightarrow> a = b"
  by (simp add: base_url_def)

text \<open>
  C14: A fenced-off host cannot shadow the owner's backups. From the creation of the database, through any sequence of failovers and in-place restores, runs that could not fence, statements of
  other replicas, removals from the archive, and base backups uploaded at any time by any host that ever ran the database, with any clock, where the host that loses the database has pinned the generation of its epoch and no agent is restarted: once the current owner has a base of its epoch in
  the archive, the base that a restore tries first was uploaded by the current owner.
\<close>

theorem fence_selects_owner:
  assumes run: "(fence_step i)\<^sup>*\<^sup>* (new_fence i owner0) f" and srt: "cand_sort_ok srt" and bucket: "trim_space (genv ''PANDASTACK_SNAPSHOT_BUCKET'') \<noteq> []"
    and own: "is_stamp st" "(base_name st (row_gen (Some (fn_md f))), fn_owner f) \<in> set (fn_objs f)"
    and res: "resolveBaseForTarget srt genv (GsOk (map (\<lambda>p. base_url bucket i (fst p)) (fn_objs f))) = Inr url"
  shows "\<exists>p \<in> set (fn_objs f). url = base_url bucket i (fst p) \<and> snd p = fn_owner f"
proof -
  have "\<exists>n. fenced i n f"
    using run by (induction rule: rtranclp_induct) (use fenced_new fence_step_fenced in blast)+
  then obtain n where inv: "fenced i n f" by blast
  then have n: "n < 2 ^ 63" "row_gen (Some (fn_md f)) = dec n" and ok: "\<forall>p \<in> set (fn_objs f). obj_ok n (fn_owner f) p" by (simp_all add: fenced_def)
  let ?c = "\<lambda>p. the (cand_of (base_url bucket i (fst p)))"
  have cand: "\<exists>st k t. fst p = base_name st (dec k) \<and> is_stamp st \<and> (k < n \<or> k = n \<and> snd p = fn_owner f)
      \<and> cand_of (base_url bucket i (fst p)) = Some \<lparr>bc_url = base_url bucket i (fst p), bc_gen = int k, bc_ts = t\<rparr>" if "p \<in> set (fn_objs f)" for p
    using obj_cand [OF _ n(1), of "fn_owner f" p bucket i] ok that by blast
  define bases where "bases = List.map_filter cand_of (map (\<lambda>p. base_url bucket i (fst p)) (fn_objs f))"
  have bases: "bases = map ?c (fn_objs f)"
    unfolding bases_def by (subst map_filter_Some) (use cand in \<open>auto simp: comp_def\<close>)
  have ne: "bases \<noteq> []" using own(2) by (auto simp: bases)
  let ?s = "srt cand_before bases"
  have s: "set ?s = set bases" "sorted_wrt (\<lambda>a b. \<not> cand_before b a) ?s" "?s \<noteq> []"
    using srt ne unfolding cand_sort_ok_def by (metis set_mset_mset mset_zero_iff)+
  have url: "url = bc_url (hd ?s)"
    using res s(3) ne bucket by (simp add: resolveBaseForTarget_def resolveBaseCandidates_def Let_def bases_def [symmetric] hd_map)
  obtain p where p: "p \<in> set (fn_objs f)" "hd ?s = ?c p" using s(1,3) bases by (metis (no_types, lifting) hd_in_set image_iff list.set_map)
  obtain st1 k t where k: "k < n \<or> k = n \<and> snd p = fn_owner f" "?c p = \<lparr>bc_url = base_url bucket i (fst p), bc_gen = int k, bc_ts = t\<rparr>"
    using cand [OF p(1)] by auto
  let ?o = "(base_name st (row_gen (Some (fn_md f))), fn_owner f)"
  obtain st2 k2 t2 where o: "fst ?o = base_name st2 (dec k2)" "is_stamp st2" "?c ?o = \<lparr>bc_url = base_url bucket i (fst ?o), bc_gen = int k2, bc_ts = t2\<rparr>"
    using cand [OF own(2)] by (metis option.sel)
  have "k2 = n" using base_name_inj [OF own(1) o(2), of n k2] o(1) n(2) by simp
  have "?c ?o \<in> set bases" unfolding bases set_map by (rule imageI [OF own(2)])
  then have "?c ?o \<in> set ?s" unfolding s(1) .
  then have "\<not> cand_before (?c ?o) (hd ?s)"
    using s(2,3) by (cases ?s) (auto simp: cand_before_def)
  then have "int k \<ge> int n" using k(2) o(3) p(2) \<open>k2 = n\<close> by (auto simp: cand_before_def split: if_splits)
  then show ?thesis using k p url by (intro bexI [OF _ p(1)]) auto
qed

section \<open>A concrete failover\<close>

definition fo_agent :: "string \<Rightarrow> int \<Rightarrow> Agent" where
  "fo_agent i t = (demo_agent i)\<lparr>ag_Endpoint := ''10.0.0.1'', ag_LastHeartbeat := t\<rparr>"

definition fo_row :: sb_row where
  "fo_row = \<lparr>sb_id = ''d'', sb_template = ''postgres-16'', sb_status = ''failed'', sb_metadata = [''workspace'' \<mapsto> ''w''], sb_agent = ''a'', sb_persistent = True, sb_ttl = 0\<rparr>"

definition fo_demo :: fo_env where
  "fo_demo = \<lparr>fo_multi = True, fo_force = False, fo_auth = QOk, fo_status = QOk, fo_lease = Inr (Some (fo_agent ''a'' (58 * Second))),
     fo_agents = Some [fo_agent ''a'' (58 * Second), fo_agent ''b'' (40 * Second), fo_agent ''c'' (50 * Second)], fo_ls = GsOk [''gs://b/db/d/base/base-20240101T000000Z-g1.tar.gz''], fo_now = 60 * Second\<rparr>"

lemma failover_demo:
  "failover bucket_env fo_demo ''w'' ''d'' [fo_row] (sched_New 0) {} =
     (Inr \<lparr>fj_template = ''postgres-16'', fj_meta = [''workspace'' \<mapsto> ''w''], fj_current = Some (fo_agent ''a'' (58 * Second)), fj_target = fo_agent ''c'' (50 * Second)\<rparr>, {''d''})"
proof -
  have b: "trim_space (bucket_env ''PANDASTACK_SNAPSHOT_BUCKET'') \<noteq> []" by code_simp
  show ?thesis
    using b by (simp add: failover_def fo_demo_def failoverAuthorize_def get_row_def fo_row_def isDBTemplate_def sandboxStatus_def LookupLease_def sched_New_def
        pickFailoverTarget_def fo_agent_def demo_agent_def dbArchiveExists_def Second_def Let_def)
qed

theorem failover_preflight_witness:
  "\<exists>r s. failover bucket_env fo_demo ''w'' ''d'' [fo_row] (sched_New 0) {} = (Inr r, s) \<and> s = {''d''} \<and> fj_current r = Some (fo_agent ''a'' (58 * Second))
     \<and> ag_ID (fj_target r) \<noteq> ''a''"
proof -
  obtain j where run: "failover bucket_env fo_demo ''w'' ''d'' [fo_row] (sched_New 0) {} = (Inr j, {''d''})" using failover_demo by blast
  have "LookupLease (fo_lease fo_demo) (fo_now fo_demo) ''d'' (sched_New 0) = Inr (Some (fo_agent ''a'' (58 * Second)))"
    by (simp add: fo_demo_def LookupLease_def sched_New_def)
  then have "fj_current j = Some (fo_agent ''a'' (58 * Second)) \<and> ag_ID (fj_target j) \<noteq> ag_ID (fo_agent ''a'' (58 * Second))"
    using failover_preflight [OF run] by blast
  moreover have "ag_ID (fo_agent ''a'' (58 * Second)) = ''a''" by (simp add: fo_agent_def demo_agent_def)
  ultimately have "fj_current j = Some (fo_agent ''a'' (58 * Second)) \<and> ag_ID (fj_target j) \<noteq> ''a''" by metis
  then show ?thesis using run by blast
qed

text \<open>One upload of a host, and a failover with a reachable database.\<close>

definition fn_upload :: "string \<Rightarrow> string \<Rightarrow> fence \<Rightarrow> fence" where
  "fn_upload x st f = (let (gen, w) = archiveGenFor (Some (fn_md f)) ''d'' (fn_relay f x) in f\<lparr>fn_relay := (fn_relay f)(x := w), fn_objs := (base_name st gen, x) # fn_objs f\<rparr>)"

definition fn_failover :: "string \<Rightarrow> int \<Rightarrow> arch_db \<Rightarrow> fence \<Rightarrow> fence" where
  "fn_failover tgt g db' f = f\<lparr>fn_db := db', fn_md := (fn_md f)(''db.archive_gen'' \<mapsto> dec_int g),
     fn_relay := (fn_relay f)(tgt := InvalidateGen ''d'' (fn_relay f tgt)), fn_owner := tgt, fn_hosts := insert tgt (fn_hosts f)\<rparr>"

lemma fn_upload_step:
  "x \<in> fn_hosts f \<Longrightarrow> is_stamp st \<Longrightarrow> parse_stamp st \<noteq> None \<Longrightarrow> CHR ''/'' \<notin> set st \<Longrightarrow> fence_step ''d'' f (fn_upload x st f)"
  unfolding fn_upload_def by (auto split: prod.splits intro: fence_step.upload)

text \<open>The host \<open>a\<close> loses the database to \<open>b\<close> and uploads once more, later by its clock than the base of \<open>b\<close>.\<close>

definition fn_demo :: fence where
  "fn_demo = fn_upload ''a'' ''20240104T000000Z'' (fn_upload ''b'' ''20240103T000000Z''
     (fn_failover ''b'' 2 (empty_db\<lparr>ad_gens := [''d'' \<mapsto> (2, ''failover:b'')]\<rparr>) (fn_upload ''a'' ''20240102T000000Z'' (new_fence ''d'' ''a''))))"

lemma fn_demo_run: "(fence_step ''d'')\<^sup>*\<^sup>* (new_fence ''d'' ''a'') fn_demo"
proof -
  have st: "is_stamp ''20240102T000000Z''" "is_stamp ''20240103T000000Z''" "is_stamp ''20240104T000000Z''"
    "parse_stamp ''20240102T000000Z'' \<noteq> None" "parse_stamp ''20240103T000000Z'' \<noteq> None" "parse_stamp ''20240104T000000Z'' \<noteq> None" by code_simp+
  define f1 where "f1 = fn_upload ''a'' ''20240102T000000Z'' (new_fence ''d'' ''a'')"
  define f2 where "f2 = fn_failover ''b'' 2 (empty_db\<lparr>ad_gens := [''d'' \<mapsto> (2, ''failover:b'')]\<rparr>) f1"
  define f3 where "f3 = fn_upload ''b'' ''20240103T000000Z'' f2"
  have f1: "fn_db f1 = empty_db\<lparr>ad_gens := [''d'' \<mapsto> (1, ''create'')]\<rparr>" "fn_owner f1 = ''a''" "fn_hosts f1 = {''a''}" "wr_genCache (fn_relay f1 ''a'') ''d'' \<noteq> None"
    by (simp_all add: f1_def fn_upload_def new_fence_def archiveGenFor_def new_relay_def)
  have f3: "fn_hosts f2 = {''b'', ''a''}" "fn_hosts f3 = {''b'', ''a''}"
    by (simp_all add: f3_def f2_def fn_failover_def fn_upload_def f1 split: prod.splits)
  have "fence_step ''d'' (new_fence ''d'' ''a'') f1" unfolding f1_def by (rule fn_upload_step) (use st in \<open>simp_all add: new_fence_def\<close>)
  moreover have "fence_step ''d'' f1 f2" unfolding f2_def fn_failover_def
    by (rule fence_step.failover [of QOk "(False, QOk)" "(False, QOk)" _ "''failover:b''"])
      (use f1 in \<open>simp_all add: bumpArchiveGenerationRetry_def bumpArchiveGeneration_def bump_row_def empty_db_def\<close>)
  moreover have "fence_step ''d'' f2 f3" unfolding f3_def by (rule fn_upload_step) (use st f3 in simp_all)
  moreover have "fence_step ''d'' f3 fn_demo" unfolding fn_demo_def f1_def [symmetric] f2_def [symmetric] f3_def [symmetric] by (rule fn_upload_step) (use st f3 in simp_all)
  ultimately show ?thesis by (meson rtranclp.rtrancl_into_rtrancl rtranclp.rtrancl_refl)
qed

lemma fn_demo_objs:
  "fn_objs fn_demo = [(''base-20240104T000000Z-g1.tar.gz'', ''a''), (''base-20240103T000000Z-g2.tar.gz'', ''b''), (''base-20240102T000000Z-g1.tar.gz'', ''a'')]"
  "fn_owner fn_demo = ''b''" "row_gen (Some (fn_md fn_demo)) = ''2''"
proof -
  have d: "dec 1 = ''1''" "dec_int 2 = ''2''" "atoi ''2'' = Some 2" "atoi ''1'' = Some 1" "dec 2 = ''2''" by code_simp+
  show "fn_owner fn_demo = ''b''"
    by (simp add: fn_demo_def fn_upload_def fn_failover_def split: prod.splits)
  show "row_gen (Some (fn_md fn_demo)) = ''2''"
    using d by (simp add: fn_demo_def fn_upload_def fn_failover_def row_gen_def split: prod.splits)
  show "fn_objs fn_demo = [(''base-20240104T000000Z-g1.tar.gz'', ''a''), (''base-20240103T000000Z-g2.tar.gz'', ''b''), (''base-20240102T000000Z-g1.tar.gz'', ''a'')]"
    using d by (simp add: fn_demo_def fn_upload_def fn_failover_def new_fence_def archiveGenFor_def InvalidateGen_def new_relay_def row_gen_def base_name_def)
qed

theorem fence_selects_owner_witness:
  "\<exists>url p. resolveBaseForTarget key_sort bucket_env (GsOk (map (\<lambda>p. base_url ''b'' ''d'' (fst p)) (fn_objs fn_demo))) = Inr url
     \<and> p \<in> set (fn_objs fn_demo) \<and> url = base_url ''b'' ''d'' (fst p) \<and> snd p = ''b''"
proof -
  have "\<not> Option.is_none (case resolveBaseForTarget key_sort bucket_env (GsOk (map (\<lambda>p. base_url ''b'' ''d'' (fst p))
      [(''base-20240104T000000Z-g1.tar.gz'', ''a''), (''base-20240103T000000Z-g2.tar.gz'', ''b''), (''base-20240102T000000Z-g1.tar.gz'', ''a'')])) of Inr u \<Rightarrow> Some u | _ \<Rightarrow> None)"
    by code_simp
  then obtain url where res: "resolveBaseForTarget key_sort bucket_env (GsOk (map (\<lambda>p. base_url ''b'' ''d'' (fst p)) (fn_objs fn_demo))) = Inr url"
    unfolding fn_demo_objs by (auto split: sum.splits)
  have b: "trim_space (bucket_env ''PANDASTACK_SNAPSHOT_BUCKET'') \<noteq> []" and st: "is_stamp ''20240103T000000Z''" by code_simp+
  have own: "(base_name ''20240103T000000Z'' (row_gen (Some (fn_md fn_demo))), fn_owner fn_demo) \<in> set (fn_objs fn_demo)"
    by (simp add: fn_demo_objs base_name_def)
  show ?thesis using fence_selects_owner [OF fn_demo_run key_sort_ok b st own res] res fn_demo_objs(2) by auto
qed


text \<open>
  The pin is what fences. A relay that has not uploaded in its epoch (or whose agent was restarted) has none: here \<open>a\<close> loses the database before its first upload, then reads the generation of the
  new epoch from the row, and its late base is the first choice of a restore.
\<close>

lemma unpinned_host_joins_epoch:
  "let f = fn_upload ''a'' ''20240104T000000Z'' (fn_upload ''b'' ''20240103T000000Z'' (fn_failover ''b'' 2 empty_db (new_fence ''d'' ''a'')))
   in fn_owner f = ''b'' \<and> resolveBaseForTarget key_sort bucket_env (GsOk (map (\<lambda>p. base_url ''b'' ''d'' (fst p)) (fn_objs f))) = Inr (base_url ''b'' ''d'' ''base-20240104T000000Z-g2.tar.gz'')
     \<and> (''base-20240104T000000Z-g2.tar.gz'', ''a'') \<in> set (fn_objs f)"
proof -
  let ?f = "fn_upload ''a'' ''20240104T000000Z'' (fn_upload ''b'' ''20240103T000000Z'' (fn_failover ''b'' 2 empty_db (new_fence ''d'' ''a'')))"
  have d: "dec_int 2 = ''2''" "atoi ''2'' = Some 2" "dec 2 = ''2''" by code_simp+
  have objs: "fn_objs ?f = [(''base-20240104T000000Z-g2.tar.gz'', ''a''), (''base-20240103T000000Z-g2.tar.gz'', ''b'')]"
    using d by (simp add: fn_upload_def fn_failover_def new_fence_def archiveGenFor_def InvalidateGen_def new_relay_def row_gen_def base_name_def)
  have "resolveBaseForTarget key_sort bucket_env (GsOk (map (\<lambda>p. base_url ''b'' ''d'' (fst p))
      [(''base-20240104T000000Z-g2.tar.gz'', ''a''), (''base-20240103T000000Z-g2.tar.gz'', ''b'')])) = Inr (base_url ''b'' ''d'' ''base-20240104T000000Z-g2.tar.gz'')"
    by code_simp
  moreover have "fn_owner ?f = ''b''" by (simp add: fn_upload_def fn_failover_def split: prod.splits)
  ultimately show ?thesis unfolding Let_def objs by simp
qed

end
