(* ===== verification/Spec2Isabelle.thy ===== *)
theory Spec2Isabelle
  imports Mem_Cache Disk_Cache Cache_Registry Network_Pool Uffd_Handler Nbd_Origin Scheduler Admission Pressure Db_Failover
begin

text \<open>
  Verification library of PandaStack, a sandbox platform that runs Firecracker micro-VMs (Go, under \<^verbatim>\<open>src/\<close>).

  \<^bold>\<open>The program.\<close> The control plane (\<^verbatim>\<open>src/api\<close>) places sandboxes on agents, and owns the archives and the failover of managed databases. An agent
  (\<^verbatim>\<open>src/agent\<close>) runs the VMs of one host. A VM is restored from a snapshot whose memory is served on demand by a userfaultfd handler and whose root disk is an
  NBD device; both fetch missing chunks from object storage through caches shared by all VMs of the host. Every VM has a network slot and a namespace of its own. The agent admits
  creates against the memory of the host, reacts to memory pressure, parks idle sandboxes, recovers them after a restart, and relays the WAL of databases to their archive.

  \<^bold>\<open>Prelude.\<close>
  \<^item> \<open>Go_Base\<close>: words for unsigned and wrapping 64-bit arithmetic for signed integers, little-endian fields, loops over indices.
  \<^item> \<open>Go_Env\<close>, \<open>Go_Float\<close>: settings read from the environment, and floating point with the rounding \<open>fl\<close> as an argument.
  \<^item> \<open>Crash_Program\<close>: programs whose effects outlive the process, as a state monad that records every state passed through, with rules for \<open>wpc\<close> (a crash invariant
  beside the postcondition).

  \<^bold>\<open>Streaming.\<close> The state of a cache is its sparse file and its presence map (\<open>Chunk_Store\<close>); geometry is in \<open>Chunk_Geometry\<close>.
  \<^item> \<open>Mem_Codec\<close>, \<open>Disk_Codec\<close>: headers, working-set lists and bitmaps of \<^verbatim>\<open>memstream\<close> and \<^verbatim>\<open>diskstream\<close>; encoders and decoders are inverse, and no file is
  accepted by two decoders.
  \<^item> \<open>Single_Flight\<close>: the protocol of \<open>ensureChunk\<close> as a step relation over goroutines, calls that may panic included, with the locale \<open>single_flight\<close> (a fetch keeps what is valid): at most one fetch of a
  chunk, callers that return find the bytes, and every call returns after a bounded number of steps. It is interpreted on the fetches of all four caches.
  \<^item> \<open>Mem_Resolver\<close>, \<open>Disk_Resolver\<close>: the resolvers of one restore (\<^verbatim>\<open>resolver.go\<close>, \<^verbatim>\<open>prefetch.go\<close>): a served page or block has the bytes of the image, whatever was fetched
  before; on disk every accepted chunk has the digest of the header.
  \<^item> \<open>Cache_Crash\<close>: the flush protocol of the shared caches with process and power crashes, the locale \<open>crash_cache\<close>; \<open>Mem_Cache\<close> and \<open>Disk_Cache\<close> (\<^verbatim>\<open>sharedcache.go\<close>)
  interpret it and show that \<open>Flush\<close> refines it. \<open>Cache_Registry\<close>: sharing of open caches and LRU eviction.
  \<^item> \<open>Uffd_Handler\<close> (\<^verbatim>\<open>uffd/\<close>): regions, retry with backoff, handoff, fault loop (the jobs of a round in order, one schedule of the workers; so with \<open>Prefault\<close>; the
  interleavings are those of \<open>Single_Flight\<close>). \<open>Nbd_Server\<close>, \<open>Nbd_Origin\<close> (\<^verbatim>\<open>nbdstream/\<close>): wire protocol, serve loop over any
  \<open>block_device\<close> (a locale interpreted on the disk resolver), bring-up with retries and teardown, the pool of devices.

  \<^bold>\<open>Network.\<close> \<open>Slot_Store\<close> (\<^verbatim>\<open>slotstore.go\<close>): the ledger of slots as a list of rows, one function per SQL statement. \<open>Netns\<close> (\<^verbatim>\<open>netns.go\<close>): namespaces and
  firewall rules as commands of a crash program over the kernel. \<open>Network_Pool\<close> (\<^verbatim>\<open>pool.go\<close>, \<^verbatim>\<open>natid.go\<close>): allocation, release and the boot sweep over both, with the
  property that a free slot has no leftover interface at any instant while \<^verbatim>\<open>ip\<close> deletes what it is told to.

  \<^bold>\<open>Placement and memory.\<close> \<open>Scheduler\<close> (\<^verbatim>\<open>scheduler.go\<close>): list cache, scoring, reservations, leases. \<open>Admission\<close> (\<^verbatim>\<open>admission.go\<close> and the usage sums of
  \<^verbatim>\<open>manager.go\<close>), with the exact extent to which concurrent creates can exceed the budget. \<open>Pressure\<close> (\<^verbatim>\<open>pressure.go\<close>, \<^verbatim>\<open>workload.go\<close>): signals, levels (an instance of \<open>linorder\<close>), hysteresis and one tick with its actions.

  \<^bold>\<open>Databases.\<close>
  \<^item> \<open>Archive_Names\<close>: names of bases, WAL segments and partials, in the control plane and in the agent. \<open>Archive_Janitor\<close> (\<^verbatim>\<open>db_archive.go\<close>, \<^verbatim>\<open>db_fencing.go\<close>, parts of
  \<^verbatim>\<open>databases.go\<close>): generations, leases, health, retention and purge. \<open>table_step\<close> is any statement of any replica.
  \<^item> \<open>Wal_Relay\<close> (\<^verbatim>\<open>wal_relay.go\<close>): ingest, serving, uploads, partials and bases; acknowledged bytes are in the spool or in the archive. \<open>relay_step\<close> separates the copy of a file from its removal.
  \<^item> \<open>Sandbox_Lifecycle\<close> (\<^verbatim>\<open>manager.go\<close>, \<^verbatim>\<open>teardown.go\<close>, \<^verbatim>\<open>lifecycle.go\<close>, \<^verbatim>\<open>reaper.go\<close>, \<^verbatim>\<open>store.go\<close>): rows shared by all agents and one host as maps; delete, death,
  reaper, \<open>Recover\<close>, failed-row janitor, hibernation and wake. \<open>auto_step\<close> collects what an agent does on its own, \<open>park\<close> what happens while it is up.
  \<^item> \<open>Db_Restore\<close> (\<^verbatim>\<open>db_restore.go\<close> and the part of \<open>Create\<close> it runs): base selection, staging, boot, failed rows.
  \<^item> \<open>Db_Failover\<close> (\<^verbatim>\<open>databases_failover.go\<close>): preflight and run; the property of the fence spans \<open>Archive_Janitor\<close>, \<open>Wal_Relay\<close> and \<open>Db_Restore\<close>.

  \<^bold>\<open>Conventions.\<close> Whatever the sources only call is an argument of the definitions, with documented behaviour as a named predicate that a concrete instance satisfies
  (\<open>source_of\<close>, \<open>reader_ok\<close>, \<open>sort_slice\<close>, \<open>cand_sort_ok\<close>): object storage, \<^verbatim>\<open>gsutil\<close>, SHA-256, HMAC, JSON, UUID and time parsing, \<open>sort.Slice\<close>, clocks, the kernel and the outcome of each
  command. A statement of SQL succeeds (\<open>QOk\<close>), fails (\<open>QFail\<close>), or takes effect while its answer is lost (\<open>QLost\<close>). Maps iterated in Go arrive as lists, so every order is covered.
  Environments that answer one call are records (\<open>fo_env\<close>, \<open>create_env\<close>, \<open>restore_env\<close>, \<dots>).

  \<^bold>\<open>Loops.\<close> Structural recursion and measures, without fuel. The retry loop of the fault handler is a \<open>partial_function\<close>, where \<open>None\<close> is not returning; \<open>resolveWithRetry_terminates\<close> shows when it
  returns. Loops that wait for the outside world consume a finite list of what it does (polls and reads of the fault loop, read fragments of the NBD stream, attempts of the device bring-up). The
  end of the list is an end of the stream; for the bring-up it is \<open>None\<close>, and \<open>nbd_Start_no_leak\<close> shows that this does not happen once the deadlines have passed.

  \<^bold>\<open>Shown to fail.\<close> Lemmas beside the properties reproduce what the code does not guarantee, at concrete inputs: \<open>admission_race_overcommits\<close>, \<open>Pick_oversells_after_reservation_ttl\<close>,
  \<open>ms_evicts_live_disk_cache\<close>, \<open>AllocateNATID_rollback_poisons\<close>, \<open>Create_fails_open\<close>, \<open>purge_fails_open\<close>, \<open>retention_drops_current_generation\<close>, \<open>retention_window_wraps\<close>,
  \<open>janitor_deletes_served_partial\<close>, \<open>upload_drops_unarchived\<close>, \<open>serveWAL_flaky_listing_ends_recovery\<close>, \<open>archiveGenFor_pins_on_error\<close>, \<open>delete_fails_open\<close>, \<open>death_marks_peer_row\<close>,
  \<open>recover_wakes_stale_snapshot\<close>, \<open>failed_boot_removes_reused_volume\<close>, \<open>natid_fallback_boots_without_volume\<close>, \<open>teardown_leaves_vm_running\<close>, \<open>unpinned_host_joins_epoch\<close>, \<open>unready_wake_restores_stale\<close>,
  \<open>failed_base_is_spooled\<close>, \<open>spooled_partial_hides_newer\<close>, \<open>adopt_gives_second_slot\<close>, \<open>ReleaseNATID_lost_payload_poisons\<close>, \<open>sweep_removes_undecoded_live\<close>. The properties
  name the hypotheses that exclude these.

  \<^bold>\<open>Not modelled.\<close> HTTP handlers, authentication and JSON of both services, the Firecracker and guest clients, forks, user snapshots and template baking, device mapper and file cloning,
  heartbeats, metrics, the command line, the database proxy and the guest programs: I/O or glue whose state is elsewhere. Background goroutines are run to their end where they start, except where a property
  is about interleaving (single flight, crash programs, admission, fencing, WAL uploads).
\<close>

end
